(* ===== verification/Prelude.thy ===== *)
theory Prelude
  imports Complex_Main "HOL-Library.AList"
begin

text \<open>
  Shared vocabulary of the development: Python strings, JSON-like values, insertion ordered
  dictionaries, the \<open>error + value\<close> results, and the three interfaces that several components
  implement (a keyed store, a one-shot latch, a transition system with an invariant).

  A Python \<open>str\<close> is a HOL \<^typ>\<open>string\<close>: a list of code points below 256 (Latin-1), so that
  \<open>len\<close>, slicing and the character classes of \<open>re\<close> are the list functions and predicates
  below. Text with Cyrillic letters uses \<open>ustr\<close>, a list of arbitrary code points. Floats are
  exact rationals; Python integers are \<^typ>\<open>int\<close>.
\<close>

section \<open>Collections of facts\<close>

named_theorems py_simps \<open>evaluation rules for Python library functions\<close>
named_theorems inv_intros \<open>preservation of component invariants\<close>

section \<open>Characters and strings\<close>

abbreviation cp :: "char \<Rightarrow> nat" where
  "cp c \<equiv> of_char c"

text \<open>\<open>\d\<close>, \<open>\w\<close> and \<open>\s\<close> of Python's \<open>re\<close> on code points below 256.\<close>

definition is_digit :: "char \<Rightarrow> bool" where
  "is_digit c \<longleftrightarrow> 48 \<le> cp c \<and> cp c \<le> 57"

definition is_word :: "char \<Rightarrow> bool" where
  "is_word c \<longleftrightarrow>
     (let n = cp c in
      (48 \<le> n \<and> n \<le> 57) \<or> (65 \<le> n \<and> n \<le> 90) \<or> n = 95 \<or> (97 \<le> n \<and> n \<le> 122)
      \<or> n \<in> {170, 178, 179, 181, 185, 186, 188, 189, 190}
      \<or> (192 \<le> n \<and> n \<noteq> 215 \<and> n \<noteq> 247))"

definition is_space_cp :: "nat \<Rightarrow> bool" where
  "is_space_cp n \<longleftrightarrow>
     (9 \<le> n \<and> n \<le> 13) \<or> (28 \<le> n \<and> n \<le> 32) \<or> n = 133 \<or> n = 160
     \<or> n = 5760 \<or> (8192 \<le> n \<and> n \<le> 8202) \<or> n = 8232 \<or> n = 8233 \<or> n = 8239
     \<or> n = 8287 \<or> n = 12288"

definition is_space :: "char \<Rightarrow> bool" where
  "is_space c = is_space_cp (cp c)"

definition to_lower :: "char \<Rightarrow> char" where
  "to_lower c =
     (let n = cp c in
      if (65 \<le> n \<and> n \<le> 90) \<or> (192 \<le> n \<and> n \<le> 222 \<and> n \<noteq> 215)
      then char_of (n + 32) else c)"

text \<open>\<open>str.strip\<close> with a class of white space, \<open>str.lower\<close>, \<open>x in s\<close>, \<open>str.startswith\<close>.\<close>

definition strip_by :: "('a \<Rightarrow> bool) \<Rightarrow> 'a list \<Rightarrow> 'a list" where
  "strip_by p s = rev (dropWhile p (rev (dropWhile p s)))"

definition strip :: "string \<Rightarrow> string" where
  "strip s = strip_by is_space s"

definition lower :: "string \<Rightarrow> string" where
  "lower s = map to_lower s"

fun starts_with :: "'a list \<Rightarrow> 'a list \<Rightarrow> bool" where
  "starts_with s [] = True"
| "starts_with [] (p # ps) = False"
| "starts_with (c # cs) (p # ps) = (c = p \<and> starts_with cs ps)"

fun contains :: "'a list \<Rightarrow> 'a list \<Rightarrow> bool" where
  "contains [] p = (p = [])"
| "contains (c # cs) p = (starts_with (c # cs) p \<or> contains cs p)"

lemma starts_with_iff: "starts_with s p \<longleftrightarrow> (\<exists>t. s = p @ t)"
  by (induction s p rule: starts_with.induct) auto

lemma starts_with_append [simp]: "starts_with (p @ t) p"
  by (auto simp: starts_with_iff)

lemma contains_iff: "contains s p \<longleftrightarrow> (\<exists>u v. s = u @ p @ v)"
proof (induction s)
  case Nil
  then show ?case by auto
next
  case (Cons c cs)
  show ?case
  proof
    assume "contains (c # cs) p"
    then consider "\<exists>t. c # cs = p @ t" | "\<exists>u v. cs = u @ p @ v"
      using Cons by (auto simp: starts_with_iff)
    then show "\<exists>u v. c # cs = u @ p @ v"
    proof cases
      case 1
      then show ?thesis by (metis append_Nil)
    next
      case 2
      then show ?thesis by (metis append_Cons)
    qed
  next
    assume "\<exists>u v. c # cs = u @ p @ v"
    then obtain u v where uv: "c # cs = u @ p @ v" by blast
    show "contains (c # cs) p"
    proof (cases u)
      case Nil
      with uv have "starts_with (c # cs) p" by (auto simp: starts_with_iff)
      then show ?thesis by simp
    next
      case (Cons a u')
      with uv Cons.IH show ?thesis by auto
    qed
  qed
qed

lemma strip_by_subset: "set (strip_by p s) \<subseteq> set s"
  unfolding strip_by_def by (metis set_dropWhileD set_rev subsetI)

lemma strip_by_nonempty: "strip_by p s \<noteq> [] \<longleftrightarrow> (\<exists>c\<in>set s. \<not> p c)"
proof -
  have "strip_by p s = [] \<longleftrightarrow> (\<forall>c\<in>set (dropWhile p s). p c)"
    by (simp add: strip_by_def)
  also have "\<dots> \<longleftrightarrow> (\<forall>c\<in>set s. p c)"
    by (metis dropWhile_eq_Nil_conv hd_dropWhile list.set_sel(1) list.set(1) empty_iff set_dropWhileD)
  finally show ?thesis by blast
qed

lemma strip_by_id: "(\<forall>c\<in>set s. \<not> p c) \<Longrightarrow> strip_by p s = s"
proof -
  assume a: "\<forall>c\<in>set s. \<not> p c"
  then have "dropWhile p s = s" and "dropWhile p (rev s) = rev s"
    by (metis dropWhile_eq_self_iff hd_in_set set_rev)+
  then show ?thesis by (simp add: strip_by_def)
qed

text \<open>\<open>sep.join(parts)\<close>.\<close>

fun join :: "'a list \<Rightarrow> 'a list list \<Rightarrow> 'a list" where
  "join sep [] = []"
| "join sep [x] = x"
| "join sep (x # xs) = x @ sep @ join sep xs"

text \<open>\<open>s.split(d)\<close> for a separator of one character.\<close>

fun split_on :: "'a \<Rightarrow> 'a list \<Rightarrow> 'a list list" where
  "split_on d [] = [[]]"
| "split_on d (c # s) =
     (if c = d then [] # split_on d s else (case split_on d s of [] \<Rightarrow> [[c]] | w # ws \<Rightarrow> (c # w) # ws))"

lemma split_on_shape: "\<exists>w ws. split_on d s = w # ws"
  by (induction s) (auto split: list.split)

lemma join_split_on: "join [d] (split_on d s) = s"
proof (induction s)
  case (Cons c s)
  obtain x xs where "split_on d s = x # xs" using split_on_shape [of d s] by auto
  then show ?case using Cons by (cases xs) auto
qed simp

lemma split_on_single: "d \<notin> set s \<Longrightarrow> split_on d s = [s]"
  by (induction s) auto

lemma split_on_append: "d \<notin> set x \<Longrightarrow> split_on d (x @ d # s) = x # split_on d s"
  by (induction x) auto

lemma split_on_join:
  assumes "ws \<noteq> []" "\<forall>w\<in>set ws. d \<notin> set w"
  shows "split_on d (join [d] ws) = ws"
  using assms
proof (induction ws)
  case (Cons w ws)
  then show ?case by (cases ws) (simp_all add: split_on_single split_on_append)
qed simp

section \<open>JSON-like values\<close>

text \<open>
  The dictionaries the code handles as \<open>dict[str, Any]\<close>: tool schemas, YAML department
  blocks, chat messages, IPC messages. \<open>JNum\<close> is a float. Object fields keep their insertion order.
\<close>

datatype json =
    JNull
  | JBool bool
  | JInt int
  | JNum rat
  | JStr string
  | JArr "json list"
  | JObj "(string \<times> json) list"

text \<open>\<open>d.get(key)\<close>: \<open>None\<close> when the key is missing.\<close>

definition jget :: "(string \<times> json) list \<Rightarrow> string \<Rightarrow> json option" where
  "jget d k = map_of d k"

text \<open>The truth value of a value, \<open>str(x)\<close> with the text of a value that is not a string as a
  parameter, and the decimal text of an integer.\<close>

definition truthy :: "json \<Rightarrow> bool" where
  "truthy j = (case j of JNull \<Rightarrow> False | JBool b \<Rightarrow> b | JInt n \<Rightarrow> n \<noteq> 0 | JNum q \<Rightarrow> q \<noteq> 0
     | JStr s \<Rightarrow> s \<noteq> []
     | JArr xs \<Rightarrow> xs \<noteq> [] | JObj kvs \<Rightarrow> kvs \<noteq> [])"

definition py_str :: "(json \<Rightarrow> string) \<Rightarrow> json \<Rightarrow> string" where
  "py_str str_of j = (case j of JStr s \<Rightarrow> s | _ \<Rightarrow> str_of j)"

definition digit_char :: "nat \<Rightarrow> char" where
  "digit_char n = char_of (48 + n)"

fun nat_str :: "nat \<Rightarrow> string" where
  "nat_str n = (if n < 10 then [digit_char n] else nat_str (n div 10) @ [digit_char (n mod 10)])"

declare nat_str.simps [simp del]

definition int_str :: "int \<Rightarrow> string" where
  "int_str n = (if n < 0 then CHR ''-'' # nat_str (nat (- n)) else nat_str (nat n))"

section \<open>Insertion-ordered dictionaries\<close>

text \<open>
  A Python \<open>dict\<close> is an association list in insertion order: assignment replaces a value in
  place or appends, which is \<^const>\<open>AList.update\<close>, and \<open>pop\<close> is \<^const>\<open>AList.delete\<close>.
\<close>

type_synonym ('k, 'v) pydict = "('k \<times> 'v) list"

definition dget :: "('k, 'v) pydict \<Rightarrow> 'k \<Rightarrow> 'v option" where
  "dget d k = map_of d k"

definition dput :: "'k \<Rightarrow> 'v \<Rightarrow> ('k, 'v) pydict \<Rightarrow> ('k, 'v) pydict" where
  "dput k v d = AList.update k v d"

definition dpop :: "'k \<Rightarrow> ('k, 'v) pydict \<Rightarrow> ('k, 'v) pydict" where
  "dpop k d = AList.delete k d"

definition dkeys :: "('k, 'v) pydict \<Rightarrow> 'k list" where
  "dkeys d = map fst d"

lemma dget_dput [py_simps]: "dget (dput k v d) = (dget d)(k \<mapsto> v)"
  by (simp add: dget_def dput_def update_conv' fun_eq_iff)

lemma dget_dpop [py_simps]: "dget (dpop k d) = (dget d)(k := None)"
  by (simp add: dget_def dpop_def delete_conv' fun_eq_iff)

lemma dget_Nil [simp]: "dget [] k = None"
  by (simp add: dget_def)

lemma dget_Cons: "dget ((k0, v0) # d) k = (if k0 = k then Some v0 else dget d k)"
  by (simp add: dget_def)

lemma dput_Nil [simp]: "dput k v [] = [(k, v)]"
  by (simp add: dput_def)

lemma dput_Cons: "dput k v ((k0, v0) # d) = (if k0 = k then (k, v) # d else (k0, v0) # dput k v d)"
  by (simp add: dput_def)

lemma dpop_Nil [simp]: "dpop k [] = []"
  by (simp add: dpop_def)

lemma dpop_Cons: "dpop k ((k0, v0) # d) = (if k0 = k then dpop k d else (k0, v0) # dpop k d)"
  by (simp add: dpop_def)

lemma dkeys_Nil [simp]: "dkeys [] = []"
  by (simp add: dkeys_def)

lemma dkeys_Cons [simp]: "dkeys ((k0, v0) # d) = k0 # dkeys d"
  by (simp add: dkeys_def)

lemmas dict_rec = dget_Cons dput_Cons dpop_Cons

lemma dget_iff_keys: "(dget d k \<noteq> None) = (k \<in> set (dkeys d))"
  by (simp add: dget_def dkeys_def map_of_eq_None_iff)

lemma distinct_dput [intro]: "distinct (dkeys d) \<Longrightarrow> distinct (dkeys (dput k v d))"
  by (simp add: dkeys_def dput_def distinct_update)

lemma distinct_dpop [intro]: "distinct (dkeys d) \<Longrightarrow> distinct (dkeys (dpop k d))"
  by (simp add: dkeys_def dpop_def distinct_delete)

lemma set_dkeys_dput: "set (dkeys (dput k v d)) = insert k (set (dkeys d))"
  by (simp add: dkeys_def dput_def dom_update)

lemma set_dkeys_dpop: "set (dkeys (dpop k d)) = set (dkeys d) - {k}"
  by (auto simp: dkeys_def dpop_def delete_keys)

lemma length_dput: "length (dput k v d) = (if k \<in> set (dkeys d) then length d else Suc (length d))"
  by (induction d) (auto simp: dput_def dkeys_def)

lemma length_dpop_le: "length (dpop k d) \<le> length d"
  by (simp add: dpop_def length_delete_le)

text \<open>How many values of a dictionary satisfy a predicate, and how the count moves.\<close>

definition dcount :: "('v \<Rightarrow> bool) \<Rightarrow> ('k, 'v) pydict \<Rightarrow> int" where
  "dcount P d = int (length (filter P (map snd d)))"

lemma dcount_Nil [simp]: "dcount P [] = 0"
  by (simp add: dcount_def)

lemma dcount_Cons [simp]: "dcount P ((k, v) # d) = of_bool (P v) + dcount P d"
  by (simp add: dcount_def)

lemma dcount_nonneg: "0 \<le> dcount P d"
  by (simp add: dcount_def)

lemma dkeys_dput_present: "k \<in> set (dkeys d) \<Longrightarrow> dkeys (dput k v d) = dkeys d"
  by (induction d) (auto simp: dict_rec)

lemma dget_notin: "k \<notin> set (dkeys d) \<Longrightarrow> dget d k = None"
  using dget_iff_keys [of d k] by blast

lemma dpop_notin: "k \<notin> set (dkeys d) \<Longrightarrow> dpop k d = d"
  by (simp add: dpop_def dkeys_def delete_idem)

lemma dcount_dput:
  "dcount P (dput k v d) =
     dcount P d + of_bool (P v) - (case dget d k of None \<Rightarrow> 0 | Some v0 \<Rightarrow> of_bool (P v0))"
  by (induction d) (auto simp: dict_rec)

lemma dcount_dpop:
  "distinct (dkeys d) \<Longrightarrow>
   dcount P (dpop k d) =
     dcount P d - (case dget d k of None \<Rightarrow> 0 | Some v0 \<Rightarrow> of_bool (P v0))"
  by (induction d) (auto simp: dict_rec dpop_notin)

lemma dcount_pos: "dget d k = Some v \<Longrightarrow> P v \<Longrightarrow> 1 \<le> dcount P d"
proof (induction d)
  case Nil
  then show ?case by simp
next
  case (Cons kv d)
  then show ?case
    using dcount_nonneg [of P d] by (cases kv) (auto simp: dict_rec split: if_splits)
qed

lemma dput_fresh: "k \<notin> set (dkeys d) \<Longrightarrow> dput k v d = d @ [(k, v)]"
  by (induction d) (auto simp: dict_rec)

lemma dput_member: "x \<in> set (dput k v d) \<Longrightarrow> x = (k, v) \<or> x \<in> set d"
  by (induction d) (auto simp: dput_Cons split: if_splits)

lemma dpop_member: "x \<in> set (dpop k d) \<Longrightarrow> x \<in> set d"
  by (induction d) (auto simp: dpop_Cons split: if_splits)

lemma dget_member: "dget d k = Some v \<Longrightarrow> (k, v) \<in> set d"
  by (induction d) (auto simp: dget_Cons split: if_splits)

lemma dget_fold_dpop: "dget (fold dpop ks d) k = (if k \<in> set ks then None else dget d k)"
  by (induction ks arbitrary: d) (auto simp: dget_dpop)

lemma dget_in_set: "distinct (dkeys d) \<Longrightarrow> dget d k = Some v \<longleftrightarrow> (k, v) \<in> set d"
  by (simp add: dget_def dkeys_def)

section \<open>Interfaces\<close>

subsection \<open>A keyed store\<close>

text \<open>
  What the components that keep one record per key (the run gate, the tool registry, the
  department table) rely on: a lookup, an insertion and a removal that agree with finite maps.
\<close>

locale keyed_store =
  fixes look :: "'s \<Rightarrow> 'k \<Rightarrow> 'v option"
    and store :: "'k \<Rightarrow> 'v \<Rightarrow> 's \<Rightarrow> 's"
    and discard :: "'k \<Rightarrow> 's \<Rightarrow> 's"
  assumes look_store: "look (store k v s) = (look s)(k \<mapsto> v)"
    and look_discard: "look (discard k s) = (look s)(k := None)"
begin

lemma look_store_same [simp]: "look (store k v s) k = Some v"
  by (simp add: look_store)

lemma look_store_other: "j \<noteq> k \<Longrightarrow> look (store k v s) j = look s j"
  by (simp add: look_store)

lemma look_discard_same [simp]: "look (discard k s) k = None"
  by (simp add: look_discard)

lemma look_discard_other: "j \<noteq> k \<Longrightarrow> look (discard k s) j = look s j"
  by (simp add: look_discard)

lemma store_discard_restores:
  assumes "look s k = None"
  shows "look (discard k (store k v s)) = look s"
  using assms by (simp add: look_store look_discard fun_eq_iff)

end

interpretation pydict: keyed_store dget dput dpop
  by unfold_locales (simp_all add: dget_dput dget_dpop)

subsection \<open>A one-shot latch\<close>

text \<open>
  An operation that reports \<open>True\<close> at most once over the life of its object: it checks a
  flag, and sets the flag when it fires.
\<close>

fun latch_run :: "('s \<Rightarrow> 'i \<Rightarrow> 's \<times> bool) \<Rightarrow> 's \<Rightarrow> 'i list \<Rightarrow> 's \<times> bool list" where
  "latch_run f s [] = (s, [])"
| "latch_run f s (i # is) =
     (let r = f s i; q = latch_run f (fst r) is in (fst q, snd r # snd q))"

locale latch =
  fixes fire :: "'s \<Rightarrow> 'i \<Rightarrow> 's \<times> bool"
    and fired :: "'s \<Rightarrow> bool"
  assumes fires_once: "fired s \<Longrightarrow> \<not> snd (fire s i)"
    and fired_set: "snd (fire s i) \<Longrightarrow> fired (fst (fire s i))"
    and fired_kept: "fired s \<Longrightarrow> fired (fst (fire s i))"
begin

lemma run_after_fired: "fired s \<Longrightarrow> count_list (snd (latch_run fire s is)) True = 0"
proof (induction "is" arbitrary: s)
  case Nil
  then show ?case by simp
next
  case (Cons i "is")
  have "\<not> snd (fire s i)" and "fired (fst (fire s i))"
    using Cons.prems fires_once fired_kept by auto
  with Cons.IH show ?case by (simp add: Let_def)
qed

lemma run_fires_at_most_once: "count_list (snd (latch_run fire s is)) True \<le> 1"
proof (induction "is" arbitrary: s)
  case Nil
  then show ?case by simp
next
  case (Cons i "is")
  show ?case
  proof (cases "snd (fire s i)")
    case True
    then have "fired (fst (fire s i))" by (rule fired_set)
    then have "count_list (snd (latch_run fire (fst (fire s i)) is)) True = 0"
      by (rule run_after_fired)
    with True show ?thesis by (simp add: Let_def)
  next
    case False
    with Cons.IH [of "fst (fire s i)"] show ?thesis by (simp add: Let_def)
  qed
qed

end

subsection \<open>A transition system and its invariant\<close>

inductive reach :: "('s \<Rightarrow> bool) \<Rightarrow> ('s \<Rightarrow> 's \<Rightarrow> bool) \<Rightarrow> 's \<Rightarrow> bool"
  for start :: "'s \<Rightarrow> bool" and step :: "'s \<Rightarrow> 's \<Rightarrow> bool" where
  reach_start: "start s \<Longrightarrow> reach start step s"
| reach_step: "reach start step s \<Longrightarrow> step s t \<Longrightarrow> reach start step t"

locale invariant_system =
  fixes start :: "'s \<Rightarrow> bool"
    and step :: "'s \<Rightarrow> 's \<Rightarrow> bool"
    and inv :: "'s \<Rightarrow> bool"
  assumes inv_start: "start s \<Longrightarrow> inv s"
    and inv_step: "inv s \<Longrightarrow> step s t \<Longrightarrow> inv t"
begin

lemma reach_inv: "reach start step s \<Longrightarrow> inv s"
  by (induction rule: reach.induct) (auto intro: inv_start inv_step)

end

section \<open>Lists\<close>

text \<open>\<open>list(dict.fromkeys(xs))\<close>: the first occurrence of each element, in order.\<close>

fun dedup_keep_first :: "'a list \<Rightarrow> 'a list" where
  "dedup_keep_first [] = []"
| "dedup_keep_first (x # xs) = x # filter (\<lambda>y. y \<noteq> x) (dedup_keep_first xs)"

lemma set_dedup_keep_first [simp]: "set (dedup_keep_first xs) = set xs"
  by (induction xs) auto

lemma distinct_dedup_keep_first [simp]: "distinct (dedup_keep_first xs)"
  by (induction xs) auto

section \<open>Line ends and quotes\<close>

abbreviation LF :: char where "LF \<equiv> CHR 0x0A"
abbreviation CR :: char where "CR \<equiv> CHR 0x0D"

text \<open>Reading a file in text mode turns carriage returns, with or without a line feed behind, into line feeds.\<close>

fun universal_newlines :: "string \<Rightarrow> string" where
  "universal_newlines [] = []"
| "universal_newlines (c # s) =
     (if c = CR then (if s \<noteq> [] \<and> hd s = LF then universal_newlines s else LF # universal_newlines s)
      else c # universal_newlines s)"

lemma universal_newlines_id: "CR \<notin> set s \<Longrightarrow> universal_newlines s = s"
  by (induction s) auto

lemma universal_newlines_free: "CR \<notin> set (universal_newlines s)"
  by (induction s) auto

text \<open>The line ends of \<open>str.splitlines()\<close> on Latin-1 text.\<close>

definition is_line_end :: "char \<Rightarrow> bool" where
  "is_line_end c \<longleftrightarrow> cp c \<in> {10, 11, 12, 13, 28, 29, 30, 133}"

definition quoted :: "string \<Rightarrow> string" where
  "quoted s = CHR 0x27 # s @ [CHR 0x27]"

end
