(* ===== verification/ProgressGuards.thy ===== *)
theory ProgressGuards
  imports Prelude
begin

text \<open>
  The loop-detection guards of \<open>agent/guards.py\<close>: \<open>SimpleProgressGuard\<close> (repeated tool
  errors, normalised and remembered in a sliding window of three action signatures),
  \<open>ResultDedupGuard\<close> (consecutive identical results, compared by a hash) and
  \<open>PlanningTextGuard\<close> (statements of intent offered as a final answer). Each guard object is a
  record; a method that mutates it returns the new record. The result hash
  (\<open>hashlib.sha256\<close>) is the parameter \<open>h\<close>.
\<close>

section \<open>SimpleProgressGuard\<close>

record progress_config =
  progress_enabled :: bool
  max_same_tool_error :: int

type_synonym signature = "(string \<times> string) list"

record progress_state =
  recent_signatures :: "signature list"
  same_error_count :: int

record progress_guard =
  progress_cfg :: progress_config
  progress_st :: progress_state

definition TOOL_ERROR_PREFIX :: string where
  "TOOL_ERROR_PREFIX = ''Error''"

definition window_maxlen :: nat where
  "window_maxlen = 3"

definition progress_init :: "progress_config \<Rightarrow> progress_guard" where
  "progress_init c =
     \<lparr>progress_cfg = c, progress_st = \<lparr>recent_signatures = [], same_error_count = 0\<rparr>\<rparr>"

text \<open>\<open>re.sub(r"\b\d+\b", "N", error)\<close>: the flag says whether the previous character is a
  word character, so that a digit run is replaced only between two word boundaries.\<close>

function sub_numbers :: "bool \<Rightarrow> string \<Rightarrow> string" where
  "sub_numbers prev [] = []"
| "sub_numbers prev (c # cs) =
     (if is_digit c \<and> \<not> prev then
        (let ds = takeWhile is_digit (c # cs); rest = dropWhile is_digit (c # cs) in
         if rest = [] \<or> \<not> is_word (hd rest)
         then CHR ''N'' # sub_numbers True rest
         else ds @ sub_numbers True rest)
      else c # sub_numbers (is_word c) cs)"
  by pat_completeness auto
termination
  by (relation "measure (\<lambda>(_, s). length s)")
    (auto simp: le_imp_less_Suc length_dropWhile_le)

text \<open>\<open>re.sub(r"\s+", " ", s)\<close>.\<close>

fun squash_spaces :: "bool \<Rightarrow> string \<Rightarrow> string" where
  "squash_spaces prev [] = []"
| "squash_spaces prev (c # cs) =
     (if is_space c then (if prev then squash_spaces True cs else CHR '' '' # squash_spaces True cs)
      else c # squash_spaces False cs)"

definition normalize_error :: "string \<Rightarrow> string" where
  "normalize_error error =
     take 200 (lower (strip (squash_spaces False (sub_numbers False error))))"

text \<open>The loop over \<open>tool_results\<close>: successes are skipped, error signatures are collected
  without duplicates.\<close>

fun collect_signatures :: "signature \<Rightarrow> (string \<times> string) list \<Rightarrow> signature" where
  "collect_signatures acc [] = acc"
| "collect_signatures acc ((tool_name, result) # rest) =
     (if \<not> starts_with result TOOL_ERROR_PREFIX then collect_signatures acc rest
      else
        (let sig = (tool_name, normalize_error result) in
         collect_signatures (if sig \<in> set acc then acc else acc @ [sig]) rest))"

text \<open>\<open>deque(maxlen=3).append\<close> drops the oldest entry when full.\<close>

definition push_window :: "signature list \<Rightarrow> signature \<Rightarrow> signature list" where
  "push_window w x = (let w' = w @ [x] in drop (length w' - window_maxlen) w')"

definition detect_loop_for_results ::
    "progress_guard \<Rightarrow> (string \<times> string) list \<Rightarrow> progress_guard \<times> bool" where
  "detect_loop_for_results g tool_results =
     (let cfg = progress_cfg g; st = progress_st g in
      if \<not> progress_enabled cfg then (g, False)
      else
        (let signatures = collect_signatures [] tool_results in
         if signatures = [] then
           (g\<lparr>progress_st := \<lparr>recent_signatures = [], same_error_count = 0\<rparr>\<rparr>, False)
         else
           (let st' =
              (if signatures \<in> set (recent_signatures st)
               then st\<lparr>same_error_count := same_error_count st + 1\<rparr>
               else \<lparr>recent_signatures = push_window (recent_signatures st) signatures,
                     same_error_count = 1\<rparr>)
            in (g\<lparr>progress_st := st'\<rparr>, same_error_count st' \<ge> max_same_tool_error cfg))))"

definition detect_loop :: "progress_guard \<Rightarrow> string \<Rightarrow> string \<Rightarrow> progress_guard \<times> bool" where
  "detect_loop g tool_name result = detect_loop_for_results g [(tool_name, result)]"

definition progress_reset :: "progress_guard \<Rightarrow> progress_guard" where
  "progress_reset g = g\<lparr>progress_st := \<lparr>recent_signatures = [], same_error_count = 0\<rparr>\<rparr>"

text \<open>The loop of the agent feeds one batch after the other to the guard.\<close>

fun progress_run :: "progress_guard \<Rightarrow> (string \<times> string) list list \<Rightarrow> progress_guard" where
  "progress_run g [] = g"
| "progress_run g (b # bs) = progress_run (fst (detect_loop_for_results g b)) bs"

section \<open>ResultDedupGuard\<close>

record 'h dedup_guard =
  dedup_enabled :: bool
  max_repeats :: int
  streak_key :: "'h option"
  streak_count :: int

definition dedup_init :: "bool \<Rightarrow> int \<Rightarrow> 'h dedup_guard" where
  "dedup_init en m =
     \<lparr>dedup_enabled = en, max_repeats = m, streak_key = None, streak_count = 0\<rparr>"

definition dedup_detect ::
    "(string \<Rightarrow> 'h) \<Rightarrow> 'h dedup_guard \<Rightarrow> string \<Rightarrow> string \<Rightarrow> 'h dedup_guard \<times> bool" where
  "dedup_detect h g tool_name result =
     (if \<not> dedup_enabled g then (g, False)
      else
        (let key = h result;
             g' = (if Some key = streak_key g
                   then g\<lparr>streak_count := streak_count g + 1\<rparr>
                   else g\<lparr>streak_key := Some key, streak_count := 1\<rparr>)
         in (g', streak_count g' \<ge> max_repeats g')))"

definition last_count :: "(string \<Rightarrow> 'h) \<Rightarrow> 'h dedup_guard \<Rightarrow> string \<Rightarrow> int" where
  "last_count h g result = (if Some (h result) = streak_key g then streak_count g else 0)"

definition dedup_reset :: "'h dedup_guard \<Rightarrow> 'h dedup_guard" where
  "dedup_reset g = g\<lparr>streak_key := None, streak_count := 0\<rparr>"

fun dedup_run :: "(string \<Rightarrow> 'h) \<Rightarrow> 'h dedup_guard \<Rightarrow> (string \<times> string) list \<Rightarrow> 'h dedup_guard" where
  "dedup_run h g [] = g"
| "dedup_run h g ((t, r) # rs) = dedup_run h (fst (dedup_detect h g t r)) rs"

section \<open>PlanningTextGuard\<close>

type_synonym ustr = "nat list"

definition ascii :: "string \<Rightarrow> ustr" where
  "ascii s = map of_char s"

text \<open>\<open>str.lower\<close> on the Latin-1 and Cyrillic letters.\<close>

definition lower_cp :: "nat \<Rightarrow> nat" where
  "lower_cp n =
     (if (65 \<le> n \<and> n \<le> 90) \<or> (192 \<le> n \<and> n \<le> 222 \<and> n \<noteq> 215) \<or> (1040 \<le> n \<and> n \<le> 1071)
      then n + 32
      else if 1024 \<le> n \<and> n \<le> 1039 then n + 80 else n)"

definition PLANNING_PHRASES :: "ustr list" where
  "PLANNING_PHRASES =
     [ascii ''let me now'',
      ascii (''i'' @ CHR 0x27 # ''ll check''),
      ascii ''let me search'',
      ascii (''i'' @ CHR 0x27 # ''ll retrieve''),
      ascii ''let me look'',
      ascii (''i'' @ CHR 0x27 # ''ll find''),
      ascii ''let me gather'',
      ascii (''i'' @ CHR 0x27 # ''ll fetch''),
      ascii ''now i will'',
      ascii ''let me read'',
      ascii (''i'' @ CHR 0x27 # ''ll analyze''),
      ascii ''let me get'',
      ascii (''i'' @ CHR 0x27 # ''ll examine''),
      ascii ''let me investigate'',
      ascii (''i'' @ CHR 0x27 # ''ll look into''),
      ascii ''let me see'',
      ascii (''i'' @ CHR 0x27 # ''ll start by''),
      ascii ''let me first'',
      ascii (''i'' @ CHR 0x27 # ''ll try to''),
      [1089, 1077, 1081, 1095, 1072, 1089, 32, 1103],
      [1076, 1072, 1074, 1072, 1081, 1090, 1077, 32, 1103],
      [1103, 32, 1089, 1077, 1081, 1095, 1072, 1089],
      [1103, 32, 1087, 1088, 1086, 1074, 1077, 1088, 1102],
      [1103, 32, 1087, 1086, 1089, 1084, 1086, 1090, 1088, 1102],
      [1087, 1086, 1079, 1074, 1086, 1083, 1100, 1090, 1077, 32, 1084, 1085, 1077],
      [1103, 32, 1085, 1072, 1081, 1076, 1091],
      [1103, 32, 1087, 1086, 1080, 1097, 1091],
      [1103, 32, 1080, 1079, 1091, 1095, 1091],
      [1103, 32, 1087, 1088, 1086, 1072, 1085, 1072, 1083, 1080, 1079, 1080, 1088, 1091, 1102],
      [1089, 1085, 1072, 1095, 1072, 1083, 1072, 32, 1103],
      [1085, 1072, 1095, 1085, 1091, 32, 1089, 32, 1090, 1086, 1075, 1086],
      [1103, 32, 1087, 1086, 1087, 1088, 1086, 1073, 1091, 1102],
      [1076, 1072, 1074, 1072, 1081, 1090, 1077, 32, 1087, 1088, 1086, 1074, 1077, 1088, 1080, 1084],
      [1103, 32, 1087, 1086, 1076, 1075, 1086, 1090, 1086, 1074, 1083, 1102]]"

text \<open>\<open>^\s*\[tool:[a-zA-Z_]+\]\s*$\<close>.\<close>

definition is_tool_artifact :: "ustr \<Rightarrow> bool" where
  "is_tool_artifact s =
     (let t = strip_by is_space_cp s; p = ascii ''[tool:'' in
      starts_with t p \<and>
      (let body = drop (length p) t in
       length body \<ge> 2 \<and> last body = 93 \<and>
       (\<forall>n \<in> set (butlast body).
          (97 \<le> n \<and> n \<le> 122) \<or> (65 \<le> n \<and> n \<le> 90) \<or> n = 95)))"

record planning_guard =
  planning_enabled :: bool
  planning_max_length :: int
  max_corrections :: int
  corrections_used :: int

definition planning_detect :: "planning_guard \<Rightarrow> ustr \<Rightarrow> bool" where
  "planning_detect g final =
     (if \<not> planning_enabled g then False
      else if corrections_used g \<ge> max_corrections g then False
      else if is_tool_artifact final then True
      else if int (length final) \<ge> planning_max_length g then False
      else (let lowered = map lower_cp final in
            \<exists>phrase \<in> set PLANNING_PHRASES. contains lowered phrase))"

definition note_correction :: "planning_guard \<Rightarrow> planning_guard" where
  "note_correction g = g\<lparr>corrections_used := corrections_used g + 1\<rparr>"

definition planning_reset :: "planning_guard \<Rightarrow> planning_guard" where
  "planning_reset g = g\<lparr>corrections_used := 0\<rparr>"

text \<open>What the agent loop does with a final answer: it injects the correction message and
  notes it exactly when the guard detects planning text.\<close>

definition planning_turn :: "planning_guard \<Rightarrow> ustr \<Rightarrow> planning_guard \<times> bool" where
  "planning_turn g final =
     (if planning_detect g final then (note_correction g, True) else (g, False))"

section \<open>The progress guard: signatures and the window\<close>

lemma normalize_error_length: "length (normalize_error e) \<le> 200"
  by (simp add: normalize_error_def)

lemma collect_signatures_set:
  "set (collect_signatures acc rs) =
     set acc \<union> {(t, normalize_error r) | t r. (t, r) \<in> set rs \<and> starts_with r TOOL_ERROR_PREFIX}"
  by (induction acc rs rule: collect_signatures.induct) (auto simp: Let_def)

lemma collect_signatures_distinct:
  "distinct acc \<Longrightarrow> distinct (collect_signatures acc rs)"
  by (induction acc rs rule: collect_signatures.induct) (auto simp: Let_def)

lemma collect_signatures_empty_iff:
  "collect_signatures [] rs = [] \<longleftrightarrow> (\<forall>(t, r)\<in>set rs. \<not> starts_with r TOOL_ERROR_PREFIX)"
proof -
  have "collect_signatures [] rs = [] \<longleftrightarrow> set (collect_signatures [] rs) = {}" by simp
  then show ?thesis unfolding collect_signatures_set by auto
qed

lemma set_push_window: "set (push_window w x) \<subseteq> insert x (set w)"
proof -
  have "set (push_window w x) \<subseteq> set (w @ [x])"
    unfolding push_window_def Let_def by (rule set_drop_subset)
  then show ?thesis by simp
qed

lemma push_window_short:
  "length w < window_maxlen \<Longrightarrow> push_window w x = w @ [x]"
  by (simp add: push_window_def)

lemma length_push_window: "length (push_window w x) \<le> window_maxlen"
  by (simp add: push_window_def)

lemma last_push_window: "x \<in> set (push_window w x)"
proof -
  have "push_window w x = drop (length (w @ [x]) - window_maxlen) w @ [x]"
    by (simp add: push_window_def window_maxlen_def)
  then show ?thesis by simp
qed

text \<open>What the guard keeps between calls: at most three distinct signatures, and a count that
  is zero only when the window is empty.\<close>

definition progress_inv :: "progress_guard \<Rightarrow> bool" where
  "progress_inv g \<longleftrightarrow>
     (let w = recent_signatures (progress_st g) in
      length w \<le> window_maxlen \<and> distinct w \<and> [] \<notin> set w \<and>
      0 \<le> same_error_count (progress_st g) \<and>
      (same_error_count (progress_st g) = 0 \<longleftrightarrow> w = []))"

lemma progress_inv_init [inv_intros]: "progress_inv (progress_init c)"
  by (simp add: progress_inv_def progress_init_def)

lemma distinct_push_window: "distinct w \<Longrightarrow> x \<notin> set w \<Longrightarrow> distinct (push_window w x)"
  unfolding push_window_def Let_def by (rule distinct_drop) simp

lemma detect_loop_inv [inv_intros]:
  assumes "progress_inv g"
  shows "progress_inv (fst (detect_loop_for_results g b))"
proof -
  let ?w = "recent_signatures (progress_st g)" and ?s = "collect_signatures [] b"
  have "distinct ?w" and "[] \<notin> set ?w"
    using assms by (auto simp: progress_inv_def Let_def)
  then have push: "?s \<noteq> [] \<Longrightarrow> [] \<notin> set (push_window ?w ?s)"
    using set_push_window [of ?w ?s] by auto
  have "push_window ?w ?s \<noteq> []" using last_push_window [of ?s ?w] by auto
  then show ?thesis
    using assms push length_push_window [of ?w ?s] distinct_push_window [of ?w ?s]
    by (auto simp: progress_inv_def detect_loop_for_results_def Let_def)
qed

lemma progress_run_inv: "progress_inv g \<Longrightarrow> progress_inv (progress_run g bs)"
  by (induction bs arbitrary: g) (auto intro: detect_loop_inv)

lemma detect_keeps_cfg [simp]:
  "progress_cfg (fst (detect_loop_for_results g b)) = progress_cfg g"
  by (simp add: detect_loop_for_results_def Let_def)

lemma progress_run_cfg [simp]: "progress_cfg (progress_run g bs) = progress_cfg g"
  by (induction bs arbitrary: g) auto

text \<open>One call on a batch whose signature is in the window counts it; a run of such calls
  counts every one of them and leaves the window alone.\<close>

lemma detect_known:
  assumes "progress_enabled (progress_cfg g)"
    and "collect_signatures [] b \<noteq> []"
    and "collect_signatures [] b \<in> set (recent_signatures (progress_st g))"
  shows "detect_loop_for_results g b =
    (g\<lparr>progress_st := (progress_st g)\<lparr>same_error_count := same_error_count (progress_st g) + 1\<rparr>\<rparr>,
     max_same_tool_error (progress_cfg g) \<le> same_error_count (progress_st g) + 1)"
  using assms by (auto simp: detect_loop_for_results_def Let_def)

lemma detect_new:
  assumes "progress_enabled (progress_cfg g)"
    and "collect_signatures [] b \<noteq> []"
    and "collect_signatures [] b \<notin> set (recent_signatures (progress_st g))"
  shows "detect_loop_for_results g b =
    (g\<lparr>progress_st := \<lparr>recent_signatures =
        push_window (recent_signatures (progress_st g)) (collect_signatures [] b),
        same_error_count = 1\<rparr>\<rparr>,
     max_same_tool_error (progress_cfg g) \<le> 1)"
  using assms by (auto simp: detect_loop_for_results_def Let_def)

lemma progress_run_known:
  assumes "progress_enabled (progress_cfg g)"
    and "\<forall>b\<in>set bs. collect_signatures [] b \<noteq> [] \<and>
           collect_signatures [] b \<in> set (recent_signatures (progress_st g))"
  shows "same_error_count (progress_st (progress_run g bs)) =
           same_error_count (progress_st g) + int (length bs) \<and>
         recent_signatures (progress_st (progress_run g bs)) = recent_signatures (progress_st g)"
  using assms
proof (induction bs arbitrary: g)
  case Nil
  then show ?case by simp
next
  case (Cons b bs)
  let ?g' = "fst (detect_loop_for_results g b)"
  have step: "?g' = g\<lparr>progress_st :=
      (progress_st g)\<lparr>same_error_count := same_error_count (progress_st g) + 1\<rparr>\<rparr>"
    using Cons.prems by (simp add: detect_known)
  from Cons.prems step Cons.IH [of ?g'] show ?case by auto
qed

lemma progress_run_append: "progress_run g (xs @ ys) = progress_run (progress_run g xs) ys"
  by (induction xs arbitrary: g) auto

section \<open>The dedup guard against its specification\<close>

text \<open>The specification of the streak: how many of the latest results have the hash of the
  last one.\<close>

definition streak_spec :: "(string \<Rightarrow> 'h) \<Rightarrow> string list \<Rightarrow> nat" where
  "streak_spec h rs = length (takeWhile (\<lambda>r. h r = h (last rs)) (rev rs))"

lemma streak_spec_snoc:
  "streak_spec h (rs @ [r]) = (if rs \<noteq> [] \<and> h (last rs) = h r then Suc (streak_spec h rs) else 1)"
proof (cases "rs = []")
  case True
  then show ?thesis by (simp add: streak_spec_def)
next
  case False
  then obtain q qs where q: "rs = qs @ [q]" by (metis rev_exhaust)
  show ?thesis
  proof (cases "h q = h r")
    case True
    then show ?thesis by (simp add: streak_spec_def q)
  next
    case False
    then show ?thesis by (simp add: streak_spec_def q)
  qed
qed

lemma dedup_run_append: "dedup_run h g (xs @ ys) = dedup_run h (dedup_run h g xs) ys"
  by (induction h g xs rule: dedup_run.induct) auto

lemma dedup_detect_frame [simp]:
  "dedup_enabled (fst (dedup_detect h g t r)) = dedup_enabled g"
  "max_repeats (fst (dedup_detect h g t r)) = max_repeats g"
  by (simp_all add: dedup_detect_def Let_def)

lemma dedup_run_frame [simp]:
  "dedup_enabled (dedup_run h g rs) = dedup_enabled g"
  "max_repeats (dedup_run h g rs) = max_repeats g"
  by (induction h g rs rule: dedup_run.induct) auto

lemma dedup_run_streak:
  assumes "rs \<noteq> []"
  shows "streak_key (dedup_run h (dedup_init True m) rs) = Some (h (last (map snd rs))) \<and>
         streak_count (dedup_run h (dedup_init True m) rs) = int (streak_spec h (map snd rs))"
  using assms
proof (induction rs rule: rev_induct)
  case Nil
  then show ?case by simp
next
  case (snoc x rs)
  obtain t r where x: "x = (t, r)" by (cases x)
  let ?g = "dedup_run h (dedup_init True m) rs"
  have en: "dedup_enabled ?g" by (simp add: dedup_init_def)
  show ?case
  proof (cases "rs = []")
    case True
    then show ?thesis
      by (simp add: x dedup_detect_def dedup_init_def streak_spec_def Let_def)
  next
    case False
    with snoc.IH have ih: "streak_key ?g = Some (h (last (map snd rs)))"
      "streak_count ?g = int (streak_spec h (map snd rs))" by auto
    with en False show ?thesis
      by (auto simp: x dedup_run_append dedup_detect_def streak_spec_snoc Let_def)
  qed
qed

section \<open>The planning guard is bounded\<close>

lemma planning_turn_bound:
  "corrections_used g \<le> max 0 (max_corrections g) \<Longrightarrow>
   corrections_used (fst (planning_turn g f)) \<le> max 0 (max_corrections (fst (planning_turn g f)))"
  by (auto simp: planning_turn_def planning_detect_def note_correction_def split: if_splits)

lemma planning_turn_frame [simp]:
  "max_corrections (fst (planning_turn g f)) = max_corrections g"
  by (simp add: planning_turn_def note_correction_def)

lemma planning_turn_counts:
  "corrections_used (fst (planning_turn g f)) =
     corrections_used g + (if snd (planning_turn g f) then 1 else 0)"
  by (simp add: planning_turn_def note_correction_def)

lemma planning_run_counts:
  "corrections_used (fst (latch_run planning_turn g fs)) =
     corrections_used g + int (count_list (snd (latch_run planning_turn g fs)) True)"
  by (induction fs arbitrary: g) (auto simp: Let_def planning_turn_counts)

lemma planning_run_bound:
  "corrections_used g \<le> max 0 (max_corrections g) \<Longrightarrow>
   corrections_used (fst (latch_run planning_turn g fs)) \<le> max 0 (max_corrections g)"
proof (induction fs arbitrary: g)
  case Nil
  then show ?case by simp
next
  case (Cons f fs)
  have "corrections_used (fst (planning_turn g f)) \<le> max 0 (max_corrections (fst (planning_turn g f)))"
    using Cons.prems by (rule planning_turn_bound)
  from Cons.IH [OF this] show ?case by (simp add: Let_def)
qed

section \<open>Properties\<close>

text \<open>Ping-pong detection. From a reset guard, two failing batches \<open>a\<close> and \<open>b\<close> followed by
  any alternation of the two are reported as a loop once the calls after the first one reach the
  configured limit, whatever successful calls the batches also contain.\<close>

theorem progress_pingpong_detected:
  assumes "progress_enabled (progress_cfg g)"
    and "collect_signatures [] a \<noteq> []" and "collect_signatures [] b \<noteq> []"
    and "set (c # cs) \<subseteq> {a, b}"
    and "max_same_tool_error (progress_cfg g) \<le> int (length cs) + 2"
  shows "snd (detect_loop_for_results (progress_run (progress_reset g) (a # b # cs)) c)"
proof -
  let ?r = "progress_reset g" and ?sa = "collect_signatures [] a" and ?sb = "collect_signatures [] b"
  let ?g1 = "fst (detect_loop_for_results ?r a)"
  let ?g2 = "fst (detect_loop_for_results ?g1 b)"
  let ?g3 = "progress_run ?g2 cs"
  have en: "progress_enabled (progress_cfg ?g2)" using assms(1) by (simp add: progress_reset_def)
  have g1: "progress_st ?g1 = \<lparr>recent_signatures = [?sa], same_error_count = 1\<rparr>"
    using assms(1,2) by (subst detect_new) (auto simp: progress_reset_def push_window_def window_maxlen_def)
  have known: "?sa \<in> set (recent_signatures (progress_st ?g2))"
      "?sb \<in> set (recent_signatures (progress_st ?g2))"
      "1 \<le> same_error_count (progress_st ?g2)"
    using assms(1,3) g1
    by (cases "?sb = ?sa";
        simp add: detect_known detect_new progress_reset_def push_window_def window_maxlen_def)+
  have "\<forall>x\<in>set cs. collect_signatures [] x \<noteq> [] \<and>
          collect_signatures [] x \<in> set (recent_signatures (progress_st ?g2))"
    using assms(2-4) known by auto
  from progress_run_known [OF en this]
  have g3: "same_error_count (progress_st ?g3) \<ge> 1 + int (length cs)"
      "recent_signatures (progress_st ?g3) = recent_signatures (progress_st ?g2)"
    using known by auto
  have "collect_signatures [] c \<noteq> []"
      "collect_signatures [] c \<in> set (recent_signatures (progress_st ?g3))"
    using assms(2-4) known g3 by auto
  with en assms(5) g3 show ?thesis by (simp add: detect_known progress_reset_def)
qed

theorem progress_pingpong_detected_witness:
  "let g = progress_init \<lparr>progress_enabled = True, max_same_tool_error = 3\<rparr>;
       a = [(''read_file'', ''Error: no file 12'')]; b = [(''sql'', ''Error: locked'')] in
   snd (detect_loop_for_results (progress_run (progress_reset g) [a, b, a]) b)"
proof -
  let ?g = "progress_init \<lparr>progress_enabled = True, max_same_tool_error = 3\<rparr>"
  let ?a = "[(''read_file'', ''Error: no file 12'')]" and ?b = "[(''sql'', ''Error: locked'')]"
  have "snd (detect_loop_for_results (progress_run (progress_reset ?g) (?a # ?b # [?a])) ?b)"
    by (rule progress_pingpong_detected [of ?g ?a ?b ?b "[?a]"])
      (simp_all add: progress_init_def collect_signatures_empty_iff TOOL_ERROR_PREFIX_def)
  then show ?thesis by (simp add: Let_def)
qed

text \<open>No false alarm. With a limit of at least two, the guard reports a loop only for a batch
  with at least one error whose signature is already in the window of remembered ones; a batch
  of successes is never reported and empties the window.\<close>

theorem progress_reports_recurrence_only:
  assumes "1 < max_same_tool_error (progress_cfg g)"
    and "snd (detect_loop_for_results g batch)"
  shows "\<exists>t r. (t, r) \<in> set batch \<and> starts_with r TOOL_ERROR_PREFIX \<and>
           (t, normalize_error r) \<in> set (collect_signatures [] batch) \<and>
           collect_signatures [] batch \<in> set (recent_signatures (progress_st g))"
proof -
  let ?s = "collect_signatures [] batch"
  have "?s \<noteq> []" and known: "?s \<in> set (recent_signatures (progress_st g))"
    using assms by (auto simp: detect_loop_for_results_def Let_def split: if_splits)
  then obtain t r where "(t, r) \<in> set batch" "starts_with r TOOL_ERROR_PREFIX"
    by (auto simp: collect_signatures_empty_iff)
  with known show ?thesis by (auto simp: collect_signatures_set)
qed

theorem progress_reports_recurrence_only_witness:
  "let g = progress_init \<lparr>progress_enabled = True, max_same_tool_error = 2\<rparr>;
       b = [(''sql'', ''Error: locked'')] in
   \<exists>t r. (t, r) \<in> set b \<and> starts_with r TOOL_ERROR_PREFIX \<and>
         (t, normalize_error r) \<in> set (collect_signatures [] b) \<and>
         collect_signatures [] b \<in>
           set (recent_signatures (progress_st (fst (detect_loop_for_results g b))))"
proof -
  let ?g = "progress_init \<lparr>progress_enabled = True, max_same_tool_error = 2\<rparr>"
  let ?b = "[(''sql'', ''Error: locked'')]"
  let ?g1 = "fst (detect_loop_for_results ?g ?b)"
  have "collect_signatures [] ?b \<noteq> []"
    by (simp add: collect_signatures_empty_iff TOOL_ERROR_PREFIX_def)
  then have "snd (detect_loop_for_results ?g1 ?b)"
    by (simp add: detect_loop_for_results_def progress_init_def push_window_def window_maxlen_def)
  moreover have "1 < max_same_tool_error (progress_cfg ?g1)"
    by (simp add: progress_init_def)
  ultimately show ?thesis
    unfolding Let_def by (intro progress_reports_recurrence_only)
qed

text \<open>The dedup guard implements its specification. After any sequence of results, a further
  result is reported exactly when the number of latest results with its hash, the new one
  included, has reached \<open>max_repeats\<close>; earlier occurrences before a different result do not
  count.\<close>

theorem dedup_detect_iff_streak:
  "snd (dedup_detect h (dedup_run h (dedup_init True m) rs) tool r) \<longleftrightarrow>
     m \<le> int (streak_spec h (map snd rs @ [r]))"
proof -
  have "dedup_run h (dedup_init True m) (rs @ [(tool, r)]) =
      fst (dedup_detect h (dedup_run h (dedup_init True m) rs) tool r)"
    by (simp add: dedup_run_append)
  then have "streak_count (fst (dedup_detect h (dedup_run h (dedup_init True m) rs) tool r)) =
      int (streak_spec h (map snd rs @ [r]))"
    using dedup_run_streak [of "rs @ [(tool, r)]" h m] by simp
  then show ?thesis
    by (auto simp: dedup_detect_def dedup_init_def Let_def split: if_splits)
qed

text \<open>The planning guard never keeps a model alive indefinitely. Over any sequence of final
  answers of one run, the number of corrections it causes is at most \<open>max_corrections\<close>.\<close>

theorem planning_corrections_bounded:
  "int (count_list (snd (latch_run planning_turn (planning_reset g) finals)) True)
     \<le> max 0 (max_corrections g)"
  using planning_run_bound [of "planning_reset g" finals]
    planning_run_counts [of "planning_reset g" finals]
  by (simp add: planning_reset_def)

end
