(* ===== verification/BudgetGuards.thy ===== *)
theory BudgetGuards
  imports Prelude
begin

text \<open>
  The resource guards of \<open>agent/guards.py\<close> and the two adaptation layers that apply them:
  \<open>SimpleBudgetGuard\<close> (iterations, tool calls, active time), \<open>SoftDeadline\<close> with
  \<open>adaptations/closing.py\<close>, and \<open>TerminalToolMandate\<close> with \<open>adaptations/mandate.py\<close>.
  \<open>time.monotonic()\<close> is the argument \<open>now\<close> of an operation, in seconds. Raised errors
  are values of \<open>budget_error\<close>; a method that mutates its object returns the new record.
\<close>

section \<open>SimpleBudgetGuard\<close>

datatype budget_error =
    IterationBudgetExceeded int int
  | ToolCallBudgetExceeded int int
  | TimeBudgetExceeded rat int
  | NegativeReservation

record budget_config =
  budget_enabled :: bool
  max_iterations :: int
  max_tool_calls :: int
  max_time_ms :: int

record budget_guard =
  budget_cfg :: budget_config
  started_at :: rat
  iterations_used :: int
  tool_calls_used :: int
  paused_at :: "rat option"
  total_paused_ms :: rat

definition budget_init :: "budget_config \<Rightarrow> rat \<Rightarrow> budget_guard" where
  "budget_init c now =
     \<lparr>budget_cfg = c, started_at = now, iterations_used = 0, tool_calls_used = 0,
      paused_at = None, total_paused_ms = 0\<rparr>"

definition consume_iteration :: "budget_guard \<Rightarrow> budget_guard" where
  "consume_iteration g = g\<lparr>iterations_used := iterations_used g + 1\<rparr>"

definition consume_tool_calls :: "budget_guard \<Rightarrow> int \<Rightarrow> budget_guard" where
  "consume_tool_calls g count =
     (if count > 0 then g\<lparr>tool_calls_used := tool_calls_used g + count\<rparr> else g)"

definition reserve_tool_calls :: "budget_guard \<Rightarrow> int \<Rightarrow> budget_error + budget_guard" where
  "reserve_tool_calls g count =
     (if count < 0 then Inl NegativeReservation
      else if count = 0 then Inr g
      else
        (let projected = tool_calls_used g + count in
         if budget_enabled (budget_cfg g) \<and> projected > max_tool_calls (budget_cfg g)
         then Inl (ToolCallBudgetExceeded projected (max_tool_calls (budget_cfg g)))
         else Inr (g\<lparr>tool_calls_used := projected\<rparr>)))"

definition budget_pause :: "rat \<Rightarrow> budget_guard \<Rightarrow> budget_guard" where
  "budget_pause now g = (if paused_at g = None then g\<lparr>paused_at := Some now\<rparr> else g)"

definition budget_resume :: "rat \<Rightarrow> budget_guard \<Rightarrow> budget_guard" where
  "budget_resume now g =
     (case paused_at g of
        None \<Rightarrow> g
      | Some p \<Rightarrow> g\<lparr>total_paused_ms := total_paused_ms g + (now - p) * 1000, paused_at := None\<rparr>)"

definition active_ms :: "budget_guard \<Rightarrow> rat \<Rightarrow> rat" where
  "active_ms g now =
     (let elapsed_ms = (now - started_at g) * 1000;
          paused_ms = total_paused_ms g +
            (case paused_at g of None \<Rightarrow> 0 | Some p \<Rightarrow> (now - p) * 1000)
      in elapsed_ms - paused_ms)"

definition budget_check :: "budget_guard \<Rightarrow> rat \<Rightarrow> budget_error + unit" where
  "budget_check g now =
     (let c = budget_cfg g in
      if \<not> budget_enabled c then Inr ()
      else if iterations_used g \<ge> max_iterations c
      then Inl (IterationBudgetExceeded (iterations_used g) (max_iterations c))
      else if tool_calls_used g \<ge> max_tool_calls c
      then Inl (ToolCallBudgetExceeded (tool_calls_used g) (max_tool_calls c))
      else if active_ms g now \<ge> of_int (max_time_ms c)
      then Inl (TimeBudgetExceeded (active_ms g now) (max_time_ms c))
      else Inr ())"

definition budget_reset :: "rat \<Rightarrow> budget_guard \<Rightarrow> budget_guard" where
  "budget_reset now g = budget_init (budget_cfg g) now"

text \<open>A run of batches: a rejected batch raises, and leaves the guard as it was. The second
  component lists the counts that were admitted.\<close>

fun reserve_run :: "budget_guard \<Rightarrow> int list \<Rightarrow> budget_guard \<times> int list" where
  "reserve_run g [] = (g, [])"
| "reserve_run g (n # ns) =
     (case reserve_tool_calls g n of
        Inl e \<Rightarrow> reserve_run g ns
      | Inr g' \<Rightarrow> (let q = reserve_run g' ns in (fst q, n # snd q)))"

text \<open>The pauses of a run: the loop pauses before it waits for an inference slot and resumes
  when it has one.\<close>

datatype clock_event = Pause | Resume

fun clock_run :: "budget_guard \<Rightarrow> (rat \<times> clock_event) list \<Rightarrow> budget_guard" where
  "clock_run g [] = g"
| "clock_run g ((t, Pause) # es) = clock_run (budget_pause t g) es"
| "clock_run g ((t, Resume) # es) = clock_run (budget_resume t g) es"

section \<open>SoftDeadline and closing mode\<close>

record soft_deadline =
  deadline_enabled :: bool
  deadline_ratio :: rat
  deadline_max_time_ms :: int
  deadline_start :: rat
  closing_mode :: bool

definition deadline_init :: "bool \<Rightarrow> rat \<Rightarrow> int \<Rightarrow> rat \<Rightarrow> soft_deadline" where
  "deadline_init en r m now =
     \<lparr>deadline_enabled = en, deadline_ratio = r, deadline_max_time_ms = m,
      deadline_start = now, closing_mode = False\<rparr>"

text \<open>\<open>None\<close> stands for \<open>float("inf")\<close>.\<close>

definition deadline_ms :: "soft_deadline \<Rightarrow> rat option" where
  "deadline_ms d =
     (if \<not> deadline_enabled d then None
      else Some (deadline_ratio d * of_int (deadline_max_time_ms d)))"

definition is_reached :: "soft_deadline \<Rightarrow> rat \<Rightarrow> bool" where
  "is_reached d now =
     (if \<not> deadline_enabled d then False
      else (let elapsed_ms = (now - deadline_start d) * 1000 in
            case deadline_ms d of None \<Rightarrow> False | Some m \<Rightarrow> elapsed_ms \<ge> m))"

definition enter_closing_mode :: "soft_deadline \<Rightarrow> soft_deadline" where
  "enter_closing_mode d = d\<lparr>closing_mode := True\<rparr>"

type_synonym schema_entry = "(string \<times> json) list"
type_synonym schema = "schema_entry list"

text \<open>\<open>str(s.get("function", {}).get("name", ""))\<close>; \<open>str_of\<close> is Python's \<open>str\<close> on a value
  that is not a string. A \<open>function\<close> field that is no object has no \<open>get\<close>: the error is
  \<open>None\<close>.\<close>

definition closing_tool_name :: "(json \<Rightarrow> string) \<Rightarrow> schema_entry \<Rightarrow> string option" where
  "closing_tool_name str_of s =
     (case jget s ''function'' of
        None \<Rightarrow> Some ''''
      | Some (JObj fn) \<Rightarrow>
          (case jget fn ''name'' of None \<Rightarrow> Some '''' | Some (JStr n) \<Rightarrow> Some n
           | Some v \<Rightarrow> Some (str_of v))
      | Some _ \<Rightarrow> None)"

definition narrow_schema_to_terminal ::
    "(json \<Rightarrow> string) \<Rightarrow> schema option \<Rightarrow> string list \<Rightarrow> schema option option" where
  "narrow_schema_to_terminal str_of schm terminal_tool_names =
     (case schm of
        None \<Rightarrow> Some None
      | Some [] \<Rightarrow> Some (Some [])
      | Some es \<Rightarrow>
          if terminal_tool_names = [] then Some (Some es)
          else if \<exists>e \<in> set es. closing_tool_name str_of e = None then None
          else Some (Some [e \<leftarrow> es. the (closing_tool_name str_of e) \<in> set terminal_tool_names]))"

text \<open>\<open>apply_closing_mode\<close>: the flag of the result is the call of
  \<open>task_run.mark_soft_deadline\<close>.\<close>

definition apply_closing_mode ::
    "(json \<Rightarrow> string) \<Rightarrow> soft_deadline \<Rightarrow> schema option \<Rightarrow> string list \<Rightarrow> rat
       \<Rightarrow> soft_deadline \<times> bool \<times> schema option option" where
  "apply_closing_mode str_of d schm terminal_tool_names now =
     (if closing_mode d then (d, False, narrow_schema_to_terminal str_of schm terminal_tool_names)
      else if \<not> is_reached d now then (d, False, Some schm)
      else (enter_closing_mode d, True, narrow_schema_to_terminal str_of schm terminal_tool_names))"

section \<open>TerminalToolMandate\<close>

record mandate =
  mandate_cfg_enabled :: bool
  terminal_tool :: string
  required_before :: "string list"
  nudge_ratio :: rat
  restrict_ratio :: rat
  mandate_max_time_ms :: int
  mandate_max_iterations :: "int option"
  mandate_start :: rat
  nudge_injected :: bool
  restricted :: bool

definition mandate_enabled :: "mandate \<Rightarrow> bool" where
  "mandate_enabled m \<longleftrightarrow> mandate_cfg_enabled m \<and> terminal_tool m \<noteq> []"

definition wallclock_ratio :: "mandate \<Rightarrow> rat \<Rightarrow> rat" where
  "wallclock_ratio m now =
     (let elapsed_ms = (now - mandate_start m) * 1000 in
      if mandate_max_time_ms m > 0 then elapsed_ms / of_int (mandate_max_time_ms m) else 1)"

definition iteration_ratio :: "mandate \<Rightarrow> int option \<Rightarrow> rat option" where
  "iteration_ratio m iteration =
     (case iteration of
        None \<Rightarrow> None
      | Some i \<Rightarrow>
          (case mandate_max_iterations m of
             None \<Rightarrow> None
           | Some k \<Rightarrow> if k \<le> 0 then None else Some (of_int i / of_int k)))"

definition elapsed_ratio :: "mandate \<Rightarrow> rat \<Rightarrow> int option \<Rightarrow> rat" where
  "elapsed_ratio m now iteration =
     (let wallclock = wallclock_ratio m now in
      case iteration_ratio m iteration of None \<Rightarrow> wallclock | Some r \<Rightarrow> max wallclock r)"

definition terminal_called :: "mandate \<Rightarrow> string list \<Rightarrow> bool" where
  "terminal_called m tools_used \<longleftrightarrow> terminal_tool m \<in> set tools_used"

text \<open>The inputs of one escalation query: the clock, the tools used so far, the iteration.\<close>

type_synonym mandate_query = "rat \<times> string list \<times> int option"

fun should_nudge :: "mandate \<Rightarrow> mandate_query \<Rightarrow> mandate \<times> bool" where
  "should_nudge m (now, tools_used, iteration) =
     (if \<not> mandate_enabled m \<or> nudge_injected m then (m, False)
      else if terminal_called m tools_used then (m, False)
      else if elapsed_ratio m now iteration < nudge_ratio m then (m, False)
      else (m\<lparr>nudge_injected := True\<rparr>, True))"

fun should_restrict :: "mandate \<Rightarrow> mandate_query \<Rightarrow> mandate \<times> bool" where
  "should_restrict m (now, tools_used, iteration) =
     (if \<not> mandate_enabled m \<or> restricted m then (m, False)
      else if terminal_called m tools_used then (m, False)
      else if elapsed_ratio m now iteration < restrict_ratio m then (m, False)
      else (m\<lparr>restricted := True\<rparr>, True))"

definition restricted_tool_names :: "mandate \<Rightarrow> string list option" where
  "restricted_tool_names m =
     (if \<not> mandate_enabled m \<or> \<not> restricted m then None
      else Some (required_before m @ [terminal_tool m]))"

definition mandate_entry_name :: "schema_entry \<Rightarrow> string" where
  "mandate_entry_name e =
     (case jget e ''function'' of
        Some (JObj fn) \<Rightarrow> (case jget fn ''name'' of Some (JStr n) \<Rightarrow> n | _ \<Rightarrow> '''')
      | _ \<Rightarrow> (case jget e ''name'' of Some (JStr n) \<Rightarrow> n | _ \<Rightarrow> ''''))"

definition apply_schema_restrict :: "mandate \<Rightarrow> schema option \<Rightarrow> schema option" where
  "apply_schema_restrict m tools_schema =
     (case restricted_tool_names m of
        None \<Rightarrow> tools_schema
      | Some allowed \<Rightarrow>
          (case tools_schema of
             None \<Rightarrow> None
           | Some es \<Rightarrow> Some [e \<leftarrow> es. mandate_entry_name e \<in> set allowed]))"

text \<open>\<open>adaptations/mandate.py\<close>: the instruction, and one application of the mandate to the
  schema and the system prompt of a run.\<close>

definition workflow_nudge_instruction :: "mandate \<Rightarrow> string" where
  "workflow_nudge_instruction m =
     (let required = (let r = join '', '' (required_before m) in if r = [] then ''(none)'' else r) in
      ''Internal: the time budget is running low and the task is not yet finalized. '' @
      ''Stop gathering more data now. Review what you have collected, then call '' @ required @
      '' and finish by calling '' @ terminal_tool m @
      '' with the available evidence and a clear limitations section. '' @
      ''Do not quote this instruction.'')"

definition append_instruction :: "string \<Rightarrow> string \<Rightarrow> string" where
  "append_instruction system_prompt instruction =
     (if contains system_prompt instruction then system_prompt
      else
        (let sep = (if system_prompt \<noteq> [] then [CHR 0x0A, CHR 0x0A] @ ''---'' @ [CHR 0x0A] else []) in
         system_prompt @ sep @ instruction))"

definition apply_workflow_mandate ::
    "mandate \<Rightarrow> schema option \<Rightarrow> string \<Rightarrow> mandate_query \<Rightarrow> mandate \<times> string \<times> schema option" where
  "apply_workflow_mandate m tools_schema system_prompt q =
     (if \<not> mandate_enabled m then (m, system_prompt, tools_schema)
      else
        (let (m1, nudge) = should_nudge m q;
             prompt = (if nudge then append_instruction system_prompt (workflow_nudge_instruction m)
                       else system_prompt);
             m2 = fst (should_restrict m1 q)
         in (m2, prompt, apply_schema_restrict m2 tools_schema)))"

section \<open>Lemmas on the budget\<close>

lemma reserve_cases:
  "reserve_tool_calls g n = Inr g' \<Longrightarrow>
     0 \<le> n \<and> g' = g\<lparr>tool_calls_used := tool_calls_used g + n\<rparr>"
  by (auto simp: reserve_tool_calls_def Let_def split: if_splits)

lemma reserve_bound:
  "reserve_tool_calls g n = Inr g' \<Longrightarrow> budget_enabled (budget_cfg g) \<Longrightarrow>
     tool_calls_used g' \<le> max (tool_calls_used g) (max_tool_calls (budget_cfg g))"
  by (auto simp: reserve_tool_calls_def Let_def split: if_splits)

lemma reserve_run_facts:
  "budget_cfg (fst (reserve_run g ns)) = budget_cfg g \<and>
   tool_calls_used (fst (reserve_run g ns)) = tool_calls_used g + sum_list (snd (reserve_run g ns)) \<and>
   (budget_enabled (budget_cfg g) \<longrightarrow>
     tool_calls_used (fst (reserve_run g ns)) \<le> max (tool_calls_used g) (max_tool_calls (budget_cfg g)))"
proof (induction ns arbitrary: g)
  case Nil
  then show ?case by simp
next
  case (Cons n ns)
  show ?case
  proof (cases "reserve_tool_calls g n")
    case (Inl e)
    with Cons.IH [of g] show ?thesis by auto
  next
    case (Inr g')
    from reserve_cases [OF Inr] reserve_bound [OF Inr] Cons.IH [of g'] Inr show ?thesis
      by (auto simp: Let_def)
  qed
qed

text \<open>The clock. The specification adds up the intervals between consecutive events in which
  the guard is not paused.\<close>

fun unpaused_ms :: "bool \<Rightarrow> rat \<Rightarrow> (rat \<times> clock_event) list \<Rightarrow> rat \<Rightarrow> rat" where
  "unpaused_ms p since [] now = (if p then 0 else (now - since) * 1000)"
| "unpaused_ms p since ((t, e) # es) now =
     (if p then 0 else (t - since) * 1000) + unpaused_ms (e = Pause) t es now"

lemma active_ms_shift:
  "active_ms g now = active_ms g since + (if paused_at g = None then (now - since) * 1000 else 0)"
  by (auto simp: active_ms_def Let_def algebra_simps split: option.splits)

lemma active_ms_pause: "active_ms (budget_pause t g) t = active_ms g t"
  by (auto simp: active_ms_def budget_pause_def Let_def)

lemma active_ms_resume: "active_ms (budget_resume t g) t = active_ms g t"
  by (auto simp: active_ms_def budget_resume_def Let_def algebra_simps split: option.splits)

lemma paused_after_pause [simp]: "paused_at (budget_pause t g) \<noteq> None"
  by (auto simp: budget_pause_def)

lemma paused_after_resume [simp]: "paused_at (budget_resume t g) = None"
  by (auto simp: budget_resume_def split: option.splits)

lemma clock_run_unpaused:
  "active_ms (clock_run g es) now = active_ms g since + unpaused_ms (paused_at g \<noteq> None) since es now"
proof (induction g es arbitrary: since rule: clock_run.induct)
  case (1 g)
  show ?case by (simp add: active_ms_shift [of g now since])
next
  case (2 g t es)
  have "active_ms g t = active_ms g since + (if paused_at g = None then (t - since) * 1000 else 0)"
    by (rule active_ms_shift)
  with 2 [of t] show ?case by (simp add: active_ms_pause)
next
  case (3 g t es)
  have "active_ms g t = active_ms g since + (if paused_at g = None then (t - since) * 1000 else 0)"
    by (rule active_ms_shift)
  with 3 [of t] show ?case by (simp add: active_ms_resume)
qed

section \<open>Lemmas on the mandate: two latches and a filter\<close>

lemma should_nudge_latch:
  "nudge_injected m \<Longrightarrow> \<not> snd (should_nudge m q)"
  "snd (should_nudge m q) \<Longrightarrow> nudge_injected (fst (should_nudge m q))"
  "nudge_injected m \<Longrightarrow> nudge_injected (fst (should_nudge m q))"
  by (cases q; auto split: if_splits)+

lemma should_restrict_latch:
  "restricted m \<Longrightarrow> \<not> snd (should_restrict m q)"
  "snd (should_restrict m q) \<Longrightarrow> restricted (fst (should_restrict m q))"
  "restricted m \<Longrightarrow> restricted (fst (should_restrict m q))"
  by (cases q; auto split: if_splits)+

interpretation nudge: latch should_nudge nudge_injected
  by unfold_locales (rule should_nudge_latch; assumption)+

interpretation restrict: latch should_restrict restricted
  by unfold_locales (rule should_restrict_latch; assumption)+

definition same_mandate_cfg :: "mandate \<Rightarrow> mandate \<Rightarrow> bool" where
  "same_mandate_cfg m m' \<longleftrightarrow>
     mandate_cfg_enabled m' = mandate_cfg_enabled m \<and> terminal_tool m' = terminal_tool m \<and>
     required_before m' = required_before m \<and> nudge_ratio m' = nudge_ratio m \<and>
     restrict_ratio m' = restrict_ratio m \<and> mandate_start m' = mandate_start m \<and>
     mandate_max_time_ms m' = mandate_max_time_ms m \<and>
     mandate_max_iterations m' = mandate_max_iterations m"

lemma should_nudge_cfg:
  "same_mandate_cfg m (fst (should_nudge m q)) \<and> restricted (fst (should_nudge m q)) = restricted m"
  by (cases q) (auto simp: same_mandate_cfg_def)

lemma should_restrict_cfg:
  "same_mandate_cfg m (fst (should_restrict m q)) \<and>
   nudge_injected (fst (should_restrict m q)) = nudge_injected m"
  by (cases q) (auto simp: same_mandate_cfg_def)

lemma same_mandate_cfg_trans:
  "same_mandate_cfg a b \<Longrightarrow> same_mandate_cfg b c \<Longrightarrow> same_mandate_cfg a c"
  by (simp add: same_mandate_cfg_def)

lemma same_mandate_cfg_ratio:
  "same_mandate_cfg m m' \<Longrightarrow> elapsed_ratio m' now it = elapsed_ratio m now it"
  by (simp add: same_mandate_cfg_def elapsed_ratio_def wallclock_ratio_def iteration_ratio_def
      split: option.splits)

lemma same_mandate_cfg_enabled:
  "same_mandate_cfg m m' \<Longrightarrow> mandate_enabled m' = mandate_enabled m"
  by (simp add: same_mandate_cfg_def mandate_enabled_def)

lemma apply_schema_restrict_restricted:
  "mandate_enabled m \<Longrightarrow> restricted m \<Longrightarrow>
   apply_schema_restrict m schm =
     map_option (filter (\<lambda>e. mandate_entry_name e \<in> set (terminal_tool m # required_before m))) schm"
  by (auto simp: apply_schema_restrict_def restricted_tool_names_def split: option.splits
      intro!: filter_cong)

lemma should_restrict_fires:
  assumes "mandate_enabled m" "\<not> terminal_called m used"
    "restrict_ratio m \<le> elapsed_ratio m now it"
  shows "restricted (fst (should_restrict m (now, used, it)))"
  using assms by simp

text \<open>A run of the adaptation layer: every turn the base schema is rebuilt (the second
  component of a turn) and the mandate is applied to it.\<close>

fun mandate_run :: "mandate \<Rightarrow> string \<Rightarrow> (mandate_query \<times> schema option) list \<Rightarrow> mandate \<times> string" where
  "mandate_run m prompt [] = (m, prompt)"
| "mandate_run m prompt ((q, base) # qs) =
     (case apply_workflow_mandate m base prompt q of (m', prompt', _) \<Rightarrow> mandate_run m' prompt' qs)"

lemma apply_workflow_mandate_state:
  "fst (apply_workflow_mandate m base p q) =
     (if mandate_enabled m then fst (should_restrict (fst (should_nudge m q)) q) else m)"
  by (auto simp: apply_workflow_mandate_def Let_def split: prod.splits)

lemma apply_workflow_mandate_schema:
  "snd (snd (apply_workflow_mandate m base p q)) =
     (if mandate_enabled m then apply_schema_restrict (fst (apply_workflow_mandate m base p q)) base
      else base)"
  by (auto simp: apply_workflow_mandate_def Let_def split: prod.splits)

lemma apply_workflow_mandate_keeps:
  "same_mandate_cfg m (fst (apply_workflow_mandate m base p q)) \<and>
   (restricted m \<longrightarrow> restricted (fst (apply_workflow_mandate m base p q)))"
  using should_nudge_cfg [of m q] should_restrict_cfg [of "fst (should_nudge m q)" q]
    should_restrict_latch(3) [of "fst (should_nudge m q)" q]
  by (auto simp: apply_workflow_mandate_state intro: same_mandate_cfg_trans)
    (simp_all add: same_mandate_cfg_def)

lemma mandate_run_Cons:
  "mandate_run m p ((q, base) # qs) =
     mandate_run (fst (apply_workflow_mandate m base p q))
       (fst (snd (apply_workflow_mandate m base p q))) qs"
  by (simp split: prod.splits)

lemma mandate_run_keeps:
  "same_mandate_cfg m (fst (mandate_run m p qs)) \<and>
   (restricted m \<longrightarrow> restricted (fst (mandate_run m p qs)))"
proof (induction m p qs rule: mandate_run.induct)
  case (1 m p)
  show ?case by (simp add: same_mandate_cfg_def)
next
  case (2 m p q base qs)
  obtain m' p' sch where "apply_workflow_mandate m base p q = (m', p', sch)"
    by (cases "apply_workflow_mandate m base p q") auto
  with 2 apply_workflow_mandate_keeps [of m base p q] show ?case
    by (auto simp: mandate_run_Cons simp del: mandate_run.simps intro: same_mandate_cfg_trans)
qed

section \<open>Closing mode\<close>

lemma apply_closing_mode_sticky:
  "closing_mode d \<Longrightarrow> closing_mode (fst (apply_closing_mode str_of d schm names now))"
  by (simp add: apply_closing_mode_def)

lemma narrow_schema_Some:
  "narrow_schema_to_terminal str_of (Some es) names =
     (if names = [] then Some (Some es)
      else if \<exists>e \<in> set es. closing_tool_name str_of e = None then None
      else Some (Some [e \<leftarrow> es. the (closing_tool_name str_of e) \<in> set names]))"
  by (cases es) (auto simp: narrow_schema_to_terminal_def)

lemma narrow_schema_None [simp]: "narrow_schema_to_terminal str_of None names = Some None"
  by (simp add: narrow_schema_to_terminal_def)

lemma narrow_schema_idem:
  assumes "narrow_schema_to_terminal str_of schm names = Some r"
  shows "narrow_schema_to_terminal str_of r names = Some r"
proof (cases schm)
  case None
  with assms show ?thesis by simp
next
  case (Some es)
  with assms show ?thesis
    by (auto simp: narrow_schema_Some filter_id_conv split: if_splits)
qed

section \<open>Properties\<close>

text \<open>Whole-batch admission. Over any sequence of reservations, the tool calls on the account
  are exactly those of the admitted batches, and an enabled guard is never taken past
  \<open>max_tool_calls\<close>: a batch that does not fit is rejected as a whole and leaves no trace.\<close>

theorem reservations_never_overdraw:
  assumes "budget_enabled (budget_cfg g)"
    and "tool_calls_used g \<le> max_tool_calls (budget_cfg g)"
  shows "tool_calls_used (fst (reserve_run g ns)) =
           tool_calls_used g + sum_list (snd (reserve_run g ns)) \<and>
         tool_calls_used (fst (reserve_run g ns)) \<le> max_tool_calls (budget_cfg g)"
  using reserve_run_facts [of g ns] assms by auto

theorem reservations_never_overdraw_witness:
  "let g = budget_init \<lparr>budget_enabled = True, max_iterations = 15, max_tool_calls = 5,
             max_time_ms = 300000\<rparr> 0 in
   tool_calls_used (fst (reserve_run g [3, 4, 2])) = sum_list (snd (reserve_run g [3, 4, 2])) \<and>
   tool_calls_used (fst (reserve_run g [3, 4, 2])) \<le> 5"
  using reservations_never_overdraw [of "budget_init \<lparr>budget_enabled = True, max_iterations = 15,
      max_tool_calls = 5, max_time_ms = 300000\<rparr> 0" "[3, 4, 2]"]
  by (simp add: budget_init_def Let_def)

text \<open>C10: The time budget measures active time. For any sequence of \<open>pause\<close> and \<open>resume\<close>
  calls, repeated ones included, the time charged at the end is the sum of the intervals in
  which the guard was not paused.\<close>
theorem active_time_excludes_pauses:
  "active_ms (clock_run (budget_init c t0) es) now = unpaused_ms False t0 es now"
proof -
  have "active_ms (budget_init c t0) t0 = 0" and "paused_at (budget_init c t0) = None"
    by (simp_all add: active_ms_def budget_init_def)
  then show ?thesis using clock_run_unpaused [of "budget_init c t0" es now t0] by simp
qed

text \<open>\<open>check\<close> raises exactly when a limit is reached, and reports the first exhausted
  resource in the order iterations, tool calls, active time; a disabled guard never raises.\<close>

theorem budget_check_error:
  "budget_check g now =
     (let c = budget_cfg g;
          iter = iterations_used g \<ge> max_iterations c;
          calls = tool_calls_used g \<ge> max_tool_calls c;
          time = active_ms g now \<ge> of_int (max_time_ms c)
      in if budget_enabled c \<and> (iter \<or> calls \<or> time)
         then Inl (if iter then IterationBudgetExceeded (iterations_used g) (max_iterations c)
                   else if calls then ToolCallBudgetExceeded (tool_calls_used g) (max_tool_calls c)
                   else TimeBudgetExceeded (active_ms g now) (max_time_ms c))
         else Inr ())"
  by (simp add: budget_check_def Let_def)

text \<open>The escalation notices are one-shot. Over any sequence of queries of a run, with any
  clock values, tool lists and iteration numbers, the nudge and the restriction each fire at
  most once.\<close>

theorem mandate_escalates_once:
  "count_list (snd (latch_run should_nudge m qs)) True \<le> 1 \<and>
   count_list (snd (latch_run should_restrict m' qs')) True \<le> 1"
  using nudge.run_fires_at_most_once restrict.run_fires_at_most_once by blast

text \<open>The funnel. Once the budget ratio has reached \<open>restrict_ratio\<close> in a turn where the
  terminal tool has not been called, every later turn that applies the mandate, whatever its
  clock and whatever base schema was rebuilt, offers exactly the entries of the terminal tool
  and of the tools required before it, in schema order.\<close>

theorem mandate_funnel_is_permanent:
  assumes "mandate_enabled m" and "\<not> terminal_called m used"
    and "restrict_ratio m \<le> elapsed_ratio m now it"
  shows "snd (snd (apply_workflow_mandate
            (fst (mandate_run m p (((now, used, it), b0) # qs))) base p' q)) =
         map_option (filter (\<lambda>e. mandate_entry_name e \<in> set (terminal_tool m # required_before m))) base"
proof -
  let ?q0 = "(now, used, it)"
  let ?m1 = "fst (apply_workflow_mandate m b0 p ?q0)"
  let ?m2 = "fst (mandate_run m p ((?q0, b0) # qs))"
  let ?m3 = "fst (apply_workflow_mandate ?m2 base p' q)"
  let ?n = "fst (should_nudge m ?q0)"
  have n: "same_mandate_cfg m ?n" using should_nudge_cfg by blast
  have "restricted ?m1"
    using assms should_restrict_fires [of ?n used now it] same_mandate_cfg_ratio [OF n]
      same_mandate_cfg_enabled [OF n] n
    by (simp add: apply_workflow_mandate_state same_mandate_cfg_def terminal_called_def del: should_restrict.simps should_nudge.simps)
  then have r2: "restricted ?m2" and c2: "same_mandate_cfg m ?m2"
    using mandate_run_keeps [of ?m1 "fst (snd (apply_workflow_mandate m b0 p ?q0))" qs]
      apply_workflow_mandate_keeps [of m b0 p ?q0]
    by (auto simp: mandate_run_Cons simp del: mandate_run.simps intro: same_mandate_cfg_trans)
  have r3: "restricted ?m3" and c3: "same_mandate_cfg m ?m3"
    using r2 c2 apply_workflow_mandate_keeps [of ?m2 base p' q] by (auto intro: same_mandate_cfg_trans)
  have "mandate_enabled ?m2" "mandate_enabled ?m3"
    using assms(1) same_mandate_cfg_enabled c2 c3 by blast+
  then show ?thesis
    using r3 c3 by (simp add: apply_workflow_mandate_schema apply_schema_restrict_restricted same_mandate_cfg_def)
qed

definition sample_mandate :: mandate where
  "sample_mandate =
     \<lparr>mandate_cfg_enabled = True, terminal_tool = ''research_finalize'',
      required_before = [''research_list_facts''], nudge_ratio = 3/5, restrict_ratio = 3/4,
      mandate_max_time_ms = 300000, mandate_max_iterations = Some 20, mandate_start = 0,
      nudge_injected = False, restricted = False\<rparr>"

theorem mandate_funnel_is_permanent_witness:
  "snd (snd (apply_workflow_mandate
      (fst (mandate_run sample_mandate [] [((1, [''web_search''], Some 15), None)]))
      (Some [[(''name'', JStr ''web_search'')], [(''name'', JStr ''research_finalize'')]]) []
      (2, [], None))) = Some [[(''name'', JStr ''research_finalize'')]]"
proof -
  let ?b = "Some [[(''name'', JStr ''web_search'')], [(''name'', JStr ''research_finalize'')]]"
  have "mandate_enabled sample_mandate" "\<not> terminal_called sample_mandate [''web_search'']"
    "restrict_ratio sample_mandate \<le> elapsed_ratio sample_mandate 1 (Some 15)"
    by (simp_all add: sample_mandate_def mandate_enabled_def terminal_called_def elapsed_ratio_def
        wallclock_ratio_def iteration_ratio_def)
  from mandate_funnel_is_permanent [OF this, of "[]" None "[]" ?b "[]" "(2, [], None)"]
  show ?thesis by (simp add: sample_mandate_def mandate_entry_name_def jget_def del: mandate_run.simps)
qed

text \<open>Closing mode. Once the soft deadline is reached the closing flag stays set, the deadline
  is recorded only on the turn that sets it, and the narrowing of the schema is idempotent:
  narrowing an already narrowed schema changes nothing.\<close>

theorem closing_mode_sticky_and_idempotent:
  assumes "apply_closing_mode str_of d schm names now = (d', marked, Some schm')"
    and "closing_mode d'"
  shows "apply_closing_mode str_of d' schm' names later = (d', False, Some schm')"
proof -
  have "narrow_schema_to_terminal str_of schm names = Some schm'"
    using assms by (auto simp: apply_closing_mode_def enter_closing_mode_def split: if_splits)
  then have "narrow_schema_to_terminal str_of schm' names = Some schm'"
    by (rule narrow_schema_idem)
  with assms(2) show ?thesis by (simp add: apply_closing_mode_def)
qed

theorem closing_mode_sticky_and_idempotent_witness:
  "let d = deadline_init True (17/20) 300000 0;
       s = Some [[(''function'', JObj [(''name'', JStr ''send_file'')])],
                 [(''function'', JObj [(''name'', JStr ''read_file'')])]];
       r = apply_closing_mode (\<lambda>_. []) d s [''send_file''] 300 in
   fst (snd r) \<and>
   apply_closing_mode (\<lambda>_. []) (fst r) (the (snd (snd r))) [''send_file''] 301 =
     (fst r, False, snd (snd r))"
proof -
  let ?d = "deadline_init True (17/20) 300000 0"
  let ?e = "[(''function'', JObj [(''name'', JStr ''send_file'')])]"
  let ?s = "Some [?e, [(''function'', JObj [(''name'', JStr ''read_file'')])]]"
  have a: "apply_closing_mode (\<lambda>_. []) ?d ?s [''send_file''] 300 =
      (enter_closing_mode ?d, True, Some (Some [?e]))"
    by (simp add: apply_closing_mode_def deadline_init_def is_reached_def deadline_ms_def
        narrow_schema_Some closing_tool_name_def jget_def)
  from closing_mode_sticky_and_idempotent [OF a, of 301] a show ?thesis
    by (simp add: Let_def enter_closing_mode_def)
qed

end
