(* ===== verification/LLMQueue.thy ===== *)
theory LLMQueue
  imports Prelude
begin

text \<open>
  \<open>llm/queue.py\<close>: \<open>LLMRequestQueue\<close>, the concurrency-limited queue of inference requests
  with llama.cpp slot affinity. Entries are shared mutable objects, so they live in a store
  \<open>q_heap\<close> and the lists hold their identities. \<open>acquire\<close> suspends at four points (the queue
  lock, the slot lock, the semaphore, the queue lock again); each stretch between two of them
  is one operation below (the entries are dataclasses, compared by value; two entries differ at
  least in their run id or their clock readings), and the relation \<open>qstep\<close> interleaves them with releases and with
  cancellations at any suspension point. Waiting tasks are woken in any order.
\<close>

section \<open>Data\<close>

datatype load_class =
  Interactive | Subagent | Vision | Compression | Consolidation | Calibration | Maintenance

datatype strategy = SimpleQueue | SlotAffinity
datatype slot_kind = KSimple | KSticky | KOverflow

record slot_affinity_config =
  sa_enabled :: bool
  provider_names :: "string list"
  sticky_slot_ids :: "int list"
  overflow_slot_ids :: "int list"
  idle_ttl_seconds :: rat
  cache_prompt :: bool

record slot_state =
  slot_skind :: slot_kind
  slot_locked :: bool
  assigned_user_id :: "string option"
  slot_active :: bool
  slot_expires_at :: rat

record queue_entry =
  entry_user :: string
  entry_task_kind :: string
  entry_load_class :: load_class
  entry_provider :: "string option"
  enqueued_at :: rat
  acquired_at :: "rat option"
  position_at_entry :: nat
  entry_slot_id :: "int option"
  entry_slot_kind :: slot_kind
  assignment_reused :: bool
  backend_extra_body :: "(int \<times> bool) option"

text \<open>Where a suspended \<open>acquire\<close> is: before slot selection, waiting for the lock of the
  selected slot, waiting for the semaphore, or holding it. The slot ids are those of the slot
  locks the task wants or holds.\<close>

datatype phase = Selecting | WantSlot int | WantSem "int option" | HasSem "int option"

record qstate =
  q_sem :: int
  q_max :: int
  q_waiting :: "nat list"
  q_active :: "nat list"
  q_avg :: rat
  q_strategy :: strategy
  q_cfg :: slot_affinity_config
  q_slots :: "(int, slot_state) pydict"
  q_warned :: "string list"
  q_heap :: "(nat, queue_entry) pydict"
  q_tasks :: "(nat, phase) pydict"

definition ROLLING_AVG_WEIGHT :: rat where "ROLLING_AVG_WEIGHT = 1 / 5"
definition DEFAULT_AVG_SECONDS :: rat where "DEFAULT_AVG_SECONDS = 15"

section \<open>Construction\<close>

definition new_slot :: "slot_kind \<Rightarrow> slot_state" where
  "new_slot k = \<lparr>slot_skind = k, slot_locked = False, assigned_user_id = None,
     slot_active = False, slot_expires_at = 0\<rparr>"

definition make_slots :: "slot_affinity_config \<Rightarrow> (int, slot_state) pydict" where
  "make_slots c =
     fold (\<lambda>i d. dput i (new_slot KOverflow) d) (overflow_slot_ids c)
       (fold (\<lambda>i d. dput i (new_slot KSticky) d) (sticky_slot_ids c) [])"

definition queue_init :: "int \<Rightarrow> strategy \<Rightarrow> slot_affinity_config \<Rightarrow> qstate" where
  "queue_init max_concurrent strat c =
     (let slots = (if strat = SlotAffinity \<and> sa_enabled c then make_slots c else []);
          strat' = (if strat = SlotAffinity \<and> sa_enabled c \<and> slots = [] then SimpleQueue else strat)
      in \<lparr>q_sem = max_concurrent, q_max = max_concurrent, q_waiting = [], q_active = [],
          q_avg = DEFAULT_AVG_SECONDS, q_strategy = strat', q_cfg = c, q_slots = slots,
          q_warned = [], q_heap = [], q_tasks = []\<rparr>)"

section \<open>Entering the queue\<close>

definition entry_of :: "qstate \<Rightarrow> nat \<Rightarrow> queue_entry option" where
  "entry_of s e = dget (q_heap s) e"

definition enqueue ::
    "qstate \<Rightarrow> nat \<Rightarrow> string \<Rightarrow> string \<Rightarrow> load_class \<Rightarrow> string option \<Rightarrow> rat \<Rightarrow> qstate" where
  "enqueue s e user task_kind lc provider now =
     (let w = q_waiting s @ [e];
          entry = \<lparr>entry_user = user, entry_task_kind = task_kind, entry_load_class = lc,
            entry_provider = provider, enqueued_at = now, acquired_at = None,
            position_at_entry = length w - 1, entry_slot_id = None, entry_slot_kind = KSimple,
            assignment_reused = False, backend_extra_body = None\<rparr>
      in s\<lparr>q_waiting := w, q_heap := dput e entry (q_heap s),
           q_tasks := dput e Selecting (q_tasks s)\<rparr>)"

definition should_notify_waiting :: "qstate \<Rightarrow> nat \<Rightarrow> bool" where
  "should_notify_waiting s pos \<longleftrightarrow> pos > 0 \<or> int (length (q_active s)) \<ge> q_max s"

section \<open>Slot selection\<close>

definition slot_affinity_applies :: "qstate \<Rightarrow> queue_entry \<Rightarrow> qstate \<times> bool" where
  "slot_affinity_applies s entry =
     (if q_strategy s \<noteq> SlotAffinity \<or> \<not> sa_enabled (q_cfg s) then (s, False)
      else if q_slots s = [] then (s, False)
      else
        (case entry_provider entry of
           None \<Rightarrow> (s, False)
         | Some p \<Rightarrow>
             if p \<in> set (provider_names (q_cfg s)) then (s, True)
             else if p \<notin> set (q_warned s) then (s\<lparr>q_warned := q_warned s @ [p]\<rparr>, False)
             else (s, False)))"

definition is_sticky_eligible :: "queue_entry \<Rightarrow> bool" where
  "is_sticky_eligible entry \<longleftrightarrow>
     entry_load_class entry = Interactive \<and> entry_task_kind entry = ''default''"

definition assigned_sticky_slot :: "(int, slot_state) pydict \<Rightarrow> string \<Rightarrow> int option" where
  "assigned_sticky_slot slots user =
     map_option fst (find (\<lambda>(i, t). slot_skind t = KSticky \<and> assigned_user_id t = Some user) slots)"

definition free_sticky_slot :: "(int, slot_state) pydict \<Rightarrow> int option" where
  "free_sticky_slot slots =
     map_option fst
       (find (\<lambda>(i, t). slot_skind t = KSticky \<and> assigned_user_id t = None \<and> \<not> slot_active t) slots)"

definition overflow_slot :: "(int, slot_state) pydict \<Rightarrow> int option" where
  "overflow_slot slots = map_option fst (find (\<lambda>(i, t). slot_skind t = KOverflow) slots)"

definition expire_slot :: "rat \<Rightarrow> slot_state \<Rightarrow> slot_state" where
  "expire_slot now t =
     (if slot_skind t = KSticky \<and> \<not> slot_active t \<and> assigned_user_id t \<noteq> None \<and>
         slot_expires_at t > 0 \<and> now \<ge> slot_expires_at t
      then t\<lparr>assigned_user_id := None, slot_expires_at := 0\<rparr> else t)"

definition expire_idle_slots :: "rat \<Rightarrow> (int, slot_state) pydict \<Rightarrow> (int, slot_state) pydict" where
  "expire_idle_slots now slots = map (\<lambda>(i, t). (i, expire_slot now t)) slots"

text \<open>Assignments to one field of a slot or of an entry object.\<close>

definition slot_upd :: "int \<Rightarrow> (slot_state \<Rightarrow> slot_state) \<Rightarrow> qstate \<Rightarrow> qstate" where
  "slot_upd i f s =
     (case dget (q_slots s) i of None \<Rightarrow> s | Some t \<Rightarrow> s\<lparr>q_slots := dput i (f t) (q_slots s)\<rparr>)"

definition entry_upd :: "nat \<Rightarrow> (queue_entry \<Rightarrow> queue_entry) \<Rightarrow> qstate \<Rightarrow> qstate" where
  "entry_upd e f s =
     (case dget (q_heap s) e of None \<Rightarrow> s | Some x \<Rightarrow> s\<lparr>q_heap := dput e (f x) (q_heap s)\<rparr>)"

definition select_slot :: "qstate \<Rightarrow> nat \<Rightarrow> rat \<Rightarrow> qstate \<times> int option" where
  "select_slot s e now =
     (case entry_of s e of
        None \<Rightarrow> (s, None)
      | Some entry \<Rightarrow>
          (case slot_affinity_applies s entry of
             (s1, False) \<Rightarrow> (s1, None)
           | (s1, True) \<Rightarrow>
               (let s2 = s1\<lparr>q_slots := expire_idle_slots now (q_slots s1)\<rparr> in
                if is_sticky_eligible entry then
                  (case assigned_sticky_slot (q_slots s2) (entry_user entry) of
                     Some i \<Rightarrow> (entry_upd e (\<lambda>x. x\<lparr>assignment_reused := True\<rparr>) s2, Some i)
                   | None \<Rightarrow>
                       (case free_sticky_slot (q_slots s2) of
                          Some i \<Rightarrow>
                            (slot_upd i (\<lambda>t. t\<lparr>assigned_user_id := Some (entry_user entry),
                               slot_expires_at := 0\<rparr>) s2, Some i)
                        | None \<Rightarrow> (s2, overflow_slot (q_slots s2))))
                else (s2, overflow_slot (q_slots s2)))))"

definition acquire_select :: "qstate \<Rightarrow> nat \<Rightarrow> rat \<Rightarrow> qstate" where
  "acquire_select s e now =
     (case select_slot s e now of
        (s', None) \<Rightarrow> s'\<lparr>q_tasks := dput e (WantSem None) (q_tasks s')\<rparr>
      | (s', Some i) \<Rightarrow> s'\<lparr>q_tasks := dput e (WantSlot i) (q_tasks s')\<rparr>)"

section \<open>Taking the locks and becoming active\<close>

definition acquire_slot_lock :: "qstate \<Rightarrow> nat \<Rightarrow> int \<Rightarrow> qstate" where
  "acquire_slot_lock s e i =
     (slot_upd i (\<lambda>t. t\<lparr>slot_locked := True\<rparr>) s)\<lparr>q_tasks := dput e (WantSem (Some i)) (q_tasks s)\<rparr>"

definition acquire_semaphore :: "qstate \<Rightarrow> nat \<Rightarrow> int option \<Rightarrow> qstate" where
  "acquire_semaphore s e io =
     s\<lparr>q_sem := q_sem s - 1, q_tasks := dput e (HasSem io) (q_tasks s)\<rparr>"

definition slot_kind_of :: "qstate \<Rightarrow> int \<Rightarrow> slot_kind" where
  "slot_kind_of s i = (case dget (q_slots s) i of None \<Rightarrow> KSimple | Some t \<Rightarrow> slot_skind t)"

definition acquire_activate :: "qstate \<Rightarrow> nat \<Rightarrow> int option \<Rightarrow> rat \<Rightarrow> qstate" where
  "acquire_activate s e io now =
     (let s1 = s\<lparr>q_waiting := remove1 e (q_waiting s)\<rparr>;
          s2 = entry_upd e (\<lambda>x. x\<lparr>acquired_at := Some now\<rparr>) s1;
          s3 = (case io of
                  None \<Rightarrow> s2
                | Some i \<Rightarrow>
                    (let user = (case entry_of s2 e of None \<Rightarrow> '''' | Some x \<Rightarrow> entry_user x);
                         k = slot_kind_of s2 i;
                         t1 = slot_upd i (\<lambda>t. t\<lparr>slot_active := True\<rparr>) s2;
                         t2 = entry_upd e (\<lambda>x. x\<lparr>entry_slot_id := Some i, entry_slot_kind := k\<rparr>) t1;
                         t3 = (if k = KSticky
                               then slot_upd i (\<lambda>t. t\<lparr>assigned_user_id := Some user,
                                      slot_expires_at := 0\<rparr>) t2
                               else t2)
                     in entry_upd e (\<lambda>x. x\<lparr>backend_extra_body :=
                          Some (i, cache_prompt (q_cfg t3))\<rparr>) t3))
      in s3\<lparr>q_active := q_active s3 @ [e], q_tasks := dpop e (q_tasks s3)\<rparr>)"

section \<open>Cancellation\<close>

definition phase_slot :: "phase \<Rightarrow> int option" where
  "phase_slot p = (case p of Selecting \<Rightarrow> None | WantSlot i \<Rightarrow> Some i | WantSem io \<Rightarrow> io | HasSem io \<Rightarrow> io)"

definition phase_has_slot_lock :: "phase \<Rightarrow> bool" where
  "phase_has_slot_lock p = (case p of WantSem (Some i) \<Rightarrow> True | HasSem (Some i) \<Rightarrow> True | _ \<Rightarrow> False)"

definition phase_has_sem :: "phase \<Rightarrow> bool" where
  "phase_has_sem p = (case p of HasSem _ \<Rightarrow> True | _ \<Rightarrow> False)"

definition unassign_slot :: "queue_entry \<Rightarrow> slot_state \<Rightarrow> slot_state" where
  "unassign_slot entry t =
     (if slot_skind t = KSticky \<and> assigned_user_id t = Some (entry_user entry) \<and>
         \<not> slot_active t \<and> \<not> assignment_reused entry
      then t\<lparr>assigned_user_id := None, slot_expires_at := 0\<rparr> else t)"

definition cancel_acquire :: "qstate \<Rightarrow> nat \<Rightarrow> qstate" where
  "cancel_acquire s e =
     (case (dget (q_tasks s) e, entry_of s e) of
        (Some p, Some entry) \<Rightarrow>
          (let s1 = s\<lparr>q_waiting := remove1 e (q_waiting s)\<rparr>;
               s2 = (case phase_slot p of None \<Rightarrow> s1 | Some i \<Rightarrow> slot_upd i (unassign_slot entry) s1);
               s3 = (if phase_has_sem p then s2\<lparr>q_sem := q_sem s2 + 1\<rparr> else s2);
               s4 = (case phase_slot p of
                       Some i \<Rightarrow>
                         if phase_has_slot_lock p then slot_upd i (\<lambda>t. t\<lparr>slot_locked := False\<rparr>) s3
                         else s3
                     | None \<Rightarrow> s3)
           in s4\<lparr>q_tasks := dpop e (q_tasks s4)\<rparr>)
      | _ \<Rightarrow> s)"

section \<open>Release\<close>

definition release_slot :: "rat \<Rightarrow> slot_affinity_config \<Rightarrow> slot_state \<Rightarrow> slot_state" where
  "release_slot now c t =
     (let t1 = t\<lparr>slot_active := False\<rparr>;
          t2 = (if slot_skind t1 = KSticky
                then t1\<lparr>slot_expires_at := now + idle_ttl_seconds c\<rparr>
                else t1\<lparr>assigned_user_id := None, slot_expires_at := 0\<rparr>)
      in t2\<lparr>slot_locked := False\<rparr>)"

definition release :: "qstate \<Rightarrow> nat \<Rightarrow> rat \<Rightarrow> rat \<Rightarrow> qstate" where
  "release s e elapsed_seconds now =
     (let was_active = e \<in> set (q_active s);
          s1 = (if was_active then s\<lparr>q_active := remove1 e (q_active s)\<rparr> else s);
          s2 = (case entry_of s1 e of
                  Some entry \<Rightarrow>
                    (case entry_slot_id entry of
                       Some i \<Rightarrow> slot_upd i (release_slot now (q_cfg s1)) s1
                     | None \<Rightarrow> s1)
                | None \<Rightarrow> s1)
      in if \<not> was_active then s2
         else
           (let s3 = (if elapsed_seconds > 0
                      then s2\<lparr>q_avg := (1 - ROLLING_AVG_WEIGHT) * q_avg s2
                             + ROLLING_AVG_WEIGHT * elapsed_seconds\<rparr>
                      else s2)
            in s3\<lparr>q_sem := q_sem s3 + 1\<rparr>))"

section \<open>Queries\<close>

fun position_in :: "qstate \<Rightarrow> string \<Rightarrow> nat list \<Rightarrow> nat \<Rightarrow> nat option" where
  "position_in s user [] i = None"
| "position_in s user (e # es) i =
     (case entry_of s e of
        Some x \<Rightarrow> if entry_user x = user then Some i else position_in s user es (Suc i)
      | None \<Rightarrow> position_in s user es (Suc i))"

definition get_position :: "qstate \<Rightarrow> string \<Rightarrow> nat option" where
  "get_position s user = position_in s user (q_waiting s) 0"

text \<open>\<open>Inl ()\<close> is the \<open>ZeroDivisionError\<close> of a queue built with \<open>max_concurrent = 0\<close>.\<close>

definition get_estimated_wait :: "qstate \<Rightarrow> string \<Rightarrow> unit + rat option" where
  "get_estimated_wait s user =
     (case get_position s user of
        None \<Rightarrow> Inr None
      | Some pos \<Rightarrow>
          if q_max s = 0 then Inl ()
          else Inr (Some (of_int (ceiling ((of_nat pos + 1) / of_int (q_max s) :: rat)) * q_avg s)))"

definition get_waiting_entries :: "qstate \<Rightarrow> nat list" where
  "get_waiting_entries s = q_waiting s"

definition get_entry :: "qstate \<Rightarrow> string \<Rightarrow> nat option" where
  "get_entry s user =
     find (\<lambda>e. case entry_of s e of Some x \<Rightarrow> entry_user x = user | None \<Rightarrow> False) (q_waiting s)"

definition queue_length :: "qstate \<Rightarrow> nat" where
  "queue_length s = length (q_waiting s)"

definition active_count :: "qstate \<Rightarrow> nat" where
  "active_count s = length (q_active s)"

record queue_status =
  st_user :: string
  st_position :: "nat option"
  st_estimated_wait :: "rat option"
  st_waiting_count :: nat
  st_active_count :: nat
  st_max_concurrent :: int
  st_wait_seconds :: rat

definition queue_status_snapshot :: "qstate \<Rightarrow> queue_entry \<Rightarrow> bool \<Rightarrow> rat \<Rightarrow> unit + queue_status" where
  "queue_status_snapshot s entry include_position now =
     (let mk = (\<lambda>p w. \<lparr>st_user = entry_user entry, st_position = p, st_estimated_wait = w,
                  st_waiting_count = queue_length s, st_active_count = active_count s,
                  st_max_concurrent = q_max s, st_wait_seconds = max 0 (now - enqueued_at entry)\<rparr>)
      in if include_position then
           (case get_estimated_wait s (entry_user entry) of
              Inl u \<Rightarrow> Inl u
            | Inr w \<Rightarrow> Inr (mk (get_position s (entry_user entry)) w))
         else Inr (mk None None))"

section \<open>Interleavings\<close>

text \<open>With \<open>strict\<close>, callers release only entries that are active, as \<open>acquire_slot\<close> of the
  router does; without it any entry object may be released at any time.\<close>

inductive qstep :: "bool \<Rightarrow> qstate \<Rightarrow> qstate \<Rightarrow> bool" for strict :: bool where
  q_enqueue: "entry_of s e = None \<Longrightarrow> qstep strict s (enqueue s e user k lc p now)"
| q_select: "dget (q_tasks s) e = Some Selecting \<Longrightarrow> qstep strict s (acquire_select s e now)"
| q_slot_lock: "dget (q_tasks s) e = Some (WantSlot i) \<Longrightarrow> dget (q_slots s) i = Some t \<Longrightarrow>
    \<not> slot_locked t \<Longrightarrow> qstep strict s (acquire_slot_lock s e i)"
| q_semaphore: "dget (q_tasks s) e = Some (WantSem io) \<Longrightarrow> q_sem s > 0 \<Longrightarrow>
    qstep strict s (acquire_semaphore s e io)"
| q_activate: "dget (q_tasks s) e = Some (HasSem io) \<Longrightarrow> qstep strict s (acquire_activate s e io now)"
| q_cancel: "dget (q_tasks s) e = Some p \<Longrightarrow> qstep strict s (cancel_acquire s e)"
| q_release: "entry_of s e \<noteq> None \<Longrightarrow> (strict \<longrightarrow> e \<in> set (q_active s)) \<Longrightarrow>
    qstep strict s (release s e elapsed now)"

definition queue_start :: "int \<Rightarrow> strategy \<Rightarrow> slot_affinity_config \<Rightarrow> qstate \<Rightarrow> bool" where
  "queue_start n st c s \<longleftrightarrow> 0 \<le> n \<and> s = queue_init n st c"

section \<open>Frames\<close>

lemma entry_of_frame [simp]:
  "entry_of (s\<lparr>q_sem := a\<rparr>) = entry_of s" "entry_of (s\<lparr>q_waiting := b\<rparr>) = entry_of s"
  "entry_of (s\<lparr>q_active := b\<rparr>) = entry_of s" "entry_of (s\<lparr>q_avg := c\<rparr>) = entry_of s"
  "entry_of (s\<lparr>q_slots := d\<rparr>) = entry_of s" "entry_of (s\<lparr>q_warned := f\<rparr>) = entry_of s"
  "entry_of (s\<lparr>q_tasks := g\<rparr>) = entry_of s"
  by (simp_all add: entry_of_def fun_eq_iff)

lemma slot_upd_frame [simp]:
  "q_sem (slot_upd i f s) = q_sem s" "q_max (slot_upd i f s) = q_max s"
  "q_waiting (slot_upd i f s) = q_waiting s" "q_active (slot_upd i f s) = q_active s"
  "q_heap (slot_upd i f s) = q_heap s" "q_tasks (slot_upd i f s) = q_tasks s"
  "q_cfg (slot_upd i f s) = q_cfg s" "q_avg (slot_upd i f s) = q_avg s"
  "entry_of (slot_upd i f s) e = entry_of s e"
  by (simp_all add: slot_upd_def entry_of_def split: option.splits)

lemma entry_upd_frame [simp]:
  "q_sem (entry_upd e f s) = q_sem s" "q_max (entry_upd e f s) = q_max s"
  "q_waiting (entry_upd e f s) = q_waiting s" "q_active (entry_upd e f s) = q_active s"
  "q_slots (entry_upd e f s) = q_slots s" "q_tasks (entry_upd e f s) = q_tasks s"
  "q_cfg (entry_upd e f s) = q_cfg s" "q_avg (entry_upd e f s) = q_avg s"
  by (simp_all add: entry_upd_def split: option.splits)

lemma entry_of_entry_upd:
  "entry_of (entry_upd e f s) e' = (if e' = e then map_option f (entry_of s e) else entry_of s e')"
  by (auto simp: entry_upd_def entry_of_def py_simps split: option.splits)

lemma slots_of_slot_upd:
  "dget (q_slots (slot_upd i f s)) j = (if j = i then map_option f (dget (q_slots s) i) else dget (q_slots s) j)"
  by (auto simp: slot_upd_def py_simps split: option.splits)

lemma dkeys_slot_upd [simp]: "dkeys (q_slots (slot_upd i f s)) = dkeys (q_slots s)"
  using dget_iff_keys [of "q_slots s" i]
  by (auto simp: slot_upd_def dkeys_dput_present split: option.splits)

lemma expire_idle_dget:
  "dget (expire_idle_slots now d) i = map_option (expire_slot now) (dget d i)"
  by (induction d) (auto simp: expire_idle_slots_def dict_rec)

lemma expire_idle_keys [simp]: "dkeys (expire_idle_slots now d) = dkeys d"
  by (induction d) (auto simp: expire_idle_slots_def)

lemma expire_slot_frame [simp]:
  "slot_skind (expire_slot now t) = slot_skind t" "slot_locked (expire_slot now t) = slot_locked t"
  "slot_active (expire_slot now t) = slot_active t"
  by (simp_all add: expire_slot_def)

lemma slot_affinity_applies_frame:
  "\<exists>w. fst (slot_affinity_applies s x) = s\<lparr>q_warned := w\<rparr>"
  by (auto simp: slot_affinity_applies_def split: option.splits)
    (metis qstate.surjective qstate.update_convs(9))+

section \<open>What slot selection changes\<close>

text \<open>Selection writes the assignment and the expiry of slots and the \<open>assignment_reused\<close> flag
  of its own entry, and returns a slot of the table.\<close>

definition same_slot_use :: "slot_state \<Rightarrow> slot_state \<Rightarrow> bool" where
  "same_slot_use t t' \<longleftrightarrow>
     slot_skind t' = slot_skind t \<and> slot_locked t' = slot_locked t \<and> slot_active t' = slot_active t \<and>
     (slot_active t \<longrightarrow> assigned_user_id t' = assigned_user_id t)"

definition same_entry_slot :: "queue_entry \<Rightarrow> queue_entry \<Rightarrow> bool" where
  "same_entry_slot x y \<longleftrightarrow> entry_slot_id y = entry_slot_id x \<and> entry_user y = entry_user x"

definition select_rel :: "qstate \<Rightarrow> nat \<Rightarrow> qstate \<Rightarrow> int option \<Rightarrow> bool" where
  "select_rel s e s' io \<longleftrightarrow>
     q_sem s' = q_sem s \<and> q_max s' = q_max s \<and> q_waiting s' = q_waiting s \<and>
     q_active s' = q_active s \<and> q_tasks s' = q_tasks s \<and> q_cfg s' = q_cfg s \<and>
     dkeys (q_slots s') = dkeys (q_slots s) \<and>
     (\<forall>i. rel_option same_slot_use (dget (q_slots s) i) (dget (q_slots s') i)) \<and>
     (\<forall>e'. rel_option same_entry_slot (entry_of s e') (entry_of s' e')) \<and>
     (\<forall>i. io = Some i \<longrightarrow> i \<in> set (dkeys (q_slots s)))"

lemma find_key: "map_option fst (find P d) = Some i \<Longrightarrow> i \<in> set (dkeys d)"
  by (auto simp: find_Some_iff dkeys_def) (metis fst_conv image_eqI nth_mem)

lemma find_first_dget:
  assumes "distinct (dkeys d)" and "find P d = Some (i, t)"
  shows "dget d i = Some t \<and> P (i, t)"
proof -
  have "(i, t) \<in> set d" and "P (i, t)" using assms(2) by (auto simp: find_Some_iff)
  then show ?thesis using assms(1) by (simp add: dget_def dkeys_def)
qed

lemma same_slot_use_refl [simp]: "same_slot_use t t"
  by (simp add: same_slot_use_def)

lemma same_entry_slot_refl [simp]: "same_entry_slot x x"
  by (simp add: same_entry_slot_def)

lemma same_slot_use_expire: "same_slot_use t (expire_slot now t)"
  by (simp add: same_slot_use_def expire_slot_def)

lemma rel_option_map: "rel_option R x (map_option f x) = (\<forall>t. x = Some t \<longrightarrow> R t (f t))"
  by (cases x) auto

lemma rel_option_same: "(\<And>t. R t t) \<Longrightarrow> rel_option R x x"
  by (cases x) auto

lemma select_slot_rel:
  assumes d: "distinct (dkeys (q_slots s))"
    and sel: "select_slot s e now = (s', io)"
  shows "select_rel s e s' io"
proof (cases "entry_of s e")
  case None
  with sel show ?thesis
    by (auto simp: select_slot_def select_rel_def intro!: rel_option_same)
next
  case (Some x)
  obtain s1 b where ap: "slot_affinity_applies s x = (s1, b)" by fastforce
  obtain w where w: "s1 = s\<lparr>q_warned := w\<rparr>" using slot_affinity_applies_frame [of s x] ap by auto
  show ?thesis
  proof (cases b)
    case False
    with sel Some ap w show ?thesis
      by (auto simp: select_slot_def select_rel_def intro!: rel_option_same)
  next
    case True
    let ?sl = "expire_idle_slots now (q_slots s)"
    let ?s2 = "s1\<lparr>q_slots := ?sl\<rparr>"
    have dsl: "distinct (dkeys ?sl)" using d by simp
    have base: "select_rel s e ?s2 jo" if "\<And>i. jo = Some i \<Longrightarrow> i \<in> set (dkeys (q_slots s))" for jo
      using that
      by (auto simp: select_rel_def w expire_idle_dget rel_option_map same_slot_use_expire
          intro!: rel_option_same)
    have ov: "i \<in> set (dkeys (q_slots s))" if "overflow_slot ?sl = Some i" for i
      using find_key [of _ ?sl i] that by (simp add: overflow_slot_def)
    have as: "i \<in> set (dkeys (q_slots s))" if "assigned_sticky_slot ?sl u = Some i" for i u
      using find_key [of _ ?sl i] that by (simp add: assigned_sticky_slot_def)
    have free: "select_rel s e (slot_upd i (\<lambda>t. t\<lparr>assigned_user_id := Some u, slot_expires_at := 0\<rparr>) ?s2) (Some i)"
      if fr: "free_sticky_slot ?sl = Some i" for i u
    proof -
      obtain t where "find (\<lambda>(i, t). slot_skind t = KSticky \<and> assigned_user_id t = None \<and> \<not> slot_active t) ?sl
          = Some (i, t)"
        using fr by (auto simp: free_sticky_slot_def)
      from find_first_dget [OF dsl this] have t: "dget ?sl i = Some t" "\<not> slot_active t" by auto
      then obtain t0 where t0: "dget (q_slots s) i = Some t0" "t = expire_slot now t0"
        by (auto simp: expire_idle_dget)
      have i: "i \<in> set (dkeys ?sl)" using t(1) dget_iff_keys [of ?sl i] by simp
      have "rel_option same_slot_use (dget (q_slots s) j)
          (dget (dput i (t\<lparr>assigned_user_id := Some u, slot_expires_at := 0\<rparr>) ?sl) j)" for j
        using t t0 by (auto simp: py_simps expire_idle_dget rel_option_map same_slot_use_def expire_slot_def)
      then show ?thesis
        using t i
        by (auto simp: select_rel_def slot_upd_def w dkeys_dput_present intro!: rel_option_same)
    qed
    have reused: "select_rel s e (entry_upd e (\<lambda>x. x\<lparr>assignment_reused := True\<rparr>) ?s2) (Some i)"
      if "i \<in> set (dkeys (q_slots s))" for i
      using base [of "Some i"] that
      by (auto simp: select_rel_def entry_of_entry_upd w rel_option_map same_entry_slot_def
          intro!: rel_option_same)
    show ?thesis
    proof (cases "is_sticky_eligible x")
      case False
      have "s' = ?s2" "io = overflow_slot ?sl"
        using sel Some ap True False by (simp_all add: select_slot_def Let_def w)
      then show ?thesis using base [of io] ov by simp
    next
      case el: True
      show ?thesis
      proof (cases "assigned_sticky_slot ?sl (entry_user x)")
        case as_some: (Some i)
        have "s' = entry_upd e (\<lambda>x. x\<lparr>assignment_reused := True\<rparr>) ?s2" "io = Some i"
          using sel Some ap True el as_some by (simp_all add: select_slot_def Let_def w)
        then show ?thesis using reused [OF as [OF as_some]] by simp
      next
        case as_none: None
        show ?thesis
        proof (cases "free_sticky_slot ?sl")
          case fr: (Some i)
          have "s' = slot_upd i (\<lambda>t. t\<lparr>assigned_user_id := Some (entry_user x), slot_expires_at := 0\<rparr>) ?s2"
            "io = Some i"
            using sel Some ap True el as_none fr by (simp_all add: select_slot_def Let_def w)
          then show ?thesis using free [OF fr] by simp
        next
          case fr: None
          have "s' = ?s2" "io = overflow_slot ?sl"
            using sel Some ap True el as_none fr by (simp_all add: select_slot_def Let_def w)
          then show ?thesis using base [of io] ov by simp
        qed
      qed
    qed
  qed
qed

section \<open>The capacity invariant\<close>

text \<open>Every unit of the semaphore is free, held by a suspended task, or used by an active
  entry; the waiting list is exactly the set of suspended tasks.\<close>

definition cap_inv :: "qstate \<Rightarrow> bool" where
  "cap_inv s \<longleftrightarrow>
     distinct (dkeys (q_tasks s)) \<and> distinct (dkeys (q_slots s)) \<and> 0 \<le> q_sem s \<and>
     q_sem s + int (length (q_active s)) + dcount phase_has_sem (q_tasks s) = q_max s \<and>
     distinct (q_active s) \<and> set (q_active s) \<inter> set (dkeys (q_tasks s)) = {} \<and>
     (\<forall>e \<in> set (q_active s) \<union> set (dkeys (q_tasks s)). entry_of s e \<noteq> None) \<and>
     distinct (q_waiting s) \<and> set (q_waiting s) = set (dkeys (q_tasks s))"

lemma phase_has_sem_simps [simp]:
  "\<not> phase_has_sem Selecting" "\<not> phase_has_sem (WantSlot i)" "\<not> phase_has_sem (WantSem io)"
  "phase_has_sem (HasSem io)"
  by (simp_all add: phase_has_sem_def)

lemma in_tasks: "dget (q_tasks s) e = Some p \<Longrightarrow> e \<in> set (dkeys (q_tasks s))"
  using dget_iff_keys [of "q_tasks s" e] by simp

lemma entry_of_keys: "entry_of (entry_upd e f s) x \<noteq> None \<longleftrightarrow> entry_of s x \<noteq> None"
  by (simp add: entry_of_entry_upd)

lemma entry_of_put [simp]:
  "entry_of (s\<lparr>q_heap := dput e x (q_heap s')\<rparr>) e' = (if e' = e then Some x else entry_of s' e')"
  by (simp add: entry_of_def py_simps)

lemma cap_inv_enqueue [inv_intros]:
  assumes "cap_inv s" "entry_of s e = None"
  shows "cap_inv (enqueue s e user k lc p now)"
proof -
  have e: "e \<notin> set (dkeys (q_tasks s))" "e \<notin> set (q_active s)" "e \<notin> set (q_waiting s)"
    using assms unfolding cap_inv_def by blast+
  then show ?thesis
    using assms(1)
    by (auto simp: cap_inv_def enqueue_def Let_def dcount_dput dget_notin set_dkeys_dput)
qed

text \<open>A change of phase that keeps the task in the table.\<close>

lemma cap_inv_phase:
  assumes "cap_inv s" and t: "dget (q_tasks s) e = Some p"
    and "q_sem s' + of_bool (phase_has_sem p') = q_sem s + of_bool (phase_has_sem p)"
    and "0 \<le> q_sem s'" and "q_max s' = q_max s" and "q_waiting s' = q_waiting s"
    and "q_active s' = q_active s" and "q_tasks s' = dput e p' (q_tasks s)"
    and "distinct (dkeys (q_slots s'))"
    and "\<And>x. entry_of s' x \<noteq> None \<longleftrightarrow> entry_of s x \<noteq> None"
  shows "cap_inv s'"
  using assms in_tasks [OF t]
  by (auto simp: cap_inv_def dcount_dput set_dkeys_dput)

lemma rel_option_None: "rel_option R a b \<Longrightarrow> b \<noteq> None \<longleftrightarrow> a \<noteq> None"
  by (cases a; cases b) auto

lemma select_rel_keys: "select_rel s e s' io \<Longrightarrow> entry_of s' x \<noteq> None \<longleftrightarrow> entry_of s x \<noteq> None"
  unfolding select_rel_def by (metis rel_option_None)

lemma cap_inv_select [inv_intros]:
  assumes "cap_inv s" "dget (q_tasks s) e = Some Selecting"
  shows "cap_inv (acquire_select s e now)"
proof -
  obtain s' io where sel: "select_slot s e now = (s', io)" by fastforce
  have "distinct (dkeys (q_slots s))" using assms(1) by (simp add: cap_inv_def)
  from select_slot_rel [OF this sel] have r: "select_rel s e s' io" .
  show ?thesis
  proof (cases io)
    case None
    show ?thesis
      by (rule cap_inv_phase [OF assms(1,2), where p' = "WantSem None"])
        (use r assms(1) sel None select_rel_keys [OF r] in
          \<open>auto simp: acquire_select_def select_rel_def cap_inv_def\<close>)
  next
    case (Some i)
    show ?thesis
      by (rule cap_inv_phase [OF assms(1,2), where p' = "WantSlot i"])
        (use r assms(1) sel Some select_rel_keys [OF r] in
          \<open>auto simp: acquire_select_def select_rel_def cap_inv_def\<close>)
  qed
qed

lemma cap_inv_slot_lock [inv_intros]:
  assumes "cap_inv s" "dget (q_tasks s) e = Some (WantSlot i)"
  shows "cap_inv (acquire_slot_lock s e i)"
  by (rule cap_inv_phase [OF assms, where p' = "WantSem (Some i)"])
    (use assms(1) in \<open>auto simp: acquire_slot_lock_def cap_inv_def\<close>)

lemma cap_inv_semaphore [inv_intros]:
  assumes "cap_inv s" "dget (q_tasks s) e = Some (WantSem io)" "q_sem s > 0"
  shows "cap_inv (acquire_semaphore s e io)"
  by (rule cap_inv_phase [OF assms(1,2), where p' = "HasSem io"])
    (use assms in \<open>auto simp: acquire_semaphore_def cap_inv_def\<close>)

text \<open>What activation and cancellation do to the fields the capacity depends on.\<close>

lemma acquire_activate_fields [simp]:
  "q_sem (acquire_activate s e io now) = q_sem s"
  "q_max (acquire_activate s e io now) = q_max s"
  "q_waiting (acquire_activate s e io now) = remove1 e (q_waiting s)"
  "q_active (acquire_activate s e io now) = q_active s @ [e]"
  "q_tasks (acquire_activate s e io now) = dpop e (q_tasks s)"
  by (auto simp: acquire_activate_def Let_def split: option.splits)

lemma acquire_activate_keys:
  "entry_of (acquire_activate s e io now) x \<noteq> None \<longleftrightarrow> entry_of s x \<noteq> None"
  by (simp add: acquire_activate_def Let_def entry_of_entry_upd split: option.splits)

lemma distinct_acquire_activate [intro]:
  "distinct (dkeys (q_slots s)) \<Longrightarrow> distinct (dkeys (q_slots (acquire_activate s e io now)))"
  by (simp add: acquire_activate_def Let_def split: option.splits)

lemma cap_inv_activate [inv_intros]:
  assumes c: "cap_inv s" and t: "dget (q_tasks s) e = Some (HasSem io)"
  shows "cap_inv (acquire_activate s e io now)"
proof -
  have d: "distinct (dkeys (q_tasks s))" using c by (simp add: cap_inv_def)
  have "dcount phase_has_sem (dpop e (q_tasks s)) = dcount phase_has_sem (q_tasks s) - 1"
    using d t by (simp add: dcount_dpop)
  then show ?thesis
    unfolding cap_inv_def
    using c in_tasks [OF t] acquire_activate_keys [of s e io now]
    by (auto simp: cap_inv_def set_dkeys_dpop)
qed

lemma cancel_acquire_fields:
  assumes "dget (q_tasks s) e = Some p" "entry_of s e \<noteq> None"
  shows "q_sem (cancel_acquire s e) = q_sem s + of_bool (phase_has_sem p)"
    "q_max (cancel_acquire s e) = q_max s"
    "q_waiting (cancel_acquire s e) = remove1 e (q_waiting s)"
    "q_active (cancel_acquire s e) = q_active s"
    "q_tasks (cancel_acquire s e) = dpop e (q_tasks s)"
    "entry_of (cancel_acquire s e) = entry_of s"
  using assms
  by (auto simp: cancel_acquire_def Let_def fun_eq_iff split: option.splits)

lemma distinct_cancel_acquire [intro]:
  "distinct (dkeys (q_slots s)) \<Longrightarrow> distinct (dkeys (q_slots (cancel_acquire s e)))"
  by (auto simp: cancel_acquire_def Let_def split: option.splits)

lemma cap_inv_cancel [inv_intros]:
  assumes c: "cap_inv s" and t: "dget (q_tasks s) e = Some p"
  shows "cap_inv (cancel_acquire s e)"
proof -
  have d: "distinct (dkeys (q_tasks s))" and en: "entry_of s e \<noteq> None"
    using c in_tasks [OF t] by (auto simp: cap_inv_def)
  have "dcount phase_has_sem (dpop e (q_tasks s)) =
      dcount phase_has_sem (q_tasks s) - of_bool (phase_has_sem p)"
    using d t by (simp add: dcount_dpop)
  then show ?thesis
    using c in_tasks [OF t] distinct_cancel_acquire [of s e]
    by (auto simp: cap_inv_def cancel_acquire_fields [OF t en] set_dkeys_dpop)
qed

lemma release_fields:
  "q_sem (release s e el now) = q_sem s + of_bool (e \<in> set (q_active s))"
  "q_max (release s e el now) = q_max s"
  "q_waiting (release s e el now) = q_waiting s"
  "q_active (release s e el now) = remove1 e (q_active s)"
  "q_tasks (release s e el now) = q_tasks s"
  "entry_of (release s e el now) = entry_of s"
  by (auto simp: release_def Let_def remove1_idem fun_eq_iff split: option.splits)

lemma distinct_release [intro]:
  "distinct (dkeys (q_slots s)) \<Longrightarrow> distinct (dkeys (q_slots (release s e el now)))"
  by (auto simp: release_def Let_def split: option.splits)

lemma cap_inv_release [inv_intros]:
  assumes "cap_inv s"
  shows "cap_inv (release s e el now)"
proof -
  have "int (length (remove1 e (q_active s))) = int (length (q_active s)) - of_bool (e \<in> set (q_active s))"
    by (auto simp: length_remove1 dest: split_list)
  then show ?thesis
    using assms by (auto simp: cap_inv_def release_fields dest: in_set_remove1 [THEN iffD1, rotated])
qed

lemma cap_inv_step: "cap_inv s \<Longrightarrow> qstep strict s t \<Longrightarrow> cap_inv t"
  by (erule qstep.cases) (auto intro: inv_intros)

lemma distinct_make_slots: "distinct (dkeys (make_slots c))"
proof -
  have f: "distinct (dkeys d) \<Longrightarrow> distinct (dkeys (fold (\<lambda>i d. dput i (new_slot k) d) is d))" for k "is" d
    by (induction "is" arbitrary: d) auto
  show ?thesis unfolding make_slots_def by (intro f) simp
qed

lemma cap_inv_start: "queue_start n st c s \<Longrightarrow> cap_inv s"
  by (auto simp: queue_start_def cap_inv_def queue_init_def Let_def distinct_make_slots)

interpretation capacity: invariant_system "queue_start n st c" "qstep strict" cap_inv
  by unfold_locales (auto intro: cap_inv_start cap_inv_step)

section \<open>The slot invariant\<close>

text \<open>A slot lock is held by exactly one suspended task or active entry, a slot is marked active
  exactly while an active entry uses it, and a sticky slot in use is assigned to the user of
  that entry. This holds as long as callers release only active entries.\<close>

definition active_slot :: "qstate \<Rightarrow> nat \<Rightarrow> int option" where
  "active_slot s e = Option.bind (entry_of s e) entry_slot_id"

definition holds_slot :: "int \<Rightarrow> phase \<Rightarrow> bool" where
  "holds_slot i p \<longleftrightarrow> phase_slot p = Some i \<and> phase_has_slot_lock p"

lemma holds_slot_simps [simp]:
  "\<not> holds_slot i Selecting" "\<not> holds_slot i (WantSlot j)"
  "holds_slot i (WantSem io) \<longleftrightarrow> io = Some i" "holds_slot i (HasSem io) \<longleftrightarrow> io = Some i"
  by (auto simp: holds_slot_def phase_slot_def phase_has_slot_lock_def split: option.splits)

definition slot_users :: "qstate \<Rightarrow> int \<Rightarrow> int" where
  "slot_users s i =
     dcount (holds_slot i) (q_tasks s) +
     int (length (filter (\<lambda>e. active_slot s e = Some i) (q_active s)))"

definition slot_inv :: "qstate \<Rightarrow> bool" where
  "slot_inv s \<longleftrightarrow>
     (\<forall>i t. dget (q_slots s) i = Some t \<longrightarrow>
        of_bool (slot_locked t) = slot_users s i \<and>
        (slot_active t \<longleftrightarrow> (\<exists>e\<in>set (q_active s). active_slot s e = Some i))) \<and>
     (\<forall>e p i. dget (q_tasks s) e = Some p \<longrightarrow> phase_slot p = Some i \<longrightarrow> dget (q_slots s) i \<noteq> None) \<and>
     (\<forall>e\<in>set (q_active s). \<forall>i. active_slot s e = Some i \<longrightarrow> dget (q_slots s) i \<noteq> None) \<and>
     (\<forall>e\<in>set (dkeys (q_tasks s)). active_slot s e = None) \<and>
     (\<forall>e\<in>set (q_active s). \<forall>i t x. entry_of s e = Some x \<longrightarrow> entry_slot_id x = Some i \<longrightarrow>
        dget (q_slots s) i = Some t \<longrightarrow> slot_skind t = KSticky \<longrightarrow>
        assigned_user_id t = Some (entry_user x))"

lemma slot_invD:
  assumes "slot_inv s"
  shows "dget (q_slots s) i = Some t \<Longrightarrow> slot_users s i = of_bool (slot_locked t)"
    and "dget (q_slots s) i = Some t \<Longrightarrow>
      slot_active t \<longleftrightarrow> (\<exists>e\<in>set (q_active s). active_slot s e = Some i)"
    and "dget (q_tasks s) e = Some p \<Longrightarrow> phase_slot p = Some i \<Longrightarrow> dget (q_slots s) i \<noteq> None"
    and "e \<in> set (q_active s) \<Longrightarrow> active_slot s e = Some i \<Longrightarrow> dget (q_slots s) i \<noteq> None"
    and "e \<in> set (dkeys (q_tasks s)) \<Longrightarrow> active_slot s e = None"
    and "e \<in> set (q_active s) \<Longrightarrow> entry_of s e = Some x \<Longrightarrow> entry_slot_id x = Some i \<Longrightarrow>
      dget (q_slots s) i = Some t \<Longrightarrow> slot_skind t = KSticky \<Longrightarrow>
      assigned_user_id t = Some (entry_user x)"
  using assms unfolding slot_inv_def by metis+

definition queue_inv :: "qstate \<Rightarrow> bool" where
  "queue_inv s \<longleftrightarrow> cap_inv s \<and> slot_inv s"

text \<open>A step that leaves the active entries, their slots, and the use of every slot alone.\<close>

lemma slot_inv_cong:
  assumes s: "slot_inv s"
    and act: "q_active s' = q_active s"
    and slots: "\<And>i. rel_option same_slot_use (dget (q_slots s) i) (dget (q_slots s') i)"
    and ents: "\<And>e. rel_option same_entry_slot (entry_of s e) (entry_of s' e)
                   \<or> e \<notin> set (q_active s) \<and> active_slot s' e = None"
    and cnt: "\<And>i. dcount (holds_slot i) (q_tasks s') = dcount (holds_slot i) (q_tasks s)"
    and ph: "\<And>e p i. dget (q_tasks s') e = Some p \<Longrightarrow> phase_slot p = Some i \<Longrightarrow> dget (q_slots s) i \<noteq> None"
    and keys: "\<And>e. e \<in> set (dkeys (q_tasks s')) \<Longrightarrow> active_slot s' e = None \<or> e \<in> set (dkeys (q_tasks s))"
  shows "slot_inv s'"
proof -
  have as: "active_slot s' e = active_slot s e" if "e \<in> set (q_active s)" for e
    using ents [of e] that
    by (cases "entry_of s e"; cases "entry_of s' e") (auto simp: active_slot_def same_entry_slot_def)
  have filt: "filter (\<lambda>e. active_slot s' e = Some i) (q_active s') = filter (\<lambda>e. active_slot s e = Some i) (q_active s)" for i
    unfolding act by (rule filter_cong) (simp_all add: as)
  have users: "slot_users s' i = slot_users s i" for i
    unfolding slot_users_def filt cnt ..
  have none: "dget (q_slots s') i \<noteq> None \<longleftrightarrow> dget (q_slots s) i \<noteq> None" for i
    using rel_option_None [OF slots [of i]] .
  have task_as: "active_slot s' e = None" if "e \<in> set (dkeys (q_tasks s'))" for e
    using keys [OF that] ents [of e] s
    by (cases "entry_of s e"; cases "entry_of s' e")
      (auto simp: active_slot_def same_entry_slot_def slot_inv_def)
  show ?thesis
    unfolding slot_inv_def
  proof (intro conjI allI ballI impI)
    fix i t'
    assume t': "dget (q_slots s') i = Some t'"
    then obtain t where t: "dget (q_slots s) i = Some t" "same_slot_use t t'"
      using slots [of i] by (cases "dget (q_slots s) i") auto
    then show "of_bool (slot_locked t') = slot_users s' i"
      and "slot_active t' = (\<exists>e\<in>set (q_active s'). active_slot s' e = Some i)"
      using s as by (auto simp: slot_inv_def users act same_slot_use_def)
  next
    fix e p i
    assume "dget (q_tasks s') e = Some p" "phase_slot p = Some i"
    then show "dget (q_slots s') i \<noteq> None" using ph none by blast
  next
    fix e i
    assume "e \<in> set (q_active s')" "active_slot s' e = Some i"
    then show "dget (q_slots s') i \<noteq> None" using s as none by (auto simp: slot_inv_def act)
  next
    fix e
    assume "e \<in> set (dkeys (q_tasks s'))"
    then show "active_slot s' e = None" by (rule task_as)
  next
    fix e i t' x'
    assume e: "e \<in> set (q_active s')" and x': "entry_of s' e = Some x'" "entry_slot_id x' = Some i"
      and t': "dget (q_slots s') i = Some t'" "slot_skind t' = KSticky"
    obtain t where t: "dget (q_slots s) i = Some t" "same_slot_use t t'"
      using slots [of i] t' by (cases "dget (q_slots s) i") auto
    obtain x where x: "entry_of s e = Some x" "same_entry_slot x x'"
      using ents [of e] e x' by (cases "entry_of s e") (auto simp: active_slot_def act)
    have "active_slot s e = Some i" using x x' by (simp add: active_slot_def same_entry_slot_def)
    with s e t have "slot_active t" by (auto simp: slot_inv_def act)
    moreover have "assigned_user_id t = Some (entry_user x)"
      using s e t t' x x'
      unfolding slot_inv_def act same_slot_use_def same_entry_slot_def by metis
    ultimately show "assigned_user_id t' = Some (entry_user x')"
      using t x by (simp add: same_slot_use_def same_entry_slot_def)
  qed
qed

lemma active_slot_frame [simp]:
  "active_slot (s\<lparr>q_sem := a\<rparr>) = active_slot s" "active_slot (s\<lparr>q_waiting := b\<rparr>) = active_slot s"
  "active_slot (s\<lparr>q_active := b\<rparr>) = active_slot s" "active_slot (s\<lparr>q_avg := c\<rparr>) = active_slot s"
  "active_slot (s\<lparr>q_tasks := g\<rparr>) = active_slot s" "active_slot (slot_upd i f s) = active_slot s"
  by (simp_all add: active_slot_def fun_eq_iff)

lemma unassign_same_use: "same_slot_use t (unassign_slot x t)"
  by (simp add: same_slot_use_def unassign_slot_def)

lemma slot_inv_enqueue:
  assumes "cap_inv s" "slot_inv s" and new: "entry_of s e = None"
  shows "slot_inv (enqueue s e user k lc p now)"
proof -
  have e: "e \<notin> set (dkeys (q_tasks s))" "e \<notin> set (q_active s)"
    using assms unfolding cap_inv_def by blast+
  show ?thesis
    by (rule slot_inv_cong [OF assms(2)])
      (use e assms(2) new in \<open>auto simp: enqueue_def Let_def active_slot_def dcount_dput dget_notin
        set_dkeys_dput py_simps phase_slot_def slot_inv_def intro!: rel_option_same split: if_splits\<close>)
qed

lemma slot_inv_select:
  assumes c: "cap_inv s" and i: "slot_inv s" and t: "dget (q_tasks s) e = Some Selecting"
  shows "slot_inv (acquire_select s e now)"
proof -
  obtain s' io where sel: "select_slot s e now = (s', io)" by fastforce
  have "distinct (dkeys (q_slots s))" using c by (simp add: cap_inv_def)
  from select_slot_rel [OF this sel] have r: "select_rel s e s' io" .
  obtain p' where p': "acquire_select s e now = s'\<lparr>q_tasks := dput e p' (q_tasks s')\<rparr>"
    and slot: "phase_slot p' = io" and h: "\<And>j. \<not> holds_slot j p'"
    by (cases io) (auto simp: acquire_select_def sel phase_slot_def)
  have io: "phase_slot p' = Some j \<Longrightarrow> dget (q_slots s) j \<noteq> None" for j
    using r slot dget_iff_keys [of "q_slots s" j] by (auto simp: select_rel_def)
  show ?thesis unfolding p'
    by (rule slot_inv_cong [OF i])
      (use r t h io i in_tasks [OF t] in \<open>auto simp: select_rel_def dcount_dput py_simps set_dkeys_dput
        slot_inv_def split: if_splits\<close>)
qed

lemma slot_inv_semaphore:
  assumes i: "slot_inv s" and t: "dget (q_tasks s) e = Some (WantSem io)"
  shows "slot_inv (acquire_semaphore s e io)"
proof -
  have io: "phase_slot (HasSem io) = Some j \<Longrightarrow> dget (q_slots s) j \<noteq> None" for j
    using slot_invD(3) [OF i t] by (simp add: phase_slot_def)
  show ?thesis
    by (rule slot_inv_cong [OF i])
      (use t io i in_tasks [OF t] in \<open>auto simp: acquire_semaphore_def dcount_dput py_simps set_dkeys_dput
        slot_inv_def intro!: rel_option_same split: if_splits\<close>)
qed

lemma slot_inv_slot_lock:
  assumes i: "slot_inv s" and t: "dget (q_tasks s) e = Some (WantSlot i)"
    and sl: "dget (q_slots s) i = Some t0" "\<not> slot_locked t0"
  shows "slot_inv (acquire_slot_lock s e i)"
proof -
  let ?s' = "acquire_slot_lock s e i"
  have act: "q_active ?s' = q_active s" and ent: "entry_of ?s' = entry_of s"
    and tasks: "q_tasks ?s' = dput e (WantSem (Some i)) (q_tasks s)"
    by (simp_all add: acquire_slot_lock_def fun_eq_iff)
  have slots: "dget (q_slots ?s') j =
      (if j = i then Some (t0\<lparr>slot_locked := True\<rparr>) else dget (q_slots s) j)" for j
    using sl by (simp add: acquire_slot_lock_def slots_of_slot_upd)
  have as: "active_slot ?s' = active_slot s" by (simp add: active_slot_def ent fun_eq_iff)
  have users: "slot_users ?s' j = slot_users s j + of_bool (j = i)" for j
    by (auto simp: slot_users_def as act tasks dcount_dput t)
  have u0: "slot_users s i = 0" using slot_invD(1) [OF i sl(1)] sl(2) by simp
  show ?thesis
    unfolding slot_inv_def act as users tasks ent slots
  proof (intro conjI allI ballI impI)
    fix j t'
    assume t': "(if j = i then Some (t0\<lparr>slot_locked := True\<rparr>) else dget (q_slots s) j) = Some t'"
    show "of_bool (slot_locked t') = slot_users s j + of_bool (j = i)"
      using t' u0 slot_invD(1) [OF i, of j] by (auto split: if_splits)
    show "slot_active t' = (\<exists>e\<in>set (q_active s). active_slot s e = Some j)"
      using t' slot_invD(2) [OF i, of j] sl by (auto split: if_splits)
  next
    fix x p j
    assume "dget (dput e (WantSem (Some i)) (q_tasks s)) x = Some p" "phase_slot p = Some j"
    then show "(if j = i then Some (t0\<lparr>slot_locked := True\<rparr>) else dget (q_slots s) j) \<noteq> None"
      using slot_invD(3) [OF i, of x p j] by (auto simp: py_simps phase_slot_def split: if_splits)
  next
    fix x j
    assume "x \<in> set (q_active s)" "active_slot s x = Some j"
    then show "(if j = i then Some (t0\<lparr>slot_locked := True\<rparr>) else dget (q_slots s) j) \<noteq> None"
      using slot_invD(4) [OF i, of x j] by auto
  next
    fix x
    assume "x \<in> set (dkeys (dput e (WantSem (Some i)) (q_tasks s)))"
    then show "active_slot s x = None"
      using slot_invD(5) [OF i, of x] in_tasks [OF t] by (auto simp: set_dkeys_dput)
  next
    fix x j t' y
    assume "x \<in> set (q_active s)" "entry_of s x = Some y" "entry_slot_id y = Some j"
      "(if j = i then Some (t0\<lparr>slot_locked := True\<rparr>) else dget (q_slots s) j) = Some t'"
      "slot_skind t' = KSticky"
    then show "assigned_user_id t' = Some (entry_user y)"
      using slot_invD(6) [OF i, of x y j] sl by (auto split: if_splits)
  qed
qed

lemma filter_remove1_count:
  "distinct xs \<Longrightarrow> e \<in> set xs \<Longrightarrow>
   int (length (filter P (remove1 e xs))) = int (length (filter P xs)) - of_bool (P e)"
  by (induction xs) auto

lemma slot_inv_unique:
  assumes s: "slot_inv s" and t: "dget (q_slots s) i = Some t"
    and u: "e \<in> set (q_active s)" "active_slot s e = Some i"
  shows "dcount (holds_slot i) (q_tasks s) = 0"
    and "e' \<in> set (q_active s) \<Longrightarrow> active_slot s e' = Some i \<Longrightarrow> e' = e \<or> \<not> distinct (q_active s)"
    and "slot_users s i = 1"
proof -
  let ?f = "filter (\<lambda>e. active_slot s e = Some i) (q_active s)"
  have le: "slot_users s i \<le> 1" using slot_invD(1) [OF s t] by simp
  have mem: "e \<in> set ?f" using u by simp
  then have ge: "1 \<le> length ?f" by (cases ?f) auto
  show cz: "dcount (holds_slot i) (q_tasks s) = 0" and "slot_users s i = 1"
    using le ge dcount_nonneg [of "holds_slot i" "q_tasks s"] by (auto simp: slot_users_def)
  have "length ?f = 1" using le ge cz by (simp add: slot_users_def)
  then obtain a where "?f = [a]" by (metis One_nat_def length_0_conv length_Suc_conv)
  then have all: "x \<in> set (q_active s) \<Longrightarrow> active_slot s x = Some i \<Longrightarrow> x = a" for x
    using filter_set [of "\<lambda>e. active_slot s e = Some i" "q_active s"] by auto
  then show "e' \<in> set (q_active s) \<Longrightarrow> active_slot s e' = Some i \<Longrightarrow> e' = e \<or> \<not> distinct (q_active s)"
    using u by metis
qed

lemma slot_inv_release:
  assumes c: "cap_inv s" and i: "slot_inv s" and e: "e \<in> set (q_active s)"
  shows "slot_inv (release s e el now)"
proof -
  let ?s' = "release s e el now"
  have d: "distinct (q_active s)" using c by (simp add: cap_inv_def)
  have act: "q_active ?s' = remove1 e (q_active s)" and ent: "entry_of ?s' = entry_of s"
    and tasks: "q_tasks ?s' = q_tasks s" by (simp_all add: release_fields)
  have as: "active_slot ?s' = active_slot s" by (simp add: active_slot_def ent fun_eq_iff)
  have mem: "x \<in> set (remove1 e (q_active s)) \<longleftrightarrow> x \<in> set (q_active s) \<and> x \<noteq> e" for x
    using d by simp
  have users: "slot_users ?s' j = slot_users s j - of_bool (active_slot s e = Some j)" for j
    by (simp add: slot_users_def as act tasks filter_remove1_count [OF d e])
  have slots: "dget (q_slots ?s') j =
      (if active_slot s e = Some j then map_option (release_slot now (q_cfg s)) (dget (q_slots s) j)
       else dget (q_slots s) j)" for j
    using e by (auto simp: release_def Let_def active_slot_def slots_of_slot_upd split: option.splits)
  have rel: "\<not> slot_locked (release_slot now cf t)" "\<not> slot_active (release_slot now cf t)" for cf t
    by (simp_all add: release_slot_def Let_def)
  show ?thesis
    unfolding slot_inv_def act as users tasks ent slots mem
  proof (intro conjI allI ballI impI)
    fix j t'
    assume t': "(if active_slot s e = Some j then map_option (release_slot now (q_cfg s)) (dget (q_slots s) j)
       else dget (q_slots s) j) = Some t'"
    show "of_bool (slot_locked t') = slot_users s j - of_bool (active_slot s e = Some j)"
      using t' slot_invD(1) [OF i, of j] slot_inv_unique(3) [OF i _ e, of j]
      by (auto simp: rel split: if_splits)
    show "slot_active t' = (\<exists>x\<in>set (remove1 e (q_active s)). active_slot s x = Some j)"
    proof (cases "active_slot s e = Some j")
      case True
      then obtain t where t: "dget (q_slots s) j = Some t" "t' = release_slot now (q_cfg s) t"
        using t' by auto
      have "\<not> (\<exists>x\<in>set (remove1 e (q_active s)). active_slot s x = Some j)"
        using slot_inv_unique(2) [OF i t(1) e True] d by (auto simp: mem)
      with t show ?thesis by (simp add: rel)
    next
      case False
      with t' slot_invD(2) [OF i, of j] show ?thesis by (auto simp: mem)
    qed
  next
    fix x j t y
    assume "x \<in> set (remove1 e (q_active s))" "entry_of s x = Some y" "entry_slot_id y = Some j"
      and t: "(if active_slot s e = Some j then map_option (release_slot now (q_cfg s)) (dget (q_slots s) j)
       else dget (q_slots s) j) = Some t" "slot_skind t = KSticky"
    then have x: "x \<in> set (q_active s)" "x \<noteq> e" "active_slot s x = Some j" "entry_of s x = Some y"
      "entry_slot_id y = Some j"
      by (auto simp: mem active_slot_def)
    have "active_slot s e \<noteq> Some j"
    proof
      assume a: "active_slot s e = Some j"
      then obtain t1 where "dget (q_slots s) j = Some t1" using slot_invD(4) [OF i e a] by auto
      from slot_inv_unique(2) [OF i this x(1) x(3) e a] d x(2) show False by auto
    qed
    with t x show "assigned_user_id t = Some (entry_user y)"
      using slot_invD(6) [OF i, of x y j t] by simp
  next
    fix x p j
    assume "dget (q_tasks s) x = Some p" "phase_slot p = Some j"
    then show "(if active_slot s e = Some j then map_option (release_slot now (q_cfg s)) (dget (q_slots s) j)
       else dget (q_slots s) j) \<noteq> None"
      using slot_invD(3) [OF i] by auto
  next
    fix x j
    assume "x \<in> set (remove1 e (q_active s))" "active_slot s x = Some j"
    then show "(if active_slot s e = Some j then map_option (release_slot now (q_cfg s)) (dget (q_slots s) j)
       else dget (q_slots s) j) \<noteq> None"
      using slot_invD(4) [OF i, of x j] by (auto simp: mem)
  next
    fix x
    assume "x \<in> set (dkeys (q_tasks s))"
    then show "active_slot s x = None" by (rule slot_invD(5) [OF i])
  qed
qed

text \<open>Activation: the entry moves from the suspended tasks to the active list, and takes the slot
  lock with it.\<close>

lemma entry_of_activate:
  "entry_of (acquire_activate s e io now) x =
     (if x = e then
        map_option (\<lambda>y. case io of
            None \<Rightarrow> y\<lparr>acquired_at := Some now\<rparr>
          | Some i \<Rightarrow> y\<lparr>acquired_at := Some now, entry_slot_id := Some i,
              entry_slot_kind := slot_kind_of s i,
              backend_extra_body := Some (i, cache_prompt (q_cfg s))\<rparr>)
          (entry_of s e)
      else entry_of s x)"
  by (auto simp: acquire_activate_def Let_def entry_of_entry_upd slot_kind_of_def option.map_comp o_def
      split: option.splits)

definition activate_slot :: "string \<Rightarrow> slot_state \<Rightarrow> slot_state" where
  "activate_slot user t =
     (if slot_skind t = KSticky
      then t\<lparr>slot_active := True, assigned_user_id := Some user, slot_expires_at := 0\<rparr>
      else t\<lparr>slot_active := True\<rparr>)"

lemma slots_of_activate:
  assumes "entry_of s e = Some x"
  shows "dget (q_slots (acquire_activate s e io now)) j =
    (if io = Some j then map_option (activate_slot (entry_user x)) (dget (q_slots s) j)
     else dget (q_slots s) j)"
  using assms
  by (cases io; cases "dget (q_slots s) j")
    (auto simp: acquire_activate_def Let_def slots_of_slot_upd entry_of_entry_upd slot_kind_of_def
      activate_slot_def)

lemma slot_inv_activate:
  assumes c: "cap_inv s" and i: "slot_inv s" and t: "dget (q_tasks s) e = Some (HasSem io)"
  shows "slot_inv (acquire_activate s e io now)"
proof -
  let ?s' = "acquire_activate s e io now"
  have e: "e \<in> set (dkeys (q_tasks s))" by (rule in_tasks [OF t])
  then obtain x where x: "entry_of s e = Some x" and na: "e \<notin> set (q_active s)"
    and d: "distinct (dkeys (q_tasks s))"
    using c unfolding cap_inv_def by blast
  have x0: "entry_slot_id x = None" using slot_invD(5) [OF i e] x by (simp add: active_slot_def)
  note ent = entry_of_activate [of s e io now] and slots = slots_of_activate [OF x, of io now]
  have as: "active_slot ?s' y = (if y = e then io else active_slot s y)" for y
    using x x0 by (auto simp: active_slot_def ent split: option.splits)
  have filt: "filter (\<lambda>y. (y = e \<longrightarrow> io = Some j) \<and> (y \<noteq> e \<longrightarrow> active_slot s y = Some j)) (q_active s) =
      filter (\<lambda>y. active_slot s y = Some j) (q_active s)" for j
    using na by (intro filter_cong) auto
  have users: "slot_users ?s' j = slot_users s j" for j
    using na by (simp add: slot_users_def filt as dcount_dpop [OF d] t)
  have only: "active_slot s y \<noteq> Some j" if io: "io = Some j" and y: "y \<in> set (q_active s)" for y j
  proof
    assume a: "active_slot s y = Some j"
    obtain t1 where "dget (q_slots s) j = Some t1"
      using slot_invD(3) [OF i t] io by (auto simp: phase_slot_def)
    from slot_inv_unique(1) [OF i this y a] dcount_pos [OF t, of "holds_slot j"] io
    show False by simp
  qed
  show ?thesis
    unfolding slot_inv_def users acquire_activate_fields
  proof (intro conjI allI ballI impI)
    fix j t'
    assume t': "dget (q_slots ?s') j = Some t'"
    then show "of_bool (slot_locked t') = slot_users s j"
      using slot_invD(1) [OF i, of j] by (auto simp: slots activate_slot_def split: if_splits)
    show "slot_active t' = (\<exists>y\<in>set (q_active s @ [e]). active_slot ?s' y = Some j)"
      using t' na slot_invD(2) [OF i, of j] by (auto simp: slots as activate_slot_def split: if_splits)
  next
    fix y p j
    assume "dget (dpop e (q_tasks s)) y = Some p" "phase_slot p = Some j"
    then show "dget (q_slots ?s') j \<noteq> None"
      using slot_invD(3) [OF i, of y p j] by (auto simp: slots py_simps split: if_splits)
  next
    fix y j
    assume "y \<in> set (q_active s @ [e])" "active_slot ?s' y = Some j"
    then show "dget (q_slots ?s') j \<noteq> None"
      using slot_invD(4) [OF i, of y j] slot_invD(3) [OF i t, of j]
      by (auto simp: slots as phase_slot_def split: if_splits)
  next
    fix y
    assume "y \<in> set (dkeys (dpop e (q_tasks s)))"
    then show "active_slot ?s' y = None"
      using slot_invD(5) [OF i, of y] by (auto simp: as set_dkeys_dpop)
  next
    fix y j t' z
    assume y: "y \<in> set (q_active s @ [e])" and z: "entry_of ?s' y = Some z" "entry_slot_id z = Some j"
      and t': "dget (q_slots ?s') j = Some t'" "slot_skind t' = KSticky"
    show "assigned_user_id t' = Some (entry_user z)"
    proof (cases "y = e")
      case True
      with z x x0 have io: "io = Some j" and u: "entry_user z = entry_user x"
        by (auto simp: ent split: option.splits)
      have "dget (q_slots ?s') j = map_option (activate_slot (entry_user x)) (dget (q_slots s) j)"
        using slots [of j] io by simp
      with t'(1) obtain t0 where "t' = activate_slot (entry_user x) t0" by auto
      with t'(2) u show ?thesis by (simp add: activate_slot_def split: if_splits)
    next
      case False
      then have ys: "y \<in> set (q_active s)" "entry_of s y = Some z" using y z by (auto simp: ent)
      then have "io \<noteq> Some j" using only [of j y] z(2) by (auto simp: active_slot_def)
      with t' have "dget (q_slots s) j = Some t'" by (simp add: slots)
      from slot_invD(6) [OF i ys z(2) this t'(2)] show ?thesis .
    qed
  qed
qed

text \<open>Cancellation: a slot lock that was taken is given back, an assignment that was made by the
  cancelled request is withdrawn unless the slot is in use.\<close>

definition cancel_slot :: "phase \<Rightarrow> queue_entry \<Rightarrow> slot_state \<Rightarrow> slot_state" where
  "cancel_slot p x t =
     (if phase_has_slot_lock p then (unassign_slot x t)\<lparr>slot_locked := False\<rparr> else unassign_slot x t)"

lemma slots_of_cancel:
  assumes "dget (q_tasks s) e = Some p" "entry_of s e = Some x"
  shows "dget (q_slots (cancel_acquire s e)) j =
    (if phase_slot p = Some j then map_option (cancel_slot p x) (dget (q_slots s) j)
     else dget (q_slots s) j)"
  using assms
  by (cases "phase_slot p"; cases "dget (q_slots s) j")
    (auto simp: cancel_acquire_def Let_def slots_of_slot_upd cancel_slot_def)

lemma slot_inv_cancel:
  assumes c: "cap_inv s" and i: "slot_inv s" and t: "dget (q_tasks s) e = Some p"
  shows "slot_inv (cancel_acquire s e)"
proof -
  let ?s' = "cancel_acquire s e"
  obtain x where x: "entry_of s e = Some x" and d: "distinct (dkeys (q_tasks s))"
    using c in_tasks [OF t] unfolding cap_inv_def by blast
  then have x': "entry_of s e \<noteq> None" by simp
  note f = cancel_acquire_fields [OF t x'] and slots = slots_of_cancel [OF t x]
  have as: "active_slot ?s' = active_slot s" by (simp add: active_slot_def f fun_eq_iff)
  have users: "slot_users ?s' j = slot_users s j - of_bool (holds_slot j p)" for j
    by (simp add: slot_users_def as f dcount_dpop [OF d] t)
  have un: "slot_locked (unassign_slot x t) = slot_locked t" "slot_active (unassign_slot x t) = slot_active t"
    "slot_skind (unassign_slot x t) = slot_skind t" for t
    by (simp_all add: unassign_slot_def)
  have keep: "slot_active (cancel_slot p x t) = slot_active t"
    "slot_skind (cancel_slot p x t) = slot_skind t"
    "slot_active t \<Longrightarrow> assigned_user_id (cancel_slot p x t) = assigned_user_id t" for t
    by (simp_all add: cancel_slot_def unassign_slot_def)
  show ?thesis
    unfolding slot_inv_def as users f
  proof (intro conjI allI ballI impI)
    fix j t'
    assume t': "dget (q_slots ?s') j = Some t'"
    then obtain t0 where t0: "dget (q_slots s) j = Some t0"
      "t' = (if phase_slot p = Some j then cancel_slot p x t0 else t0)"
      by (auto simp: slots split: if_splits)
    have one: "slot_locked t0" if "holds_slot j p"
      using slot_invD(1) [OF i t0(1)] dcount_pos [OF t, of "holds_slot j"] that
      by (cases "slot_locked t0") (auto simp: slot_users_def)
    show "of_bool (slot_locked t') = slot_users s j - of_bool (holds_slot j p)"
      using t0 one slot_invD(1) [OF i t0(1)]
      by (auto simp: cancel_slot_def holds_slot_def un)
    show "slot_active t' = (\<exists>y\<in>set (q_active s). active_slot s y = Some j)"
      using t0 slot_invD(2) [OF i t0(1)] by (simp add: keep)
  next
    fix y q j
    assume "dget (dpop e (q_tasks s)) y = Some q" "phase_slot q = Some j"
    then show "dget (q_slots ?s') j \<noteq> None"
      using slot_invD(3) [OF i, of y q j] by (auto simp: slots py_simps split: if_splits)
  next
    fix y j
    assume "y \<in> set (q_active s)" "active_slot s y = Some j"
    then show "dget (q_slots ?s') j \<noteq> None" using slot_invD(4) [OF i, of y j] by (auto simp: slots)
  next
    fix y
    assume "y \<in> set (dkeys (dpop e (q_tasks s)))"
    then show "active_slot s y = None" using slot_invD(5) [OF i, of y] by (auto simp: set_dkeys_dpop)
  next
    fix y j t' z
    assume y: "y \<in> set (q_active s)" "entry_of s y = Some z" "entry_slot_id z = Some j"
      and t': "dget (q_slots ?s') j = Some t'" "slot_skind t' = KSticky"
    obtain t0 where t0: "dget (q_slots s) j = Some t0"
      "t' = (if phase_slot p = Some j then cancel_slot p x t0 else t0)"
      using t'(1) by (auto simp: slots split: if_splits)
    have "active_slot s y = Some j" using y by (simp add: active_slot_def)
    then have "slot_active t0" using slot_invD(2) [OF i t0(1)] y(1) by blast
    with t0 t' keep slot_invD(6) [OF i y t0(1)] show "assigned_user_id t' = Some (entry_user z)"
      by (simp split: if_splits)
  qed
qed

lemma slot_inv_step:
  assumes "cap_inv s" "slot_inv s" "qstep True s t"
  shows "slot_inv t"
  using assms(3)
proof cases
  case (q_release e elapsed now)
  then show ?thesis using slot_inv_release [OF assms(1,2)] by simp
qed (use assms(1,2) in \<open>auto intro: slot_inv_enqueue slot_inv_select slot_inv_slot_lock
      slot_inv_semaphore slot_inv_activate slot_inv_cancel\<close>)

lemma make_slots_new: "dget (make_slots c) i = Some t \<Longrightarrow> \<exists>k. t = new_slot k"
proof -
  have f: "\<forall>i t. dget d i = Some t \<longrightarrow> (\<exists>k. t = new_slot k) \<Longrightarrow>
      \<forall>i t. dget (fold (\<lambda>i d. dput i (new_slot k) d) is d) i = Some t \<longrightarrow> (\<exists>k. t = new_slot k)"
    for k "is" d
  proof (induction "is" arbitrary: d)
    case Nil
    then show ?case by simp
  next
    case (Cons a "is")
    have "\<forall>i t. dget (dput a (new_slot k) d) i = Some t \<longrightarrow> (\<exists>k. t = new_slot k)"
      using Cons.prems by (auto simp: py_simps)
    from Cons.IH [OF this] show ?case by simp
  qed
  have "\<forall>i t. dget (make_slots c) i = Some t \<longrightarrow> (\<exists>k. t = new_slot k)"
    unfolding make_slots_def by (intro f) simp
  then show "dget (make_slots c) i = Some t \<Longrightarrow> \<exists>k. t = new_slot k" by blast
qed

lemma slot_inv_start: "queue_start n st c s \<Longrightarrow> slot_inv s"
  by (auto simp: queue_start_def slot_inv_def queue_init_def Let_def slot_users_def new_slot_def
      dest!: make_slots_new split: if_splits)

interpretation slots: invariant_system "queue_start n st c" "qstep True" queue_inv
  by unfold_locales
    (auto simp: queue_inv_def intro: cap_inv_start slot_inv_start cap_inv_step slot_inv_step)


text \<open>The limit itself never changes.\<close>

lemma qstep_max: "qstep strict s t \<Longrightarrow> q_max t = q_max s"
proof (induction rule: qstep.induct)
  case (q_select s e now)
  obtain s' io where sel: "select_slot s e now = (s', io)" by fastforce
  have "q_max s' = q_max s"
    using sel slot_affinity_applies_frame
    by (auto simp: select_slot_def Let_def split: option.splits prod.splits bool.splits if_splits)
      (metis fst_conv qstate.select_convs(2) qstate.surjective qstate.update_convs(9))+
  then show ?case using sel by (simp add: acquire_select_def split: option.splits)
next
  case (q_cancel s e p)
  then show ?case
    by (cases "entry_of s e") (auto simp: cancel_acquire_def Let_def split: option.splits)
qed (auto simp: enqueue_def Let_def acquire_slot_lock_def acquire_semaphore_def
      acquire_activate_def release_def split: option.splits)

interpretation limit: invariant_system "queue_start n st c" "qstep strict" "\<lambda>s. q_max s = n \<and> 0 \<le> n"
  by unfold_locales (auto simp: queue_start_def queue_init_def Let_def dest: qstep_max)


section \<open>A concrete run\<close>

text \<open>Two workers, one sticky slot (0) and one overflow slot (1). The run \<open>full_run\<close> ends with
  a request of ''a'' on the sticky slot and a request of ''b'' on the overflow slot.\<close>

definition sample_affinity :: slot_affinity_config where
  "sample_affinity = \<lparr>sa_enabled = True, provider_names = [''p''], sticky_slot_ids = [0],
     overflow_slot_ids = [1], idle_ttl_seconds = 60, cache_prompt = True\<rparr>"

definition admit :: "nat \<Rightarrow> string \<Rightarrow> qstate \<Rightarrow> qstate" where
  "admit e user s = acquire_select (enqueue s e user ''default'' Interactive (Some ''p'') 1) e 1"

definition occupy :: "nat \<Rightarrow> int \<Rightarrow> qstate \<Rightarrow> qstate" where
  "occupy e i s = acquire_activate (acquire_semaphore (acquire_slot_lock s e i) e (Some i)) e (Some i) 1"

definition full_run :: qstate where
  "full_run = occupy 1 1 (admit 1 ''b'' (occupy 0 0 (admit 0 ''a''
     (queue_init 2 SlotAffinity sample_affinity))))"

definition drained_run :: qstate where
  "drained_run = release (release full_run 0 3 4) 1 2 5"

lemmas run_defs = admit_def occupy_def full_run_def drained_run_def sample_affinity_def
  queue_init_def make_slots_def new_slot_def enqueue_def acquire_select_def select_slot_def
  slot_affinity_applies_def is_sticky_eligible_def assigned_sticky_slot_def free_sticky_slot_def
  overflow_slot_def expire_slot_def expire_idle_slots_def slot_upd_def entry_upd_def
  acquire_slot_lock_def acquire_semaphore_def acquire_activate_def release_def release_slot_def
  slot_kind_of_def entry_of_def dict_rec Let_def

lemma reach_admit:
  assumes "reach st (qstep b) s" and "entry_of s e = None"
  shows "reach st (qstep b) (admit e user s)"
proof -
  have "reach st (qstep b) (enqueue s e user ''default'' Interactive (Some ''p'') 1)"
    using assms by (blast intro: reach_step q_enqueue)
  moreover have "dget (q_tasks (enqueue s e user ''default'' Interactive (Some ''p'') 1)) e = Some Selecting"
    by (simp add: enqueue_def Let_def py_simps)
  ultimately show ?thesis unfolding admit_def by (blast intro: reach_step q_select)
qed

lemma reach_occupy:
  assumes r: "reach st (qstep b) s" and t: "dget (q_tasks s) e = Some (WantSlot i)"
    and i: "map_option slot_locked (dget (q_slots s) i) = Some False" and sem: "0 < q_sem s"
  shows "reach st (qstep b) (occupy e i s)"
proof -
  let ?s1 = "acquire_slot_lock s e i"
  let ?s2 = "acquire_semaphore ?s1 e (Some i)"
  have 1: "reach st (qstep b) ?s1" using r t i by (auto intro: reach_step q_slot_lock)
  have "dget (q_tasks ?s1) e = Some (WantSem (Some i))" "0 < q_sem ?s1"
    using sem by (simp_all add: acquire_slot_lock_def py_simps)
  with 1 have 2: "reach st (qstep b) ?s2" by (blast intro: reach_step q_semaphore)
  have "dget (q_tasks ?s2) e = Some (HasSem (Some i))" by (simp add: acquire_semaphore_def py_simps)
  with 2 show ?thesis unfolding occupy_def by (blast intro: reach_step q_activate)
qed

lemma reach_full_run: "reach (queue_start 2 SlotAffinity sample_affinity) (qstep b) full_run"
  unfolding full_run_def
  by (intro reach_occupy reach_admit reach_start; (simp add: queue_start_def; fail)?; code_simp)


lemma reach_drained_run: "reach (queue_start 2 SlotAffinity sample_affinity) (qstep True) drained_run"
  unfolding drained_run_def
  by (rule reach_step [OF reach_step [OF reach_full_run q_release] q_release])
    (simp_all add: run_defs)

text \<open>The observable state at the end of both runs.\<close>

lemma full_run_fields:
  "q_sem full_run = 0" "q_active full_run = [0, 1]" "q_tasks full_run = []"
  "map_option entry_slot_id (entry_of full_run 0) = Some (Some 0)"
  "map_option entry_user (entry_of full_run 0) = Some ''a''"
  by (simp_all add: run_defs)

lemma drained_run_fields:
  "q_sem drained_run = 2" "q_active drained_run = []" "q_tasks drained_run = []"
  "map_option assigned_user_id (dget (q_slots drained_run) 0) = Some (Some ''a'')"
  by (simp_all add: run_defs)

section \<open>Properties\<close>

text \<open>C11: in every interleaving of requests, cancellations and releases (stray and repeated
  releases included) the number of active requests stays within \<open>max_concurrent\<close>, and every
  unit of the semaphore is free, held by one request about to become active, or used by one
  active request.\<close>

lemma queue_respects_limit:
  assumes "reach (queue_start n st c) (qstep strict) s"
  shows "0 \<le> q_sem s \<and> q_sem s + int (active_count s) + dcount phase_has_sem (q_tasks s) = n \<and>
    int (active_count s) \<le> n"
  using capacity.reach_inv [OF assms] limit.reach_inv [OF assms]
    dcount_nonneg [of phase_has_sem "q_tasks s"]
  by (auto simp: cap_inv_def active_count_def)

lemma queue_respects_limit_witness:
  "q_sem full_run + int (active_count full_run) + dcount phase_has_sem (q_tasks full_run) = 2 \<and>
   active_count full_run = 2"
  using queue_respects_limit [OF reach_full_run [of False]]
  by (simp add: full_run_fields active_count_def)

text \<open>C12: as long as callers release only what is active, a backend slot is never used by
  two active requests at once, and a sticky slot that serves a request is assigned to the user
  of that request.\<close>

lemma slots_exclusive_and_affine:
  assumes r: "reach (queue_start n st c) (qstep True) s"
    and e: "e \<in> set (q_active s)" "entry_of s e = Some x" "entry_slot_id x = Some i"
  shows "\<exists>t. dget (q_slots s) i = Some t \<and> slot_locked t \<and> slot_active t \<and>
      (slot_skind t = KSticky \<longrightarrow> assigned_user_id t = Some (entry_user x)) \<and>
      (\<forall>f\<in>set (q_active s). active_slot s f = Some i \<longrightarrow> f = e)"
proof -
  have c: "cap_inv s" and inv: "slot_inv s" using slots.reach_inv [OF r] by (auto simp: queue_inv_def)
  have a: "active_slot s e = Some i" using e by (simp add: active_slot_def)
  obtain t where t: "dget (q_slots s) i = Some t" using slot_invD(4) [OF inv e(1) a] by auto
  have u: "slot_users s i = of_bool (slot_locked t)" by (rule slot_invD(1) [OF inv t])
  let ?users = "filter (\<lambda>f. active_slot s f = Some i) (q_active s)"
  have mem: "e \<in> set ?users" using e a by simp
  have le: "length ?users \<le> 1"
    using u dcount_nonneg [of "holds_slot i" "q_tasks s"]
    by (cases "slot_locked t") (auto simp: slot_users_def)
  then have "?users = [e]" using mem by (cases ?users) auto
  then have "{f \<in> set (q_active s). active_slot s f = Some i} = {e}"
    by (metis list.set(1,2) set_filter)
  then have uniq: "\<forall>f\<in>set (q_active s). active_slot s f = Some i \<longrightarrow> f = e" by blast
  have "slot_locked t"
    using u mem dcount_nonneg [of "holds_slot i" "q_tasks s"]
    by (cases "slot_locked t"; cases ?users) (auto simp: slot_users_def)
  moreover have "slot_active t" using slot_invD(2) [OF inv t] e a by blast
  ultimately show ?thesis using t uniq slot_invD(6) [OF inv e t] by blast
qed

lemma slots_exclusive_and_affine_witness:
  "\<exists>t x. entry_of full_run 0 = Some x \<and> entry_user x = ''a'' \<and>
     dget (q_slots full_run) 0 = Some t \<and> slot_locked t \<and> slot_active t"
proof -
  obtain x where x: "entry_of full_run 0 = Some x" "entry_slot_id x = Some 0" "entry_user x = ''a''"
    using full_run_fields by auto
  have "0 \<in> set (q_active full_run)" by (simp add: full_run_fields)
  from slots_exclusive_and_affine [OF reach_full_run this x(1,2)] x show ?thesis by blast
qed

text \<open>nothing leaks. Once every request has been released or cancelled, in whatever
  order, all permits are back in the semaphore, nobody is listed as waiting, and no backend
  slot is locked or active.\<close>

lemma queue_quiescence_restores:
  assumes r: "reach (queue_start n st c) (qstep True) s"
    and q: "q_tasks s = []" "q_active s = []"
  shows "q_sem s = n \<and> q_waiting s = [] \<and>
    (\<forall>i t. dget (q_slots s) i = Some t \<longrightarrow> \<not> slot_locked t \<and> \<not> slot_active t)"
proof -
  have c: "cap_inv s" and inv: "slot_inv s" using slots.reach_inv [OF r] by (auto simp: queue_inv_def)
  have n: "q_max s = n" using limit.reach_inv [OF r] by simp
  have w: "q_sem s = n" "q_waiting s = []" using c q n by (auto simp: cap_inv_def dcount_def)
  have "\<not> slot_locked t \<and> \<not> slot_active t" if "dget (q_slots s) i = Some t" for i t
    using slot_invD(1,2) [OF inv that] q by (auto simp: slot_users_def dcount_def)
  with w show ?thesis by blast
qed

lemma queue_quiescence_restores_witness:
  "q_sem drained_run = 2 \<and> q_waiting drained_run = []"
  using queue_quiescence_restores [OF reach_drained_run] by (simp add: drained_run_fields)

text \<open>The condition under which the event loop resumes a suspended \<open>acquire\<close>.\<close>

definition can_advance :: "qstate \<Rightarrow> nat \<Rightarrow> bool" where
  "can_advance s e =
     (case dget (q_tasks s) e of
        None \<Rightarrow> False
      | Some Selecting \<Rightarrow> True
      | Some (WantSlot i) \<Rightarrow> (case dget (q_slots s) i of None \<Rightarrow> False | Some t \<Rightarrow> \<not> slot_locked t)
      | Some (WantSem io) \<Rightarrow> q_sem s > 0
      | Some (HasSem io) \<Rightarrow> True)"

lemma dcount_witness: "0 < dcount P d \<Longrightarrow> \<exists>k v. (k, v) \<in> set d \<and> P v"
proof (induction d)
  case (Cons kv d)
  then show ?case by (cases kv; cases "P (snd kv)") auto
qed simp

lemma holder_advances:
  assumes c: "cap_inv s" and n: "0 < q_max s" and a: "q_active s = []"
    and t: "dget (q_tasks s) e = Some p" and p: "p = WantSem io \<or> p = HasSem io"
  shows "\<exists>e. can_advance s e"
proof (cases "0 < q_sem s")
  case True
  then show ?thesis using t p by (intro exI [of _ e]) (auto simp: can_advance_def)
next
  case False
  then have "0 < dcount phase_has_sem (q_tasks s)" using c n a by (auto simp: cap_inv_def)
  then obtain f q where "(f, q) \<in> set (q_tasks s)" "phase_has_sem q" using dcount_witness by blast
  moreover then have "dget (q_tasks s) f = Some q" using c by (auto simp: cap_inv_def dget_in_set)
  ultimately show ?thesis
    by (intro exI [of _ f]) (auto simp: can_advance_def phase_has_sem_def split: phase.splits)
qed


definition waiting_run :: qstate where
  "waiting_run = admit 1 ''a'' (admit 0 ''a'' (queue_init 1 SlotAffinity sample_affinity))"


text \<open>Request 0 has been released, request 1 holds its slot and request 2 waits for it.\<close>

definition reused_slot_run :: qstate where
  "reused_slot_run =
     admit 2 ''a'' (occupy 1 0 (admit 1 ''a'' (release (occupy 0 0
       (admit 0 ''a'' (queue_init 2 SlotAffinity sample_affinity))) 0 3 4)))"

lemma reach_release_any:
  "reach st (qstep False) s \<Longrightarrow> entry_of s e \<noteq> None \<Longrightarrow> reach st (qstep False) (release s e d t)"
  by (auto intro: reach_step q_release)

lemma stale_release_state:
  assumes "d \<notin> set (q_active s)" and "active_slot s d = Some i"
  shows "release s d elapsed now = slot_upd i (release_slot now (q_cfg s)) s"
  using assms by (cases "entry_of s d") (auto simp: release_def Let_def active_slot_def)

lemma occupy_shares:
  assumes "entry_of s f = Some x"
  shows "q_active (occupy f i s) = q_active s @ [f]" "active_slot (occupy f i s) f = Some i"
    "e \<noteq> f \<Longrightarrow> active_slot (occupy f i s) e = active_slot s e"
  using assms by (simp_all add: occupy_def acquire_activate_def acquire_semaphore_def acquire_slot_lock_def
      active_slot_def Let_def entry_of_entry_upd)

text \<open>C14: a repeated release is not harmless. The semaphore is guarded against it, the slot is not: in any
  state where request \<open>d\<close> is no longer active, request \<open>e\<close> is active on the slot \<open>d\<close> had, and request \<open>f\<close>
  waits for the lock of that slot, which is taken, releasing \<open>d\<close> once more unlocks the slot and marks it
  inactive although \<open>e\<close> still uses it; \<open>f\<close> can then go on, and with a free permit the steps it takes make it
  active on the same backend slot as \<open>e\<close>.\<close>

lemma double_release_shares_slot:
  assumes r: "reach (queue_start n st c) (qstep False) s"
    and d: "d \<notin> set (q_active s)" "active_slot s d = Some i"
    and e: "e \<in> set (q_active s)" "active_slot s e = Some i"
    and f: "dget (q_tasks s) f = Some (WantSlot i)" "entry_of s f = Some x" "f \<noteq> e"
    and t: "dget (q_slots s) i = Some t" "slot_locked t"
    and permit: "0 < q_sem s"
  shows "\<not> can_advance s f \<and> can_advance (release s d elapsed now) f \<and>
    (\<exists>t'. dget (q_slots (release s d elapsed now)) i = Some t' \<and> \<not> slot_locked t' \<and> \<not> slot_active t') \<and>
    reach (queue_start n st c) (qstep False) (occupy f i (release s d elapsed now)) \<and>
    {e, f} \<subseteq> set (q_active (occupy f i (release s d elapsed now))) \<and>
    active_slot (occupy f i (release s d elapsed now)) e = Some i \<and>
    active_slot (occupy f i (release s d elapsed now)) f = Some i"
proof -
  let ?s = "release s d elapsed now"
  note rel = stale_release_state [OF d, of elapsed now]
  have slot: "dget (q_slots ?s) i = Some (release_slot now (q_cfg s) t)"
    unfolding rel slots_of_slot_upd using t(1) by simp
  have free: "\<not> slot_locked (release_slot now (q_cfg s) t)" "\<not> slot_active (release_slot now (q_cfg s) t)"
    by (simp_all add: release_slot_def Let_def)
  have same: "q_tasks ?s = q_tasks s" "q_active ?s = q_active s" "q_sem ?s = q_sem s" "entry_of ?s k = entry_of s k" for k
    unfolding rel by simp_all
  have "reach (queue_start n st c) (qstep False) ?s"
    using reach_release_any [OF r, where e = d] d(2) by (cases "entry_of s d") (auto simp: active_slot_def)
  then have "reach (queue_start n st c) (qstep False) (occupy f i ?s)"
    by (rule reach_occupy) (use f slot free permit in \<open>simp_all add: same\<close>)
  moreover have "\<not> can_advance s f" "can_advance ?s f"
    using f t slot free by (simp_all add: can_advance_def same)
  ultimately show ?thesis
    using slot free e f occupy_shares [where s = ?s and f = f and x = x] by (simp add: same active_slot_def)
qed

lemma double_release_shares_slot_witness:
  "active_slot (occupy 2 0 (release reused_slot_run 0 3 5)) 1 = Some 0 \<and>
   active_slot (occupy 2 0 (release reused_slot_run 0 3 5)) 2 = Some 0 \<and>
   {1, 2} \<subseteq> set (q_active (occupy 2 0 (release reused_slot_run 0 3 5)))"
proof -
  have "reach (queue_start 2 SlotAffinity sample_affinity) (qstep False) reused_slot_run"
    unfolding reused_slot_run_def
    by (intro reach_occupy reach_admit reach_release_any reach_start;
      (simp add: queue_start_def; fail)?; code_simp)
  note reached = this
  have "map_option entry_slot_id (entry_of reused_slot_run 2) = Some None"
    "map_option slot_locked (dget (q_slots reused_slot_run) 0) = Some True" by code_simp+
  then obtain x t where x: "entry_of reused_slot_run 2 = Some x"
    and t: "dget (q_slots reused_slot_run) 0 = Some t" "slot_locked t" by auto
  have run: "0 \<notin> set (q_active reused_slot_run)" "active_slot reused_slot_run 0 = Some 0"
    "1 \<in> set (q_active reused_slot_run)" "active_slot reused_slot_run 1 = Some 0"
    "dget (q_tasks reused_slot_run) 2 = Some (WantSlot 0)" "0 < q_sem reused_slot_run" by code_simp+
  show ?thesis
    using double_release_shares_slot [OF reached run(1-5) x _ t run(6), of 3 5] by simp
qed

end
