(* ===== verification/Rbac.thy ===== *)
theory Rbac
  imports BudgetGuards
begin

text \<open>
  \<open>departments/manager.py\<close> and \<open>departments/permissions.py\<close>: department records, their
  parsing from YAML mappings, overlay merging, and the permission checks built on the table.
  The YAML library is not modelled: a loaded document is a \<open>json\<close> value, whose object keys
  are already the strings \<open>str(slug)\<close> gives.
\<close>

section \<open>Department records\<close>

record department =
  dept_name :: string
  dept_profile :: string
  allowed_tools :: "string list"
  allowed_skills :: "string list"
  allowed_plugins :: "string list"
  allowed_subagents :: "string list"
  allowed_mcp :: "string list"
  dept_budget :: budget_config

datatype dept_error =
    NameNotString | NotAStringList string | BudgetNotMapping | BudgetNotInt
  | NotAMapping string | BadDocument

type_synonym yaml_map = "(string \<times> json) list"

definition ALLOWLIST_FIELDS :: "string list" where
  "ALLOWLIST_FIELDS =
     [''allowed_tools'', ''allowed_skills'', ''allowed_plugins'', ''allowed_subagents'', ''allowed_mcp'']"

definition union_allowlists :: "string list \<Rightarrow> string list \<Rightarrow> string list" where
  "union_allowlists a b =
     (let merged = dedup_keep_first (a @ b) in if ''*'' \<in> set merged then [''*''] else merged)"

section \<open>Parsing\<close>

text \<open>\<open>isinstance(x, list) and all(isinstance(item, str) for item in x)\<close>.\<close>

fun string_items :: "json list \<Rightarrow> string list option" where
  "string_items [] = Some []"
| "string_items (JStr s # js) = map_option ((#) s) (string_items js)"
| "string_items (_ # js) = None"

definition as_string_list :: "json \<Rightarrow> string list option" where
  "as_string_list j = (case j of JArr js \<Rightarrow> string_items js | _ \<Rightarrow> None)"

definition parse_allowlist :: "yaml_map \<Rightarrow> string \<Rightarrow> string list \<Rightarrow> dept_error + string list" where
  "parse_allowlist data field dflt =
     (case jget data field of
        None \<Rightarrow> Inr dflt
      | Some raw \<Rightarrow>
          (case as_string_list raw of None \<Rightarrow> Inl (NotAStringList field) | Some l \<Rightarrow> Inr l))"

definition parse_str :: "yaml_map \<Rightarrow> string \<Rightarrow> string \<Rightarrow> dept_error + string" where
  "parse_str data field dflt =
     (case jget data field of None \<Rightarrow> Inr dflt | Some (JStr s) \<Rightarrow> Inr s | Some _ \<Rightarrow> Inl NameNotString)"

definition parse_budget_int :: "yaml_map \<Rightarrow> string \<Rightarrow> int \<Rightarrow> dept_error + int" where
  "parse_budget_int b field dflt =
     (case jget b field of None \<Rightarrow> Inr dflt | Some (JInt n) \<Rightarrow> Inr n | Some _ \<Rightarrow> Inl BudgetNotInt)"

definition parse_budget :: "yaml_map \<Rightarrow> dept_error + budget_config" where
  "parse_budget data =
     (case (case jget data ''budget'' of None \<Rightarrow> JObj [] | Some b \<Rightarrow> b) of
        JObj b \<Rightarrow>
          (case (parse_budget_int b ''max_iterations'' 15, parse_budget_int b ''max_tool_calls'' 30) of
             (Inr i, Inr c) \<Rightarrow>
               Inr \<lparr>budget_enabled = True, max_iterations = i, max_tool_calls = c, max_time_ms = 300000\<rparr>
           | _ \<Rightarrow> Inl BudgetNotInt)
      | _ \<Rightarrow> Inl BudgetNotMapping)"

definition and_then :: "'e + 'a \<Rightarrow> ('a \<Rightarrow> 'e + 'b) \<Rightarrow> 'e + 'b" where
  "and_then r f = (case r of Inl e \<Rightarrow> Inl e | Inr x \<Rightarrow> f x)"

text \<open>\<open>DepartmentConfig.__init__\<close>, checks in the order of the code.\<close>

definition department_config :: "yaml_map \<Rightarrow> dept_error + department" where
  "department_config data =
     and_then (parse_str data ''description'' ''Unknown'') (\<lambda>name.
     and_then (parse_str data ''profile'' ''default'') (\<lambda>profile.
     and_then (parse_allowlist data ''allowed_tools'' [''*'']) (\<lambda>tools.
     and_then (parse_allowlist data ''allowed_skills'' [''*'']) (\<lambda>skills.
     and_then (parse_allowlist data ''allowed_plugins'' [''*'']) (\<lambda>plugins.
     and_then (parse_allowlist data ''allowed_subagents'' []) (\<lambda>subagents.
     and_then (parse_allowlist data ''allowed_mcp'' [''*'']) (\<lambda>mcp.
     and_then (parse_budget data) (\<lambda>budget.
       Inr \<lparr>dept_name = name, dept_profile = profile, allowed_tools = tools,
         allowed_skills = skills, allowed_plugins = plugins, allowed_subagents = subagents,
         allowed_mcp = mcp, dept_budget = budget\<rparr>))))))))"

definition to_data :: "department \<Rightarrow> yaml_map" where
  "to_data d =
     [(''description'', JStr (dept_name d)), (''profile'', JStr (dept_profile d)),
      (''allowed_tools'', JArr (map JStr (allowed_tools d))),
      (''allowed_skills'', JArr (map JStr (allowed_skills d))),
      (''allowed_plugins'', JArr (map JStr (allowed_plugins d))),
      (''allowed_subagents'', JArr (map JStr (allowed_subagents d))),
      (''allowed_mcp'', JArr (map JStr (allowed_mcp d))),
      (''budget'', JObj [(''max_iterations'', JInt (max_iterations (dept_budget d))),
                       (''max_tool_calls'', JInt (max_tool_calls (dept_budget d)))])]"

section \<open>The table and its files\<close>

type_synonym departments = "(string, department) pydict"

definition allowlist_field :: "department \<Rightarrow> string \<Rightarrow> string list" where
  "allowlist_field d field =
     (if field = ''allowed_tools'' then allowed_tools d
      else if field = ''allowed_skills'' then allowed_skills d
      else if field = ''allowed_plugins'' then allowed_plugins d
      else if field = ''allowed_subagents'' then allowed_subagents d
      else allowed_mcp d)"

text \<open>One iteration of the loop over \<open>_ALLOWLIST_FIELDS\<close> in \<open>_merge_department\<close>.\<close>

definition merge_field :: "department \<Rightarrow> yaml_map \<Rightarrow> string \<Rightarrow> yaml_map \<Rightarrow> dept_error + yaml_map" where
  "merge_field existing overlay field merged =
     (case jget overlay field of
        None \<Rightarrow> Inr merged
      | Some raw \<Rightarrow>
          (case as_string_list raw of
             None \<Rightarrow> Inl (NotAStringList field)
           | Some l \<Rightarrow>
               Inr (dput field (JArr (map JStr (union_allowlists (allowlist_field existing field) l))) merged)))"

fun merge_fields :: "department \<Rightarrow> yaml_map \<Rightarrow> string list \<Rightarrow> yaml_map \<Rightarrow> dept_error + yaml_map" where
  "merge_fields existing overlay [] merged = Inr merged"
| "merge_fields existing overlay (f # fs) merged =
     and_then (merge_field existing overlay f merged) (merge_fields existing overlay fs)"

definition copy_key :: "string \<Rightarrow> yaml_map \<Rightarrow> yaml_map \<Rightarrow> yaml_map" where
  "copy_key k overlay merged =
     (case jget overlay k of None \<Rightarrow> merged | Some v \<Rightarrow> dput k v merged)"

definition merge_budget :: "department \<Rightarrow> yaml_map \<Rightarrow> yaml_map \<Rightarrow> dept_error + yaml_map" where
  "merge_budget existing overlay merged =
     (case jget overlay ''budget'' of
        None \<Rightarrow> Inr merged
      | Some (JObj b) \<Rightarrow>
          Inr (dput ''budget''
            (JObj [(''max_iterations'', case jget b ''max_iterations'' of
                      Some v \<Rightarrow> v | None \<Rightarrow> JInt (max_iterations (dept_budget existing))),
                   (''max_tool_calls'', case jget b ''max_tool_calls'' of
                      Some v \<Rightarrow> v | None \<Rightarrow> JInt (max_tool_calls (dept_budget existing)))]) merged)
      | Some _ \<Rightarrow> Inl BudgetNotMapping)"

definition merge_department :: "department \<Rightarrow> yaml_map \<Rightarrow> dept_error + department" where
  "merge_department existing overlay =
     and_then (merge_fields existing overlay ALLOWLIST_FIELDS
        (copy_key ''profile'' overlay (copy_key ''description'' overlay (to_data existing))))
       (\<lambda>m. and_then (merge_budget existing overlay m) department_config)"

definition load_department :: "bool \<Rightarrow> departments \<Rightarrow> string \<Rightarrow> json \<Rightarrow> dept_error + departments" where
  "load_department merge pending slug dept_data =
     (case dept_data of
        JObj d \<Rightarrow>
          and_then
            (case dget pending slug of
               Some existing \<Rightarrow> if merge then merge_department existing d else department_config d
             | None \<Rightarrow> department_config d)
            (\<lambda>c. Inr (dput slug c pending))
      | _ \<Rightarrow> Inl (NotAMapping slug))"

fun load_departments :: "bool \<Rightarrow> yaml_map \<Rightarrow> departments \<Rightarrow> dept_error + departments" where
  "load_departments merge [] pending = Inr pending"
| "load_departments merge ((slug, d) # rest) pending =
     and_then (load_department merge pending slug d) (load_departments merge rest)"

text \<open>\<open>yaml.safe_load(f) or {}\<close>, then \<open>data.get("departments", {}).items()\<close>.\<close>

definition document_departments :: "json \<Rightarrow> dept_error + yaml_map" where
  "document_departments doc =
     (case (if doc \<in> {JNull, JBool False, JInt 0, JNum 0, JStr '''', JArr [], JObj []} then JObj [] else doc) of
        JObj d \<Rightarrow>
          (case jget d ''departments'' of
             None \<Rightarrow> Inr [] | Some (JObj ds) \<Rightarrow> Inr ds | Some _ \<Rightarrow> Inl BadDocument)
      | _ \<Rightarrow> Inl BadDocument)"

text \<open>\<open>load_file\<close>: \<open>None\<close> is a missing file, \<open>Some (Inl e)\<close> a file that does not parse.\<close>

definition load_file :: "bool \<Rightarrow> (dept_error + json) option \<Rightarrow> departments \<Rightarrow> departments" where
  "load_file merge file table =
     (case file of
        None \<Rightarrow> table
      | Some parsed \<Rightarrow>
          (case and_then parsed (\<lambda>doc. and_then (document_departments doc)
                  (\<lambda>ds. load_departments merge ds table)) of
             Inl e \<Rightarrow> table
           | Inr pending \<Rightarrow> pending))"

definition get_department :: "departments \<Rightarrow> string \<Rightarrow> department option" where
  "get_department table slug = dget table slug"

section \<open>Permission checks\<close>

definition is_allowed :: "string list \<Rightarrow> string \<Rightarrow> bool" where
  "is_allowed allowed_list item =
     (if allowed_list = [] then False
      else if ''*'' \<in> set allowed_list then True
      else item \<in> set allowed_list)"

definition dept_allows :: "(department \<Rightarrow> string list) \<Rightarrow> departments \<Rightarrow> string \<Rightarrow> string \<Rightarrow> bool" where
  "dept_allows field table dept item =
     (case get_department table dept of None \<Rightarrow> False | Some d \<Rightarrow> is_allowed (field d) item)"

definition can_use_tool :: "departments \<Rightarrow> string \<Rightarrow> string \<Rightarrow> bool" where
  "can_use_tool = dept_allows allowed_tools"

definition can_use_skill :: "departments \<Rightarrow> string \<Rightarrow> string \<Rightarrow> bool" where
  "can_use_skill = dept_allows allowed_skills"

definition can_use_plugin :: "departments \<Rightarrow> string \<Rightarrow> string \<Rightarrow> bool" where
  "can_use_plugin = dept_allows allowed_plugins"

definition can_dispatch_subagent :: "departments \<Rightarrow> string \<Rightarrow> string \<Rightarrow> bool" where
  "can_dispatch_subagent = dept_allows allowed_subagents"

definition can_use_mcp :: "departments \<Rightarrow> string \<Rightarrow> string \<Rightarrow> bool" where
  "can_use_mcp = dept_allows allowed_mcp"

text \<open>The attributes \<open>getattr\<close> reads from a registered tool. \<open>allowed_departments\<close> is any value
  of the plugin manifest, \<open>None\<close> when the attribute is missing.\<close>

record tool_source =
  ts_name :: string
  source_kind :: "string option"
  source_name :: "string option"
  ts_allowed_departments :: "json option"

definition has_name :: "string option \<Rightarrow> (string \<Rightarrow> bool) \<Rightarrow> bool" where
  "has_name so f = (case so of None \<Rightarrow> False | Some n \<Rightarrow> n \<noteq> '''' \<and> f n)"

definition can_use_registered_tool :: "departments \<Rightarrow> string \<Rightarrow> tool_source \<Rightarrow> bool \<Rightarrow> bool" where
  "can_use_registered_tool table dept tool enforce =
     (if enforce \<and> \<not> can_use_tool table dept (ts_name tool) then False
      else if source_kind tool = Some ''plugin'' then
        (if \<not> has_name (source_name tool) (can_use_plugin table dept) then False
         else (case Option.bind (ts_allowed_departments tool) as_string_list of
                 None \<Rightarrow> False
               | Some l \<Rightarrow> is_allowed l dept))
      else if source_kind tool = Some ''mcp'' then has_name (source_name tool) (can_use_mcp table dept)
      else True)"

definition get_budget :: "departments \<Rightarrow> string \<Rightarrow> budget_config" where
  "get_budget table dept =
     (case get_department table dept of
        None \<Rightarrow> \<lparr>budget_enabled = True, max_iterations = 10, max_tool_calls = 20, max_time_ms = 300000\<rparr>
      | Some d \<Rightarrow> dept_budget d)"

section \<open>Lemmas\<close>

lemma and_then_simps [simp]:
  "and_then (Inl e) f = Inl e" "and_then (Inr x) f = f x"
  by (simp_all add: and_then_def)

lemma and_then_Inr: "and_then r f = Inr y \<longleftrightarrow> (\<exists>x. r = Inr x \<and> f x = Inr y)"
  by (cases r) auto

lemma jget_put: "jget (dput k v d) j = (if j = k then Some v else jget d j)"
  unfolding jget_def dget_def [symmetric] by (simp add: dget_dput)

lemma string_items_map [simp]: "string_items (map JStr l) = Some l"
  by (induction l) auto

lemma as_string_list_map [simp]: "as_string_list (JArr (map JStr l)) = Some l"
  by (simp add: as_string_list_def)

lemma is_allowed_iff: "is_allowed l x \<longleftrightarrow> ''*'' \<in> set l \<or> x \<in> set l"
  by (auto simp: is_allowed_def)

lemma is_allowed_union: "is_allowed (union_allowlists a b) x \<longleftrightarrow> is_allowed a x \<or> is_allowed b x"
  by (auto simp: is_allowed_iff union_allowlists_def Let_def)

text \<open>What a department parsed from a mapping has in a list field.\<close>

definition field_default :: "string \<Rightarrow> string list" where
  "field_default f = (if f = ''allowed_subagents'' then [] else [''*''])"

lemma department_configD:
  assumes "department_config data = Inr d"
  shows "parse_allowlist data ''allowed_tools'' [''*''] = Inr (allowed_tools d)"
    "parse_allowlist data ''allowed_skills'' [''*''] = Inr (allowed_skills d)"
    "parse_allowlist data ''allowed_plugins'' [''*''] = Inr (allowed_plugins d)"
    "parse_allowlist data ''allowed_subagents'' [] = Inr (allowed_subagents d)"
    "parse_allowlist data ''allowed_mcp'' [''*''] = Inr (allowed_mcp d)"
  using assms unfolding department_config_def and_then_Inr by fastforce+

lemma department_config_field:
  assumes "department_config data = Inr d" and "f \<in> set ALLOWLIST_FIELDS"
  shows "parse_allowlist data f (field_default f) = Inr (allowlist_field d f)"
proof -
  have "f = ''allowed_tools'' \<or> f = ''allowed_skills'' \<or> f = ''allowed_plugins'' \<or>
      f = ''allowed_subagents'' \<or> f = ''allowed_mcp''"
    using assms(2) by (simp add: ALLOWLIST_FIELDS_def)
  then show ?thesis
    by (elim disjE)
      (simp_all add: allowlist_field_def field_default_def department_configD [OF assms(1)])
qed

lemma to_data_field:
  "f \<in> set ALLOWLIST_FIELDS \<Longrightarrow> jget (to_data d) f = Some (JArr (map JStr (allowlist_field d f)))"
  by (auto simp: to_data_def jget_def ALLOWLIST_FIELDS_def allowlist_field_def)

lemma merge_fields_get:
  "merge_fields ex ov fs m = Inr m' \<Longrightarrow>
   jget m' k =
     (case jget ov k of
        Some raw \<Rightarrow>
          if k \<in> set fs
          then Some (JArr (map JStr (union_allowlists (allowlist_field ex k) (the (as_string_list raw)))))
          else jget m k
      | None \<Rightarrow> jget m k) \<and>
   (\<forall>raw. k \<in> set fs \<longrightarrow> jget ov k = Some raw \<longrightarrow> as_string_list raw \<noteq> None)"
proof (induction fs arbitrary: m)
  case (Cons f fs)
  then obtain m1 where m1: "merge_field ex ov f m = Inr m1" "merge_fields ex ov fs m1 = Inr m'"
    by (auto simp: and_then_Inr)
  note IH = Cons.IH [OF m1(2)]
  show ?case
    using IH m1(1)
    by (cases "jget ov f"; cases "k = f")
      (auto simp: merge_field_def jget_put split: option.splits if_splits)
qed (auto split: option.splits)

lemma merge_budget_field:
  "merge_budget ex ov m = Inr m' \<Longrightarrow> k \<noteq> ''budget'' \<Longrightarrow> jget m' k = jget m k"
  by (auto simp: merge_budget_def jget_put split: option.splits json.splits)

lemma copy_key_get: "k \<noteq> j \<Longrightarrow> jget (copy_key k ov m) j = jget m j"
  by (auto simp: copy_key_def jget_put split: option.splits)

lemma merged_field:
  assumes m: "merge_department ex ov = Inr d" and f: "f \<in> set ALLOWLIST_FIELDS"
  shows "allowlist_field d f =
    (case jget ov f of
       None \<Rightarrow> allowlist_field ex f
     | Some raw \<Rightarrow> union_allowlists (allowlist_field ex f) (the (as_string_list raw)))"
    and "jget ov f = Some raw \<Longrightarrow> as_string_list raw \<noteq> None"
proof -
  obtain m1 m2 where m1: "merge_fields ex ov ALLOWLIST_FIELDS
        (copy_key ''profile'' ov (copy_key ''description'' ov (to_data ex))) = Inr m1"
    and m2: "merge_budget ex ov m1 = Inr m2" and d: "department_config m2 = Inr d"
    using m by (auto simp: merge_department_def and_then_Inr)
  have nf: "f \<noteq> ''budget''" "''profile'' \<noteq> f" "''description'' \<noteq> f"
    using f by (auto simp: ALLOWLIST_FIELDS_def)
  note g = merge_fields_get [OF m1, of f]
  have "jget m2 f = jget m1 f" by (rule merge_budget_field [OF m2 nf(1)])
  also have "jget m1 f = Some (JArr (map JStr (case jget ov f of
       None \<Rightarrow> allowlist_field ex f
     | Some raw \<Rightarrow> union_allowlists (allowlist_field ex f) (the (as_string_list raw)))))"
    using g f nf to_data_field [OF f, of ex] by (auto simp: copy_key_get split: option.splits)
  finally show "allowlist_field d f =
    (case jget ov f of
       None \<Rightarrow> allowlist_field ex f
     | Some raw \<Rightarrow> union_allowlists (allowlist_field ex f) (the (as_string_list raw)))"
    using department_config_field [OF d f] by (simp add: parse_allowlist_def)
  show "jget ov f = Some raw \<Longrightarrow> as_string_list raw \<noteq> None"
    using g f by auto
qed

text \<open>Permissions only grow along the entries of an overlay file.\<close>

definition field_allows :: "departments \<Rightarrow> string \<Rightarrow> string \<Rightarrow> string \<Rightarrow> bool" where
  "field_allows table slug f item = dept_allows (\<lambda>d. allowlist_field d f) table slug item"

lemma can_use_fields:
  "can_use_tool t slug x = field_allows t slug ''allowed_tools'' x"
  "can_use_skill t slug x = field_allows t slug ''allowed_skills'' x"
  "can_use_plugin t slug x = field_allows t slug ''allowed_plugins'' x"
  "can_dispatch_subagent t slug x = field_allows t slug ''allowed_subagents'' x"
  "can_use_mcp t slug x = field_allows t slug ''allowed_mcp'' x"
  by (simp_all add: can_use_tool_def can_use_skill_def can_use_plugin_def can_use_mcp_def
      can_dispatch_subagent_def field_allows_def allowlist_field_def)

lemma merged_allows:
  assumes "merge_department ex ov = Inr d" and "f \<in> set ALLOWLIST_FIELDS"
  shows "is_allowed (allowlist_field d f) x \<longleftrightarrow>
    is_allowed (allowlist_field ex f) x \<or>
    (\<exists>l. Option.bind (jget ov f) as_string_list = Some l \<and> is_allowed l x)"
  using merged_field [OF assms] by (cases "jget ov f") (auto simp: is_allowed_union)

lemma load_department_grows:
  assumes "load_department True table slug j = Inr table'" and "f \<in> set ALLOWLIST_FIELDS"
    and "field_allows table s f x"
  shows "field_allows table' s f x"
proof -
  obtain m c where j: "j = JObj m" and t: "table' = dput slug c table"
    and c: "(case dget table slug of Some ex \<Rightarrow> merge_department ex m | None \<Rightarrow> department_config m) = Inr c"
    using assms(1)
    by (auto simp: load_department_def and_then_Inr cong: option.case_cong split: json.splits)
  obtain d where d: "dget table s = Some d" "is_allowed (allowlist_field d f) x"
    using assms(3) by (auto simp: field_allows_def dept_allows_def get_department_def split: option.splits)
  have "is_allowed (allowlist_field c f) x" if "s = slug"
    using c d that merged_allows [OF _ assms(2), of d m c x] by simp
  with d show ?thesis
    by (cases "s = slug") (simp_all add: t field_allows_def dept_allows_def get_department_def py_simps)
qed

lemma load_departments_grow:
  "load_departments True ds table = Inr table' \<Longrightarrow> f \<in> set ALLOWLIST_FIELDS \<Longrightarrow>
   field_allows table s f x \<Longrightarrow> field_allows table' s f x"
  by (induction True ds table rule: load_departments.induct)
    (auto simp: and_then_Inr dest: load_department_grows)

text \<open>The mapping of a department block, when it is valid on its own.\<close>

definition entry_config :: "json \<Rightarrow> department option" where
  "entry_config j =
     (case j of JObj d \<Rightarrow> (case department_config d of Inl e \<Rightarrow> None | Inr c \<Rightarrow> Some c) | _ \<Rightarrow> None)"

lemma load_department_replace:
  "case entry_config j of
     None \<Rightarrow> \<exists>e. load_department False table slug j = Inl e
   | Some c \<Rightarrow> load_department False table slug j = Inr (dput slug c table)"
  by (auto simp: load_department_def entry_config_def and_then_def
      split: json.splits option.splits sum.splits)

lemma load_departments_replace:
  "if \<exists>kv\<in>set ds. entry_config (snd kv) = None
   then \<exists>e. load_departments False ds table = Inl e
   else load_departments False ds table =
     Inr (fold (\<lambda>kv. dput (fst kv) (the (entry_config (snd kv)))) ds table)"
proof (induction ds arbitrary: table)
  case (Cons kv ds)
  obtain k j where kv: "kv = (k, j)" by (cases kv)
  show ?case
    using load_department_replace [where j = j and table = table and slug = k] Cons.IH [of "dput k (the (entry_config j)) table"]
    by (cases "entry_config j") (auto simp: kv split: if_splits)
qed simp

section \<open>Properties\<close>

text \<open>an overlay grants exactly the union. After a successful merge a department allows an
  item in one of its five lists exactly when it did before or the overlay's list for that field
  allows it; a field the overlay omits inherits the base list and never turns into the
  wildcard that a missing field means in a new department.\<close>

lemma overlay_grants_exactly_union:
  assumes "merge_department ex ov = Inr d" and "f \<in> set ALLOWLIST_FIELDS"
  shows "(is_allowed (allowlist_field d f) x \<longleftrightarrow>
      is_allowed (allowlist_field ex f) x \<or>
      (\<exists>l. Option.bind (jget ov f) as_string_list = Some l \<and> is_allowed l x)) \<and>
    (jget ov f = None \<longrightarrow> allowlist_field d f = allowlist_field ex f)"
  using merged_allows [OF assms] merged_field(1) [OF assms] by simp

definition sample_department :: department where
  "sample_department = \<lparr>dept_name = ''Sales'', dept_profile = ''default'',
     allowed_tools = [''read_file''], allowed_skills = [], allowed_plugins = [],
     allowed_subagents = [], allowed_mcp = [],
     dept_budget = \<lparr>budget_enabled = True, max_iterations = 15, max_tool_calls = 30, max_time_ms = 300000\<rparr>\<rparr>"

lemma overlay_grants_exactly_union_witness:
  "\<exists>d. merge_department sample_department [(''allowed_tools'', JArr [JStr ''web''])] = Inr d \<and>
     is_allowed (allowlist_field d ''allowed_tools'') ''web'' \<and>
     \<not> is_allowed (allowlist_field d ''allowed_skills'') ''web''"
proof -
  obtain d where d: "merge_department sample_department [(''allowed_tools'', JArr [JStr ''web''])] = Inr d"
    by (cases "merge_department sample_department [(''allowed_tools'', JArr [JStr ''web''])]")
      (simp_all add: merge_department_def merge_field_def copy_key_def ALLOWLIST_FIELDS_def jget_def
        to_data_def dput_Cons as_string_list_def department_config_def parse_str_def
        parse_allowlist_def parse_budget_def parse_budget_int_def merge_budget_def)
  have "''allowed_tools'' \<in> set ALLOWLIST_FIELDS" "''allowed_skills'' \<in> set ALLOWLIST_FIELDS"
    by (simp_all add: ALLOWLIST_FIELDS_def)
  from overlay_grants_exactly_union [OF d this(1), of "''web''"]
    overlay_grants_exactly_union [OF d this(2), of "''web''"] d
  show ?thesis
    by (simp add: jget_def as_string_list_def is_allowed_def allowlist_field_def sample_department_def)
qed

text \<open>Loading overlay files never revokes a permission. Whatever an overlay file contains
  (missing, malformed, invalid or valid), everything a department was allowed before it is
  still allowed after it.\<close>

lemma overlay_never_revokes:
  "(can_use_tool table slug x \<longrightarrow> can_use_tool (load_file True file table) slug x) \<and>
   (can_use_skill table slug x \<longrightarrow> can_use_skill (load_file True file table) slug x) \<and>
   (can_use_plugin table slug x \<longrightarrow> can_use_plugin (load_file True file table) slug x) \<and>
   (can_dispatch_subagent table slug x \<longrightarrow> can_dispatch_subagent (load_file True file table) slug x) \<and>
   (can_use_mcp table slug x \<longrightarrow> can_use_mcp (load_file True file table) slug x)"
proof -
  have "field_allows (load_file True file table) slug f x"
    if "field_allows table slug f x" "f \<in> set ALLOWLIST_FIELDS" for f
    using that by (auto simp: load_file_def and_then_Inr split: option.splits sum.splits
        dest: load_departments_grow)
  then show ?thesis by (simp add: can_use_fields ALLOWLIST_FIELDS_def)
qed

lemma overlay_never_revokes_witness:
  "can_use_tool (load_file True None [(''sales'', sample_department)]) ''sales'' ''read_file''"
  using overlay_never_revokes [of "[(''sales'', sample_department)]" "''sales''" "''read_file''" None]
  by (simp add: can_use_tool_def dept_allows_def get_department_def dget_Cons sample_department_def
      is_allowed_def)

text \<open>A file is loaded as a whole or not at all. One invalid department block leaves the
  whole table as it was; otherwise every block replaces the entry of its slug, in order.\<close>

lemma load_file_all_or_nothing:
  "load_file False (Some (Inr (JObj [(''departments'', JObj ds)]))) table =
     (if \<exists>kv\<in>set ds. entry_config (snd kv) = None then table
      else fold (\<lambda>kv. dput (fst kv) (the (entry_config (snd kv)))) ds table)"
  by (subst load_file_def)
    (use load_departments_replace [of ds table] in
      \<open>auto simp: document_departments_def jget_def split: sum.splits if_splits\<close>)

text \<open>the checks deny by default. Nothing is allowed to a user of an unknown department, and
  a plugin or MCP tool is usable only with a named source the department allows (and, for a
  plugin, a manifest list of strings naming the department), whether or not the tool allowlist
  is enforced.\<close>

lemma registered_tool_denied_by_default:
  "(get_department table dept = None \<longrightarrow>
      \<not> can_use_tool table dept x \<and> \<not> can_use_skill table dept x \<and> \<not> can_use_plugin table dept x \<and>
      \<not> can_dispatch_subagent table dept x \<and> \<not> can_use_mcp table dept x) \<and>
   (can_use_registered_tool table dept tool enforce \<longleftrightarrow>
      (enforce \<longrightarrow> can_use_tool table dept (ts_name tool)) \<and>
      (source_kind tool = Some ''plugin'' \<longrightarrow>
         (\<exists>n l. source_name tool = Some n \<and> n \<noteq> [] \<and> can_use_plugin table dept n \<and>
            ts_allowed_departments tool = Some (JArr (map JStr l)) \<and> (''*'' \<in> set l \<or> dept \<in> set l))) \<and>
      (source_kind tool = Some ''mcp'' \<longrightarrow>
         (\<exists>n. source_name tool = Some n \<and> n \<noteq> [] \<and> can_use_mcp table dept n)))"
proof -
  have items: "string_items js = Some l \<longleftrightarrow> js = map JStr l" for js l
    by (induction js arbitrary: l rule: string_items.induct) (auto simp: Cons_eq_map_conv)
  have inj: "map JStr a = map JStr b \<longleftrightarrow> a = b" for a b
    by (rule inj_map_eq_map) (simp add: inj_def)
  have list: "Option.bind o1 as_string_list = Some l \<longleftrightarrow> o1 = Some (JArr (map JStr l))" for o1 l
    by (cases o1) (auto simp: as_string_list_def items split: json.splits)
  have none: "Option.bind o1 as_string_list = None \<longleftrightarrow> (\<nexists>l. o1 = Some (JArr (map JStr l)))" for o1
    using list [of o1] by (cases "Option.bind o1 as_string_list") auto
  have "\<not> dept_allows f table dept x" if "get_department table dept = None" for f
    using that by (simp add: dept_allows_def)
  moreover have "has_name so f \<longleftrightarrow> (\<exists>n. so = Some n \<and> n \<noteq> [] \<and> f n)" for so f
    by (cases so) (auto simp: has_name_def)
  ultimately show ?thesis
    unfolding can_use_registered_tool_def
    by (auto simp: can_use_tool_def can_use_skill_def can_use_plugin_def can_use_mcp_def list none inj
        can_dispatch_subagent_def is_allowed_iff split: option.splits)
qed

lemma registered_tool_denied_by_default_witness:
  "\<not> can_use_tool [] ''ghost'' ''read_file'' \<and>
   \<not> can_use_registered_tool [(''sales'', sample_department)] ''sales''
       \<lparr>ts_name = ''t'', source_kind = Some ''mcp'', source_name = None, ts_allowed_departments = None\<rparr> False"
  using registered_tool_denied_by_default [of "[]" "''ghost''" "''read_file''"]
    registered_tool_denied_by_default [of "[(''sales'', sample_department)]" "''sales''" _
      "\<lparr>ts_name = ''t'', source_kind = Some ''mcp'', source_name = None, ts_allowed_departments = None\<rparr>" False]
  by (simp add: get_department_def)

end
