(* ===== verification/ToolRegistry.thy ===== *)
theory ToolRegistry
  imports Rbac
begin

text \<open>
  \<open>extensions/tools/registry.py\<close>, \<open>extensions/tools/base.py\<close>, \<open>extensions/tools/scoped.py\<close>
  and \<open>agent/file_state.py\<close>: the table of tools, the guarded execution of one call, the
  function-calling schemas, and the cross-agent record of reads and writes. Parameters: the
  tools' own bodies (a function on a world \<open>'w\<close>), \<open>scrub\<close> for the credential scrubber, and
  \<open>stat\<close>, which gives the resolved path, modification time and size of an existing regular file.
\<close>

section \<open>File state\<close>

record file_state =
  read_stamps :: "(string, (string, int \<times> int) pydict) pydict"
  last_writers :: "(string, string \<times> rat) pydict"

definition MAX_PATHS_PER_AGENT :: nat where "MAX_PATHS_PER_AGENT = 4096"

definition fs_empty :: file_state where
  "fs_empty = \<lparr>read_stamps = [], last_writers = []\<rparr>"

definition stamps_of :: "file_state \<Rightarrow> string \<Rightarrow> (string, int \<times> int) pydict" where
  "stamps_of fs task = (case dget (read_stamps fs) task of None \<Rightarrow> [] | Some st \<Rightarrow> st)"

definition record_read ::
    "bool \<Rightarrow> string \<Rightarrow> string \<Rightarrow> int \<Rightarrow> int \<Rightarrow> file_state \<Rightarrow> file_state" where
  "record_read disabled path task mtime size_b fs =
     (if disabled then fs
      else
        (let stamps = stamps_of fs task;
             kept = (if length stamps \<ge> MAX_PATHS_PER_AGENT
                     then dpop (fst (hd stamps)) stamps else stamps)
         in fs\<lparr>read_stamps := dput task (dput path (mtime, size_b) kept) (read_stamps fs)\<rparr>))"

definition note_write :: "bool \<Rightarrow> string \<Rightarrow> string \<Rightarrow> rat \<Rightarrow> file_state \<Rightarrow> file_state" where
  "note_write disabled path task now fs =
     (if disabled then fs else fs\<lparr>last_writers := dput path (task, now) (last_writers fs)\<rparr>)"

definition last_writer :: "file_state \<Rightarrow> string \<Rightarrow> string option" where
  "last_writer fs path = map_option fst (dget (last_writers fs) path)"

definition has_read :: "file_state \<Rightarrow> string \<Rightarrow> string \<Rightarrow> bool" where
  "has_read fs path task \<longleftrightarrow> path \<in> set (dkeys (stamps_of fs task))"

definition check_stale :: "bool \<Rightarrow> string \<Rightarrow> string \<Rightarrow> file_state \<Rightarrow> string option" where
  "check_stale disabled path task fs =
     (if disabled then None
      else if path \<notin> set (dkeys (stamps_of fs task)) then
        Some (''You are about to modify '' @ quoted path @ '' but have not read it in '' @
          ''this run. Read the file first to avoid overwriting it with hallucinated content.'')
      else
        (case last_writer fs path of
           None \<Rightarrow> None
         | Some w \<Rightarrow>
             if w \<noteq> task then
               Some (''File '' @ quoted path @ '' was modified by another agent (run '' @ w @
                 '') since you last read it. Re-read the file before writing to avoid a stale overwrite.'')
             else None))"

definition writes_since :: "bool \<Rightarrow> string \<Rightarrow> string list \<Rightarrow> file_state \<Rightarrow> string list" where
  "writes_since disabled exclude_task paths fs =
     (if disabled then []
      else filter (\<lambda>p. case last_writer fs p of None \<Rightarrow> False | Some w \<Rightarrow> w \<noteq> exclude_task) paths)"

definition fs_reset :: "file_state \<Rightarrow> file_state" where
  "fs_reset fs = fs\<lparr>read_stamps := [], last_writers := []\<rparr>"

section \<open>Tools\<close>

datatype risk_level = LOW | MEDIUM_RISK | HIGH_RISK | CRITICAL_RISK

record tool_param =
  param_name :: string
  param_type :: string
  param_description :: string
  param_required :: bool
  param_enum :: "string list option"

type_synonym call_args = "(string \<times> json) list"

text \<open>\<open>tool_run\<close> is the tool's \<open>execute\<close>: it may change the world, and returns a text or raises
  (\<open>Inl (type name, message)\<close>).\<close>

record 'w tool =
  tool_name :: string
  tool_description :: string
  tool_params :: "tool_param list"
  tool_risk :: risk_level
  parallel_safe :: bool
  tool_terminal :: bool
  tool_direct :: "(call_args \<Rightarrow> string \<Rightarrow> bool) option"
  tool_source_kind :: "string option"
  tool_source_name :: "string option"
  tool_departments :: "json option"
  tool_run :: "call_args \<Rightarrow> 'w \<Rightarrow> 'w \<times> ((string \<times> string) + string)"

text \<open>\<open>tool_direct\<close> is the override of the method in a subclass (\<open>None\<close>: the base method).\<close>

definition should_return_direct :: "'w tool \<Rightarrow> call_args \<Rightarrow> string \<Rightarrow> bool" where
  "should_return_direct t args result =
     (case tool_direct t of None \<Rightarrow> tool_terminal t | Some f \<Rightarrow> f args result)"

text \<open>\<open>ScopedTool\<close>: everything but the source comes from the wrapped tool.\<close>

definition scoped_tool :: "'w tool \<Rightarrow> string \<Rightarrow> string \<Rightarrow> string list option \<Rightarrow> 'w tool" where
  "scoped_tool t kind name depts =
     t\<lparr>tool_source_kind := Some kind, tool_source_name := Some name,
       tool_departments := map_option (\<lambda>l. JArr (map JStr l)) depts\<rparr>"

section \<open>The registry\<close>

record 'w registry =
  reg_tools :: "(string, 'w tool) pydict"
  reg_overrides :: "(string, yaml_map) pydict"
  reg_file_state :: "file_state option"

definition registry_init :: "'w registry" where
  "registry_init = \<lparr>reg_tools = [], reg_overrides = [], reg_file_state = None\<rparr>"

definition set_file_state :: "file_state option \<Rightarrow> 'w registry \<Rightarrow> 'w registry" where
  "set_file_state fs r = r\<lparr>reg_file_state := fs\<rparr>"

definition put_tool :: "string \<Rightarrow> 'w tool \<Rightarrow> 'w registry \<Rightarrow> 'w registry" where
  "put_tool name t r = r\<lparr>reg_tools := dput name t (reg_tools r)\<rparr>"

definition registry_get :: "'w registry \<Rightarrow> string \<Rightarrow> 'w tool option" where
  "registry_get r name = dget (reg_tools r) name"

text \<open>\<open>Inl name\<close> is the \<open>ValueError\<close> of a name conflict.\<close>

definition register :: "'w tool \<Rightarrow> bool \<Rightarrow> 'w registry \<Rightarrow> string + 'w registry" where
  "register t allow_replace r =
     (if tool_name t \<in> set (dkeys (reg_tools r)) \<and> \<not> allow_replace then Inl (tool_name t)
      else Inr (put_tool (tool_name t) t r))"

definition unregister :: "string \<Rightarrow> 'w registry \<Rightarrow> 'w registry" where
  "unregister name r = r\<lparr>reg_tools := dpop name (reg_tools r)\<rparr>"

definition list_all_tools :: "'w registry \<Rightarrow> 'w tool list" where
  "list_all_tools r = map snd (reg_tools r)"

definition load_overrides_dict :: "(string, yaml_map) pydict \<Rightarrow> 'w registry \<Rightarrow> 'w registry" where
  "load_overrides_dict ov r =
     r\<lparr>reg_overrides := fold (\<lambda>(k, v) d. dput k v d) ov (reg_overrides r)\<rparr>"

section \<open>Execution\<close>

record acting_user =
  au_department :: string

definition source_of :: "'w tool \<Rightarrow> tool_source" where
  "source_of t = \<lparr>ts_name = tool_name t, source_kind = tool_source_kind t,
     source_name = tool_source_name t, ts_allowed_departments = tool_departments t\<rparr>"

text \<open>\<open>permission_checker is not None and user is not None\<close> and the check refuses.\<close>

definition call_denied ::
    "departments option \<Rightarrow> acting_user option \<Rightarrow> bool \<Rightarrow> 'w tool \<Rightarrow> bool" where
  "call_denied checker user enforce t =
     (case (checker, user) of
        (Some table, Some u) \<Rightarrow> \<not> can_use_registered_tool table (au_department u) (source_of t) enforce
      | _ \<Rightarrow> False)"

definition nonempty_str :: "json option \<Rightarrow> string option" where
  "nonempty_str j = (case j of Some (JStr s) \<Rightarrow> if s \<noteq> [] then Some s else None | _ \<Rightarrow> None)"

definition extract_read_path :: "string \<Rightarrow> call_args \<Rightarrow> string option" where
  "extract_read_path name args =
     (if name \<in> {''read_file'', ''excel_inspect'', ''pdf_reader''} then nonempty_str (jget args ''path'')
      else if name = ''excel_workbook'' \<and> jget args ''action'' = Some (JStr ''read'')
      then nonempty_str (jget args ''path'')
      else None)"

definition track_read ::
    "bool \<Rightarrow> (string \<Rightarrow> (string \<times> int \<times> int) option) \<Rightarrow> string \<Rightarrow> call_args \<Rightarrow> string option \<Rightarrow>
     file_state option \<Rightarrow> file_state option" where
  "track_read disabled stat name args run_id fso =
     (case (fso, run_id) of
        (Some fs, Some rid) \<Rightarrow>
          (case Option.bind (extract_read_path name args) stat of
             Some (resolved, mtime, sz) \<Rightarrow> Some (record_read disabled resolved rid mtime sz fs)
           | None \<Rightarrow> fso)
      | _ \<Rightarrow> fso)"

definition registry_execute ::
    "(string \<Rightarrow> string) \<Rightarrow> bool \<Rightarrow> (string \<Rightarrow> (string \<times> int \<times> int) option) \<Rightarrow> departments option \<Rightarrow>
     acting_user option \<Rightarrow> bool \<Rightarrow> string option \<Rightarrow> string \<Rightarrow> call_args \<Rightarrow> 'w registry \<times> 'w \<Rightarrow>
     ('w registry \<times> 'w) \<times> string" where
  "registry_execute scrub disabled stat checker user enforce run_id name args rw =
     (case rw of (r, w) \<Rightarrow>
        (case registry_get r name of
           None \<Rightarrow> ((r, w), ''Error: Tool '' @ quoted name @ '' not found.'')
         | Some t \<Rightarrow>
             if call_denied checker user enforce t then
               ((r, w), ''Error: Permission denied. Your department ('' @
                  (case user of None \<Rightarrow> [] | Some u \<Rightarrow> au_department u) @
                  '') cannot use tool '' @ quoted name @ ''.'')
             else
               (case tool_run t args w of
                  (w', Inl (ty, msg)) \<Rightarrow>
                    ((r, w'), ''Error executing '' @ quoted name @ '': '' @ ty @ '': '' @ msg)
                | (w', Inr result) \<Rightarrow>
                    ((r\<lparr>reg_file_state := track_read disabled stat name args run_id (reg_file_state r)\<rparr>,
                      w'), scrub result))))"

section \<open>Schemas\<close>

text \<open>An override block \<open>{"description": ..., "params": {name: {"description": ...}}}\<close>.\<close>

definition override_description :: "yaml_map option \<Rightarrow> string \<Rightarrow> json" where
  "override_description ov dflt =
     (case Option.bind ov (\<lambda>o1. jget o1 ''description'') of Some j \<Rightarrow> j | None \<Rightarrow> JStr dflt)"

definition sub_map :: "yaml_map \<Rightarrow> string \<Rightarrow> yaml_map" where
  "sub_map m k = (case jget m k of Some (JObj o1) \<Rightarrow> o1 | _ \<Rightarrow> [])"

definition param_schema :: "yaml_map \<Rightarrow> tool_param \<Rightarrow> json" where
  "param_schema param_overrides p =
     JObj ([(''type'', JStr (param_type p)),
        (''description'', case jget (sub_map param_overrides (param_name p)) ''description'' of
            Some j \<Rightarrow> j | None \<Rightarrow> JStr (param_description p))] @
       (case param_enum p of
          Some (v # vs) \<Rightarrow> [(''enum'', JArr (map JStr (v # vs)))] | _ \<Rightarrow> []))"

definition build_schema :: "'w registry \<Rightarrow> 'w tool \<Rightarrow> json" where
  "build_schema r t =
     (let ov = dget (reg_overrides r) (tool_name t);
          pov = (case ov of None \<Rightarrow> [] | Some o1 \<Rightarrow> sub_map o1 ''params'')
      in JObj [(''type'', JStr ''function''),
           (''function'', JObj
             [(''name'', JStr (tool_name t)),
              (''description'', override_description ov (tool_description t)),
              (''parameters'', JObj
                [(''type'', JStr ''object''),
                 (''properties'', JObj (fold (\<lambda>p d. dput (param_name p) (param_schema pov p) d)
                    (tool_params t) [])),
                 (''required'', JArr (map (\<lambda>p. JStr (param_name p))
                    (filter param_required (tool_params t))))])])])"

definition to_schemas :: "'w registry \<Rightarrow> json list" where
  "to_schemas r = map (build_schema r) (list_all_tools r)"

definition to_schemas_for_user ::
    "departments option \<Rightarrow> acting_user option \<Rightarrow> bool \<Rightarrow> 'w registry \<Rightarrow> json list" where
  "to_schemas_for_user checker user enforce r =
     (if checker = None \<or> user = None then to_schemas r
      else map (build_schema r) (filter (\<lambda>t. \<not> call_denied checker user enforce t) (list_all_tools r)))"

definition schema_tool_name :: "json \<Rightarrow> string option" where
  "schema_tool_name j =
     (case j of
        JObj o1 \<Rightarrow>
          (case jget (sub_map o1 ''function'') ''name'' of Some (JStr s) \<Rightarrow> Some s | _ \<Rightarrow> None)
      | _ \<Rightarrow> None)"

section \<open>The registry as a keyed store\<close>

interpretation tool_table: keyed_store registry_get put_tool unregister
  by unfold_locales (simp_all add: registry_get_def put_tool_def unregister_def dget_dput dget_dpop fun_eq_iff)

text \<open>Every tool sits under its own name.\<close>

inductive registry_step :: "'w registry \<Rightarrow> 'w registry \<Rightarrow> bool" where
  rs_register: "register t allow r = Inr r' \<Longrightarrow> registry_step r r'"
| rs_unregister: "registry_step r (unregister name r)"
| rs_overrides: "registry_step r (load_overrides_dict ov r)"
| rs_file_state: "registry_step r (set_file_state fs r)"

definition registry_inv :: "'w registry \<Rightarrow> bool" where
  "registry_inv r \<longleftrightarrow>
     distinct (dkeys (reg_tools r)) \<and> (\<forall>k t. registry_get r k = Some t \<longrightarrow> tool_name t = k)"

lemma registry_inv_step: "registry_step r r' \<Longrightarrow> registry_inv r \<Longrightarrow> registry_inv r'"
  by (cases rule: registry_step.cases)
    (auto simp: registry_inv_def register_def put_tool_def unregister_def registry_get_def py_simps
      load_overrides_dict_def set_file_state_def intro: distinct_dput distinct_dpop split: if_splits)

interpretation registry_sys: invariant_system "\<lambda>r. r = registry_init" registry_step registry_inv
proof unfold_locales
  show "s = registry_init \<Longrightarrow> registry_inv s" for s :: "'w registry"
    by (simp add: registry_inv_def registry_init_def registry_get_def)
qed (rule registry_inv_step)

lemma schema_name_build [simp]: "schema_tool_name (build_schema r t) = Some (tool_name t)"
  by (simp add: schema_tool_name_def build_schema_def Let_def sub_map_def jget_def)

lemma in_list_all:
  assumes "registry_inv r"
  shows "t \<in> set (list_all_tools r) \<longleftrightarrow> registry_get r (tool_name t) = Some t"
proof -
  have d: "registry_get r k = Some t \<longleftrightarrow> (k, t) \<in> set (reg_tools r)" for k
    using assms by (simp add: registry_inv_def registry_get_def dget_in_set)
  have "t \<in> set (list_all_tools r) \<longleftrightarrow> (\<exists>k. (k, t) \<in> set (reg_tools r))"
    by (force simp: list_all_tools_def)
  also have "\<dots> \<longleftrightarrow> registry_get r (tool_name t) = Some t"
    using assms d by (auto simp: registry_inv_def)
  finally show ?thesis .
qed

section \<open>File histories\<close>

datatype fs_event = ReadEv string string int int | WriteEv string string rat

fun fs_apply :: "fs_event \<Rightarrow> file_state \<Rightarrow> file_state" where
  "fs_apply (ReadEv path task mtime sz) fs = record_read False path task mtime sz fs"
| "fs_apply (WriteEv path task now) fs = note_write False path task now fs"

definition fs_run :: "fs_event list \<Rightarrow> file_state" where
  "fs_run evs = fold fs_apply evs fs_empty"

text \<open>The run that wrote a path last, according to the history.\<close>

definition last_write_in :: "fs_event list \<Rightarrow> string \<Rightarrow> string option" where
  "last_write_in evs path =
     fold (\<lambda>e acc. case e of WriteEv p task now \<Rightarrow> if p = path then Some task else acc | _ \<Rightarrow> acc) evs None"

lemma fs_run_snoc [simp]: "fs_run (evs @ [e]) = fs_apply e (fs_run evs)"
  by (simp add: fs_run_def)

lemma stamps_of_record:
  "stamps_of (record_read False path task m sz fs) task' =
     (if task' = task
      then dput path (m, sz) (if length (stamps_of fs task) \<ge> MAX_PATHS_PER_AGENT
        then dpop (fst (hd (stamps_of fs task))) (stamps_of fs task) else stamps_of fs task)
      else stamps_of fs task')"
  by (simp add: record_read_def Let_def stamps_of_def py_simps)

lemma stamps_of_note [simp]: "stamps_of (note_write b path w now fs) task = stamps_of fs task"
  by (simp add: note_write_def stamps_of_def)

lemma last_writer_run: "last_writer (fs_run evs) path = last_write_in evs path"
  by (induction evs rule: rev_induct)
    (auto simp: last_writer_def last_write_in_def fs_run_def fs_empty_def dget_def note_write_def
      record_read_def Let_def dget_dput [unfolded dget_def] split: fs_event.splits)

lemma length_dpop_hd: "d \<noteq> [] \<Longrightarrow> length (dpop (fst (hd d)) d) \<le> length d - 1"
  using length_dpop_le by (cases d) (auto simp: dict_rec)

lemma stamps_bounded: "length (stamps_of (fs_run evs) task) \<le> MAX_PATHS_PER_AGENT"
proof (induction evs rule: rev_induct)
  case Nil
  then show ?case by (simp add: fs_run_def fs_empty_def stamps_of_def)
next
  case (snoc e evs)
  let ?d = "stamps_of (fs_run evs) task"
  have "length (dpop (fst (hd ?d)) ?d) \<le> length ?d - 1" if "length ?d \<ge> MAX_PATHS_PER_AGENT"
    using that by (intro length_dpop_hd) (auto simp: MAX_PATHS_PER_AGENT_def)
  moreover have "0 < MAX_PATHS_PER_AGENT" by (simp add: MAX_PATHS_PER_AGENT_def)
  ultimately show ?case
    using snoc by (cases e) (auto simp: stamps_of_record length_dput)
qed

lemma stamp_has_read:
  "path \<in> set (dkeys (stamps_of (fs_run evs) task)) \<Longrightarrow> \<exists>m sz. ReadEv path task m sz \<in> set evs"
proof (induction evs rule: rev_induct)
  case Nil
  then show ?case by (simp add: fs_run_def fs_empty_def stamps_of_def)
next
  case (snoc e evs)
  then show ?case
    by (cases e) (auto simp: stamps_of_record set_dkeys_dput set_dkeys_dpop split: if_splits)
qed

lemma last_write_foreign:
  "last_write_in evs path = Some w \<Longrightarrow> \<exists>now. WriteEv path w now \<in> set evs"
  by (induction evs rule: rev_induct) (auto simp: last_write_in_def split: fs_event.splits if_splits)

section \<open>Properties\<close>

text \<open>C16: the model is offered exactly the tools it may run. For every registry built by
  registrations, a tool's schema is listed for a user exactly when a call of that name passes the
  permission check; any other call changes nothing and answers with an error.\<close>

lemma schemas_match_execution:
  assumes "reach (\<lambda>r. r = registry_init) registry_step r"
  shows "(Some name \<in> schema_tool_name ` set (to_schemas_for_user checker user enforce r) \<longleftrightarrow>
      (\<exists>t. registry_get r name = Some t \<and> \<not> call_denied checker user enforce t)) \<and>
    (Some name \<notin> schema_tool_name ` set (to_schemas_for_user checker user enforce r) \<longrightarrow>
      (\<exists>msg. registry_execute scrub disabled stat checker user enforce run_id name args (r, w) =
        ((r, w), ''Error: '' @ msg)))"
proof -
  have inv: "registry_inv r" by (rule registry_sys.reach_inv [OF assms])
  have un: "\<not> call_denied checker user enforce t" if "checker = None \<or> user = None" for t :: "'a tool"
    using that by (auto simp: call_denied_def split: option.splits)
  have names: "Some name \<in> schema_tool_name ` set (to_schemas_for_user checker user enforce r) \<longleftrightarrow>
      (\<exists>t. t \<in> set (list_all_tools r) \<and> tool_name t = name \<and> \<not> call_denied checker user enforce t)"
    using un by (auto simp: to_schemas_for_user_def to_schemas_def image_iff)
  also have iff: "\<dots> \<longleftrightarrow> (\<exists>t. registry_get r name = Some t \<and> \<not> call_denied checker user enforce t)"
    using in_list_all [OF inv] inv by (auto simp: registry_inv_def)
  finally show ?thesis
    by (auto simp: registry_execute_def split: option.splits)
qed

definition echo_tool :: "nat tool" where
  "echo_tool = \<lparr>tool_name = ''echo'', tool_description = ''d'', tool_params = [], tool_risk = LOW,
     parallel_safe = True, tool_terminal = False, tool_direct = None, tool_source_kind = None, tool_source_name = None,
     tool_departments = None, tool_run = (\<lambda>args w. (w + 1, Inr ''ok''))\<rparr>"

lemma schemas_match_execution_witness:
  "Some ''echo'' \<in> schema_tool_name `
     set (to_schemas_for_user (Some []) (Some \<lparr>au_department = ''d''\<rparr>) False (put_tool ''echo'' echo_tool registry_init))"
proof -
  have "reach (\<lambda>r. r = registry_init) registry_step (put_tool ''echo'' echo_tool registry_init)"
  proof (rule reach_step)
    show "registry_step registry_init (put_tool ''echo'' echo_tool registry_init)"
      by (rule rs_register [where t = echo_tool and allow = False])
        (simp add: register_def registry_init_def echo_tool_def)
  qed (simp add: reach_start)
  from schemas_match_execution [OF this, of "''echo''" "Some []" "Some \<lparr>au_department = ''d''\<rparr>" False]
  show ?thesis
    by (simp add: call_denied_def can_use_registered_tool_def source_of_def echo_tool_def)
qed

text \<open>a write goes unwarned only when it is safe. After any history of reads and writes, the
  check for a run stays silent only if this run has read the file and nobody else wrote it last;
  the memory per run is bounded by the cap.\<close>

lemma silent_check_is_safe:
  "(check_stale False path task (fs_run evs) = None \<longrightarrow>
      (\<exists>m sz. ReadEv path task m sz \<in> set evs) \<and> last_write_in evs path \<in> {None, Some task}) \<and>
   length (stamps_of (fs_run evs) task) \<le> MAX_PATHS_PER_AGENT"
  using stamp_has_read [of path evs task] stamps_bounded [of evs task]
  by (auto simp: check_stale_def last_writer_run split: if_splits option.splits)

lemma silent_check_is_safe_witness:
  "\<exists>m sz. ReadEv ''f'' ''r1'' m sz \<in> set [ReadEv ''f'' ''r1'' 1 2, WriteEv ''f'' ''r1'' 3]"
  using silent_check_is_safe [of "''f''" "''r1''" "[ReadEv ''f'' ''r1'' 1 2, WriteEv ''f'' ''r1'' 3]"]
  by (simp add: fs_run_def fs_empty_def record_read_def note_write_def check_stale_def stamps_of_def
      last_writer_def dict_rec)

text \<open>The stale warning cannot be cleared the way it asks for. Once another run has written
  the path last, the check keeps warning this run however often it reads the file again, and even
  when its reads all came after the write.\<close>

lemma reread_never_clears_warning:
  assumes w: "last_write_in evs path = Some w" "w \<noteq> task"
    and reads: "\<forall>e\<in>set later. \<exists>p m sz. e = ReadEv p task m sz"
  shows "check_stale False path task (fs_run (evs @ later)) \<noteq> None"
proof -
  have "last_write_in (evs @ later) path = Some w"
    using reads
  proof (induction later rule: rev_induct)
    case (snoc e later)
    then show ?case by (auto simp: last_write_in_def)
  qed (simp add: w)
  then show ?thesis using w(2) by (simp add: check_stale_def last_writer_run)
qed

lemma reread_never_clears_warning_witness:
  "check_stale False ''f'' ''r1'' (fs_run ([WriteEv ''f'' ''r2'' 1] @ [ReadEv ''f'' ''r1'' 5 6])) \<noteq> None"
  by (rule reread_never_clears_warning [where w = "''r2''"]) (simp_all add: last_write_in_def)

end
