(* ===== verification/SchedParse.thy ===== *)
theory SchedParse
  imports Prelude
begin

text \<open>
  \<open>scheduler/models.py\<close> and \<open>scheduler/parse.py\<close>: schedule specifications, the deterministic
  parser of schedule strings, and the computation of the next run. Times are integer seconds
  of UTC. Parameters: \<open>zone_ok\<close> (the time zone database), \<open>cron_ok\<close> and \<open>cron_next\<close> (croniter:
  whether an expression is valid, and the first fire time strictly after a start, in a zone; \<open>None\<close>
  stands for \<open>CroniterBadDateError\<close>, raised when no date matches, as for \<open>0 0 30 2 *\<close>),
  \<open>from_iso\<close> (\<open>datetime.fromisoformat\<close>, read in a zone when the text has no offset),
  \<open>wall_add\<close> (minutes added to the local wall clock of a zone, as adding a \<open>timedelta\<close> does).
\<close>

section \<open>Schedules\<close>

datatype schedule_kind = Once | Interval | Cron | Unset

record schedule_spec =
  sp_kind :: schedule_kind
  sp_run_at :: "int option"
  sp_minutes :: "int option"
  sp_expr :: "string option"

definition unset_spec :: schedule_spec where
  "unset_spec = \<lparr>sp_kind = Unset, sp_run_at = None, sp_minutes = None, sp_expr = None\<rparr>"

definition kind_name :: "schedule_kind \<Rightarrow> string" where
  "kind_name k = (case k of Once \<Rightarrow> ''once'' | Interval \<Rightarrow> ''interval'' | Cron \<Rightarrow> ''cron'' | Unset \<Rightarrow> ''unset'')"

text \<open>\<open>to_json\<close> and \<open>from_json\<close>; a time is stored as the text \<open>render t\<close>, read back by \<open>read\<close>.\<close>

definition spec_to_json :: "(int \<Rightarrow> string) \<Rightarrow> schedule_spec \<Rightarrow> (string \<times> json) list" where
  "spec_to_json render sp =
     [(''kind'', JStr (kind_name (sp_kind sp)))] @
     (case sp_run_at sp of None \<Rightarrow> [] | Some t \<Rightarrow> [(''run_at'', JStr (render t))]) @
     (case sp_minutes sp of None \<Rightarrow> [] | Some m \<Rightarrow> [(''minutes'', JInt m)]) @
     (case sp_expr sp of None \<Rightarrow> [] | Some e \<Rightarrow> [(''expr'', JStr e)])"

definition kind_of_name :: "string \<Rightarrow> schedule_kind" where
  "kind_of_name s =
     (if s = ''once'' then Once else if s = ''interval'' then Interval
      else if s = ''cron'' then Cron else Unset)"

definition spec_from_json :: "(string \<Rightarrow> int) \<Rightarrow> (string \<times> json) list \<Rightarrow> schedule_spec" where
  "spec_from_json read data =
     (if data = [] then unset_spec
      else \<lparr>sp_kind = (case jget data ''kind'' of Some (JStr k) \<Rightarrow> kind_of_name k | _ \<Rightarrow> Unset),
        sp_run_at = (case jget data ''run_at'' of Some (JStr t) \<Rightarrow> Some (read t) | _ \<Rightarrow> None),
        sp_minutes = (case jget data ''minutes'' of Some (JInt m) \<Rightarrow> Some m
          | Some (JNum q) \<Rightarrow> Some (if q < 0 then - \<lfloor>- q\<rfloor> else \<lfloor>q\<rfloor>) | _ \<Rightarrow> None),
        sp_expr = (case jget data ''expr'' of Some (JStr e) \<Rightarrow> Some e | _ \<Rightarrow> None)\<rparr>)"

section \<open>Durations\<close>

definition digit_value :: "char \<Rightarrow> int" where
  "digit_value c = int (cp c) - 48"

definition int_of_digits :: "string \<Rightarrow> int" where
  "int_of_digits ds = foldl (\<lambda>n c. 10 * n + digit_value c) 0 ds"

text \<open>Drops the first of the given words that the text starts with, ignoring case.\<close>

fun drop_word :: "string list \<Rightarrow> string \<Rightarrow> string option" where
  "drop_word [] s = None"
| "drop_word (w # ws) s =
     (if starts_with (map to_lower s) w then Some (drop (length w) s) else drop_word ws s)"

text \<open>\<open>(?:(\d+)\s*unit)?\<close>: the number and the rest of the text, or no number and the text.\<close>

definition take_component :: "string list \<Rightarrow> string \<Rightarrow> int option \<times> string" where
  "take_component words s =
     (let ds = takeWhile is_digit s; rest = dropWhile is_space (dropWhile is_digit s)
      in if ds = [] then (None, s)
         else (case drop_word words rest of None \<Rightarrow> (None, s) | Some rest' \<Rightarrow> (Some (int_of_digits ds), rest')))"

definition DAY_WORDS :: "string list" where "DAY_WORDS = [''days'', ''day'', ''d'']"
definition HOUR_WORDS :: "string list" where "HOUR_WORDS = [''hours'', ''hour'', ''h'']"
definition MINUTE_WORDS :: "string list" where
  "MINUTE_WORDS = [''minutes'', ''minute'', ''min'', ''m'']"

definition or_zero :: "int option \<Rightarrow> int" where
  "or_zero o1 = (case o1 of None \<Rightarrow> 0 | Some n \<Rightarrow> n)"

text \<open>\<open>_BARE_DURATION_RE\<close>: digits, white space, one unit letter, end of text.\<close>

definition bare_duration :: "string \<Rightarrow> (int \<times> char) option" where
  "bare_duration s =
     (let ds = takeWhile is_digit s; rest = dropWhile is_space (dropWhile is_digit s)
      in if ds = [] then None
         else (case rest of
                 [c] \<Rightarrow> if to_lower c \<in> {CHR ''d'', CHR ''h'', CHR ''m''}
                        then Some (int_of_digits ds, to_lower c) else None
               | _ \<Rightarrow> None))"

datatype parse_error =
    EmptySchedule | UnknownZone string | InvalidDuration string | NonPositiveDuration string
  | InvalidCron string | InvalidTimestamp string | InvalidSchedule string | NoCronDate string

definition duration_to_minutes :: "string \<Rightarrow> parse_error + int" where
  "duration_to_minutes txt =
     (let s = strip txt in
      case bare_duration s of
        Some (n, u) \<Rightarrow>
          Inr (if u = CHR ''d'' then n * 24 * 60 else if u = CHR ''h'' then n * 60 else n)
      | None \<Rightarrow>
          (let (d, s1) = take_component DAY_WORDS s;
               (h, s2) = take_component HOUR_WORDS (dropWhile is_space s1);
               (m, s3) = take_component MINUTE_WORDS (dropWhile is_space s2)
           in if dropWhile is_space s3 \<noteq> [] then Inl (InvalidDuration s)
              else
                (let total = or_zero d * 24 * 60 + or_zero h * 60 + or_zero m
                 in if total \<le> 0 then Inl (NonPositiveDuration s) else Inr total)))"

section \<open>Parsing a schedule\<close>

definition drop_every :: "string \<Rightarrow> string option" where
  "drop_every raw =
     (if starts_with (map to_lower raw) ''every'' then
        (let rest = drop 5 raw; body = dropWhile is_space rest
         in if rest \<noteq> [] \<and> is_space (hd rest) \<and> body \<noteq> [] \<and> CHR 0x0A \<notin> set body
            then Some body else None)
      else None)"

text \<open>\<open>s.split()\<close>.\<close>

function split_ws :: "string \<Rightarrow> string list" where
  "split_ws s =
     (let t = dropWhile is_space s in
      if t = [] then []
      else takeWhile (\<lambda>c. \<not> is_space c) t # split_ws (dropWhile (\<lambda>c. \<not> is_space c) t))"
  by pat_completeness auto

lemma split_ws_shrinks:
  assumes "dropWhile is_space s \<noteq> []"
  shows "length (dropWhile (\<lambda>c. \<not> is_space c) (dropWhile is_space s)) < length s"
proof -
  let ?t = "dropWhile is_space s"
  have hd: "\<not> is_space (hd ?t)" by (rule hd_dropWhile [OF assms])
  then have "dropWhile (\<lambda>c. \<not> is_space c) ?t = dropWhile (\<lambda>c. \<not> is_space c) (tl ?t)"
    using assms by (cases ?t) auto
  then have "length (dropWhile (\<lambda>c. \<not> is_space c) ?t) \<le> length (tl ?t)"
    by (metis length_dropWhile_le)
  also have "\<dots> < length ?t" using assms by simp
  also have "\<dots> \<le> length s" by (rule length_dropWhile_le)
  finally show ?thesis .
qed

termination split_ws
  by (relation "measure length") (use split_ws_shrinks in auto)

declare split_ws.simps [simp del]

text \<open>\<open>^\d{4}-\d{2}-\d{2}[ T]\d{2}:\d{2}\<close> at the start of the text.\<close>

definition iso_prefix :: "string \<Rightarrow> bool" where
  "iso_prefix s \<longleftrightarrow>
     length s \<ge> 16 \<and> (\<forall>i\<in>{0, 1, 2, 3, 5, 6, 8, 9, 11, 12, 14, 15}. is_digit (s ! i)) \<and>
     s ! 4 = CHR ''-'' \<and> s ! 7 = CHR ''-'' \<and> s ! 10 \<in> {CHR '' '', CHR ''T''} \<and> s ! 13 = CHR '':''"

record calendar =
  zone_ok :: "string \<Rightarrow> bool"
  cron_ok :: "string \<Rightarrow> bool"
  cron_next :: "string \<Rightarrow> string \<Rightarrow> int \<Rightarrow> int option"
  from_iso :: "string \<Rightarrow> string \<Rightarrow> int option"
  wall_add :: "string \<Rightarrow> int \<Rightarrow> int \<Rightarrow> int"

definition parse_schedule :: "calendar \<Rightarrow> string \<Rightarrow> int \<Rightarrow> string \<Rightarrow> parse_error + schedule_spec" where
  "parse_schedule cal schedule now tz =
     (let raw = strip schedule in
      if raw = [] then Inl EmptySchedule
      else if \<not> zone_ok cal tz then Inl (UnknownZone tz)
      else
        (case drop_every raw of
           Some body \<Rightarrow>
             (case duration_to_minutes body of
                Inl e \<Rightarrow> Inl e
              | Inr m \<Rightarrow> Inr (unset_spec\<lparr>sp_kind := Interval, sp_minutes := Some m\<rparr>))
         | None \<Rightarrow>
             (case duration_to_minutes raw of
                Inr m \<Rightarrow> Inr (unset_spec\<lparr>sp_kind := Once, sp_run_at := Some (wall_add cal tz now m)\<rparr>)
              | Inl _ \<Rightarrow>
                  (if length (split_ws raw) = 5 then
                     (if cron_ok cal raw then Inr (unset_spec\<lparr>sp_kind := Cron, sp_expr := Some raw\<rparr>)
                      else Inl (InvalidCron raw))
                   else if CHR ''T'' \<in> set raw \<or> iso_prefix raw then
                     (case from_iso cal tz raw of
                        Some t \<Rightarrow> Inr (unset_spec\<lparr>sp_kind := Once, sp_run_at := Some t\<rparr>)
                      | None \<Rightarrow> Inl (InvalidTimestamp raw))
                   else Inl (InvalidSchedule raw)))))"

section \<open>The next run\<close>

text \<open>The catch-up loop of the cron branch: \<open>None\<close> when the fuel runs out, \<open>Some None\<close> when croniter
  raises, \<open>Some (Some t)\<close> when it ends with \<open>t\<close>.\<close>

fun cron_catch_up :: "nat \<Rightarrow> (int \<Rightarrow> int option) \<Rightarrow> int \<Rightarrow> int \<Rightarrow> int option option" where
  "cron_catch_up 0 nxt now t = None"
| "cron_catch_up (Suc n) nxt now t =
     (if t \<le> now then
        (case nxt t of
           None \<Rightarrow> Some None
         | Some t' \<Rightarrow> if t' > now + 400 * 86400 then Some (Some t') else cron_catch_up n nxt now t')
      else Some (Some t))"

text \<open>\<open>Inl\<close> is the error of an unknown zone or the exception of croniter, which escapes as it is (it is no
  \<open>ScheduleParseError\<close>); \<open>Inr None\<close> is a schedule that is exhausted or unset.\<close>

definition compute_next_run ::
    "calendar \<Rightarrow> schedule_spec \<Rightarrow> int option \<Rightarrow> int \<Rightarrow> string \<Rightarrow> parse_error + int option" where
  "compute_next_run cal sp last_run now tz =
     (if \<not> zone_ok cal tz then Inl (UnknownZone tz)
      else
        (case sp_kind sp of
           Unset \<Rightarrow> Inr None
         | Once \<Rightarrow>
             (case sp_run_at sp of
                None \<Rightarrow> Inr None
              | Some t \<Rightarrow>
                  (case last_run of
                     None \<Rightarrow> Inr (Some t)
                   | Some l \<Rightarrow> if l \<ge> t then Inr None else Inr (Some t)))
         | Interval \<Rightarrow>
             (if or_zero (sp_minutes sp) \<le> 0 then Inr None
              else Inr (Some ((case last_run of None \<Rightarrow> now | Some l \<Rightarrow> l) + 60 * or_zero (sp_minutes sp))))
         | Cron \<Rightarrow>
             (case sp_expr sp of
                None \<Rightarrow> Inr None
              | Some e \<Rightarrow>
                  if e = [] then Inr None
                  else
                    (case cron_next cal e tz (case last_run of None \<Rightarrow> now | Some l \<Rightarrow> l) of
                       None \<Rightarrow> Inl (NoCronDate e)
                     | Some t \<Rightarrow>
                         (case last_run of
                            None \<Rightarrow>
                              (if t < now
                               then (case cron_next cal e tz t of
                                       None \<Rightarrow> Inl (NoCronDate e) | Some t' \<Rightarrow> Inr (Some t'))
                               else Inr (Some t))
                          | Some l \<Rightarrow>
                              (case cron_catch_up (Suc (nat (now - t + 1))) (cron_next cal e tz) now t of
                                 None \<Rightarrow> Inr None
                               | Some None \<Rightarrow> Inl (NoCronDate e)
                               | Some (Some t') \<Rightarrow> Inr (Some t')))))))"

section \<open>Lemmas\<close>

lemma digit_value_nonneg: "is_digit c \<Longrightarrow> 0 \<le> digit_value c"
  by (simp add: is_digit_def digit_value_def)

lemma int_of_digits_nonneg: "\<forall>c\<in>set ds. is_digit c \<Longrightarrow> 0 \<le> int_of_digits ds"
proof -
  have "0 \<le> n \<Longrightarrow> \<forall>c\<in>set ds. is_digit c \<Longrightarrow> 0 \<le> foldl (\<lambda>n c. 10 * n + digit_value c) n ds" for n
    by (induction ds arbitrary: n) (auto simp: digit_value_nonneg)
  then show "\<forall>c\<in>set ds. is_digit c \<Longrightarrow> 0 \<le> int_of_digits ds" by (simp add: int_of_digits_def)
qed

lemma takeWhile_digits: "\<forall>c\<in>set (takeWhile is_digit s). is_digit c"
  by (auto dest: set_takeWhileD)

lemma duration_nonneg: "duration_to_minutes s = Inr m \<Longrightarrow> 0 \<le> m"
  using int_of_digits_nonneg [OF takeWhile_digits]
  by (auto simp: duration_to_minutes_def bare_duration_def Let_def split: if_splits option.splits
      list.splits prod.splits)

lemma cron_catch_up_total:
  "(\<And>t t'. nxt t = Some t' \<Longrightarrow> t < t') \<Longrightarrow> 0 < n \<Longrightarrow> now - t + 1 < int n \<Longrightarrow>
   (\<exists>r. cron_catch_up n nxt now t = Some (Some r) \<and> now < r) \<or>
   cron_catch_up n nxt now t = Some None \<and> (\<exists>u. t \<le> u \<and> u \<le> now \<and> nxt u = None)"
proof (induction n arbitrary: t)
  case (Suc n)
  show ?case
  proof (cases "nxt t")
    case (Some t')
    then have lt: "t < t'" by (rule Suc.prems(1))
    show ?thesis
    proof (cases "t \<le> now \<and> \<not> t' > now + 400 * 86400")
      case True
      then have "(\<exists>r. cron_catch_up n nxt now t' = Some (Some r) \<and> now < r) \<or>
          cron_catch_up n nxt now t' = Some None \<and> (\<exists>u. t' \<le> u \<and> u \<le> now \<and> nxt u = None)"
        using Suc.prems lt by (intro Suc.IH) auto
      moreover have "\<exists>u\<ge>t. u \<le> now \<and> nxt u = None" if "t' \<le> u" "u \<le> now" "nxt u = None" for u
        using that lt by (intro exI [of _ u]) simp
      ultimately show ?thesis using True Some by auto
    qed (auto simp: Some)
  qed (auto intro!: exI [of _ t])
qed simp

section \<open>Concrete schedules\<close>

lemmas char_eval = strip_def strip_by_def is_space_def is_space_cp_def is_digit_def to_lower_def Let_def

lemma strip_examples:
  "strip ''every 0m'' = ''every 0m''" "strip ''0m'' = ''0m''" "strip ''0h 0m'' = ''0h 0m''"
  "strip ''every 0h 0m'' = ''every 0h 0m''" "strip ''1h30m'' = ''1h30m''"
  "strip ''every 1h30m'' = ''every 1h30m''"
  by (simp_all add: char_eval)

lemma drop_every_examples:
  "drop_every ''every 0m'' = Some ''0m''" "drop_every ''0m'' = None"
  "drop_every ''every 0h 0m'' = Some ''0h 0m''" "drop_every ''every 1h30m'' = Some ''1h30m''"
  by (simp_all add: char_eval drop_every_def)

lemma duration_examples:
  "duration_to_minutes ''0m'' = Inr 0" "duration_to_minutes ''1h30m'' = Inr 90"
  "duration_to_minutes ''0h 0m'' = Inl (NonPositiveDuration ''0h 0m'')"
  by (simp_all add: strip_examples duration_to_minutes_def bare_duration_def take_component_def
      char_eval int_of_digits_def digit_value_def DAY_WORDS_def HOUR_WORDS_def MINUTE_WORDS_def or_zero_def)

definition utc_calendar :: calendar where
  "utc_calendar = \<lparr>zone_ok = (\<lambda>z. z = ''UTC''), cron_ok = (\<lambda>e. True), cron_next = (\<lambda>e tz t. Some (t + 3600)),
     from_iso = (\<lambda>tz s. None), wall_add = (\<lambda>tz t m. t + 60 * m)\<rparr>"

lemmas schedule_eval = parse_schedule_def strip_examples drop_every_examples duration_examples
  compute_next_run_def utc_calendar_def or_zero_def unset_spec_def

section \<open>Properties\<close>



text \<open>An expression that names no date is accepted and then fails outside of the errors the callers handle.\<close>

definition no_date_calendar :: calendar where
  "no_date_calendar = utc_calendar\<lparr>cron_next := (\<lambda>e tz t. None)\<rparr>"

lemma undated_cron_escapes:
  "compute_next_run no_date_calendar (unset_spec\<lparr>sp_kind := Cron, sp_expr := Some ''0 0 30 2 *''\<rparr>) None now ''UTC'' =
   Inl (NoCronDate ''0 0 30 2 *'')"
  by (simp add: compute_next_run_def no_date_calendar_def utc_calendar_def unset_spec_def)

text \<open>The positivity check has a hole. A duration in components must be positive, but the
  one-unit form bypasses the check: \<open>every 0m\<close> parses as an interval that has no next run and
  \<open>0m\<close> as a one-shot that is due at once, while \<open>every 0h 0m\<close> is refused.\<close>

lemma zero_duration_accepted:
  "parse_schedule utc_calendar ''every 0m'' now ''UTC'' =
      Inr (unset_spec\<lparr>sp_kind := Interval, sp_minutes := Some 0\<rparr>) \<and>
   compute_next_run utc_calendar (unset_spec\<lparr>sp_kind := Interval, sp_minutes := Some 0\<rparr>) None now ''UTC'' =
      Inr None \<and>
   parse_schedule utc_calendar ''0m'' now ''UTC'' =
      Inr (unset_spec\<lparr>sp_kind := Once, sp_run_at := Some now\<rparr>) \<and>
   parse_schedule utc_calendar ''every 0h 0m'' now ''UTC'' = Inl (NonPositiveDuration ''0h 0m'')"
  by (simp add: schedule_eval)

end
