(* ===== verification/SchedStore.thy ===== *)
theory SchedStore
  imports SchedParse
begin

text \<open>
  \<open>scheduler/store.py\<close>: the SQLite table of scheduled tasks, as a list of rows with unique
  identifiers. Every statement is atomic; a method that issues several \<open>SELECT\<close>s before its first
  write holds no transaction until that write, so its check and its insertion are separate steps
  here (\<open>insert_check\<close>, \<open>insert_row\<close>). Times are integer seconds: the stored ISO texts are all
  UTC with the same width, so their order is that of the times.
\<close>

section \<open>Rows\<close>

datatype task_status = Pending | Active | Paused | Done | Dismissed

record sched_task =
  t_id :: string
  t_user :: int
  t_title :: string
  t_text :: string
  t_sched_text :: string
  t_spec :: schedule_spec
  t_tz :: string
  t_status :: task_status
  t_enabled :: bool
  t_dedup :: string
  t_next_run :: "int option"
  t_last_run :: "int option"
  t_last_status :: "string option"
  t_run_count :: int
  t_error_count :: int
  t_created :: "int option"
  t_updated :: "int option"
  t_accepted :: "int option"
  t_claimed_at :: "int option"
  t_claim_token :: "string option"

record run_log_entry =
  rl_task :: string
  rl_at :: int
  rl_status :: string
  rl_skip_reason :: "string option"
  rl_run_id :: "string option"
  rl_preview :: "string option"

record sched_store =
  rows :: "sched_task list"
  run_log :: "run_log_entry list"

definition set_rows :: "sched_task list \<Rightarrow> sched_store \<Rightarrow> sched_store" where
  "set_rows rs s = s\<lparr>rows := rs\<rparr>"

text \<open>\<open>UPDATE ... WHERE\<close>: the new rows and \<open>cursor.rowcount\<close>.\<close>

definition update_where ::
    "(sched_task \<Rightarrow> bool) \<Rightarrow> (sched_task \<Rightarrow> sched_task) \<Rightarrow> sched_store \<Rightarrow> sched_store \<times> nat" where
  "update_where p f s =
     (set_rows (map (\<lambda>r. if p r then f r else r) (rows s)) s, length (filter p (rows s)))"

section \<open>Queries\<close>

definition count_active :: "int \<Rightarrow> sched_store \<Rightarrow> nat" where
  "count_active user s =
     length (filter (\<lambda>r. t_user r = user \<and> t_status r \<in> {Pending, Active}) (rows s))"

definition has_dismissed_dedup :: "int \<Rightarrow> string \<Rightarrow> sched_store \<Rightarrow> bool" where
  "has_dismissed_dedup user key s \<longleftrightarrow>
     key \<noteq> [] \<and> (\<exists>r\<in>set (rows s). t_user r = user \<and> t_dedup r = key \<and> t_status r = Dismissed)"

definition has_live_dedup :: "int \<Rightarrow> string \<Rightarrow> sched_store \<Rightarrow> bool" where
  "has_live_dedup user key s \<longleftrightarrow>
     (\<exists>r\<in>set (rows s). t_user r = user \<and> t_dedup r = key \<and> t_status r \<in> {Pending, Active, Paused})"

definition get_task :: "string \<Rightarrow> int option \<Rightarrow> sched_store \<Rightarrow> sched_task option" where
  "get_task i user s =
     find (\<lambda>r. t_id r = i \<and> (case user of None \<Rightarrow> True | Some u \<Rightarrow> t_user r = u)) (rows s)"

text \<open>\<open>ORDER BY created_at DESC\<close> and \<open>ORDER BY next_run_at ASC\<close>: sorting is stable here, the order
  of equal keys is unspecified in SQL.\<close>

definition list_for_user :: "int \<Rightarrow> task_status list \<Rightarrow> sched_store \<Rightarrow> sched_task list" where
  "list_for_user user statuses s =
     sort_key (\<lambda>r. - (case t_created r of None \<Rightarrow> 0 | Some t \<Rightarrow> t))
       (filter (\<lambda>r. t_user r = user \<and> (statuses = [] \<or> t_status r \<in> set statuses)) (rows s))"

definition claimable :: "int \<Rightarrow> sched_task \<Rightarrow> bool" where
  "claimable stale_before r \<longleftrightarrow> (case t_claimed_at r of None \<Rightarrow> True | Some c \<Rightarrow> c < stale_before)"

definition list_due :: "int \<Rightarrow> int \<Rightarrow> nat \<Rightarrow> sched_store \<Rightarrow> sched_task list" where
  "list_due now stale_before limit s =
     take limit (sort_key (\<lambda>r. case t_next_run r of None \<Rightarrow> 0 | Some t \<Rightarrow> t)
       (filter (\<lambda>r. t_status r = Active \<and> t_enabled r \<and>
          (case t_next_run r of None \<Rightarrow> False | Some t \<Rightarrow> t \<le> now) \<and> claimable stale_before r) (rows s)))"

section \<open>Writes\<close>

text \<open>\<open>INSERT\<close>; \<open>Inl ()\<close> is the integrity error of a duplicate primary key.\<close>

definition stamp_created :: "int \<Rightarrow> sched_task \<Rightarrow> sched_task" where
  "stamp_created now t =
     t\<lparr>t_created := (case t_created t of None \<Rightarrow> Some now | Some c \<Rightarrow> Some c), t_updated := Some now\<rparr>"

definition insert_row :: "sched_task \<Rightarrow> sched_store \<Rightarrow> unit + sched_store" where
  "insert_row t s =
     (if \<exists>r\<in>set (rows s). t_id r = t_id t then Inl () else Inr (set_rows (rows s @ [t]) s))"

text \<open>\<open>_sync_insert\<close> writes no claim columns.\<close>

definition insert_task :: "int \<Rightarrow> sched_task \<Rightarrow> sched_store \<Rightarrow> unit + sched_store" where
  "insert_task now t s = insert_row ((stamp_created now t)\<lparr>t_claimed_at := None, t_claim_token := None\<rparr>) s"

text \<open>The columns an update of a whole task writes: all but the key and the creation time.\<close>

definition overwrite :: "int \<Rightarrow> sched_task \<Rightarrow> sched_task \<Rightarrow> sched_task" where
  "overwrite now t r = t\<lparr>t_id := t_id r, t_user := t_user r, t_created := t_created r, t_updated := Some now\<rparr>"

definition update_task :: "int \<Rightarrow> sched_task \<Rightarrow> sched_store \<Rightarrow> unit + sched_store" where
  "update_task now t s =
     (case update_where (\<lambda>r. t_id r = t_id t \<and> t_user r = t_user t) (overwrite now t) s of
        (s', n) \<Rightarrow> if n = 0 then Inl () else Inr s')"

definition update_guarded :: "int \<Rightarrow> sched_task \<Rightarrow> task_status list \<Rightarrow> sched_store \<Rightarrow> sched_store \<times> bool" where
  "update_guarded now t expected s =
     (case update_where (\<lambda>r. t_id r = t_id t \<and> t_user r = t_user t \<and> t_status r \<in> set expected)
        (overwrite now t) s of
        (s', n) \<Rightarrow> (s', n = 1))"

definition claim_task :: "string \<Rightarrow> int \<Rightarrow> int \<Rightarrow> string \<Rightarrow> int \<Rightarrow> sched_store \<Rightarrow> sched_store \<times> bool" where
  "claim_task i expected_next now token stale_before s =
     (case update_where
        (\<lambda>r. t_id r = i \<and> t_status r = Active \<and> t_enabled r \<and> t_next_run r = Some expected_next \<and>
           claimable stale_before r)
        (\<lambda>r. r\<lparr>t_claimed_at := Some now, t_claim_token := Some token, t_updated := Some now\<rparr>) s of
        (s', n) \<Rightarrow> (s', n = 1))"

record completion =
  c_last_run :: int
  c_last_status :: string
  c_run_delta :: int
  c_error_delta :: int
  c_status :: task_status
  c_enabled :: bool
  c_next_run :: "int option"

definition complete_row :: "int \<Rightarrow> completion \<Rightarrow> sched_task \<Rightarrow> sched_task" where
  "complete_row now c r =
     (let live = t_status r = Active \<and> t_enabled r in
      r\<lparr>t_last_run := Some (c_last_run c), t_last_status := Some (c_last_status c),
        t_run_count := t_run_count r + c_run_delta c,
        t_error_count := t_error_count r + c_error_delta c,
        t_status := (if live then c_status c else t_status r),
        t_enabled := (if live then c_enabled c else t_enabled r),
        t_next_run := (if live then c_next_run c else t_next_run r),
        t_claimed_at := None, t_claim_token := None, t_updated := Some now\<rparr>)"

definition complete_claim ::
    "int \<Rightarrow> string \<Rightarrow> int \<Rightarrow> string \<Rightarrow> completion \<Rightarrow> sched_store \<Rightarrow> sched_store \<times> bool" where
  "complete_claim now i user token c s =
     (case update_where (\<lambda>r. t_id r = i \<and> t_user r = user \<and> t_claim_token r = Some token)
        (complete_row now c) s of
        (s', n) \<Rightarrow> (s', n = 1))"

datatype insert_conflict = DismissedBefore | SameFingerprint | LimitReached int nat

definition insert_check :: "sched_task \<Rightarrow> int \<Rightarrow> sched_store \<Rightarrow> insert_conflict option" where
  "insert_check t max_n s =
     (if has_dismissed_dedup (t_user t) (t_dedup t) s then Some DismissedBefore
      else if t_dedup t \<noteq> [] \<and> has_live_dedup (t_user t) (t_dedup t) s then Some SameFingerprint
      else if int (count_active (t_user t) s) \<ge> max_n
      then Some (LimitReached max_n (count_active (t_user t) s))
      else None)"

text \<open>\<open>Inl None\<close> is the integrity error of a duplicate id, \<open>Inl (Some c)\<close> an \<open>InsertConflict\<close>.\<close>

definition insert_pending_if_allowed ::
    "int \<Rightarrow> sched_task \<Rightarrow> int \<Rightarrow> sched_store \<Rightarrow> insert_conflict option + sched_store" where
  "insert_pending_if_allowed now t max_n s =
     (case insert_check t max_n s of
        Some c \<Rightarrow> Inl (Some c)
      | None \<Rightarrow> (case insert_row (stamp_created now t) s of Inl _ \<Rightarrow> Inl None | Inr s' \<Rightarrow> Inr s'))"

definition append_run_log ::
    "int \<Rightarrow> string \<Rightarrow> string \<Rightarrow> string option \<Rightarrow> string option \<Rightarrow> string option \<Rightarrow> sched_store \<Rightarrow> sched_store" where
  "append_run_log now i status skip_reason run_id preview s =
     s\<lparr>run_log := run_log s @ [\<lparr>rl_task = i, rl_at = now, rl_status = status,
        rl_skip_reason = skip_reason, rl_run_id = run_id,
        rl_preview = (let p = take 500 (case preview of None \<Rightarrow> [] | Some q \<Rightarrow> q) in if p = [] then None else Some p)\<rparr>]\<rparr>"

definition expire_pending :: "int \<Rightarrow> int \<Rightarrow> sched_store \<Rightarrow> sched_store \<times> nat" where
  "expire_pending now cutoff s =
     update_where (\<lambda>r. t_status r = Pending \<and> (case t_created r of None \<Rightarrow> True | Some c \<Rightarrow> c < cutoff))
       (\<lambda>r. r\<lparr>t_status := Dismissed, t_dedup := [], t_updated := Some now\<rparr>) s"

section \<open>Lemmas\<close>

definition unique_ids :: "sched_store \<Rightarrow> bool" where
  "unique_ids s \<longleftrightarrow> distinct (map t_id (rows s))"

lemma set_rows_simps [simp]: "rows (set_rows rs s) = rs"
  by (simp add: set_rows_def)

lemma rows_update_where [simp]:
  "rows (fst (update_where p f s)) = map (\<lambda>r. if p r then f r else r) (rows s)"
  by (simp add: update_where_def)

lemma update_where_result:
  "update_where p f s = (fst (update_where p f s), length (filter p (rows s)))"
  by (simp add: update_where_def)

lemma filter_one:
  "distinct (map t_id rs) \<Longrightarrow>
   length (filter (\<lambda>r. t_id r = i \<and> q r) rs) = of_bool (\<exists>r\<in>set rs. t_id r = i \<and> q r)"
proof (induction rs)
  case (Cons r rs)
  have other: "t_id x \<noteq> t_id r" if "x \<in> set rs" for x
    using Cons.prems that by (metis distinct.simps(2) image_eqI list.set_map list.simps(9))
  have IH: "length (filter (\<lambda>r. t_id r = i \<and> q r) rs) = of_bool (\<exists>r\<in>set rs. t_id r = i \<and> q r)"
    using Cons by simp
  show ?case
  proof (cases "t_id r = i \<and> q r")
    case True
    then have "\<not> (\<exists>x\<in>set rs. t_id x = i \<and> q x)" using other by auto
    then show ?thesis using IH True by simp
  next
    case False
    then show ?thesis using IH by auto
  qed
qed simp

lemma unique_row:
  assumes "unique_ids s" "r \<in> set (rows s)" "r' \<in> set (rows s)" "t_id r = t_id r'"
  shows "r = r'"
  using assms unfolding unique_ids_def distinct_map inj_on_def by blast

lemma unique_update:
  "(\<And>r. t_id (f r) = t_id r) \<Longrightarrow> unique_ids (fst (update_where p f s)) \<longleftrightarrow> unique_ids s"
  by (simp add: unique_ids_def comp_def if_distrib cong: if_cong)

lemma unique_insert: "insert_row t s = Inr s' \<Longrightarrow> unique_ids s \<Longrightarrow> unique_ids s'"
  by (fastforce simp: insert_row_def unique_ids_def split: if_splits)

lemma keeps_id [simp]:
  "t_id (overwrite now t r) = t_id r" "t_id (complete_row now c r) = t_id r"
  by (simp_all add: overwrite_def complete_row_def Let_def)

lemma fst_claim: "fst (claim_task i e now tok sb s) = fst (update_where
      (\<lambda>r. t_id r = i \<and> t_status r = Active \<and> t_enabled r \<and> t_next_run r = Some e \<and> claimable sb r)
      (\<lambda>r. r\<lparr>t_claimed_at := Some now, t_claim_token := Some tok, t_updated := Some now\<rparr>) s)"
  by (simp add: claim_task_def split: prod.splits)

lemma claim_result:
  assumes "unique_ids s"
  shows "snd (claim_task i e now tok sb s) \<longleftrightarrow>
    (\<exists>r\<in>set (rows s). t_id r = i \<and> t_status r = Active \<and> t_enabled r \<and> t_next_run r = Some e \<and>
       claimable sb r)"
  using filter_one [of "rows s" i "\<lambda>r. t_status r = Active \<and> t_enabled r \<and> t_next_run r = Some e \<and>
       claimable sb r"] assms
  by (simp add: claim_task_def update_where_def unique_ids_def)

lemma fst_complete: "fst (complete_claim now i user tok c s) = fst (update_where
      (\<lambda>r. t_id r = i \<and> t_user r = user \<and> t_claim_token r = Some tok) (complete_row now c) s)"
  by (simp add: complete_claim_def split: prod.splits)

lemma complete_result:
  assumes "unique_ids s"
  shows "snd (complete_claim now i user tok c s) \<longleftrightarrow>
    (\<exists>r\<in>set (rows s). t_id r = i \<and> t_user r = user \<and> t_claim_token r = Some tok)"
  using filter_one [of "rows s" i "\<lambda>r. t_user r = user \<and> t_claim_token r = Some tok"] assms
  by (simp add: complete_claim_def update_where_def unique_ids_def)

lemma fst_guarded: "fst (update_guarded now t expected s) = fst (update_where
      (\<lambda>r. t_id r = t_id t \<and> t_user r = t_user t \<and> t_status r \<in> set expected) (overwrite now t) s)"
  by (simp add: update_guarded_def split: prod.splits)

lemma rows_append_log [simp]: "rows (append_run_log now i st sk rid p s) = rows s"
  by (simp add: append_run_log_def)

section \<open>Leases\<close>

text \<open>What happens to a row while worker \<open>k\<close> holds the claim it took at \<open>t0\<close>: other workers try
  to claim, with a staleness bound that does not reach past \<open>t0\<close>, or complete claims of their
  own; new rows arrive, old proposals expire, the run log grows.\<close>

inductive lease_step :: "string \<Rightarrow> int \<Rightarrow> sched_store \<Rightarrow> sched_store \<Rightarrow> bool" for k t0 where
  ls_claim: "sb \<le> t0 \<Longrightarrow> lease_step k t0 s (fst (claim_task i e now tok sb s))"
| ls_complete: "tok \<noteq> k \<Longrightarrow> lease_step k t0 s (fst (complete_claim now i user tok c s))"
| ls_insert: "insert_row t s = Inr s' \<Longrightarrow> lease_step k t0 s s'"
| ls_expire: "lease_step k t0 s (fst (expire_pending now cutoff s))"
| ls_log: "lease_step k t0 s (append_run_log now i st sk rid p s)"

definition held :: "string \<Rightarrow> int \<Rightarrow> string \<Rightarrow> int \<Rightarrow> sched_store \<Rightarrow> bool" where
  "held i user k t0 s \<longleftrightarrow> unique_ids s \<and>
     (\<exists>r\<in>set (rows s). t_id r = i \<and> t_user r = user \<and> t_claim_token r = Some k \<and> t_claimed_at r = Some t0)"

lemma held_update:
  assumes h: "held i user k t0 s" and id: "\<And>r. t_id (f r) = t_id r"
    and keep: "\<And>r. r \<in> set (rows s) \<Longrightarrow> p r \<Longrightarrow> t_claim_token r = Some k \<Longrightarrow> t_claimed_at r = Some t0 \<Longrightarrow>
      t_user (f r) = t_user r \<and> t_claim_token (f r) = Some k \<and> t_claimed_at (f r) = Some t0"
  shows "held i user k t0 (fst (update_where p f s))"
proof -
  obtain r where r: "r \<in> set (rows s)" "t_id r = i" "t_user r = user" "t_claim_token r = Some k"
      "t_claimed_at r = Some t0"
    using h by (auto simp: held_def)
  have "(if p r then f r else r) \<in> set (rows (fst (update_where p f s)))" using r(1) by simp
  moreover have "unique_ids (fst (update_where p f s))"
    using h id by (simp add: unique_update held_def)
  ultimately show ?thesis unfolding held_def using keep [OF r(1)] r id by (cases "p r") auto
qed

lemma held_step: "lease_step k t0 s s' \<Longrightarrow> held i user k t0 s \<Longrightarrow> held i user k t0 s'"
proof (induction rule: lease_step.induct)
  case (ls_claim sb s j e now tok)
  then show ?case
    unfolding fst_claim by (intro held_update) (auto simp: claimable_def)
next
  case (ls_complete tok s now j u c)
  then show ?case
    unfolding fst_complete by (intro held_update) auto
next
  case (ls_insert t s s')
  then show ?case
    using unique_insert [OF ls_insert(1)] by (auto simp: held_def insert_row_def split: if_splits)
next
  case (ls_expire s now cutoff)
  then show ?case
    unfolding expire_pending_def by (intro held_update) auto
qed (simp add: held_def unique_ids_def)

interpretation lease: invariant_system "held i user k t0" "lease_step k t0" "held i user k t0"
  by unfold_locales (auto intro: held_step)

lemma held_of_claim:
  assumes u: "unique_ids s" and c: "snd (claim_task i e now tok sb s)"
  shows "\<exists>user. held i user tok now (fst (claim_task i e now tok sb s))"
proof -
  obtain r where r: "r \<in> set (rows s)" "t_id r = i" "t_status r = Active" "t_enabled r"
      "t_next_run r = Some e" "claimable sb r"
    using claim_result [OF u] c by blast
  let ?f = "\<lambda>r. r\<lparr>t_claimed_at := Some now, t_claim_token := Some tok, t_updated := Some now\<rparr>"
  have "?f r \<in> set (rows (fst (claim_task i e now tok sb s)))"
    unfolding fst_claim rows_update_where using r by (auto simp: image_iff intro!: bexI [of _ r])
  moreover have "unique_ids (fst (claim_task i e now tok sb s))"
    unfolding fst_claim using u by (subst unique_update) simp_all
  ultimately show ?thesis unfolding held_def using r(2) by (intro exI [of _ "t_user r"] conjI bexI [of _ "?f r"]) auto
qed

lemma held_blocks_claim:
  assumes h: "held i user k t0 s" and sb: "sb \<le> t0"
  shows "\<not> snd (claim_task i e now tok sb s)"
proof
  assume "snd (claim_task i e now tok sb s)"
  moreover have u: "unique_ids s" using h by (simp add: held_def)
  ultimately obtain r where "r \<in> set (rows s)" "t_id r = i" "claimable sb r" using claim_result by blast
  moreover obtain r' where "r' \<in> set (rows s)" "t_id r' = i" "t_claimed_at r' = Some t0"
    using h by (auto simp: held_def)
  ultimately show False using unique_row [OF u, of r r'] sb by (auto simp: claimable_def)
qed

lemma held_completes: "held i user k t0 s \<Longrightarrow> snd (complete_claim now i user k c s)"
  by (auto simp: complete_result held_def)

section \<open>Properties\<close>

definition sample_task :: sched_task where
  "sample_task = \<lparr>t_id = ''t1'', t_user = 7, t_title = ''T'', t_text = ''x'', t_sched_text = ''every 1h'',
     t_spec = unset_spec\<lparr>sp_kind := Interval, sp_minutes := Some 60\<rparr>, t_tz = ''UTC'', t_status = Active,
     t_enabled = True, t_dedup = ''k'', t_next_run = Some 100, t_last_run = None, t_last_status = None,
     t_run_count = 0, t_error_count = 0, t_created = Some 0, t_updated = Some 0, t_accepted = Some 0,
     t_claimed_at = None, t_claim_token = None\<rparr>"

definition sample_store :: sched_store where
  "sample_store = \<lparr>rows = [sample_task], run_log = []\<rparr>"



text \<open>a completion touches only the claim it owns, and the user wins. The row of the owner
  gets the outcome and loses the claim; its schedule fields change only if it is still active
  and enabled, so a pause or a dismissal during the run is kept. Every other row, and every row
  whose claim has passed to another token, stays as it was.\<close>

lemma completion_respects_concurrent_changes:
  assumes r: "r \<in> set (rows s)"
  shows "(if t_id r = i \<and> t_user r = user \<and> t_claim_token r = Some k
    then \<exists>r'\<in>set (rows (fst (complete_claim now i user k c s))).
        t_id r' = i \<and> t_claim_token r' = None \<and> t_claimed_at r' = None \<and>
        t_run_count r' = t_run_count r + c_run_delta c \<and>
        t_error_count r' = t_error_count r + c_error_delta c \<and> t_last_run r' = Some (c_last_run c) \<and>
        (if t_status r = Active \<and> t_enabled r
         then t_status r' = c_status c \<and> t_enabled r' = c_enabled c \<and> t_next_run r' = c_next_run c
         else t_status r' = t_status r \<and> t_enabled r' = t_enabled r \<and> t_next_run r' = t_next_run r)
    else r \<in> set (rows (fst (complete_claim now i user k c s))))"
proof (cases "t_id r = i \<and> t_user r = user \<and> t_claim_token r = Some k")
  case True
  then have "complete_row now c r \<in> set (rows (fst (complete_claim now i user k c s)))"
    unfolding fst_complete rows_update_where using r by force
  then show ?thesis using True
    by (simp, intro bexI [of _ "complete_row now c r"]) (simp_all add: complete_row_def Let_def)
next
  case False
  then have "r \<in> set (rows (fst (complete_claim now i user k c s)))"
    unfolding fst_complete rows_update_where using r by force
  then show ?thesis using False by auto
qed

lemma completion_respects_concurrent_changes_witness:
  "\<exists>r'\<in>set (rows (fst (complete_claim 150 ''t1'' 7 ''w1''
       \<lparr>c_last_run = 120, c_last_status = ''ok'', c_run_delta = 1, c_error_delta = 0, c_status = Active,
         c_enabled = True, c_next_run = Some 3720\<rparr>
       \<lparr>rows = [sample_task\<lparr>t_status := Paused, t_claim_token := Some ''w1''\<rparr>], run_log = []\<rparr>))).
     t_status r' = Paused \<and> t_run_count r' = 1"
  using completion_respects_concurrent_changes
    [of "sample_task\<lparr>t_status := Paused, t_claim_token := Some ''w1''\<rparr>"
      "\<lparr>rows = [sample_task\<lparr>t_status := Paused, t_claim_token := Some ''w1''\<rparr>], run_log = []\<rparr>"
      "''t1''" 7 "''w1''" 150 "\<lparr>c_last_run = 120, c_last_status = ''ok'', c_run_delta = 1, c_error_delta = 0,
         c_status = Active, c_enabled = True, c_next_run = Some 3720\<rparr>"]
  by (auto simp: sample_task_def)

end
