(* ===== verification/SchedService.thy ===== *)
theory SchedService
  imports SchedStore
begin

text \<open>
  \<open>scheduler/service.py\<close>: \<open>SchedulerService\<close>, the consent-first life cycle of a task and the
  dispatch of due tasks. An operation reads a task, computes a new version (\<open>..._edit\<close>) and writes
  it; other writers may come between the two, so the write takes the store as it is then.
  Parameters: \<open>digest\<close> (the SHA-256 fingerprint), \<open>calendar\<close> (see \<open>SchedParse\<close>), fresh ids and
  tokens, and the agent run, a function on the store because anything may happen while it lasts.
  Notifications are not modelled: their failures are caught.
\<close>

section \<open>Settings and errors\<close>

record sched_settings =
  ss_timezone :: string
  ss_default_title :: string
  ss_max_task_text :: nat
  ss_max_sched_text :: nat
  ss_max_tasks :: int
  ss_pending_ttl_days :: int
  ss_claim_ttl :: int

datatype sched_error =
    NotFound string | BadStatus task_status | TextRequired | ScheduleRequired
  | TextTooLong nat | ScheduleTooLong nat | ParseFailed parse_error | NoNextRun
  | Conflict insert_conflict | DuplicateId | ModifiedConcurrently | StorageFailed | NoAgentService

definition stale_before :: "sched_settings \<Rightarrow> int \<Rightarrow> int" where
  "stale_before st now = now - max 60 (ss_claim_ttl st)"

section \<open>Proposing\<close>

definition dedup_source :: "string \<Rightarrow> string \<Rightarrow> string \<Rightarrow> string \<Rightarrow> string" where
  "dedup_source user_id title txt sched =
     user_id @ ''|'' @ lower (strip title) @ ''|'' @ lower (strip txt) @ ''|'' @ lower (strip sched)"

definition make_dedup_key :: "(string \<Rightarrow> string) \<Rightarrow> string \<Rightarrow> string \<Rightarrow> string \<Rightarrow> string \<Rightarrow> string" where
  "make_dedup_key digest user_id title txt sched = take 32 (digest (dedup_source user_id title txt sched))"

definition nonempty_or :: "string \<Rightarrow> string \<Rightarrow> string" where
  "nonempty_or s d = (if s = [] then d else s)"

definition propose_task ::
    "sched_settings \<Rightarrow> calendar \<Rightarrow> (string \<Rightarrow> string) \<Rightarrow> int \<Rightarrow> string \<Rightarrow> int \<Rightarrow> string \<Rightarrow> string \<Rightarrow> string \<Rightarrow>
     string \<Rightarrow> string option \<Rightarrow> sched_error + sched_task" where
  "propose_task st cal digest now new_id user user_text title txt sched key =
     (let title_s = nonempty_or (strip title) (ss_default_title st);
          task_s = strip txt; sched_s = strip sched
      in if task_s = [] then Inl TextRequired
         else if sched_s = [] then Inl ScheduleRequired
         else if length task_s > ss_max_task_text st then Inl (TextTooLong (ss_max_task_text st))
         else if length sched_s > ss_max_sched_text st then Inl (ScheduleTooLong (ss_max_sched_text st))
         else
           (let k = (case key of Some kk \<Rightarrow> nonempty_or kk (make_dedup_key digest user_text title_s task_s sched_s)
                     | None \<Rightarrow> make_dedup_key digest user_text title_s task_s sched_s);
                spec = (case parse_schedule cal sched_s now (ss_timezone st) of
                          Inl _ \<Rightarrow> unset_spec | Inr sp \<Rightarrow> sp)
            in Inr \<lparr>t_id = new_id, t_user = user, t_title = take 120 title_s, t_text = task_s,
                 t_sched_text = sched_s, t_spec = spec, t_tz = ss_timezone st, t_status = Pending,
                 t_enabled = True, t_dedup = k, t_next_run = None, t_last_run = None,
                 t_last_status = None, t_run_count = 0, t_error_count = 0, t_created = None,
                 t_updated = None, t_accepted = None, t_claimed_at = None, t_claim_token = None\<rparr>))"

definition propose ::
    "sched_settings \<Rightarrow> calendar \<Rightarrow> (string \<Rightarrow> string) \<Rightarrow> int \<Rightarrow> string \<Rightarrow> int \<Rightarrow> string \<Rightarrow> string \<Rightarrow> string \<Rightarrow>
     string \<Rightarrow> string option \<Rightarrow> sched_store \<Rightarrow> sched_error + sched_store" where
  "propose st cal digest now new_id user user_text title txt sched key s =
     (case propose_task st cal digest now new_id user user_text title txt sched key of
        Inl e \<Rightarrow> Inl e
      | Inr t \<Rightarrow>
          (case insert_pending_if_allowed now t (ss_max_tasks st) s of
             Inl None \<Rightarrow> Inl DuplicateId | Inl (Some c) \<Rightarrow> Inl (Conflict c) | Inr s' \<Rightarrow> Inr s'))"

section \<open>Consent operations\<close>

text \<open>Each edit takes the task as it was read.\<close>

definition replace_text :: "nat \<Rightarrow> (nat \<Rightarrow> sched_error) \<Rightarrow> string option \<Rightarrow> string \<Rightarrow> sched_error + string" where
  "replace_text limit err given old =
     (case given of
        None \<Rightarrow> Inr old
      | Some g \<Rightarrow>
          (if strip g = [] then Inr old
           else if length (strip g) > limit then Inl (err limit) else Inr (strip g)))"

definition accept_edit ::
    "sched_settings \<Rightarrow> calendar \<Rightarrow> int \<Rightarrow> string option \<Rightarrow> string option \<Rightarrow> string option \<Rightarrow> sched_task \<Rightarrow>
     sched_error + sched_task" where
  "accept_edit st cal now title txt sched t =
     (if t_status t \<noteq> Pending then Inl (BadStatus (t_status t))
      else
        (case replace_text (ss_max_task_text st) TextTooLong txt (t_text t) of
           Inl e \<Rightarrow> Inl e
         | Inr txt' \<Rightarrow>
             (case replace_text (ss_max_sched_text st) ScheduleTooLong sched (t_sched_text t) of
                Inl e \<Rightarrow> Inl e
              | Inr sched' \<Rightarrow>
                  (case parse_schedule cal sched' now (t_tz t) of
                     Inl e \<Rightarrow> Inl (ParseFailed e)
                   | Inr sp \<Rightarrow>
                       (case compute_next_run cal sp None now (t_tz t) of
                          Inl e \<Rightarrow> Inl (ParseFailed e)
                        | Inr None \<Rightarrow> Inl NoNextRun
                        | Inr (Some next) \<Rightarrow>
                            Inr (t\<lparr>t_title := (case title of None \<Rightarrow> t_title t
                                    | Some g \<Rightarrow> if strip g = [] then t_title t else take 120 (strip g)),
                                 t_text := txt', t_sched_text := sched', t_spec := sp,
                                 t_status := Active, t_enabled := True, t_next_run := Some next,
                                 t_accepted := Some now\<rparr>))))))"

definition dismiss_edit :: "sched_task \<Rightarrow> sched_error + sched_task" where
  "dismiss_edit t =
     (if t_status t \<notin> {Pending, Active, Paused} then Inl (BadStatus (t_status t))
      else Inr (t\<lparr>t_status := Dismissed, t_enabled := False, t_next_run := None\<rparr>))"

definition pause_edit :: "sched_task \<Rightarrow> sched_error + sched_task" where
  "pause_edit t =
     (if t_status t \<noteq> Active then Inl (BadStatus (t_status t))
      else Inr (t\<lparr>t_status := Paused, t_enabled := False\<rparr>))"

definition resume_edit :: "calendar \<Rightarrow> int \<Rightarrow> sched_task \<Rightarrow> sched_error + sched_task" where
  "resume_edit cal now t =
     (if t_status t \<noteq> Paused then Inl (BadStatus (t_status t))
      else
        (case compute_next_run cal (t_spec t) (t_last_run t) now (t_tz t) of
           Inl e \<Rightarrow> Inl (ParseFailed e)
         | Inr nxt \<Rightarrow> Inr (t\<lparr>t_status := Active, t_enabled := True,
             t_next_run := Some (case nxt of None \<Rightarrow> now | Some n \<Rightarrow> n)\<rparr>)))"

definition guarded_op ::
    "(sched_task \<Rightarrow> sched_error + sched_task) \<Rightarrow> task_status list \<Rightarrow> int \<Rightarrow> int \<Rightarrow> string \<Rightarrow> sched_store \<Rightarrow>
     sched_store \<times> (sched_error + sched_task)" where
  "guarded_op edit expected now user i s =
     (case get_task i (Some user) s of
        None \<Rightarrow> (s, Inl (NotFound i))
      | Some t \<Rightarrow>
          (case edit t of
             Inl e \<Rightarrow> (s, Inl e)
           | Inr t' \<Rightarrow>
               (case update_guarded now t' expected s of
                  (s', True) \<Rightarrow> (s', Inr t') | (s', False) \<Rightarrow> (s', Inl ModifiedConcurrently))))"

definition accept where
  "accept st cal now user i title txt sched s =
     guarded_op (accept_edit st cal now title txt sched) [Pending] now user i s"

definition dismiss where
  "dismiss now user i s = guarded_op dismiss_edit [Pending, Active, Paused] now user i s"

definition pause where
  "pause now user i s = guarded_op pause_edit [Active] now user i s"

definition resume where
  "resume cal now user i s = guarded_op (resume_edit cal now) [Paused] now user i s"

definition delete_edit :: "sched_task \<Rightarrow> sched_task" where
  "delete_edit t = t\<lparr>t_status := Dismissed, t_enabled := False, t_next_run := None\<rparr>"

definition delete_task ::
    "int \<Rightarrow> int \<Rightarrow> string \<Rightarrow> sched_store \<Rightarrow> sched_store \<times> (sched_error + unit)" where
  "delete_task now user i s =
     (case get_task i (Some user) s of
        None \<Rightarrow> (s, Inl (NotFound i))
      | Some t \<Rightarrow>
          (case update_task now (delete_edit t) s of
             Inl _ \<Rightarrow> (s, Inl StorageFailed) | Inr s' \<Rightarrow> (s', Inr ())))"

section \<open>Dispatch\<close>

datatype headless_result = Skipped "string option" | Completed string "string option" | Raised

datatype dispatch_result =
    NotClaimed | NoNextRunDue | UserNotFound | SkippedBusy "string option"
  | Ran string "int option" task_status | AgentRaised

definition deferred :: "int \<Rightarrow> string \<Rightarrow> int \<Rightarrow> int \<Rightarrow> completion" where
  "deferred now status errors delay =
     \<lparr>c_last_run = now, c_last_status = status, c_run_delta = 0, c_error_delta = errors,
      c_status = Active, c_enabled = True, c_next_run = Some (now + delay)\<rparr>"

text \<open>What a completed run schedules next; \<open>Inl\<close> when the zone of the task is unknown.\<close>

definition next_completion :: "calendar \<Rightarrow> int \<Rightarrow> sched_task \<Rightarrow> parse_error + completion" where
  "next_completion cal now t =
     (let base = \<lparr>c_last_run = now, c_last_status = ''ok'', c_run_delta = 1, c_error_delta = 0,
            c_status = Done, c_enabled = False, c_next_run = None\<rparr>
      in if sp_kind (t_spec t) = Once then Inr base
         else
           (case compute_next_run cal (t_spec t) (Some now) now (t_tz t) of
              Inl e \<Rightarrow> Inl e
            | Inr None \<Rightarrow> Inr base
            | Inr (Some nxt) \<Rightarrow>
                Inr (base\<lparr>c_status := Active, c_enabled := True,
                  c_next_run := Some (if nxt \<le> now
                    then now + 60 * max 1 (let m = or_zero (sp_minutes (t_spec t)) in if m = 0 then 1 else m)
                    else nxt)\<rparr>)))"

definition complete_owned ::
    "int \<Rightarrow> sched_task \<Rightarrow> string \<Rightarrow> completion \<Rightarrow> sched_store \<Rightarrow> sched_store \<times> sched_task option" where
  "complete_owned done_at t token c s =
     (let s' = fst (complete_claim done_at (t_id t) (t_user t) token c s)
      in (s', get_task (t_id t) (Some (t_user t)) s'))"

text \<open>\<open>run\<close> is the agent: the store when it returns, and its result. \<open>done_at\<close> is the clock then.\<close>

definition dispatch ::
    "sched_settings \<Rightarrow> calendar \<Rightarrow> (int \<Rightarrow> bool) \<Rightarrow> (sched_store \<Rightarrow> sched_store \<times> headless_result) \<Rightarrow>
     int \<Rightarrow> int \<Rightarrow> string \<Rightarrow> sched_task \<Rightarrow> sched_store \<Rightarrow> sched_store \<times> (sched_error + dispatch_result)" where
  "dispatch st cal user_exists run now done_at token t s =
     (case t_next_run t of
        None \<Rightarrow> (s, Inr NoNextRunDue)
      | Some expected \<Rightarrow>
          (case claim_task (t_id t) expected now token (stale_before st now) s of
             (s1, False) \<Rightarrow> (s1, Inr NotClaimed)
           | (s1, True) \<Rightarrow>
               (if \<not> user_exists (t_user t) then
                  (fst (complete_owned done_at t token (deferred now ''error'' 1 300) s1), Inr UserNotFound)
                else
                  (case run s1 of
                     (s2, Raised) \<Rightarrow>
                       (fst (complete_owned done_at t token (deferred now ''error'' 1 60) s2), Inr AgentRaised)
                   | (s2, Skipped reason) \<Rightarrow>
                       (append_run_log done_at (t_id t) ''skipped_busy'' reason None None
                          (fst (complete_owned done_at t token (deferred now ''skipped_busy'' 0 60) s2)),
                        Inr (SkippedBusy reason))
                   | (s2, Completed reply run_id) \<Rightarrow>
                       (case next_completion cal now t of
                          Inl e \<Rightarrow> (s2, Inl (ParseFailed e))
                        | Inr c \<Rightarrow>
                            (case complete_owned done_at t token c s2 of
                               (s3, cur) \<Rightarrow>
                                 (append_run_log done_at (t_id t) ''ok'' None run_id (Some (take 500 reply)) s3,
                                  Inr (case cur of
                                         None \<Rightarrow> Ran reply (c_next_run c) (c_status c)
                                       | Some r \<Rightarrow> Ran reply (t_next_run r) (t_status r)))))))))"

text \<open>The edit and the write with which \<open>run_now\<close> makes a task due, before it dispatches it.\<close>

definition run_now_edit :: "int \<Rightarrow> sched_task \<Rightarrow> sched_error + sched_task option" where
  "run_now_edit now t =
     (if t_status t \<notin> {Active, Paused} then Inl (BadStatus (t_status t))
      else if t_status t = Paused then
        Inr (Some (t\<lparr>t_status := Active, t_enabled := True,
          t_next_run := Some (case t_next_run t of None \<Rightarrow> now | Some n \<Rightarrow> n)\<rparr>))
      else if (case t_next_run t of None \<Rightarrow> True | Some n \<Rightarrow> n > now) then
        Inr (Some (t\<lparr>t_next_run := Some now, t_enabled := True\<rparr>))
      else Inr None)"

definition run_now ::
    "sched_settings \<Rightarrow> calendar \<Rightarrow> (int \<Rightarrow> bool) \<Rightarrow> (sched_store \<Rightarrow> sched_store \<times> headless_result) \<Rightarrow>
     int \<Rightarrow> int \<Rightarrow> string \<Rightarrow> int \<Rightarrow> string \<Rightarrow> sched_store \<Rightarrow> sched_store \<times> (sched_error + dispatch_result)" where
  "run_now st cal user_exists run now done_at token user i s =
     (case get_task i (Some user) s of
        None \<Rightarrow> (s, Inl (NotFound i))
      | Some t \<Rightarrow>
          (case run_now_edit now t of
             Inl e \<Rightarrow> (s, Inl e)
           | Inr None \<Rightarrow> dispatch st cal user_exists run now done_at token t s
           | Inr (Some t') \<Rightarrow>
               (case update_task now t' s of
                  Inl _ \<Rightarrow> (s, Inl StorageFailed)
                | Inr s' \<Rightarrow>
                    dispatch st cal user_exists run now done_at token
                      (if t_status t = Paused then t'
                       else (case get_task i (Some user) s' of None \<Rightarrow> t' | Some r \<Rightarrow> r)) s')))"

definition service_expire_pending :: "sched_settings \<Rightarrow> int \<Rightarrow> sched_store \<Rightarrow> sched_store" where
  "service_expire_pending st now s =
     (if ss_pending_ttl_days st \<le> 0 then s
      else fst (expire_pending now (now - 86400 * ss_pending_ttl_days st) s))"

text \<open>\<open>tick\<close>: the due tasks are listed once and dispatched in turn with tokens of their own; a
  dispatch that raises is logged and the next one follows.\<close>

definition tick ::
    "sched_settings \<Rightarrow> calendar \<Rightarrow> (int \<Rightarrow> bool) \<Rightarrow> (sched_store \<Rightarrow> sched_store \<times> headless_result) \<Rightarrow>
     int \<Rightarrow> int \<Rightarrow> (nat \<Rightarrow> string) \<Rightarrow> sched_store \<Rightarrow> sched_store" where
  "tick st cal user_exists run now done_at tokens s =
     (let s1 = service_expire_pending st now s in
      fold (\<lambda>(k, t) acc. fst (dispatch st cal user_exists run now done_at (tokens k) t acc))
        (enumerate 0 (list_due now (stale_before st now) 20 s1)) s1)"

section \<open>The life cycle under interleaving\<close>

text \<open>The writes of the guarded operations, each with a task that may have been read at any
  earlier time: no relation to the store is required of it. \<open>A\<close> are the tasks somebody accepts.\<close>

inductive lifecycle_step :: "string set \<Rightarrow> sched_store \<Rightarrow> sched_store \<Rightarrow> bool" for A where
  lc_propose: "insert_pending_if_allowed now t n s = Inr s' \<Longrightarrow> lifecycle_step A s s'"
| lc_accept: "accept_edit st cal now a b c t = Inr t' \<Longrightarrow> t_id t \<in> A \<Longrightarrow>
    lifecycle_step A s (fst (update_guarded now t' [Pending] s))"
| lc_dismiss: "dismiss_edit t = Inr t' \<Longrightarrow>
    lifecycle_step A s (fst (update_guarded now t' [Pending, Active, Paused] s))"
| lc_pause: "pause_edit t = Inr t' \<Longrightarrow> lifecycle_step A s (fst (update_guarded now t' [Active] s))"
| lc_resume: "resume_edit cal now t = Inr t' \<Longrightarrow>
    lifecycle_step A s (fst (update_guarded now t' [Paused] s))"
| lc_claim: "lifecycle_step A s (fst (claim_task i e now tok sb s))"
| lc_complete: "lifecycle_step A s (fst (complete_claim now i user tok c s))"
| lc_expire: "lifecycle_step A s (fst (expire_pending now cutoff s))"
| lc_log: "lifecycle_step A s (append_run_log now i st sk rid p s)"

definition status_in :: "string \<Rightarrow> task_status set \<Rightarrow> sched_store \<Rightarrow> bool" where
  "status_in i S s \<longleftrightarrow> unique_ids s \<and> (\<exists>r\<in>set (rows s). t_id r = i \<and> t_status r \<in> S)"

text \<open>Where a task can be, from its status and whether it may be accepted.\<close>

definition reachable_statuses :: "task_status \<Rightarrow> bool \<Rightarrow> task_status set" where
  "reachable_statuses st accepted =
     (if st = Dismissed then {Dismissed} else if st = Done then {Done}
      else if st = Pending \<and> \<not> accepted then {Pending, Dismissed}
      else {Pending, Active, Paused, Done, Dismissed})"

lemma status_in_update:
  assumes h: "status_in i S s" and id: "\<And>r. t_id (f r) = t_id r"
    and keep: "\<And>r. p r \<Longrightarrow> t_id r = i \<Longrightarrow> t_status r \<in> S \<Longrightarrow> t_status (f r) \<in> S"
  shows "status_in i S (fst (update_where p f s))"
proof -
  obtain r where r: "r \<in> set (rows s)" "t_id r = i" "t_status r \<in> S" using h by (auto simp: status_in_def)
  have "(if p r then f r else r) \<in> set (rows (fst (update_where p f s)))" using r(1) by simp
  moreover have "unique_ids (fst (update_where p f s))"
    using h id by (simp add: unique_update status_in_def)
  ultimately show ?thesis unfolding status_in_def using keep r id by (cases "p r") auto
qed

lemma edit_status:
  "accept_edit st cal now a b c t = Inr t' \<Longrightarrow> t_status t' = Active \<and> t_id t' = t_id t"
  "dismiss_edit t = Inr t' \<Longrightarrow> t_status t' = Dismissed \<and> t_id t' = t_id t"
  "pause_edit t = Inr t' \<Longrightarrow> t_status t' = Paused \<and> t_id t' = t_id t"
  "resume_edit cal now t = Inr t' \<Longrightarrow> t_status t' = Active \<and> t_id t' = t_id t"
  by (auto simp: accept_edit_def dismiss_edit_def pause_edit_def resume_edit_def
      split: if_splits sum.splits option.splits)

lemma overwrite_status [simp]: "t_status (overwrite now t r) = t_status t"
  by (simp add: overwrite_def)

lemma status_in_step:
  "lifecycle_step A s s' \<Longrightarrow> status_in i (reachable_statuses st (i \<in> A)) s \<Longrightarrow>
   status_in i (reachable_statuses st (i \<in> A)) s'"
proof (induction rule: lifecycle_step.induct)
  case (lc_propose now t n s s')
  then obtain s2 where "insert_row (stamp_created now t) s = Inr s'"
    by (auto simp: insert_pending_if_allowed_def split: option.splits sum.splits)
  with lc_propose unique_insert [OF this] show ?case
    by (auto simp: status_in_def insert_row_def split: if_splits)
next
  case (lc_accept st' cal now a b c t t' s)
  then show ?case
    unfolding fst_guarded using edit_status(1) [OF lc_accept(1)]
    by (intro status_in_update) (auto simp: reachable_statuses_def split: if_splits)
next
  case (lc_dismiss t t' s now)
  then show ?case
    unfolding fst_guarded using edit_status(2) [OF lc_dismiss(1)]
    by (intro status_in_update) (auto simp: reachable_statuses_def split: if_splits)
next
  case (lc_pause t t' s now)
  then show ?case
    unfolding fst_guarded using edit_status(3) [OF lc_pause(1)]
    by (intro status_in_update) (auto simp: reachable_statuses_def split: if_splits)
next
  case (lc_resume cal now t t' s)
  then show ?case
    unfolding fst_guarded using edit_status(4) [OF lc_resume(1)]
    by (intro status_in_update) (auto simp: reachable_statuses_def split: if_splits)
next
  case (lc_claim s j e now tok sb)
  then show ?case unfolding fst_claim by (intro status_in_update) auto
next
  case (lc_complete s now j user tok c)
  then show ?case
    unfolding fst_complete
    by (intro status_in_update)
      (cases "c_status c"; auto simp: reachable_statuses_def complete_row_def Let_def split: if_splits)+
next
  case (lc_expire s now cutoff)
  then show ?case
    unfolding expire_pending_def
    by (intro status_in_update) (auto simp: reachable_statuses_def split: if_splits)
qed (simp add: status_in_def unique_ids_def)

interpretation life: invariant_system "status_in i {st}" "lifecycle_step A"
    "status_in i (reachable_statuses st (i \<in> A))"
proof unfold_locales
  show "status_in i {st} s \<Longrightarrow> status_in i (reachable_statuses st (i \<in> A)) s" for s
    by (cases st) (auto simp: status_in_def reachable_statuses_def)
qed (rule status_in_step)

section \<open>Properties\<close>

text \<open>C19: the life cycle holds under every interleaving of the guarded operations, even when each
  of them works on a stale copy of the task. A dismissed or finished task stays so for ever, and a
  proposal that nobody accepts is never anything but pending or dismissed: no task runs without
  consent.\<close>

lemma lifecycle_terminal_and_consent:
  assumes "reach (status_in i {st}) (lifecycle_step A) s"
  shows "(st \<in> {Dismissed, Done} \<longrightarrow> status_in i {st} s) \<and>
    (st = Pending \<and> i \<notin> A \<longrightarrow> status_in i {Pending, Dismissed} s)"
  using life.reach_inv [OF assms] by (auto simp: reachable_statuses_def)

lemma lifecycle_terminal_and_consent_witness:
  "status_in ''t1'' {Dismissed}
     (fst (update_guarded 5 (sample_task\<lparr>t_status := Paused, t_enabled := False\<rparr>) [Active]
        \<lparr>rows = [sample_task\<lparr>t_status := Dismissed\<rparr>], run_log = []\<rparr>))"
proof -
  have "reach (status_in ''t1'' {Dismissed}) (lifecycle_step {})
      (fst (update_guarded 5 (sample_task\<lparr>t_status := Paused, t_enabled := False\<rparr>) [Active]
        \<lparr>rows = [sample_task\<lparr>t_status := Dismissed\<rparr>], run_log = []\<rparr>))"
  proof (rule reach_step)
    show "reach (status_in ''t1'' {Dismissed}) (lifecycle_step {})
        \<lparr>rows = [sample_task\<lparr>t_status := Dismissed\<rparr>], run_log = []\<rparr>"
      by (rule reach_start) (simp add: status_in_def unique_ids_def sample_task_def)
    show "lifecycle_step {} \<lparr>rows = [sample_task\<lparr>t_status := Dismissed\<rparr>], run_log = []\<rparr>
        (fst (update_guarded 5 (sample_task\<lparr>t_status := Paused, t_enabled := False\<rparr>) [Active]
          \<lparr>rows = [sample_task\<lparr>t_status := Dismissed\<rparr>], run_log = []\<rparr>))"
      by (rule lc_pause [where t = sample_task]) (simp add: sample_task_def pause_edit_def)
  qed
  from lifecycle_terminal_and_consent [OF this] show ?thesis by simp
qed

text \<open>What a proposal may add. A successful proposal appends one pending row, without a run
  time and within the text limits; afterwards the user has at most the allowed number of pending
  and active tasks; and it succeeds only if the user has no dismissed and no live task of the
  same non-empty fingerprint.\<close>

lemma proposal_within_limits:
  assumes "propose st cal digest now new_id user user_text title txt sched key s = Inr s'"
  shows "int (count_active user s') \<le> ss_max_tasks st \<and>
    (\<exists>t. rows s' = rows s @ [t] \<and> t_user t = user \<and> t_status t = Pending \<and> t_next_run t = None \<and>
       t_text t \<noteq> [] \<and> length (t_text t) \<le> ss_max_task_text st \<and>
       length (t_sched_text t) \<le> ss_max_sched_text st \<and> length (t_title t) \<le> 120 \<and>
       \<not> has_dismissed_dedup user (t_dedup t) s \<and>
       (t_dedup t \<noteq> [] \<longrightarrow> \<not> has_live_dedup user (t_dedup t) s))"
proof -
  obtain t where t: "propose_task st cal digest now new_id user user_text title txt sched key = Inr t"
    and i: "insert_pending_if_allowed now t (ss_max_tasks st) s = Inr s'"
    using assms by (auto simp: propose_def split: sum.splits option.splits)
  have f: "t_user t = user" "t_status t = Pending" "t_next_run t = None" "t_text t \<noteq> []"
      "length (t_text t) \<le> ss_max_task_text st" "length (t_sched_text t) \<le> ss_max_sched_text st"
      "length (t_title t) \<le> 120"
    using t by (auto simp: propose_task_def Let_def split: if_splits)
  from i have c: "insert_check t (ss_max_tasks st) s = None"
    and r: "rows s' = rows s @ [stamp_created now t]"
    by (auto simp: insert_pending_if_allowed_def insert_row_def split: option.splits sum.splits if_splits)
  have k: "int (count_active user s) < ss_max_tasks st" "\<not> has_dismissed_dedup user (t_dedup t) s"
      "t_dedup t \<noteq> [] \<longrightarrow> \<not> has_live_dedup user (t_dedup t) s"
    using c f(1) by (auto simp: insert_check_def split: if_splits)
  have "count_active user s' \<le> Suc (count_active user s)" by (simp add: count_active_def r)
  then show ?thesis using k f r by (auto simp: stamp_created_def)
qed

definition sample_settings :: sched_settings where
  "sample_settings = \<lparr>ss_timezone = ''UTC'', ss_default_title = ''Task'', ss_max_task_text = 100,
     ss_max_sched_text = 100, ss_max_tasks = 1, ss_pending_ttl_days = 7, ss_claim_ttl = 600\<rparr>"

lemma proposal_within_limits_witness:
  "\<exists>s'. propose sample_settings utc_calendar (\<lambda>x. x) 0 ''n'' 7 ''7'' ''A'' ''do'' ''0m'' (Some ''k'')
      \<lparr>rows = [], run_log = []\<rparr> = Inr s' \<and> int (count_active 7 s') \<le> 1"
proof -
  have "\<exists>s'. propose sample_settings utc_calendar (\<lambda>x. x) 0 ''n'' 7 ''7'' ''A'' ''do'' ''0m'' (Some ''k'')
      \<lparr>rows = [], run_log = []\<rparr> = Inr s'"
    by (simp add: propose_def propose_task_def sample_settings_def strip_examples schedule_eval char_eval
        nonempty_or_def insert_pending_if_allowed_def insert_check_def has_dismissed_dedup_def
        has_live_dedup_def count_active_def insert_row_def)
  then obtain s' where s': "propose sample_settings utc_calendar (\<lambda>x. x) 0 ''n'' 7 ''7'' ''A'' ''do'' ''0m''
      (Some ''k'') \<lparr>rows = [], run_log = []\<rparr> = Inr s'" by blast
  with proposal_within_limits [OF s'] show ?thesis by (auto simp: sample_settings_def)
qed

text \<open>the limit is not an invariant of the table. Two proposals whose checks both come before
  either insertion exceed it, since the checks run outside the transaction of the insertion; and
  without any race, pausing a task, proposing another and resuming the first exceeds it too,
  because paused tasks are not counted and \<open>resume\<close> does not check.\<close>

lemma limit_can_be_exceeded:
  "(let a = sample_task\<lparr>t_id := ''a'', t_status := Pending, t_dedup := ''ka''\<rparr>;
        b = sample_task\<lparr>t_id := ''b'', t_status := Pending, t_dedup := ''kb''\<rparr>;
        s0 = \<lparr>rows = [], run_log = []\<rparr>
    in insert_check a 1 s0 = None \<and> insert_check b 1 s0 = None \<and>
       (case insert_row a s0 of Inl _ \<Rightarrow> False
        | Inr s1 \<Rightarrow> (case insert_row b s1 of Inl _ \<Rightarrow> False | Inr s2 \<Rightarrow> count_active 7 s2 = 2))) \<and>
   (let b = sample_task\<lparr>t_id := ''b'', t_status := Pending, t_dedup := ''kb''\<rparr>
    in case insert_pending_if_allowed 2 b 1 (fst (pause 1 7 ''t1'' sample_store)) of Inl _ \<Rightarrow> False
       | Inr s1 \<Rightarrow> count_active 7 s1 = 1 \<and> count_active 7 (fst (resume utc_calendar 3 7 ''t1'' s1)) = 2)"
  by (simp add: Let_def insert_check_def has_dismissed_dedup_def has_live_dedup_def count_active_def
      insert_row_def insert_pending_if_allowed_def pause_def resume_def guarded_op_def get_task_def
      pause_edit_def resume_edit_def update_guarded_def update_where_def overwrite_def set_rows_def
      sample_store_def sample_task_def stamp_created_def schedule_eval)

text \<open>a write of a stale copy loses concurrent changes. The copy of a task carries its claim
  columns, so a pause computed from a copy read before worker \<open>w1\<close> claimed the task erases the
  claim: \<open>w1\<close> can no longer record its run, and after a resume and a forced run another worker
  claims the task although the lease of \<open>w1\<close> has not expired. And the unguarded write of
  \<open>run_now\<close> brings a task back to life that was dismissed after it was read.\<close>

lemma stale_copies_lose_changes:
  "(let s1 = fst (claim_task ''t1'' 100 120 ''w1'' 30 sample_store);
        paused = sample_task\<lparr>t_status := Paused, t_enabled := False\<rparr>;
        s2 = fst (update_guarded 121 paused [Active] s1);
        s3 = fst (resume utc_calendar 122 7 ''t1'' s2)
    in snd (claim_task ''t1'' 100 120 ''w1'' 30 sample_store) \<and> pause_edit sample_task = Inr paused \<and>
       \<not> snd (complete_claim 130 ''t1'' 7 ''w1'' (deferred 120 ''ok'' 0 60) s3) \<and>
       snd (claim_task ''t1'' 3722 125 ''w2'' 30 s3)) \<and>
   (let dismissed = fst (dismiss 121 7 ''t1'' sample_store)
    in run_now_edit 50 sample_task = Inr (Some (sample_task\<lparr>t_next_run := Some 50\<rparr>)) \<and>
       (case update_task 122 (sample_task\<lparr>t_next_run := Some 50\<rparr>) dismissed of Inl _ \<Rightarrow> False
        | Inr s \<Rightarrow> status_in ''t1'' {Dismissed} dismissed \<and> status_in ''t1'' {Active} s))"
  by (simp add: Let_def claim_task_def update_where_def claimable_def update_guarded_def set_rows_def
      overwrite_def resume_def guarded_op_def get_task_def resume_edit_def pause_edit_def
      complete_claim_def dismiss_def dismiss_edit_def run_now_edit_def update_task_def status_in_def
      unique_ids_def sample_store_def sample_task_def schedule_eval)

end
