(* ===== verification/ChatStore.thy ===== *)
theory ChatStore
  imports Prelude
begin

text \<open>
  \<open>channels/web/chat_store.py\<close>: \<open>WebChatStore\<close>, the user-visible transcript. The two tables are
  lists of rows in insertion order; \<open>AUTOINCREMENT\<close> ids come from counters and are never reused.
  The partial unique index on the open sessions is checked by every insertion and reopening.
  \<open>max_messages\<close> is \<open>max(1, active_max_messages)\<close>; times are integer seconds, \<open>now\<close> is
  \<open>CURRENT_TIMESTAMP\<close>. Metadata is kept as the value its JSON text encodes.
\<close>

section \<open>Tables\<close>

record chat_session =
  cs_id :: int
  cs_user :: string
  cs_channel :: string
  cs_section :: string
  cs_title :: "string option"
  cs_created :: int
  cs_updated :: "int option"
  cs_ended :: "int option"
  cs_reset_reason :: "string option"
  cs_folder :: "int option"

record chat_file =
  cf_name :: string
  cf_path :: "string option"
  cf_caption :: string

record chat_message =
  cm_id :: int
  cm_session :: int
  cm_user :: string
  cm_role :: string
  cm_content :: string
  cm_tone :: "string option"
  cm_request :: "string option"
  cm_created :: int
  cm_metadata :: "(string \<times> json) list"
  cm_file :: "chat_file option"

record chat_store =
  sessions :: "chat_session list"
  messages :: "chat_message list"
  next_session :: int
  next_message :: int

datatype chat_error = BadRole string | SessionNotFound int | UniqueViolation

definition chat_empty :: chat_store where
  "chat_empty = \<lparr>sessions = [], messages = [], next_session = 1, next_message = 1\<rparr>"

definition is_open :: "chat_session \<Rightarrow> bool" where
  "is_open c \<longleftrightarrow> cs_ended c = None"

definition MAX_PERSISTED_CONTENT_CHARS :: nat where "MAX_PERSISTED_CONTENT_CHARS = 200000"

definition truncation_note :: string where
  "truncation_note = [CHR 0x0A, CHR 0x0A] @ ''[Message truncated for storage]''"

definition clean_content :: "string \<Rightarrow> string" where
  "clean_content content =
     (if length content \<le> MAX_PERSISTED_CONTENT_CHARS then content
      else take MAX_PERSISTED_CONTENT_CHARS content @ truncation_note)"

definition normalize_channel :: "string \<Rightarrow> string" where
  "normalize_channel channel =
     (let ch = lower (strip (if channel = [] then ''web'' else channel))
      in if ch \<in> {''web'', ''telegram'', ''system''} then ch else ''web'')"

text \<open>The section of a session that is opened implicitly.\<close>

definition default_section :: "string \<Rightarrow> string" where
  "default_section channel = (if channel = ''web'' then ''chat'' else channel)"

section \<open>Statements\<close>

definition insert_session ::
    "int \<Rightarrow> string \<Rightarrow> string \<Rightarrow> string \<Rightarrow> chat_store \<Rightarrow> chat_error + chat_store \<times> int" where
  "insert_session now user channel sect s =
     (if \<exists>c\<in>set (sessions s). cs_user c = user \<and> cs_channel c = channel \<and> is_open c
      then Inl UniqueViolation
      else Inr (s\<lparr>sessions := sessions s @ [\<lparr>cs_id = next_session s, cs_user = user,
             cs_channel = channel, cs_section = sect, cs_title = None, cs_created = now,
             cs_updated = None, cs_ended = None, cs_reset_reason = None, cs_folder = None\<rparr>],
           next_session := next_session s + 1\<rparr>, next_session s))"

definition map_sessions ::
    "(chat_session \<Rightarrow> bool) \<Rightarrow> (chat_session \<Rightarrow> chat_session) \<Rightarrow> chat_store \<Rightarrow> chat_store" where
  "map_sessions p f s = s\<lparr>sessions := map (\<lambda>c. if p c then f c else c) (sessions s)\<rparr>"

definition close_open :: "int \<Rightarrow> string \<Rightarrow> string \<Rightarrow> string \<Rightarrow> chat_store \<Rightarrow> chat_store" where
  "close_open now reason user channel s =
     map_sessions (\<lambda>c. cs_user c = user \<and> cs_channel c = channel \<and> is_open c)
       (\<lambda>c. c\<lparr>cs_ended := Some now, cs_reset_reason := Some reason\<rparr>) s"

definition open_session :: "string \<Rightarrow> string \<Rightarrow> chat_store \<Rightarrow> chat_session option" where
  "open_session user channel s =
     find (\<lambda>c. cs_user c = user \<and> cs_channel c = channel \<and> is_open c) (rev (sessions s))"

definition owned_session :: "string \<Rightarrow> int \<Rightarrow> chat_store \<Rightarrow> chat_session option" where
  "owned_session user sid s = find (\<lambda>c. cs_id c = sid \<and> cs_user c = user) (sessions s)"

section \<open>Sessions\<close>

definition ensure_active_session_id ::
    "int \<Rightarrow> string \<Rightarrow> string \<Rightarrow> chat_store \<Rightarrow> chat_error + chat_store \<times> int" where
  "ensure_active_session_id now user channel s =
     (let ch = normalize_channel channel in
      case open_session user ch s of
        Some c \<Rightarrow> Inr (s, cs_id c)
      | None \<Rightarrow> insert_session now user ch (default_section ch) s)"

definition ensure_system_session where
  "ensure_system_session now user s = ensure_active_session_id now user ''system'' s"

definition reset_session ::
    "int \<Rightarrow> string \<Rightarrow> string \<Rightarrow> string \<Rightarrow> chat_store \<Rightarrow> chat_error + chat_store \<times> int" where
  "reset_session now user reason channel s =
     (let ch = normalize_channel channel
      in insert_session now user ch (default_section ch) (close_open now reason user ch s))"

definition create_session ::
    "int \<Rightarrow> string \<Rightarrow> string \<Rightarrow> string \<Rightarrow> chat_store \<Rightarrow> chat_error + chat_store \<times> int" where
  "create_session now user sect channel s =
     (let sec = (if sect \<in> {''chat'', ''work'', ''system''} then sect else ''chat'');
          ch = normalize_channel (if sec = ''system'' then ''system'' else channel)
      in insert_session now user ch sec (close_open now ''new_chat'' user ch s))"

definition activate_session :: "int \<Rightarrow> string \<Rightarrow> int \<Rightarrow> chat_store \<Rightarrow> chat_store \<times> int option" where
  "activate_session now user sid s =
     (case owned_session user sid s of
        None \<Rightarrow> (s, None)
      | Some c \<Rightarrow>
          (map_sessions (\<lambda>d. cs_id d = sid \<and> cs_user d = user)
             (\<lambda>d. d\<lparr>cs_ended := None, cs_reset_reason := None\<rparr>)
             (map_sessions (\<lambda>d. cs_user d = user \<and> cs_channel d = cs_channel c \<and> is_open d \<and> cs_id d \<noteq> sid)
                (\<lambda>d. d\<lparr>cs_ended := Some now, cs_reset_reason := Some ''switched''\<rparr>) s), Some sid))"

definition set_session_title :: "string \<Rightarrow> int \<Rightarrow> string option \<Rightarrow> chat_store \<Rightarrow> chat_store \<times> bool" where
  "set_session_title user sid title s =
     (let p = (\<lambda>c. cs_id c = sid \<and> cs_user c = user \<and> cs_title c = None)
      in (map_sessions p (\<lambda>c. c\<lparr>cs_title := title\<rparr>) s, \<exists>c\<in>set (sessions s). p c))"

definition rename_session :: "string \<Rightarrow> int \<Rightarrow> string \<Rightarrow> chat_store \<Rightarrow> chat_store \<times> bool" where
  "rename_session user sid title s =
     (let p = (\<lambda>c. cs_id c = sid \<and> cs_user c = user)
      in (map_sessions p (\<lambda>c. c\<lparr>cs_title := Some title\<rparr>) s, \<exists>c\<in>set (sessions s). p c))"

text \<open>\<open>_sync_delete_sessions\<close>: the messages of all the ids, then the sessions (of the user).\<close>

definition delete_sessions :: "int list \<Rightarrow> string option \<Rightarrow> chat_store \<Rightarrow> chat_store \<times> nat" where
  "delete_sessions ids user s =
     (if ids = [] then (s, 0)
      else
        (let gone = (\<lambda>c. cs_id c \<in> set ids \<and> (case user of None \<Rightarrow> True | Some u \<Rightarrow> cs_user c = u))
         in (s\<lparr>messages := filter (\<lambda>m. cm_session m \<notin> set ids) (messages s),
               sessions := filter (\<lambda>c. \<not> gone c) (sessions s)\<rparr>,
             length (filter gone (sessions s)))))"

definition delete_session :: "string \<Rightarrow> int \<Rightarrow> chat_store \<Rightarrow> chat_store \<times> bool" where
  "delete_session user sid s =
     (case owned_session user sid s of
        None \<Rightarrow> (s, False)
      | Some _ \<Rightarrow> (case delete_sessions [sid] (Some user) s of (s', n) \<Rightarrow> (s', n > 0)))"

text \<open>\<open>ORDER BY id DESC LIMIT -1 OFFSET n\<close> of the archived sessions of a user.\<close>

definition archived_ids :: "string \<Rightarrow> chat_store \<Rightarrow> int list" where
  "archived_ids user s =
     rev (sort (map cs_id (filter (\<lambda>c. cs_user c = user \<and> \<not> is_open c) (sessions s))))"

definition retention_ids :: "int \<Rightarrow> int \<Rightarrow> int \<Rightarrow> chat_store \<Rightarrow> int list" where
  "retention_ids now ttl_days max_archived s =
     (let ttl = max 0 ttl_days; quota = nat (max 0 max_archived);
          expired = map cs_id (filter (\<lambda>c. case cs_ended c of None \<Rightarrow> False
                                       | Some e \<Rightarrow> e < now - 86400 * ttl) (sessions s));
          owners = remdups (map cs_user (filter (\<lambda>c. \<not> is_open c) (sessions s)))
      in sort (remdups (expired @ concat (map (\<lambda>u. drop quota (archived_ids u s)) owners))))"

definition prune_retention :: "int \<Rightarrow> int \<Rightarrow> int \<Rightarrow> chat_store \<Rightarrow> chat_store \<times> nat" where
  "prune_retention now ttl_days max_archived s =
     delete_sessions (retention_ids now ttl_days max_archived s) None s"

section \<open>Messages\<close>

definition session_messages :: "int \<Rightarrow> chat_store \<Rightarrow> chat_message list" where
  "session_messages sid s = filter (\<lambda>m. cm_session m = sid) (messages s)"

text \<open>Rows are stored in the order of their ids, so the newest are the last.\<close>

definition prune_active_messages :: "int \<Rightarrow> nat \<Rightarrow> chat_store \<Rightarrow> chat_store" where
  "prune_active_messages sid max_messages s =
     (let old = map cm_id (drop (max 1 max_messages) (rev (session_messages sid s)))
      in s\<lparr>messages := filter (\<lambda>m. cm_id m \<notin> set old) (messages s)\<rparr>)"

text \<open>\<open>_message_from_row\<close>: an empty file name means no file, an empty path means none.\<close>

definition message_from_row :: "chat_message \<Rightarrow> chat_message" where
  "message_from_row m =
     m\<lparr>cm_file :=
       (case cm_file m of
          None \<Rightarrow> None
        | Some f \<Rightarrow>
            if cf_name f = [] then None
            else Some (f\<lparr>cf_path := (if cf_path f = Some [] then None else cf_path f)\<rparr>))\<rparr>"

record new_message =
  nm_role :: string
  nm_content :: string
  nm_tone :: "string option"
  nm_request :: "string option"
  nm_metadata :: "(string \<times> json) list"
  nm_file :: "chat_file option"

definition message_row :: "int \<Rightarrow> int \<Rightarrow> string \<Rightarrow> new_message \<Rightarrow> int \<Rightarrow> chat_message" where
  "message_row now sid user m i =
     \<lparr>cm_id = i, cm_session = sid, cm_user = user, cm_role = nm_role m,
       cm_content = clean_content (nm_content m), cm_tone = nm_tone m, cm_request = nm_request m,
       cm_created = now, cm_metadata = nm_metadata m, cm_file = nm_file m\<rparr>"

definition insert_message :: "int \<Rightarrow> int \<Rightarrow> string \<Rightarrow> new_message \<Rightarrow> chat_store \<Rightarrow> chat_store" where
  "insert_message now sid user m s =
     s\<lparr>messages := messages s @ [message_row now sid user m (next_message s)],
       next_message := next_message s + 1\<rparr>"

definition append_message ::
    "nat \<Rightarrow> int \<Rightarrow> string \<Rightarrow> int option \<Rightarrow> string \<Rightarrow> new_message \<Rightarrow> chat_store \<Rightarrow>
     chat_error + chat_store \<times> chat_message" where
  "append_message max_messages now user session_id channel m s =
     (if nm_role m \<notin> {''user'', ''assistant'', ''system''} then Inl (BadRole (nm_role m))
      else
        (case (case session_id of
                 Some sid \<Rightarrow>
                   (case owned_session user sid s of None \<Rightarrow> Inl (SessionNotFound sid) | Some _ \<Rightarrow> Inr (s, sid))
               | None \<Rightarrow> ensure_active_session_id now user channel s) of
           Inl e \<Rightarrow> Inl e
         | Inr (s1, sid) \<Rightarrow>
             Inr (prune_active_messages sid max_messages
                    (map_sessions (\<lambda>c. cs_id c = sid) (\<lambda>c. c\<lparr>cs_updated := Some now\<rparr>)
                      (insert_message now sid user m s1)),
                  message_from_row (message_row now sid user m (next_message s1)))))"

section \<open>Reading\<close>

record chat_page =
  pg_session :: int
  pg_messages :: "chat_message list"
  pg_has_more :: bool

definition clamp :: "int \<Rightarrow> int \<Rightarrow> nat" where
  "clamp upper limit = nat (max 1 (min limit upper))"

text \<open>\<open>ORDER BY id DESC LIMIT limit + 1\<close>, cut to \<open>limit\<close> and put back in order.\<close>

definition page_of :: "int \<Rightarrow> nat \<Rightarrow> chat_message list \<Rightarrow> chat_page" where
  "page_of sid limit ms =
     (let rows = take (Suc limit) (rev ms)
      in \<lparr>pg_session = sid, pg_messages = map message_from_row (rev (take limit rows)), pg_has_more = length rows > limit\<rparr>)"

definition list_messages :: "string \<Rightarrow> int \<Rightarrow> int \<Rightarrow> chat_store \<Rightarrow> chat_page" where
  "list_messages user sid limit s =
     (case owned_session user sid s of
        None \<Rightarrow> \<lparr>pg_session = sid, pg_messages = [], pg_has_more = False\<rparr>
      | Some _ \<Rightarrow> page_of sid (clamp 200 limit) (session_messages sid s))"

definition list_recent ::
    "int \<Rightarrow> string \<Rightarrow> int \<Rightarrow> chat_store \<Rightarrow> chat_error + chat_store \<times> chat_page" where
  "list_recent now user limit s =
     (case ensure_active_session_id now user ''web'' s of
        Inl e \<Rightarrow> Inl e
      | Inr (s', sid) \<Rightarrow> Inr (s', page_of sid (clamp 200 limit) (session_messages sid s')))"

definition list_before ::
    "int \<Rightarrow> string \<Rightarrow> int \<Rightarrow> int \<Rightarrow> chat_store \<Rightarrow> chat_error + chat_store \<times> chat_page" where
  "list_before now user before_id limit s =
     (case ensure_active_session_id now user ''web'' s of
        Inl e \<Rightarrow> Inl e
      | Inr (s', sid) \<Rightarrow>
          Inr (s', page_of sid (clamp 200 limit)
            (filter (\<lambda>m. cm_id m < before_id) (session_messages sid s'))))"

record session_summary =
  ss_session :: chat_session
  ss_is_active :: bool
  ss_msg_count :: nat

definition summary_of :: "chat_store \<Rightarrow> chat_session \<Rightarrow> session_summary" where
  "summary_of s c = \<lparr>ss_session = c, ss_is_active = is_open c,
     ss_msg_count = length (session_messages (cs_id c) s)\<rparr>"

definition get_session :: "string \<Rightarrow> int \<Rightarrow> chat_store \<Rightarrow> session_summary option" where
  "get_session user sid s = map_option (summary_of s) (owned_session user sid s)"

definition last_activity :: "chat_session \<Rightarrow> int" where
  "last_activity c = (case cs_updated c of None \<Rightarrow> cs_created c | Some u \<Rightarrow> u)"

text \<open>Three stable sorts, least significant key first.\<close>

definition list_sessions :: "string \<Rightarrow> string option \<Rightarrow> chat_store \<Rightarrow> session_summary list" where
  "list_sessions user sect s =
     map (summary_of s)
       (sort_key (\<lambda>c. if is_open c then (0::nat) else 1)
         (sort_key (\<lambda>c. - last_activity c)
           (sort_key (\<lambda>c. - cs_id c)
             (filter (\<lambda>c. cs_user c = user \<and> (case sect of None \<Rightarrow> True | Some x \<Rightarrow> cs_section c = x))
               (sessions s)))))"

fun first_usage :: "chat_message list \<Rightarrow> (string \<times> json) list option" where
  "first_usage [] = None"
| "first_usage (m # ms) =
     (case jget (cm_metadata m) ''usage'' of Some (JObj u) \<Rightarrow> Some u | _ \<Rightarrow> first_usage ms)"

definition latest_usage ::
    "int \<Rightarrow> string \<Rightarrow> chat_store \<Rightarrow> chat_error + chat_store \<times> (string \<times> json) list option" where
  "latest_usage now user s =
     (case ensure_active_session_id now user ''web'' s of
        Inl e \<Rightarrow> Inl e
      | Inr (s', sid) \<Rightarrow>
          Inr (s', first_usage (take 50 (filter (\<lambda>m. cm_role m = ''assistant'')
            (rev (session_messages sid s'))))))"

definition latest_file_messages ::
    "int \<Rightarrow> string \<Rightarrow> int \<Rightarrow> chat_store \<Rightarrow> chat_error + chat_store \<times> chat_message list" where
  "latest_file_messages now user limit s =
     (case ensure_active_session_id now user ''web'' s of
        Inl e \<Rightarrow> Inl e
      | Inr (s', sid) \<Rightarrow>
          Inr (s', map message_from_row (take (clamp 20 limit) (filter (\<lambda>m. cm_file m \<noteq> None) (rev (session_messages sid s'))))))"

text \<open>\<open>memory\<close> holds the (user, role, content) rows of the agent memory table, \<open>None\<close> if there is
  no such table.\<close>

definition backfill_rows ::
    "string \<Rightarrow> nat \<Rightarrow> (string \<times> string \<times> string) list \<Rightarrow> (string \<times> string) list" where
  "backfill_rows user limit memory =
     rev (take limit (rev (map snd (filter (\<lambda>(u, r, c). u = user \<and> r \<in> {''user'', ''assistant''} \<and>
       \<not> starts_with (lower c) (lower ''[Conversation summary]'')) memory))))"

definition backfill_from_memory ::
    "int \<Rightarrow> string \<Rightarrow> int \<Rightarrow> (string \<times> string \<times> string) list option \<Rightarrow> chat_store \<Rightarrow>
     chat_error + chat_store \<times> nat" where
  "backfill_from_memory now user limit memory s =
     (case ensure_active_session_id now user ''web'' s of
        Inl e \<Rightarrow> Inl e
      | Inr (s1, sid) \<Rightarrow>
          (if session_messages sid s1 \<noteq> [] then Inr (s1, 0)
           else
             (case memory of
                None \<Rightarrow> Inr (s1, 0)
              | Some mem \<Rightarrow>
                  (let rs = backfill_rows user (clamp 200 limit) mem
                   in Inr (fold (\<lambda>(r, c). insert_message now sid user
                             \<lparr>nm_role = r, nm_content = c, nm_tone = None, nm_request = None,
                               nm_metadata = [], nm_file = None\<rparr>) rs s1, length rs)))))"


section \<open>The invariant\<close>

definition ids_ok :: "chat_session list \<Rightarrow> int \<Rightarrow> bool" where
  "ids_ok ss n \<longleftrightarrow> distinct (map cs_id ss) \<and> (\<forall>i\<in>set (map cs_id ss). i < n)"

definition one_open :: "chat_session list \<Rightarrow> bool" where
  "one_open ss \<longleftrightarrow> (\<forall>c\<in>set ss. \<forall>d\<in>set ss. is_open c \<longrightarrow> is_open d \<longrightarrow> cs_user c = cs_user d \<longrightarrow>
     cs_channel c = cs_channel d \<longrightarrow> c = d)"

definition msgs_ok :: "chat_message list \<Rightarrow> int \<Rightarrow> bool" where
  "msgs_ok ms n \<longleftrightarrow> sorted_wrt (<) (map cm_id ms) \<and> (\<forall>m\<in>set ms. cm_id m < n)"

definition owned_ok :: "chat_session list \<Rightarrow> chat_message list \<Rightarrow> bool" where
  "owned_ok ss ms \<longleftrightarrow>
     (\<forall>m\<in>set ms. (cm_session m, cm_user m) \<in> set (map (\<lambda>c. (cs_id c, cs_user c)) ss))"

definition chat_inv :: "chat_store \<Rightarrow> bool" where
  "chat_inv s \<longleftrightarrow> ids_ok (sessions s) (next_session s) \<and> one_open (sessions s) \<and>
     msgs_ok (messages s) (next_message s) \<and> owned_ok (sessions s) (messages s)"

lemma chat_invD:
  assumes "chat_inv s"
  shows "ids_ok (sessions s) (next_session s)" "one_open (sessions s)"
    "msgs_ok (messages s) (next_message s)" "owned_ok (sessions s) (messages s)"
  using assms by (simp_all add: chat_inv_def)

lemma one_openD:
  "one_open ss \<Longrightarrow> c \<in> set ss \<Longrightarrow> d \<in> set ss \<Longrightarrow> is_open c \<Longrightarrow> is_open d \<Longrightarrow> cs_user c = cs_user d \<Longrightarrow>
   cs_channel c = cs_channel d \<Longrightarrow> c = d"
  by (simp add: one_open_def)

definition keeps_identity :: "(chat_session \<Rightarrow> chat_session) \<Rightarrow> bool" where
  "keeps_identity f \<longleftrightarrow> (\<forall>c. cs_id (f c) = cs_id c \<and> cs_user (f c) = cs_user c \<and> cs_channel (f c) = cs_channel c)"

lemma same_id_same_session:
  "chat_inv s \<Longrightarrow> c \<in> set (sessions s) \<Longrightarrow> d \<in> set (sessions s) \<Longrightarrow> cs_id c = cs_id d \<Longrightarrow> c = d"
  unfolding chat_inv_def ids_ok_def distinct_map inj_on_def by blast

lemma map_sessions_simps [simp]:
  "messages (map_sessions p f s) = messages s" "next_session (map_sessions p f s) = next_session s"
  "next_message (map_sessions p f s) = next_message s"
  "sessions (map_sessions p f s) = map (\<lambda>c. if p c then f c else c) (sessions s)"
  by (simp_all add: map_sessions_def)

lemma chat_inv_map:
  assumes i: "chat_inv s" and k: "keeps_identity f"
    and uniq: "\<And>c d. c \<in> set (sessions s) \<Longrightarrow> d \<in> set (sessions s) \<Longrightarrow>
      is_open (if p c then f c else c) \<Longrightarrow> is_open (if p d then f d else d) \<Longrightarrow>
      cs_user c = cs_user d \<Longrightarrow> cs_channel c = cs_channel d \<Longrightarrow> c = d"
  shows "chat_inv (map_sessions p f s)"
proof -
  let ?g = "\<lambda>c. if p c then f c else c"
  have g: "cs_id (?g c) = cs_id c" "cs_user (?g c) = cs_user c" "cs_channel (?g c) = cs_channel c" for c
    using k by (auto simp: keeps_identity_def)
  have "map cs_id (map ?g (sessions s)) = map cs_id (sessions s)"
    "map (\<lambda>c. (cs_id c, cs_user c)) (map ?g (sessions s)) = map (\<lambda>c. (cs_id c, cs_user c)) (sessions s)"
    by (simp_all add: g)
  moreover have "one_open (map ?g (sessions s))"
    unfolding one_open_def set_map ball_simps(9) g using uniq by blast
  ultimately show ?thesis
    using chat_invD [OF i] unfolding chat_inv_def map_sessions_simps ids_ok_def owned_ok_def by presburger
qed

lemma chat_inv_shrink [inv_intros]:
  assumes i: "chat_inv s" and k: "keeps_identity f"
    and shrink: "\<And>c. p c \<Longrightarrow> is_open (f c) \<Longrightarrow> is_open c"
  shows "chat_inv (map_sessions p f s)"
  using i k
proof (rule chat_inv_map)
  fix c d
  assume a: "c \<in> set (sessions s)" "d \<in> set (sessions s)"
    and o: "is_open (if p c then f c else c)" "is_open (if p d then f d else d)"
    and e: "cs_user c = cs_user d" "cs_channel c = cs_channel d"
  have "is_open c" "is_open d" using shrink o by (metis)+
  then show "c = d" using one_openD [OF chat_invD(2) [OF i]] a e by blast
qed

lemma keeps_identity_updates [simp]:
  "keeps_identity (\<lambda>c. c\<lparr>cs_ended := a, cs_reset_reason := b\<rparr>)"
  "keeps_identity (\<lambda>c. c\<lparr>cs_title := t\<rparr>)" "keeps_identity (\<lambda>c. c\<lparr>cs_updated := u\<rparr>)"
  by (simp_all add: keeps_identity_def)

lemma chat_inv_close: "chat_inv s \<Longrightarrow> chat_inv (close_open now reason user ch s)"
  unfolding close_open_def by (rule chat_inv_shrink) (simp_all add: is_open_def)

lemma open_after_closing:
  assumes c: "c \<in> set (sessions (map_sessions p (\<lambda>c. c\<lparr>cs_ended := Some now, cs_reset_reason := r\<rparr>) s))"
    and o: "is_open c"
  shows "c \<in> set (sessions s) \<and> \<not> p c"
proof -
  obtain d where d: "d \<in> set (sessions s)"
      "c = (if p d then d\<lparr>cs_ended := Some now, cs_reset_reason := r\<rparr> else d)"
    using c unfolding map_sessions_simps set_map by blast
  with o show ?thesis by (cases "p d") (simp_all add: is_open_def)
qed

lemma close_open_none:
  "c \<in> set (sessions (close_open now reason user ch s)) \<Longrightarrow> cs_user c = user \<Longrightarrow> cs_channel c = ch \<Longrightarrow>
   \<not> is_open c"
  unfolding close_open_def by (blast dest: open_after_closing)

lemma chat_inv_insert_session:
  assumes i: "chat_inv s" and ins: "insert_session now user ch sect s = Inr (s', sid)"
  shows "chat_inv s'"
proof -
  have none: "\<forall>c\<in>set (sessions s). cs_user c = user \<and> cs_channel c = ch \<longrightarrow> \<not> is_open c"
    using ins by (auto simp: insert_session_def split: if_splits)
  have fresh: "next_session s \<notin> cs_id ` set (sessions s)" using chat_invD(1) [OF i] by (auto simp: ids_ok_def)
  obtain c where c: "sessions s' = sessions s @ [c]" "next_session s' = next_session s + 1"
      "messages s' = messages s" "next_message s' = next_message s" "cs_id c = next_session s"
      "cs_user c = user" "cs_channel c = ch"
    using ins by (auto simp: insert_session_def split: if_splits)
  have "ids_ok (sessions s') (next_session s')"
    using chat_invD(1) [OF i] fresh by (force simp: ids_ok_def c)
  moreover have "one_open (sessions s')"
    using chat_invD(2) [OF i] none by (auto simp: one_open_def c)
  ultimately show ?thesis using chat_invD(3,4) [OF i] by (auto simp: chat_inv_def owned_ok_def c)
qed

lemma chat_inv_ensure:
  "chat_inv s \<Longrightarrow> ensure_active_session_id now user ch s = Inr (s', sid) \<Longrightarrow> chat_inv s'"
  by (auto simp: ensure_active_session_id_def Let_def intro: chat_inv_insert_session split: option.splits)

lemma find_SomeD: "find p xs = Some x \<Longrightarrow> p x \<and> x \<in> set xs"
  by (auto simp: find_Some_iff)

lemma ensured_session:
  assumes "ensure_active_session_id now user ch s = Inr (s', sid)"
  shows "\<exists>c\<in>set (sessions s'). cs_id c = sid \<and> cs_user c = user \<and> cs_channel c = normalize_channel ch \<and> is_open c"
  using assms
  by (auto simp: ensure_active_session_id_def Let_def insert_session_def open_session_def is_open_def
      split: option.splits if_splits dest!: find_SomeD)

lemma chat_inv_insert_message:
  assumes i: "chat_inv s" and c: "\<exists>c\<in>set (sessions s). cs_id c = sid \<and> cs_user c = user"
  shows "chat_inv (insert_message now sid user m s)"
proof -
  have "msgs_ok (messages s @ [message_row now sid user m (next_message s)]) (next_message s + 1)"
    using chat_invD(3) [OF i] by (force simp: msgs_ok_def message_row_def sorted_wrt_append)
  moreover have "owned_ok (sessions s) (messages s @ [message_row now sid user m (next_message s)])"
    using chat_invD(4) [OF i] c by (auto simp: owned_ok_def message_row_def image_iff)
  ultimately show ?thesis using chat_invD(1,2) [OF i] by (simp add: chat_inv_def insert_message_def)
qed

lemma chat_inv_filter_messages: "chat_inv s \<Longrightarrow> chat_inv (s\<lparr>messages := filter p (messages s)\<rparr>)"
  by (auto simp: chat_inv_def msgs_ok_def owned_ok_def sorted_wrt_filter sorted_wrt_map)

lemma chat_inv_delete:
  assumes i: "chat_inv s"
  shows "chat_inv (fst (delete_sessions ids user s))"
proof (cases "ids = []")
  case False
  let ?keep = "\<lambda>c. \<not> (cs_id c \<in> set ids \<and> (case user of None \<Rightarrow> True | Some u \<Rightarrow> cs_user c = u))"
  let ?ms = "filter (\<lambda>m. cm_session m \<notin> set ids) (messages s)"
  have "ids_ok (filter ?keep (sessions s)) (next_session s)"
    using chat_invD(1) [OF i] by (auto simp: ids_ok_def intro: distinct_map_filter)
  moreover have "one_open (filter ?keep (sessions s))"
    using chat_invD(2) [OF i] by (simp add: one_open_def)
  moreover have "msgs_ok ?ms (next_message s)"
    using chat_invD(3) [OF i] by (simp add: msgs_ok_def sorted_wrt_filter sorted_wrt_map)
  moreover have "owned_ok (filter ?keep (sessions s)) ?ms"
    using chat_invD(4) [OF i] by (fastforce simp: owned_ok_def)
  ultimately show ?thesis using False by (simp add: chat_inv_def delete_sessions_def Let_def)
qed (use i in \<open>simp add: delete_sessions_def\<close>)

lemma chat_inv_activate:
  assumes i: "chat_inv s"
  shows "chat_inv (fst (activate_session now user sid s))"
proof (cases "owned_session user sid s")
  case None
  then show ?thesis using i by (simp add: activate_session_def)
next
  case (Some c)
  then have c: "c \<in> set (sessions s)" "cs_id c = sid" "cs_user c = user"
    by (auto simp: owned_session_def find_Some_iff)
  let ?s1 = "map_sessions (\<lambda>d. cs_user d = user \<and> cs_channel d = cs_channel c \<and> is_open d \<and> cs_id d \<noteq> sid)
      (\<lambda>d. d\<lparr>cs_ended := Some now, cs_reset_reason := Some ''switched''\<rparr>) s"
  have i1: "chat_inv ?s1" using i by (rule chat_inv_shrink) (simp_all add: is_open_def)
  have closed: "\<not> is_open d" if "d \<in> set (sessions ?s1)" "cs_user d = user" "cs_channel d = cs_channel c"
      "cs_id d \<noteq> sid" for d
    using that open_after_closing by blast
  have chan: "cs_channel d = cs_channel c" if d: "d \<in> set (sessions ?s1)" "cs_id d = sid" for d
  proof -
    obtain e where e: "e \<in> set (sessions s)" "cs_id d = cs_id e" "cs_channel d = cs_channel e"
      using d(1) unfolding map_sessions_simps set_map by (elim imageE) (simp split: if_splits)
    then show ?thesis using same_id_same_session [OF i c(1) e(1)] c(2) d(2) by simp
  qed
  have "chat_inv (map_sessions (\<lambda>d. cs_id d = sid \<and> cs_user d = user)
      (\<lambda>d. d\<lparr>cs_ended := None, cs_reset_reason := None\<rparr>) ?s1)"
    using i1
  proof (rule chat_inv_map)
    fix d e
    assume d: "d \<in> set (sessions ?s1)" "e \<in> set (sessions ?s1)" "cs_user d = cs_user e"
        "cs_channel d = cs_channel e"
      and o: "is_open (if cs_id d = sid \<and> cs_user d = user then d\<lparr>cs_ended := None, cs_reset_reason := None\<rparr> else d)"
        "is_open (if cs_id e = sid \<and> cs_user e = user then e\<lparr>cs_ended := None, cs_reset_reason := None\<rparr> else e)"
    show "d = e"
    proof (cases "cs_user d = user \<and> cs_channel d = cs_channel c")
      case True
      have "cs_id d = sid"
      proof (rule ccontr)
        assume n: "cs_id d \<noteq> sid"
        then show False using closed [OF d(1)] True o(1) by simp
      qed
      moreover have "cs_id e = sid"
      proof (rule ccontr)
        assume n: "cs_id e \<noteq> sid"
        then show False using closed [OF d(2)] True o(2) d(3,4) by simp
      qed
      ultimately have "cs_id d = sid" "cs_id e = sid" .
      then show ?thesis using same_id_same_session [OF i1 d(1,2)] by simp
    next
      case False
      have nd: "\<not> (cs_id d = sid \<and> cs_user d = user)" using False chan [OF d(1)] by blast
      have ne: "\<not> (cs_id e = sid \<and> cs_user e = user)"
        using False chan [OF d(2)] unfolding d(3,4) by blast
      have "is_open d" "is_open e" using o unfolding if_not_P [OF nd] if_not_P [OF ne] .
      then show ?thesis using one_openD [OF chat_invD(2) [OF i1]] d by blast
    qed
  qed simp
  then show ?thesis using Some by (simp add: activate_session_def)
qed

section \<open>Operations\<close>

inductive chat_step :: "nat \<Rightarrow> chat_store \<Rightarrow> chat_store \<Rightarrow> bool" for max_messages where
  ct_ensure: "ensure_active_session_id now user ch s = Inr (s', i) \<Longrightarrow> chat_step max_messages s s'"
| ct_reset: "reset_session now user reason ch s = Inr (s', i) \<Longrightarrow> chat_step max_messages s s'"
| ct_create: "create_session now user sect ch s = Inr (s', i) \<Longrightarrow> chat_step max_messages s s'"
| ct_activate: "chat_step max_messages s (fst (activate_session now user sid s))"
| ct_title: "chat_step max_messages s (fst (set_session_title user sid title s))"
| ct_rename: "chat_step max_messages s (fst (rename_session user sid t s))"
| ct_delete: "chat_step max_messages s (fst (delete_session user sid s))"
| ct_retention: "chat_step max_messages s (fst (prune_retention now ttl q s))"
| ct_append: "append_message max_messages now user so ch m s = Inr (s', r) \<Longrightarrow> chat_step max_messages s s'"
| ct_backfill: "backfill_from_memory now user limit mem s = Inr (s', n) \<Longrightarrow> chat_step max_messages s s'"

lemma insert_message_sessions [simp]: "sessions (insert_message now sid user m s) = sessions s"
  by (simp add: insert_message_def)

lemma chat_inv_insert_messages:
  "chat_inv s \<Longrightarrow> \<exists>c\<in>set (sessions s). cs_id c = sid \<and> cs_user c = user \<Longrightarrow>
   chat_inv (fold (\<lambda>(r, c). insert_message now sid user (g r c)) rs s)"
proof (induction rs arbitrary: s)
  case (Cons rc rs)
  then show ?case using chat_inv_insert_message [OF Cons.prems] by (cases rc) simp
qed simp

text \<open>The target of an appended message: a session of the user.\<close>

lemma append_message_cases:
  assumes "append_message mx now user so ch m s = Inr (s', r)"
  obtains s1 sid where
    "s' = prune_active_messages sid mx (map_sessions (\<lambda>c. cs_id c = sid) (\<lambda>c. c\<lparr>cs_updated := Some now\<rparr>)
        (insert_message now sid user m s1))"
    "(s1 = s \<or> ensure_active_session_id now user ch s = Inr (s1, sid))"
    "\<exists>c\<in>set (sessions s1). cs_id c = sid \<and> cs_user c = user"
    "r = message_from_row (message_row now sid user m (next_message s1))"
  using assms ensured_session [of now user ch s]
  by (auto simp: append_message_def owned_session_def dest!: find_SomeD
      split: if_splits option.splits sum.splits) blast+

lemma chat_inv_step: "chat_step mx s s' \<Longrightarrow> chat_inv s \<Longrightarrow> chat_inv s'"
proof (induction rule: chat_step.induct)
  case (ct_ensure now user ch s s' i)
  then show ?case by (rule_tac chat_inv_ensure)
next
  case (ct_reset now user reason ch s s' i)
  then show ?case
    unfolding reset_session_def Let_def by (blast intro: chat_inv_insert_session chat_inv_close)
next
  case (ct_create now user sect ch s s' i)
  then show ?case
    unfolding create_session_def Let_def by (blast intro: chat_inv_insert_session chat_inv_close)
next
  case (ct_activate s now user sid)
  then show ?case by (rule chat_inv_activate)
next
  case (ct_title s user sid title)
  then show ?case
    unfolding set_session_title_def Let_def fst_conv
    by (intro chat_inv_shrink) (simp_all add: keeps_identity_def is_open_def)
next
  case (ct_rename s user sid t)
  then show ?case
    unfolding rename_session_def Let_def fst_conv
    by (intro chat_inv_shrink) (simp_all add: keeps_identity_def is_open_def)
next
  case (ct_delete s user sid)
  then show ?case
    using chat_inv_delete [of s "[sid]" "Some user"]
    by (auto simp: delete_session_def split: option.splits prod.splits)
next
  case (ct_retention s now ttl q)
  then show ?case unfolding prune_retention_def by (rule chat_inv_delete)
next
  case (ct_append now user so ch m s s' r)
  from ct_append(1) obtain s1 sid where
    s': "s' = prune_active_messages sid mx (map_sessions (\<lambda>c. cs_id c = sid) (\<lambda>c. c\<lparr>cs_updated := Some now\<rparr>)
        (insert_message now sid user m s1))"
    and s1: "s1 = s \<or> ensure_active_session_id now user ch s = Inr (s1, sid)"
    and c: "\<exists>c\<in>set (sessions s1). cs_id c = sid \<and> cs_user c = user"
    by (rule append_message_cases) blast
  have "chat_inv s1" using s1 ct_append(2) chat_inv_ensure by blast
  then have "chat_inv (insert_message now sid user m s1)" using c by (rule chat_inv_insert_message)
  then have "chat_inv (map_sessions (\<lambda>c. cs_id c = sid) (\<lambda>c. c\<lparr>cs_updated := Some now\<rparr>)
      (insert_message now sid user m s1))"
    by (rule chat_inv_shrink) (simp_all add: is_open_def)
  then show ?case unfolding s' prune_active_messages_def Let_def by (rule chat_inv_filter_messages)
next
  case (ct_backfill now user limit mem s s' n)
  then show ?case
    using ensured_session [of now user "''web''" s] chat_inv_ensure [of s now user "''web''"]
    by (auto simp: backfill_from_memory_def Let_def split: sum.splits option.splits if_splits
        intro!: chat_inv_insert_messages)
qed

lemma chat_inv_start: "chat_inv chat_empty"
  by (simp add: chat_inv_def chat_empty_def ids_ok_def one_open_def msgs_ok_def owned_ok_def)

interpretation chat: invariant_system "\<lambda>s. s = chat_empty" "chat_step mx" chat_inv
  by unfold_locales (auto intro: chat_inv_start chat_inv_step)

section \<open>Isolation and retention\<close>

definition sessions_of :: "string \<Rightarrow> string \<Rightarrow> chat_store \<Rightarrow> chat_session list" where
  "sessions_of user channel s = filter (\<lambda>c. cs_user c = user \<and> cs_channel c = channel) (sessions s)"

lemma sessions_of_map:
  assumes "keeps_identity f" and "\<And>c. p c \<Longrightarrow> \<not> (cs_user c = user \<and> cs_channel c = ch)"
  shows "sessions_of user ch (map_sessions p f s) = sessions_of user ch s"
proof -
  let ?g = "\<lambda>c. if p c then f c else c"
  let ?q = "\<lambda>c. cs_user c = user \<and> cs_channel c = ch"
  have q: "?q (?g c) = ?q c" for c using assms(1) by (simp add: keeps_identity_def)
  have "filter ?q (map ?g xs) = filter ?q xs" for xs
    using assms(2) by (induction xs) (auto simp: q)
  then show ?thesis by (simp add: sessions_of_def)
qed

lemma sessions_of_insert:
  "insert_session now user ch sect s = Inr (s', i) \<Longrightarrow> (u, c) \<noteq> (user, ch) \<Longrightarrow>
   sessions_of u c s' = sessions_of u c s \<and> messages s' = messages s"
  by (auto simp: insert_session_def sessions_of_def split: if_splits)

lemma sessions_of_close:
  "(u, c) \<noteq> (user, ch) \<Longrightarrow> sessions_of u c (close_open now reason user ch s) = sessions_of u c s"
  unfolding close_open_def by (rule sessions_of_map) auto

lemma messages_close [simp]: "messages (close_open now reason user ch s) = messages s"
  by (simp add: close_open_def)

lemma sessions_of_activate:
  assumes "u \<noteq> user"
  shows "sessions_of u c (fst (activate_session now user sid s)) = sessions_of u c s"
proof (cases "owned_session user sid s")
  case (Some d)
  have "fst (activate_session now user sid s) =
      map_sessions (\<lambda>d. cs_id d = sid \<and> cs_user d = user)
        (\<lambda>d. d\<lparr>cs_ended := None, cs_reset_reason := None\<rparr>)
        (map_sessions (\<lambda>e. cs_user e = user \<and> cs_channel e = cs_channel d \<and> is_open e \<and> cs_id e \<noteq> sid)
          (\<lambda>d. d\<lparr>cs_ended := Some now, cs_reset_reason := Some ''switched''\<rparr>) s)"
    using Some by (simp add: activate_session_def)
  also have "sessions_of u c \<dots> = sessions_of u c s"
    using assms by (intro trans [OF sessions_of_map sessions_of_map]) auto
  finally show ?thesis .
qed (simp add: activate_session_def)

lemma insert_after_close:
  "\<exists>s' c. insert_session now user ch sect (close_open now reason user ch s) = Inr (s', cs_id c) \<and>
     open_session user ch s' = Some c"
proof -
  let ?s = "close_open now reason user ch s"
  have "\<not> (\<exists>c\<in>set (sessions ?s). cs_user c = user \<and> cs_channel c = ch \<and> is_open c)"
    by (blast dest: close_open_none)
  then show ?thesis by (auto simp: insert_session_def open_session_def is_open_def)
qed

text \<open>What retention leaves of the archived sessions of one user.\<close>

lemma retention_sessions:
  "sessions (fst (prune_retention now ttl q s)) =
     filter (\<lambda>c. cs_id c \<notin> set (retention_ids now ttl q s)) (sessions s)"
  by (simp add: prune_retention_def delete_sessions_def Let_def)

lemma retention_messages:
  "messages (fst (prune_retention now ttl q s)) =
     filter (\<lambda>m. cm_session m \<notin> set (retention_ids now ttl q s)) (messages s)"
  by (simp add: prune_retention_def delete_sessions_def Let_def)

lemma set_retention_ids:
  "i \<in> set (retention_ids now ttl q s) \<longleftrightarrow>
     (\<exists>c\<in>set (sessions s). cs_id c = i \<and> (\<exists>e. cs_ended c = Some e \<and> e < now - 86400 * max 0 ttl)) \<or>
     (\<exists>c\<in>set (sessions s). \<not> is_open c \<and> i \<in> set (drop (nat (max 0 q)) (archived_ids (cs_user c) s)))"
  by (auto simp: retention_ids_def Let_def split: option.splits)

lemma archived_set:
  "set (archived_ids u s) = {cs_id c | c. c \<in> set (sessions s) \<and> cs_user c = u \<and> \<not> is_open c}"
  by (auto simp: archived_ids_def)

lemma archived_distinct:
  assumes "chat_inv s"
  shows "distinct (archived_ids u s)"
  using chat_invD(1) [OF assms] by (simp add: archived_ids_def ids_ok_def distinct_map_filter)

lemma open_not_pruned:
  assumes i: "chat_inv s" and c: "c \<in> set (sessions s)" "is_open c"
  shows "cs_id c \<notin> set (retention_ids now ttl q s)"
proof
  assume r: "cs_id c \<in> set (retention_ids now ttl q s)"
  have dropped: "\<exists>d\<in>set (sessions s). cs_id d = j \<and> \<not> is_open d"
    if "j \<in> set (drop n (archived_ids u s))" for j n u
    using in_set_dropD [OF that] by (auto simp: archived_set)
  have "\<exists>d\<in>set (sessions s). cs_id d = cs_id c \<and> \<not> is_open d"
    using r unfolding set_retention_ids
  proof (elim disjE bexE conjE exE)
    fix d e
    assume "d \<in> set (sessions s)" "cs_id d = cs_id c" "cs_ended d = Some e"
    then show ?thesis by (auto simp: is_open_def)
  qed (rule dropped)
  then obtain d where "d \<in> set (sessions s)" "cs_id d = cs_id c" "\<not> is_open d" by blast
  then show False using same_id_same_session [OF i c(1)] c(2) by metis
qed

lemma quota_kept:
  assumes i: "chat_inv s"
  shows "length (archived_ids u (fst (prune_retention now ttl q s))) \<le> nat (max 0 q)"
proof -
  let ?s' = "fst (prune_retention now ttl q s)" and ?q = "nat (max 0 q)"
  have i': "chat_inv ?s'" unfolding prune_retention_def by (rule chat_inv_delete [OF i])
  have "set (archived_ids u ?s') \<subseteq> set (take ?q (archived_ids u s))"
  proof
    fix j
    assume "j \<in> set (archived_ids u ?s')"
    then obtain c where c: "c \<in> set (sessions s)" "cs_id c = j" "cs_user c = u" "\<not> is_open c"
        "j \<notin> set (retention_ids now ttl q s)"
      unfolding archived_set retention_sessions by auto
    then have "j \<in> set (archived_ids u s)" "j \<notin> set (drop ?q (archived_ids u s))"
      by (auto simp: archived_set set_retention_ids)
    then show "j \<in> set (take ?q (archived_ids u s))"
      by (metis Un_iff append_take_drop_id set_append)
  qed
  then have "card (set (archived_ids u ?s')) \<le> card (set (take ?q (archived_ids u s)))"
    by (intro card_mono) simp_all
  also have "\<dots> \<le> ?q" by (rule order_trans [OF card_length]) simp
  finally show ?thesis using distinct_card [OF archived_distinct [OF i']] by simp
qed

section \<open>Paging\<close>

lemma page_split:
  "\<exists>older. ms = older @ rev (take n (rev ms)) \<and> (length (take (Suc n) (rev ms)) > n \<longleftrightarrow> older \<noteq> [])"
proof (intro exI conjI)
  show "ms = rev (drop n (rev ms)) @ rev (take n (rev ms))"
    by (metis append_take_drop_id rev_append rev_rev_ident)
  show "length (take (Suc n) (rev ms)) > n \<longleftrightarrow> rev (drop n (rev ms)) \<noteq> []" by auto
qed

lemma page_of_split:
  obtains older newer where "ms = older @ newer" "pg_messages (page_of sid n ms) = map message_from_row newer"
    "pg_has_more (page_of sid n ms) \<longleftrightarrow> older \<noteq> []" "newer = rev (take n (rev ms))"
  using page_split [of ms n] by (auto simp: page_of_def Let_def min_def take_take)

lemma clamp_pos: "1 \<le> u \<Longrightarrow> 0 < clamp u l"
  by (simp add: clamp_def)

lemma filter_before:
  assumes "sorted_wrt (<) (map cm_id (older @ newer))" and "newer \<noteq> []"
  shows "filter (\<lambda>m. cm_id m < cm_id (hd newer)) (older @ newer) = older"
proof -
  have lt: "cm_id a < cm_id b" if "a \<in> set older" "b \<in> set newer" for a b
    using assms(1) that by (auto simp: sorted_wrt_append)
  have ge: "\<not> cm_id b < cm_id (hd newer)" if "b \<in> set newer" for b
    using assms that by (cases newer) (auto simp: sorted_wrt_append)
  show ?thesis using lt ge assms(2) by (auto simp: filter_id_conv filter_empty_conv)
qed

text \<open>Appending never removes a message of another user.\<close>

lemma append_keeps_others:
  assumes i: "chat_inv s" and ap: "append_message mx now user so ch m s = Inr (s3, row)"
  shows "filter (\<lambda>x. cm_user x \<noteq> user) (messages s3) = filter (\<lambda>x. cm_user x \<noteq> user) (messages s)"
proof -
  from ap obtain s' sid where
    s3: "s3 = prune_active_messages sid mx (map_sessions (\<lambda>c. cs_id c = sid) (\<lambda>c. c\<lparr>cs_updated := Some now\<rparr>)
        (insert_message now sid user m s'))"
    and s': "s' = s \<or> ensure_active_session_id now user ch s = Inr (s', sid)"
    and own: "\<exists>c\<in>set (sessions s'). cs_id c = sid \<and> cs_user c = user"
    by (rule append_message_cases) blast
  have same: "messages s' = messages s"
    using s' by (auto simp: ensure_active_session_id_def Let_def insert_session_def split: option.splits if_splits)
  let ?t = "insert_message now sid user m s'"
  have it: "chat_inv ?t" using s' chat_inv_ensure i own by (blast intro: chat_inv_insert_message)
  have owner: "cm_user x = user" if x: "x \<in> set (messages ?t)" "cm_session x = sid" for x
  proof -
    obtain c where "c \<in> set (sessions ?t)" "cs_id c = sid" "cs_user c = cm_user x"
      using chat_invD(4) [OF it] x by (force simp: owned_ok_def)
    moreover obtain d where "d \<in> set (sessions ?t)" "cs_id d = sid" "cs_user d = user"
      using own by auto
    ultimately show ?thesis using same_id_same_session [OF it, of c d] by simp
  qed
  have inj: "x = y" if "x \<in> set (messages ?t)" "y \<in> set (messages ?t)" "cm_id x = cm_id y" for x y
    using chat_invD(3) [OF it] that
    by (metis distinct_map inj_onD msgs_ok_def strict_sorted_iff)
  have keep: "cm_id x \<notin> set (map cm_id (drop n (rev (session_messages sid ?t))))"
    if x: "x \<in> set (messages ?t)" "cm_user x \<noteq> user" for x n
  proof
    assume "cm_id x \<in> set (map cm_id (drop n (rev (session_messages sid ?t))))"
    then obtain y where "cm_id x = cm_id y" "y \<in> set (session_messages sid ?t)"
      by (auto dest!: in_set_dropD)
    then have y: "y \<in> set (messages ?t)" "cm_session y = sid" "cm_id x = cm_id y"
      by (simp_all add: session_messages_def)
    have "x = y" by (rule inj [OF x(1) y(1,3)])
    then show False using owner [OF y(1,2)] x(2) by simp
  qed
  have "filter (\<lambda>x. cm_user x \<noteq> user) (messages s3) = filter (\<lambda>x. cm_user x \<noteq> user) (messages ?t)"
    unfolding s3 prune_active_messages_def Let_def session_messages_def map_sessions_simps
    using keep unfolding session_messages_def by (auto intro!: filter_cong)
  then show ?thesis
    by (simp add: insert_message_def message_row_def same)
qed

lemma ensure_again:
  assumes i: "chat_inv s1" and e1: "ensure_active_session_id now user ch s = Inr (s1, sid)"
    and e2: "ensure_active_session_id now user ch s1 = Inr (s2, sid2)"
  shows "sid2 = sid \<and> s2 = s1"
proof -
  obtain c where c: "c \<in> set (sessions s1)" "cs_id c = sid" "cs_user c = user"
      "cs_channel c = normalize_channel ch" "is_open c"
    using ensured_session [OF e1] by blast
  have "open_session user (normalize_channel ch) s1 \<noteq> None"
    using c by (auto simp: open_session_def find_None_iff)
  then obtain d where d: "open_session user (normalize_channel ch) s1 = Some d" by blast
  then have "d = c"
    using one_openD [OF chat_invD(2) [OF i]] c by (auto simp: open_session_def dest!: find_SomeD)
  then show ?thesis using e2 d c(2) by (auto simp: ensure_active_session_id_def Let_def)
qed

lemma normalize_web: "normalize_channel ''web'' = ''web''"
  by (simp add: normalize_channel_def strip_def strip_by_def is_space_def is_space_cp_def lower_def
      to_lower_def Let_def)

section \<open>Properties\<close>

text \<open>C20: the transcript is consistent after any sequence of operations of any users. A user has
  at most one open session per channel, every message lies in a session of its own user, message
  ids grow; and resetting or creating a chat cannot fail: the session it returns is the open one
  of its channel.\<close>

lemma transcript_consistent:
  assumes r: "reach (\<lambda>s. s = chat_empty) (chat_step mx) s"
  shows "(\<forall>c\<in>set (sessions s). \<forall>d\<in>set (sessions s).
      is_open c \<and> is_open d \<and> cs_user c = cs_user d \<and> cs_channel c = cs_channel d \<longrightarrow> c = d) \<and>
    (\<forall>m\<in>set (messages s). \<exists>c\<in>set (sessions s). cs_id c = cm_session m \<and> cs_user c = cm_user m) \<and>
    sorted_wrt (<) (map cm_id (messages s)) \<and>
    (\<exists>s' c. reset_session now user reason ch s = Inr (s', cs_id c) \<and>
       open_session user (normalize_channel ch) s' = Some c) \<and>
    (\<exists>s' c ch'. create_session now user sect ch s = Inr (s', cs_id c) \<and> open_session user ch' s' = Some c)"
proof -
  have i: "chat_inv s" by (rule chat.reach_inv [OF r])
  have "\<exists>s' c ch'. create_session now user sect ch s = Inr (s', cs_id c) \<and> open_session user ch' s' = Some c"
    unfolding create_session_def Let_def by (metis insert_after_close)
  moreover have "\<exists>s' c. reset_session now user reason ch s = Inr (s', cs_id c) \<and>
       open_session user (normalize_channel ch) s' = Some c"
    unfolding reset_session_def Let_def by (rule insert_after_close)
  moreover have "\<forall>m\<in>set (messages s). \<exists>c\<in>set (sessions s). cs_id c = cm_session m \<and> cs_user c = cm_user m"
    using chat_invD(4) [OF i] by (force simp: owned_ok_def)
  ultimately show ?thesis
    using one_openD [OF chat_invD(2) [OF i]] chat_invD(3) [OF i] by (auto simp: msgs_ok_def)
qed

lemma transcript_consistent_witness:
  "\<exists>s' c. reset_session 5 ''u'' ''/new'' ''web'' chat_empty = Inr (s', cs_id c) \<and>
     open_session ''u'' (normalize_channel ''web'') s' = Some c"
  using transcript_consistent [OF reach_start [where start = "\<lambda>s. s = chat_empty"], of chat_empty 5 "''u''" "''/new''" "''web''"]
  by blast

text \<open>users and channels do not interfere. Opening, resetting or creating a session of one user
  on one channel leaves the sessions of every other pair as they were and touches no message;
  switching sessions leaves the other users and the other channels alone; and appending a message,
  with the pruning that follows, removes no message of another user.\<close>

lemma channels_isolated:
  assumes r: "reach (\<lambda>s. s = chat_empty) (chat_step mx) s"
  shows "(reset_session now user reason ch s = Inr (s1, i) \<and> (u, c) \<noteq> (user, normalize_channel ch) \<longrightarrow>
      sessions_of u c s1 = sessions_of u c s \<and> messages s1 = messages s) \<and>
    (ensure_active_session_id now user ch s = Inr (s2, i) \<and> (u, c) \<noteq> (user, normalize_channel ch) \<longrightarrow>
      sessions_of u c s2 = sessions_of u c s \<and> messages s2 = messages s) \<and>
    (u \<noteq> user \<longrightarrow> sessions_of u c (fst (activate_session now user sid s)) = sessions_of u c s) \<and>
    (append_message mx now user so ch m s = Inr (s3, row) \<longrightarrow>
      filter (\<lambda>x. cm_user x \<noteq> user) (messages s3) = filter (\<lambda>x. cm_user x \<noteq> user) (messages s))"
proof (intro conjI impI; (elim conjE)?)
  assume "reset_session now user reason ch s = Inr (s1, i)" "(u, c) \<noteq> (user, normalize_channel ch)"
  then show "sessions_of u c s1 = sessions_of u c s" "messages s1 = messages s"
    unfolding reset_session_def Let_def using sessions_of_insert sessions_of_close by (metis messages_close)+
next
  assume "ensure_active_session_id now user ch s = Inr (s2, i)" "(u, c) \<noteq> (user, normalize_channel ch)"
  then show "sessions_of u c s2 = sessions_of u c s" "messages s2 = messages s"
    using sessions_of_insert [of now user "normalize_channel ch" _ s s2 i u c]
    by (auto simp: ensure_active_session_id_def Let_def split: option.splits)
next
  assume "u \<noteq> user"
  then show "sessions_of u c (fst (activate_session now user sid s)) = sessions_of u c s"
    by (rule sessions_of_activate)
qed (rule append_keeps_others [OF chat.reach_inv [OF r]])

lemma channels_isolated_witness:
  "\<exists>s1. reset_session 5 ''u'' ''/new'' ''web'' chat_empty = Inr (s1, 1) \<and>
     sessions_of ''u'' ''telegram'' s1 = sessions_of ''u'' ''telegram'' chat_empty"
proof -
  obtain s1 where s1: "reset_session 5 ''u'' ''/new'' ''web'' chat_empty = Inr (s1, 1)"
    by (simp add: reset_session_def Let_def normalize_web insert_session_def close_open_def map_sessions_def chat_empty_def)
  then show ?thesis
    using channels_isolated [OF reach_start [where start = "\<lambda>s. s = chat_empty"], of chat_empty 5 "''u''" "''/new''" "''web''" s1 1 "''u''" "''telegram''"]
    by (simp add: normalize_web)
qed

text \<open>retention is safe and complete. It keeps every open session with all its messages and
  every message of a session it keeps, and leaves each user no archived session past the time to
  live and at most the quota of them.\<close>

lemma retention_safe_and_complete:
  assumes r: "reach (\<lambda>s. s = chat_empty) (chat_step mx) s"
  shows "(\<forall>c\<in>set (sessions s). is_open c \<longrightarrow> c \<in> set (sessions (fst (prune_retention now ttl q s))) \<and>
      session_messages (cs_id c) (fst (prune_retention now ttl q s)) = session_messages (cs_id c) s) \<and>
    (\<forall>c\<in>set (sessions (fst (prune_retention now ttl q s))). \<forall>e.
      cs_ended c = Some e \<longrightarrow> now - 86400 * max 0 ttl \<le> e) \<and>
    length (archived_ids u (fst (prune_retention now ttl q s))) \<le> nat (max 0 q)"
proof -
  have i: "chat_inv s" by (rule chat.reach_inv [OF r])
  have keep: "cs_id c \<notin> set (retention_ids now ttl q s)" if "c \<in> set (sessions s)" "is_open c" for c
    by (rule open_not_pruned [OF i that])
  have fresh: "now - 86400 * max 0 ttl \<le> e"
    if c: "c \<in> set (sessions (fst (prune_retention now ttl q s)))" "cs_ended c = Some e" for c e
  proof (rule ccontr)
    assume "\<not> now - 86400 * max 0 ttl \<le> e"
    then have "cs_id c \<in> set (retention_ids now ttl q s)"
      using c by (auto simp: set_retention_ids retention_sessions intro!: disjI1 bexI [of _ c])
    then show False using c by (simp add: retention_sessions)
  qed
  have msgs: "session_messages j (fst (prune_retention now ttl q s)) = session_messages j s"
    if "j \<notin> set (retention_ids now ttl q s)" for j
    using that by (auto simp: session_messages_def retention_messages intro!: filter_cong)
  show ?thesis
    using keep msgs fresh quota_kept [OF i] by (auto simp: retention_sessions)
qed

lemma retention_safe_and_complete_witness:
  "length (archived_ids ''u'' (fst (prune_retention 9 30 0 chat_empty))) \<le> 0"
  using retention_safe_and_complete [OF reach_start [where start = "\<lambda>s. s = chat_empty"], of chat_empty 9 30 0 "''u''"]
  by simp

text \<open>paging backwards neither skips nor repeats. The page of the latest messages and the page
  before its first message together are a suffix of the transcript of the active session, in
  order, each flag tells whether anything older exists, and no page is longer than 200.\<close>

lemma paging_is_seamless:
  assumes r: "reach (\<lambda>s. s = chat_empty) (chat_step mx) s"
    and p1: "list_recent now user l1 s = Inr (s1, recent)"
    and p2: "list_before now user (cm_id (hd (pg_messages recent))) l2 s1 = Inr (s2, before)"
    and ne: "pg_messages recent \<noteq> []"
  shows "\<exists>older. map message_from_row (session_messages (pg_session recent) s1) =
      older @ pg_messages before @ pg_messages recent \<and>
    (pg_has_more before \<longleftrightarrow> older \<noteq> []) \<and> (pg_has_more recent \<longleftrightarrow> older @ pg_messages before \<noteq> []) \<and>
    length (pg_messages recent) \<le> 200 \<and> length (pg_messages before) \<le> 200"
proof -
  have i: "chat_inv s" by (rule chat.reach_inv [OF r])
  obtain sid where e1: "ensure_active_session_id now user ''web'' s = Inr (s1, sid)"
    and recent: "recent = page_of sid (clamp 200 l1) (session_messages sid s1)"
    using p1 by (auto simp: list_recent_def split: sum.splits)
  have i1: "chat_inv s1" by (rule chat_inv_ensure [OF i e1])
  obtain sid2 where e2: "ensure_active_session_id now user ''web'' s1 = Inr (s2, sid2)"
    and before: "before = page_of sid2 (clamp 200 l2)
        (filter (\<lambda>m. cm_id m < cm_id (hd (pg_messages recent))) (session_messages sid2 s2))"
    using p2 by (auto simp: list_before_def split: sum.splits)
  have "sid2 = sid \<and> s2 = s1" by (rule ensure_again [OF i1 e1 e2])
  note same = this
  let ?ms = "session_messages sid s1"
  obtain o1 n1 where s1: "?ms = o1 @ n1" "pg_messages recent = map message_from_row n1"
      "pg_has_more recent \<longleftrightarrow> o1 \<noteq> []" "n1 = rev (take (clamp 200 l1) (rev ?ms))"
    unfolding recent by (rule page_of_split [of ?ms sid "clamp 200 l1"]) blast
  have n1: "n1 \<noteq> []" using ne s1(2) by simp
  then have hd: "cm_id (hd (pg_messages recent)) = cm_id (hd n1)"
    unfolding s1(2) by (simp add: hd_map message_from_row_def)
  have "sorted_wrt (<) (map cm_id ?ms)"
    using chat_invD(3) [OF i1] by (simp add: msgs_ok_def session_messages_def sorted_wrt_map sorted_wrt_filter)
  then have f: "filter (\<lambda>m. cm_id m < cm_id (hd n1)) ?ms = o1"
    unfolding s1(1) using n1 by (rule filter_before)
  have b: "before = page_of sid (clamp 200 l2) o1" using before hd f same by simp
  obtain o2 n2 where s2: "o1 = o2 @ n2" "pg_messages before = map message_from_row n2"
      "pg_has_more before \<longleftrightarrow> o2 \<noteq> []" "n2 = rev (take (clamp 200 l2) (rev o1))"
    unfolding b by (rule page_of_split [of o1 sid "clamp 200 l2"]) blast
  have le: "clamp 200 l \<le> 200" for l by (simp add: clamp_def)
  have "length n1 \<le> 200" "length n2 \<le> 200"
    using le [of l1] le [of l2] by (simp_all add: s1(4) s2(4) min_le_iff_disj)
  moreover have "pg_session recent = sid" by (simp add: recent page_of_def Let_def)
  ultimately show ?thesis
    by (intro exI [of _ "map message_from_row o2"]) (auto simp: s1(1-3) s2(1-3))
qed


definition hello :: new_message where
  "hello = \<lparr>nm_role = ''user'', nm_content = ''hi'', nm_tone = None, nm_request = None,
     nm_metadata = [], nm_file = None\<rparr>"

definition two_messages :: chat_store where
  "two_messages = fst (projr (append_message 10 4 ''u'' None ''web'' hello
     (fst (projr (append_message 10 3 ''u'' None ''web'' hello chat_empty)))))"

lemmas chat_eval = append_message_def hello_def ensure_active_session_id_def normalize_web
  Let_def open_session_def chat_empty_def insert_session_def default_section_def insert_message_def
  message_row_def clean_content_def MAX_PERSISTED_CONTENT_CHARS_def map_sessions_def is_open_def
  prune_active_messages_def session_messages_def

lemma reach_two_messages: "reach (\<lambda>s. s = chat_empty) (chat_step 10) two_messages"
proof -
  let ?s1 = "fst (projr (append_message 10 3 ''u'' None ''web'' hello chat_empty))"
  obtain r1 where r1: "append_message 10 3 ''u'' None ''web'' hello chat_empty = Inr (?s1, r1)"
    by (simp add: chat_eval)
  obtain r2 where r2: "append_message 10 4 ''u'' None ''web'' hello ?s1 = Inr (two_messages, r2)"
    unfolding two_messages_def by (simp add: chat_eval)
  have r: "reach (\<lambda>s. s = chat_empty) (chat_step 10) chat_empty" by (rule reach_start) simp
  have 1: "chat_step 10 chat_empty ?s1" using r1 by (rule ct_append)
  have 2: "chat_step 10 ?s1 two_messages" using r2 by (rule ct_append)
  have "reach (\<lambda>s. s = chat_empty) (chat_step 10) ?s1" using r 1 by (rule reach_step)
  then show ?thesis using 2 by (rule reach_step)
qed

lemma two_messages_pages:
  "\<exists>recent before. list_recent 5 ''u'' 1 two_messages = Inr (two_messages, recent) \<and>
     list_before 5 ''u'' (cm_id (hd (pg_messages recent))) 1 two_messages = Inr (two_messages, before) \<and>
     pg_messages recent \<noteq> [] \<and> pg_has_more recent \<and> \<not> pg_has_more before"
  by (simp add: two_messages_def list_recent_def list_before_def page_of_def clamp_def
      message_from_row_def chat_eval)

lemma paging_is_seamless_witness:
  "\<exists>recent (before :: chat_page). list_recent 5 ''u'' 1 two_messages = Inr (two_messages, recent) \<and>
     map message_from_row (session_messages (pg_session recent) two_messages) =
       pg_messages before @ pg_messages recent \<and> pg_messages before \<noteq> []"
proof -
  obtain recent before where p: "list_recent 5 ''u'' 1 two_messages = Inr (two_messages, recent)"
      "list_before 5 ''u'' (cm_id (hd (pg_messages recent))) 1 two_messages = Inr (two_messages, before)"
      "pg_messages recent \<noteq> []" "pg_has_more recent" "\<not> pg_has_more before"
    using two_messages_pages by blast
  from paging_is_seamless [OF reach_two_messages p(1-3)] p(4,5)
  have "map message_from_row (session_messages (pg_session recent) two_messages) =
      pg_messages before @ pg_messages recent" "pg_messages before \<noteq> []"
    by auto
  with p(1) show ?thesis by blast
qed

end
