(* ===== verification/Transcript.thy ===== *)
theory Transcript
  imports Prelude
begin

text \<open>
  \<open>agent/context.py\<close>: the transcript sent to the model. A message is a Python \<open>dict\<close> that may come
  from durable storage, so nothing is assumed of its keys and values. \<open>normalize_transcript\<close> reduces
  any list of messages to the protocol of the providers; \<open>ContextBuilder\<close> appends to a transcript
  and prunes it. Parameters: \<open>dumps\<close> (\<open>json.dumps\<close>), \<open>str_of\<close> (\<open>str\<close> of a value that is not a
  string), \<open>loads\<close> (\<open>json.loads\<close>, \<open>None\<close> when it raises).
\<close>

section \<open>Messages\<close>

type_synonym message = "(string \<times> json) list"

definition has_role :: "message \<Rightarrow> string \<Rightarrow> bool" where
  "has_role m r \<longleftrightarrow> jget m ''role'' = Some (JStr r)"

abbreviation is_tool_msg :: "message \<Rightarrow> bool" where
  "is_tool_msg m \<equiv> has_role m ''tool''"

text \<open>The calls an assistant message declares, as they stand in it.\<close>

definition declared_calls :: "message \<Rightarrow> json list" where
  "declared_calls m =
     (if has_role m ''assistant''
      then (case jget m ''tool_calls'' of Some (JArr cs) \<Rightarrow> cs | _ \<Rightarrow> [])
      else [])"

text \<open>The id and the name of a well-formed call.\<close>

definition call_key :: "json \<Rightarrow> (string \<times> string) option" where
  "call_key raw_call =
     (case raw_call of
        JObj call \<Rightarrow>
          (case jget call ''id'' of
             Some (JStr call_id) \<Rightarrow>
               if call_id = [] then None
               else
                 (case jget call ''function'' of
                    Some (JObj function) \<Rightarrow>
                      (case jget function ''name'' of
                         Some (JStr n) \<Rightarrow> if n = [] then None else Some (call_id, n)
                       | _ \<Rightarrow> None)
                  | _ \<Rightarrow> None)
           | _ \<Rightarrow> None)
      | _ \<Rightarrow> None)"

definition result_id :: "message \<Rightarrow> string option" where
  "result_id m = (case jget m ''tool_call_id'' of Some (JStr i) \<Rightarrow> Some i | _ \<Rightarrow> None)"

section \<open>Normalisation\<close>

text \<open>The first loop over a batch: the valid calls with their ids and names, each id once.\<close>

fun valid_calls :: "string list \<Rightarrow> json list \<Rightarrow> (json \<times> string \<times> string) list" where
  "valid_calls seen [] = []"
| "valid_calls seen (c # cs) =
     (case call_key c of
        Some (i, n) \<Rightarrow>
          if i \<in> set seen then valid_calls seen cs else (c, i, n) # valid_calls (i # seen) cs
      | None \<Rightarrow> valid_calls seen cs)"

text \<open>The second loop: the first result of each declared id, and how many others are dropped.\<close>

fun collect_results ::
    "string list \<Rightarrow> message list \<Rightarrow> (string, message) pydict \<Rightarrow> (string, message) pydict \<times> nat" where
  "collect_results ids [] actual = (actual, 0)"
| "collect_results ids (m # ms) actual =
     (case result_id m of
        Some i \<Rightarrow>
          if i \<in> set ids \<and> i \<notin> set (dkeys actual)
          then collect_results ids ms (dput i m actual)
          else (let (a, n) = collect_results ids ms actual in (a, Suc n))
      | None \<Rightarrow> (let (a, n) = collect_results ids ms actual in (a, Suc n)))"

definition stub_result :: "string \<Rightarrow> string \<Rightarrow> message" where
  "stub_result call_id name =
     [(''role'', JStr ''tool''), (''tool_call_id'', JStr call_id), (''name'', JStr name),
      (''content'', JStr ''[Tool result was lost before it could be persisted]'')]"

text \<open>The third loop: one result per valid call, in the order of the calls.\<close>

definition batch_results :: "(json \<times> string \<times> string) list \<Rightarrow> (string, message) pydict \<Rightarrow> message list" where
  "batch_results calls actual =
     map (\<lambda>(c, i, n). case dget actual i of Some m \<Rightarrow> m | None \<Rightarrow> stub_result i n) calls"

definition missing_results :: "(json \<times> string \<times> string) list \<Rightarrow> (string, message) pydict \<Rightarrow> nat" where
  "missing_results calls actual = length (filter (\<lambda>(c, i, n). dget actual i = None) calls)"

text \<open>What a batch becomes: the assistant message with the calls that are kept.\<close>

definition keep_calls :: "message \<Rightarrow> (json \<times> string \<times> string) list \<Rightarrow> message" where
  "keep_calls m calls =
     (if calls \<noteq> [] then dput ''tool_calls'' (JArr (map fst calls)) m else dpop ''tool_calls'' m)"

record pairs_counts =
  dropped_orphan_tools :: nat
  dropped_invalid_tool_calls :: nat
  added_stub_results :: nat

definition no_counts :: pairs_counts where
  "no_counts = \<lparr>dropped_orphan_tools = 0, dropped_invalid_tool_calls = 0, added_stub_results = 0\<rparr>"

definition add_counts :: "nat \<Rightarrow> nat \<Rightarrow> nat \<Rightarrow> pairs_counts \<Rightarrow> pairs_counts" where
  "add_counts o_n i_n s_n c =
     \<lparr>dropped_orphan_tools = o_n + dropped_orphan_tools c,
      dropped_invalid_tool_calls = i_n + dropped_invalid_tool_calls c,
      added_stub_results = s_n + added_stub_results c\<rparr>"

function normalize_tool_pairs :: "message list \<Rightarrow> message list \<times> pairs_counts" where
  "normalize_tool_pairs [] = ([], no_counts)"
| "normalize_tool_pairs (m # ms) =
     (if is_tool_msg m then
        (case normalize_tool_pairs ms of (out, c) \<Rightarrow> (out, add_counts 1 0 0 c))
      else if declared_calls m = [] then
        (case normalize_tool_pairs ms of (out, c) \<Rightarrow> (m # out, c))
      else
        (let raw = declared_calls m;
             calls = valid_calls [] raw;
             invalid = length raw - length calls
         in if calls = [] then
              (case normalize_tool_pairs ms of
                 (out, c) \<Rightarrow> (keep_calls m calls # out, add_counts 0 invalid 0 c))
            else
              (let (actual, orphans) =
                     collect_results (map (fst \<circ> snd) calls) (takeWhile is_tool_msg ms) []
               in case normalize_tool_pairs (dropWhile is_tool_msg ms) of
                    (out, c) \<Rightarrow>
                      (keep_calls m calls # batch_results calls actual @ out,
                       add_counts orphans invalid (missing_results calls actual) c))))"
  by pat_completeness auto
termination
  by (relation "measure length") (auto simp: less_Suc_eq_le length_dropWhile_le)

record normalization =
  norm_messages :: "message list"
  dropped_system :: nat
  dropped_leading :: nat
  dropped_unknown :: nat
  pair_counts :: pairs_counts

definition norm_changed :: "normalization \<Rightarrow> bool" where
  "norm_changed n \<longleftrightarrow>
     dropped_system n \<noteq> 0 \<or> dropped_leading n \<noteq> 0 \<or> dropped_unknown n \<noteq> 0 \<or>
     dropped_orphan_tools (pair_counts n) \<noteq> 0 \<or> dropped_invalid_tool_calls (pair_counts n) \<noteq> 0 \<or>
     added_stub_results (pair_counts n) \<noteq> 0"

definition known_role :: "message \<Rightarrow> bool" where
  "known_role m \<longleftrightarrow> has_role m ''user'' \<or> has_role m ''assistant'' \<or> has_role m ''tool''"

definition leading_fragment :: "message \<Rightarrow> bool" where
  "leading_fragment m \<longleftrightarrow> has_role m ''assistant'' \<or> has_role m ''tool''"

definition normalize_transcript :: "message list \<Rightarrow> normalization" where
  "normalize_transcript ms =
     (let system = filter (\<lambda>m. has_role m ''system'') ms;
          unknown = filter (\<lambda>m. \<not> has_role m ''system'' \<and> \<not> known_role m) ms;
          canonical = filter (\<lambda>m. \<not> has_role m ''system'' \<and> known_role m) ms;
          leading = takeWhile leading_fragment canonical
      in case normalize_tool_pairs (dropWhile leading_fragment canonical) of
           (out, c) \<Rightarrow>
             \<lparr>norm_messages = out, dropped_system = length system, dropped_leading = length leading,
              dropped_unknown = length unknown, pair_counts = c\<rparr>)"

section \<open>The protocol of the providers\<close>

text \<open>
  Specification: no result without a declaring batch directly before it, and every declared call
  answered, in order, before the next message.
\<close>

function valid_pairs :: "message list \<Rightarrow> bool" where
  "valid_pairs [] = True"
| "valid_pairs (m # ms) =
     (\<not> is_tool_msg m \<and>
      (let calls = declared_calls m; keys = map call_key calls; n = length calls
       in if calls = [] then valid_pairs ms
          else (\<forall>k\<in>set keys. k \<noteq> None) \<and> distinct (map (map_option fst) keys) \<and>
            (\<forall>r\<in>set (take n ms). is_tool_msg r) \<and>
            map result_id (take n ms) = map (map_option fst) keys \<and> valid_pairs (drop n ms)))"
  by pat_completeness auto
termination
  by (relation "measure length") auto

definition provider_valid :: "message list \<Rightarrow> bool" where
  "provider_valid ms \<longleftrightarrow>
     valid_pairs ms \<and> (ms \<noteq> [] \<longrightarrow> has_role (hd ms) ''user'') \<and> (\<forall>m\<in>set ms. known_role m)"

declare normalize_tool_pairs.simps(2) [simp del] valid_pairs.simps(2) [simp del]

section \<open>Lemmas on single batches\<close>

lemma jget_dget: "jget m k = dget m k"
  by (simp add: jget_def dget_def)

lemma jget_dput: "jget (dput k v m) j = (if j = k then Some v else jget m j)"
  by (simp add: jget_dget dget_dput)

lemma jget_dpop: "jget (dpop k m) j = (if j = k then None else jget m j)"
  by (simp add: jget_dget dget_dpop)

lemma dput_same: "dget d k = Some v \<Longrightarrow> dput k v d = d"
  by (induction d) (auto simp: dict_rec split: if_splits)

lemma has_role_unique: "has_role m r \<Longrightarrow> has_role m r' \<longleftrightarrow> r = r'"
  by (simp add: has_role_def)

lemma declared_calls_assistant: "declared_calls m \<noteq> [] \<Longrightarrow> has_role m ''assistant''"
  by (auto simp: declared_calls_def split: if_splits)

lemma declared_not_tool: "declared_calls m \<noteq> [] \<Longrightarrow> \<not> is_tool_msg m"
  using declared_calls_assistant [of m] by (auto simp: has_role_def)

lemma keep_calls_role [simp]: "has_role (keep_calls m calls) r = has_role m r"
  by (simp add: keep_calls_def has_role_def jget_dput jget_dpop)

lemma keep_calls_declared:
  "has_role m ''assistant'' \<Longrightarrow> declared_calls (keep_calls m calls) = map fst calls"
  by (simp add: declared_calls_def keep_calls_def jget_dput jget_dpop has_role_def)

lemma valid_calls_keys:
  "(c, i, n) \<in> set (valid_calls seen cs) \<Longrightarrow> call_key c = Some (i, n) \<and> i \<notin> set seen"
proof (induction cs arbitrary: seen)
  case (Cons x cs)
  show ?case
  proof (cases "call_key x")
    case None
    with Cons show ?thesis by simp
  next
    case (Some k)
    obtain j v where k: "k = (j, v)" by (cases k)
    have "j \<in> set seen \<Longrightarrow> (c, i, n) \<in> set (valid_calls seen cs)"
      and "j \<notin> set seen \<Longrightarrow> (c, i, n) = (x, j, v) \<or> (c, i, n) \<in> set (valid_calls (j # seen) cs)"
      using Cons.prems Some k by simp_all
    then show ?thesis using Cons.IH [of seen] Cons.IH [of "j # seen"] Some k by fastforce
  qed
qed simp

lemma valid_calls_distinct: "distinct (map (fst \<circ> snd) (valid_calls seen cs))"
proof (induction cs arbitrary: seen)
  case (Cons c cs)
  have fresh: "i \<notin> (fst \<circ> snd) ` set (valid_calls (i # seen) cs)" for i
    using valid_calls_keys by fastforce
  show ?case
  proof (cases "call_key c")
    case None
    with Cons.IH show ?thesis by simp
  next
    case (Some k)
    with Cons.IH fresh show ?thesis by (cases k) simp
  qed
qed simp

lemma valid_calls_key_list:
  "map (map_option fst \<circ> (call_key \<circ> fst)) (valid_calls seen cs) =
     map (Some \<circ> (fst \<circ> snd)) (valid_calls seen cs)"
  using valid_calls_keys [of _ _ _ seen cs] by fastforce

lemma valid_calls_all:
  assumes "\<forall>k\<in>set (map call_key cs). k \<noteq> None" and "distinct (map (map_option fst \<circ> call_key) cs)"
    and "\<forall>c\<in>set cs. \<forall>i\<in>set seen. map_option fst (call_key c) \<noteq> Some i"
  shows "map fst (valid_calls seen cs) = cs \<and>
     map (Some \<circ> (fst \<circ> snd)) (valid_calls seen cs) = map (map_option fst \<circ> call_key) cs"
  using assms
proof (induction cs arbitrary: seen)
  case (Cons c cs)
  then obtain i n where k: "call_key c = Some (i, n)" by auto
  have new: "i \<notin> set seen" using Cons.prems(3) k by auto
  have "Some i \<notin> (map_option fst \<circ> call_key) ` set cs" using Cons.prems(2) k by simp
  then have "\<forall>c\<in>set cs. map_option fst (call_key c) \<noteq> Some i" by (metis comp_apply imageI)
  then have "\<forall>c\<in>set cs. \<forall>j\<in>set (i # seen). map_option fst (call_key c) \<noteq> Some j"
    using Cons.prems(3) by simp
  moreover have "\<forall>k\<in>set (map call_key cs). k \<noteq> None"
    and "distinct (map (map_option fst \<circ> call_key) cs)"
    using Cons.prems by (simp_all add: comp_def)
  ultimately have "map fst (valid_calls (i # seen) cs) = cs \<and>
      map (Some \<circ> (fst \<circ> snd)) (valid_calls (i # seen) cs) = map (map_option fst \<circ> call_key) cs"
    by (rule Cons.IH [rotated 2, of "i # seen"]) 
  with k new show ?case by (simp add: comp_def)
qed simp

text \<open>A collected dictionary holds results under their own ids.\<close>

definition results_ok :: "(string, message) pydict \<Rightarrow> bool" where
  "results_ok d \<longleftrightarrow> (\<forall>i m. dget d i = Some m \<longrightarrow> is_tool_msg m \<and> result_id m = Some i)"

lemma collect_results_ok:
  "results_ok d \<Longrightarrow> \<forall>m\<in>set ms. is_tool_msg m \<Longrightarrow> results_ok (fst (collect_results ids ms d))"
proof (induction ms arbitrary: d)
  case (Cons m ms)
  have put: "results_ok (dput i m d)" if "result_id m = Some i" for i
    using that Cons.prems by (simp add: results_ok_def dget_dput)
  have rest: "results_ok (fst (collect_results ids ms d'))" if "results_ok d'" for d'
    using that Cons by simp
  show ?case
    using rest [OF Cons.prems(1)] rest [OF put]
    by (cases "result_id m") (simp_all add: case_prod_beta Let_def)
qed simp

lemma stub_result_ok [simp]: "is_tool_msg (stub_result i n)" "result_id (stub_result i n) = Some i"
  by (simp_all add: stub_result_def has_role_def result_id_def jget_def)

lemma batch_results_ok:
  assumes "results_ok d"
  shows "\<forall>r\<in>set (batch_results calls d). is_tool_msg r"
    and "map result_id (batch_results calls d) = map (Some \<circ> (fst \<circ> snd)) calls"
  using assms by (auto simp: batch_results_def results_ok_def split: option.splits)

lemma length_batch_results [simp]: "length (batch_results calls d) = length calls"
  by (simp add: batch_results_def)

lemma valid_pairs_batch:
  assumes "has_role m ''assistant''" "calls = valid_calls [] cs" "calls \<noteq> []" "results_ok d"
    and "valid_pairs out"
  shows "valid_pairs (keep_calls m calls # batch_results calls d @ out)"
proof -
  have keys: "map (map_option fst) (map call_key (map fst calls)) = map (Some \<circ> (fst \<circ> snd)) calls"
    using valid_calls_key_list [of "[]" cs] assms(2) by (simp only: map_map)
  have "distinct (map (Some \<circ> (fst \<circ> snd)) calls)"
    using valid_calls_distinct [of "[]" cs] assms(2) by (simp add: distinct_map inj_on_def)
  moreover have "\<forall>k\<in>set (map call_key (map fst calls)). k \<noteq> None"
    using valid_calls_keys assms(2) by fastforce
  moreover have "\<not> is_tool_msg m" using assms(1) by (auto simp: has_role_def)
  ultimately show ?thesis
    using assms(3,5) batch_results_ok [OF assms(4), of calls]
    by (simp only: valid_pairs.simps(2) keep_calls_declared [OF assms(1)] Let_def keys
      keep_calls_role length_map length_batch_results take_append drop_append) simp
qed

lemma valid_pairs_Cons_plain:
  "\<not> is_tool_msg m \<Longrightarrow> declared_calls m = [] \<Longrightarrow> valid_pairs (m # ms) = valid_pairs ms"
  by (simp add: valid_pairs.simps(2))

section \<open>Normalisation reaches the protocol and keeps what obeys it\<close>

lemma transcript_induct [case_names Nil Cons]:
  assumes "P []" and "\<And>m ms. (\<And>r. length r \<le> length ms \<Longrightarrow> P r) \<Longrightarrow> P (m # ms)"
  shows "P ms"
proof (induction ms rule: length_induct)
  case (1 ms)
  with assms show ?case by (cases ms) (simp_all add: less_Suc_eq_le)
qed

lemmas normalize_unfold = normalize_tool_pairs.simps(2) [unfolded case_prod_beta Let_def]

lemma normalize_pairs_valid: "valid_pairs (fst (normalize_tool_pairs ms))"
proof (induction ms rule: transcript_induct)
  case (Cons m ms)
  define calls where "calls = valid_calls [] (declared_calls m)"
  define got where
    "got = fst (collect_results (map (fst \<circ> snd) calls) (takeWhile is_tool_msg ms) [])"
  have rest: "valid_pairs (fst (normalize_tool_pairs ms))"
    and after: "valid_pairs (fst (normalize_tool_pairs (dropWhile is_tool_msg ms)))"
    using Cons by (simp_all add: length_dropWhile_le)
  have "results_ok got"
    unfolding got_def
    by (rule collect_results_ok) (auto simp: results_ok_def dest: set_takeWhileD)
  then have batch: "calls \<noteq> [] \<Longrightarrow> has_role m ''assistant'' \<Longrightarrow>
      valid_pairs (keep_calls m calls # batch_results calls got @
        fst (normalize_tool_pairs (dropWhile is_tool_msg ms)))"
    using valid_pairs_batch [OF _ calls_def] after by blast
  have none: "declared_calls (keep_calls m []) = []" if "declared_calls m \<noteq> []"
    using keep_calls_declared [OF declared_calls_assistant [OF that], of "[]"] by simp
  show ?case
    using rest batch none declared_calls_assistant [of m]
    by (simp add: normalize_unfold calls_def [symmetric] got_def [symmetric] valid_pairs_Cons_plain)
qed simp

lemma takeWhile_tools: "\<forall>m\<in>set (takeWhile is_tool_msg ms). is_tool_msg m"
  by (rule ballI, drule set_takeWhileD, erule conjunct2)

lemma collect_results_tools:
  "\<forall>m\<in>set ms. is_tool_msg m \<Longrightarrow> \<forall>r\<in>set (batch_results calls (fst (collect_results ids ms []))). is_tool_msg r"
  by (rule batch_results_ok(1), rule collect_results_ok) (simp_all add: results_ok_def)

lemma normalize_pairs_known:
  "\<forall>m\<in>set ms. known_role m \<Longrightarrow> \<forall>m\<in>set (fst (normalize_tool_pairs ms)). known_role m"
proof (induction ms rule: transcript_induct)
  case (Cons m ms)
  have keep: "known_role (keep_calls m calls)" for calls
    using Cons.prems by (simp add: known_role_def)
  have "\<forall>r\<in>set (batch_results calls (fst (collect_results ids (takeWhile is_tool_msg ms) []))). known_role r"
    for calls ids
    using collect_results_tools [OF takeWhile_tools] by (simp add: known_role_def)
  moreover have "\<forall>m\<in>set (dropWhile is_tool_msg ms). known_role m"
    using Cons.prems by (auto dest: set_dropWhileD)
  then have "\<forall>m\<in>set (fst (normalize_tool_pairs (dropWhile is_tool_msg ms))). known_role m"
    by (rule Cons.IH [OF length_dropWhile_le])
  moreover have "\<forall>m\<in>set (fst (normalize_tool_pairs ms)). known_role m" "known_role m"
    using Cons.prems Cons.IH [of ms] by simp_all
  ultimately show ?case
    using keep by (simp add: normalize_unfold ball_Un)
qed simp

lemma normalize_pairs_hd:
  "\<not> is_tool_msg m \<Longrightarrow> fst (normalize_tool_pairs (m # ms)) \<noteq> [] \<and>
     has_role (hd (fst (normalize_tool_pairs (m # ms)))) r = has_role m r"
  by (simp add: normalize_unfold)

lemma collect_results_all:
  "map result_id rs = map Some js \<Longrightarrow> distinct (dkeys d @ js) \<Longrightarrow> set js \<subseteq> set ids \<Longrightarrow>
   collect_results ids rs d = (d @ zip js rs, 0)"
proof (induction rs arbitrary: js d)
  case (Cons r rs)
  then obtain j js' where js: "js = j # js'" by (cases js) auto
  have "collect_results ids rs (d @ [(j, r)]) = ((d @ [(j, r)]) @ zip js' rs, 0)"
    by (rule Cons.IH) (use Cons.prems js in \<open>auto simp: dkeys_def\<close>)
  moreover have "result_id r = Some j" "j \<in> set ids" "j \<notin> set (dkeys d)"
    using Cons.prems js by auto
  ultimately show ?case using js by (simp add: dput_fresh)
qed simp

lemma batch_results_zip:
  assumes "length rs = length calls" "distinct (map (fst \<circ> snd) calls)"
  shows "batch_results calls (zip (map (fst \<circ> snd) calls) rs) = rs"
proof (rule nth_equalityI)
  fix k assume k: "k < length (batch_results calls (zip (map (fst \<circ> snd) calls) rs))"
  have "map_of (zip (map (fst \<circ> snd) calls) rs) (map (fst \<circ> snd) calls ! k) = Some (rs ! k)"
    using assms k by (intro map_of_zip_nth) simp_all
  then show "batch_results calls (zip (map (fst \<circ> snd) calls) rs) ! k = rs ! k"
    using k by (simp add: batch_results_def dget_def case_prod_beta)
qed (simp add: assms)

lemma missing_results_zip:
  assumes "length rs = length calls"
  shows "missing_results calls (zip (map (fst \<circ> snd) calls) rs) = 0"
proof -
  have "dget (zip (map (fst \<circ> snd) calls) rs) (fst (snd k)) \<noteq> None" if "k \<in> set calls" for k
    unfolding dget_iff_keys using that assms by (simp add: dkeys_def)
  then show ?thesis by (simp add: missing_results_def filter_empty_conv case_prod_beta)
qed

lemma valid_pairs_hd: "valid_pairs (m # ms) \<Longrightarrow> \<not> is_tool_msg m"
  by (simp add: valid_pairs.simps(2))

lemma takeWhile_batch:
  assumes "\<forall>r\<in>set (take n ms). p r" and "drop n ms = [] \<or> \<not> p (hd (drop n ms))"
  shows "takeWhile p ms = take n ms \<and> dropWhile p ms = drop n ms"
proof -
  have "takeWhile p (take n ms @ drop n ms) = take n ms @ takeWhile p (drop n ms)"
    and "dropWhile p (take n ms @ drop n ms) = dropWhile p (drop n ms)"
    using assms(1) by (simp_all only: takeWhile_append2 dropWhile_append2 Ball_def)
  moreover have "takeWhile p (drop n ms) = []" "dropWhile p (drop n ms) = drop n ms"
    using assms(2) by (cases "drop n ms", auto)+
  ultimately show ?thesis by simp
qed

lemma declared_calls_get: "declared_calls m \<noteq> [] \<Longrightarrow> dget m ''tool_calls'' = Some (JArr (declared_calls m))"
  by (simp add: declared_calls_def jget_dget split: option.splits json.splits if_splits)

lemma normalize_pairs_id: "valid_pairs ms \<Longrightarrow> normalize_tool_pairs ms = (ms, no_counts)"
proof (induction ms rule: transcript_induct)
  case (Cons m ms)
  define cs where "cs = declared_calls m"
  define n where "n = length cs"
  show ?case
  proof (cases "cs = []")
    case True
    with Cons show ?thesis by (simp add: normalize_unfold cs_def valid_pairs.simps(2))
  next
    case False
    have v: "\<forall>k\<in>set (map call_key cs). k \<noteq> None" "distinct (map (map_option fst \<circ> call_key) cs)"
      "\<forall>r\<in>set (take n ms). is_tool_msg r"
      "map result_id (take n ms) = map (map_option fst \<circ> call_key) cs" "valid_pairs (drop n ms)"
      using Cons.prems False by (simp_all add: valid_pairs.simps(2) cs_def [symmetric] n_def Let_def)
    have all: "map fst (valid_calls [] cs) = cs"
      "map (Some \<circ> (fst \<circ> snd)) (valid_calls [] cs) = map (map_option fst \<circ> call_key) cs"
      using valid_calls_all [OF v(1,2), of "[]"] by simp_all
    have len: "length (take n ms) = length (valid_calls [] cs)"
      using arg_cong [OF v(4), of length] arg_cong [OF all(1), of length] by simp
    have "drop n ms = [] \<or> \<not> is_tool_msg (hd (drop n ms))"
      using v(5) valid_pairs_hd by (cases "drop n ms") auto
    then have tw: "takeWhile is_tool_msg ms = take n ms" "dropWhile is_tool_msg ms = drop n ms"
      using takeWhile_batch [OF v(3)] by simp_all
    have ids: "map result_id (take n ms) = map Some (map (fst \<circ> snd) (valid_calls [] cs))"
      using v(4) all(2) by simp
    have coll: "collect_results (map (fst \<circ> snd) (valid_calls [] cs)) (take n ms) [] =
        (zip (map (fst \<circ> snd) (valid_calls [] cs)) (take n ms), 0)"
      using collect_results_all [OF ids, of "[]"] valid_calls_distinct [of "[]" cs] by simp
    have keep: "keep_calls m (valid_calls [] cs) = m"
      using all(1) False declared_calls_get [of m] by (auto simp: keep_calls_def cs_def intro: dput_same)
    have rest: "normalize_tool_pairs (drop n ms) = (drop n ms, no_counts)"
      using Cons.IH [of "drop n ms"] v(5) by simp
    have ne: "valid_calls [] cs \<noteq> []" using all(1) False by (metis list.map_disc_iff)
    have "length cs - length (valid_calls [] cs) = 0"
      using arg_cong [OF all(1), of length] by simp
    then show ?thesis
      using False ne batch_results_zip [OF len valid_calls_distinct] missing_results_zip [OF len]
        declared_not_tool [of m]
      by (simp add: normalize_unfold cs_def [symmetric] tw coll keep rest add_counts_def no_counts_def)
  qed
qed simp

lemma takeWhile_none: "(ms \<noteq> [] \<longrightarrow> \<not> p (hd ms)) \<Longrightarrow> takeWhile p ms = [] \<and> dropWhile p ms = ms"
  by (cases ms) auto

lemma normalize_provider_valid: "provider_valid (norm_messages (normalize_transcript ms))"
proof -
  define canon where "canon = filter (\<lambda>m. \<not> has_role m ''system'' \<and> known_role m) ms"
  define body where "body = dropWhile leading_fragment canon"
  have known: "\<forall>m\<in>set body. known_role m"
    by (auto simp: body_def canon_def dest: set_dropWhileD)
  have hd: "has_role (hd (fst (normalize_tool_pairs body))) ''user''" if ne: "body \<noteq> []"
  proof -
    obtain m rest where b: "body = m # rest" using ne by (cases body) auto
    then have "\<not> leading_fragment m" "known_role m"
      using known hd_dropWhile [of leading_fragment canon] by (auto simp: body_def)
    then have "has_role m ''user''" "\<not> is_tool_msg m" by (auto simp: leading_fragment_def known_role_def)
    then show ?thesis using normalize_pairs_hd [of m rest "''user''"] b by simp
  qed
  have "norm_messages (normalize_transcript ms) = fst (normalize_tool_pairs body)"
    by (simp add: normalize_transcript_def Let_def body_def canon_def split: prod.split)
  moreover have "body = [] \<Longrightarrow> fst (normalize_tool_pairs body) = []" by simp
  ultimately show ?thesis
    using normalize_pairs_valid [of body] normalize_pairs_known [OF known] hd
    by (cases "body = []") (simp_all add: provider_valid_def)
qed

lemma normalize_provider_id:
  assumes "provider_valid ms"
  shows "norm_messages (normalize_transcript ms) = ms \<and> \<not> norm_changed (normalize_transcript ms)"
proof -
  have known: "\<forall>m\<in>set ms. known_role m \<and> \<not> has_role m ''system''"
    using assms by (auto simp: provider_valid_def known_role_def has_role_def)
  then have f: "filter (\<lambda>m. \<not> has_role m ''system'' \<and> known_role m) ms = ms"
    "filter (\<lambda>m. has_role m ''system'') ms = []"
    "filter (\<lambda>m. \<not> has_role m ''system'' \<and> \<not> known_role m) ms = []"
    by (simp_all add: filter_id_conv filter_empty_conv)
  have "ms \<noteq> [] \<longrightarrow> \<not> leading_fragment (hd ms)"
    using assms by (auto simp: provider_valid_def leading_fragment_def has_role_def)
  from takeWhile_none [of ms leading_fragment, OF this] have "takeWhile leading_fragment ms = []" "dropWhile leading_fragment ms = ms"
    by simp_all
  moreover have "normalize_tool_pairs ms = (ms, no_counts)"
    using assms normalize_pairs_id by (simp add: provider_valid_def)
  ultimately show ?thesis
    by (simp add: normalize_transcript_def f norm_changed_def no_counts_def)
qed

section \<open>ContextBuilder\<close>

record llm_tool_call =
  tc_id :: string
  tc_name :: string
  tc_arguments :: json
  tc_metadata :: "json option"

record context_builder =
  ctx_system :: string
  ctx_messages :: "message list"

definition user_msg :: "string \<Rightarrow> message" where
  "user_msg content = [(''role'', JStr ''user''), (''content'', JStr content)]"

definition assistant_msg :: "string \<Rightarrow> message" where
  "assistant_msg content = [(''role'', JStr ''assistant''), (''content'', JStr content)]"

definition call_dict :: "(json \<Rightarrow> string) \<Rightarrow> llm_tool_call \<Rightarrow> json" where
  "call_dict dumps tc =
     JObj ([(''id'', JStr (tc_id tc)), (''type'', JStr ''function''),
            (''function'', JObj [(''name'', JStr (tc_name tc)),
               (''arguments'', JStr (dumps (tc_arguments tc)))])] @
           (case tc_metadata tc of None \<Rightarrow> [] | Some md \<Rightarrow> [(''_provider_metadata'', md)]))"

definition tool_calls_msg :: "(json \<Rightarrow> string) \<Rightarrow> llm_tool_call list \<Rightarrow> string option \<Rightarrow> message" where
  "tool_calls_msg dumps calls content =
     [(''role'', JStr ''assistant''),
      (''content'', JStr (case content of None \<Rightarrow> [] | Some c \<Rightarrow> c)),
      (''tool_calls'', JArr (map (call_dict dumps) calls))]"

definition tool_result_msg :: "string \<Rightarrow> string \<Rightarrow> string \<Rightarrow> message" where
  "tool_result_msg call_id name result =
     [(''role'', JStr ''tool''), (''tool_call_id'', JStr call_id), (''name'', JStr name),
      (''content'', JStr result)]"

definition push_message :: "message \<Rightarrow> context_builder \<Rightarrow> context_builder" where
  "push_message m c = c\<lparr>ctx_messages := ctx_messages c @ [m]\<rparr>"

definition add_user_message :: "string \<Rightarrow> context_builder \<Rightarrow> context_builder" where
  "add_user_message content = push_message (user_msg content)"

definition add_assistant_message :: "string \<Rightarrow> context_builder \<Rightarrow> context_builder" where
  "add_assistant_message content = push_message (assistant_msg content)"

definition add_tool_calls ::
    "(json \<Rightarrow> string) \<Rightarrow> llm_tool_call list \<Rightarrow> string option \<Rightarrow> context_builder \<Rightarrow> context_builder" where
  "add_tool_calls dumps calls content = push_message (tool_calls_msg dumps calls content)"

definition add_tool_result :: "string \<Rightarrow> string \<Rightarrow> string \<Rightarrow> context_builder \<Rightarrow> context_builder" where
  "add_tool_result call_id name result = push_message (tool_result_msg call_id name result)"

definition message_count :: "context_builder \<Rightarrow> nat" where
  "message_count c = length (ctx_messages c)"

subsection \<open>Pruning\<close>

definition PLACEHOLDER :: string where
  "PLACEHOLDER = ''[Old tool output cleared to save context space]''"

definition text_content :: "message \<Rightarrow> string option" where
  "text_content m =
     (case jget m ''content'' of None \<Rightarrow> Some [] | Some (JStr s) \<Rightarrow> Some s | Some _ \<Rightarrow> None)"

definition tool_indices :: "message list \<Rightarrow> nat list" where
  "tool_indices ms = filter (\<lambda>i. is_tool_msg (ms ! i)) [0..<length ms]"

definition protected_indices :: "int \<Rightarrow> message list \<Rightarrow> nat list" where
  "protected_indices protect_tail ms =
     (let idx = tool_indices ms
      in if protect_tail > 0 then drop (length idx - nat protect_tail) idx else [])"

definition prunable :: "int \<Rightarrow> int \<Rightarrow> message list \<Rightarrow> nat \<Rightarrow> bool" where
  "prunable protect_tail min_length ms i \<longleftrightarrow>
     i \<in> set (tool_indices ms) \<and> i \<notin> set (protected_indices protect_tail ms) \<and>
     (case text_content (ms ! i) of Some s \<Rightarrow> int (length s) > min_length | None \<Rightarrow> False)"

definition prune_messages :: "int \<Rightarrow> int \<Rightarrow> message list \<Rightarrow> message list \<times> nat" where
  "prune_messages protect_tail min_length ms =
     (if int (length ms) \<le> protect_tail + 2 \<or> int (length (tool_indices ms)) \<le> protect_tail
      then (ms, 0)
      else
        (map (\<lambda>i. if prunable protect_tail min_length ms i
                  then dput ''content'' (JStr PLACEHOLDER) (ms ! i) else ms ! i) [0..<length ms],
         length (filter (prunable protect_tail min_length ms) [0..<length ms])))"

definition prune_old_tool_results :: "int \<Rightarrow> int \<Rightarrow> context_builder \<Rightarrow> context_builder \<times> nat" where
  "prune_old_tool_results protect_tail min_length c =
     (case prune_messages protect_tail min_length (ctx_messages c) of
        (ms, n) \<Rightarrow> (c\<lparr>ctx_messages := ms\<rparr>, n))"

subsection \<open>Restoring a stored history\<close>

text \<open>\<open>None\<close>: the code raises, because a value has no \<open>get\<close> or cannot be iterated.\<close>

definition str_field :: "(json \<Rightarrow> string) \<Rightarrow> (string \<times> json) list \<Rightarrow> string \<Rightarrow> string \<Rightarrow> string" where
  "str_field str_of d k dflt = (case jget d k of None \<Rightarrow> dflt | Some v \<Rightarrow> py_str str_of v)"

definition iterate :: "json \<Rightarrow> json list option" where
  "iterate j = (case j of JArr xs \<Rightarrow> Some xs | JObj kvs \<Rightarrow> Some (map (JStr \<circ> fst) kvs)
     | JStr s \<Rightarrow> Some (map (\<lambda>c. JStr [c]) s) | _ \<Rightarrow> None)"

definition dict_of :: "json \<Rightarrow> (string \<times> json) list option" where
  "dict_of j = (case j of JObj kvs \<Rightarrow> Some kvs | _ \<Rightarrow> None)"

fun all_some :: "('a \<Rightarrow> 'b option) \<Rightarrow> 'a list \<Rightarrow> 'b list option" where
  "all_some f [] = Some []"
| "all_some f (x # xs) =
     (case f x of None \<Rightarrow> None | Some y \<Rightarrow> map_option ((#) y) (all_some f xs))"

text \<open>
  \<open>dict(raw)\<close> of a value that is not a string: \<open>Inl True\<close> for a \<open>TypeError\<close>, which the code turns
  into no arguments, \<open>Inl False\<close> for an exception it does not catch.
\<close>

definition pair_of :: "json \<Rightarrow> bool + (json \<times> json)" where
  "pair_of j =
     (case iterate j of
        Some [k, v] \<Rightarrow> (case k of JArr xs \<Rightarrow> Inl True | JObj kvs \<Rightarrow> Inl True | _ \<Rightarrow> Inr (k, v))
      | Some _ \<Rightarrow> Inl False
      | None \<Rightarrow> Inl True)"

fun dict_from_pairs :: "json list \<Rightarrow> (json, json) pydict \<Rightarrow> bool + (json, json) pydict" where
  "dict_from_pairs [] d = Inr d"
| "dict_from_pairs (x # xs) d =
     (case pair_of x of Inl e \<Rightarrow> Inl e | Inr (k, v) \<Rightarrow> dict_from_pairs xs (dput k v d))"

definition string_keyed :: "json \<times> json \<Rightarrow> (string \<times> json) option" where
  "string_keyed kv = (case fst kv of JStr k \<Rightarrow> Some (k, snd kv) | _ \<Rightarrow> None)"

text \<open>The decoded arguments; \<open>ToolCall\<close> accepts only a dictionary with string keys.\<close>

definition decode_arguments :: "(string \<Rightarrow> json option) \<Rightarrow> json \<Rightarrow> json option" where
  "decode_arguments loads raw_args =
     (case raw_args of
        JStr s \<Rightarrow> (case loads s of None \<Rightarrow> Some (JObj []) | Some (JObj d) \<Rightarrow> Some (JObj d) | Some _ \<Rightarrow> None)
      | JObj d \<Rightarrow> Some (JObj d)
      | JArr xs \<Rightarrow>
          (case dict_from_pairs xs [] of
             Inl True \<Rightarrow> Some (JObj [])
           | Inl False \<Rightarrow> None
           | Inr d \<Rightarrow> map_option JObj (all_some string_keyed d))
      | _ \<Rightarrow> Some (JObj []))"

definition tool_call_from_dict ::
    "(json \<Rightarrow> string) \<Rightarrow> (string \<Rightarrow> json option) \<Rightarrow> json \<Rightarrow> llm_tool_call option" where
  "tool_call_from_dict str_of loads j =
     Option.bind (dict_of j) (\<lambda>call.
       let fn = (case jget call ''function'' of Some (JObj f) \<Rightarrow> f | _ \<Rightarrow> []);
           raw_args = (case jget fn ''arguments'' of None \<Rightarrow> JStr ''{}'' | Some a \<Rightarrow> a)
       in map_option (\<lambda>args.
            \<lparr>tc_id = str_field str_of call ''id'' [], tc_name = str_field str_of fn ''name'' [],
             tc_arguments = args,
             tc_metadata = (case jget call ''_provider_metadata'' of
                              Some (JObj md) \<Rightarrow> Some (JObj md) | _ \<Rightarrow> None)\<rparr>) (decode_arguments loads raw_args))"

definition restore_message ::
    "(json \<Rightarrow> string) \<Rightarrow> (json \<Rightarrow> string) \<Rightarrow> (string \<Rightarrow> json option) \<Rightarrow> message \<Rightarrow> message list option" where
  "restore_message dumps str_of loads item =
     (let role = str_field str_of item ''role'' ''user'';
          content = str_field str_of item ''content'' []
      in if role = ''user'' then Some [user_msg content]
         else if role = ''assistant'' then
           (case jget item ''tool_calls'' of
              Some calls \<Rightarrow>
                if truthy calls then
                  map_option (\<lambda>tcs. [tool_calls_msg dumps tcs (Some content)])
                    (Option.bind (iterate calls) (all_some (tool_call_from_dict str_of loads)))
                else Some [assistant_msg content]
            | None \<Rightarrow> Some [assistant_msg content])
         else if role = ''tool'' then
           Some [tool_result_msg (str_field str_of item ''tool_call_id'' [])
                   (str_field str_of item ''name'' []) content]
         else Some [])"

definition few_shot_messages :: "(json \<Rightarrow> string) \<Rightarrow> (string \<times> json) list \<Rightarrow> message list option" where
  "few_shot_messages str_of shot =
     (let u = str_field str_of shot ''user'' [];
          users = (if u \<noteq> [] then [user_msg u] else [])
      in case jget shot ''assistant'' of
           Some (JObj a) \<Rightarrow>
             (case jget a ''content'' of
                Some c \<Rightarrow> Some (users @ [assistant_msg (py_str str_of c)])
              | None \<Rightarrow>
                  (case jget a ''tool_calls'' of
                     None \<Rightarrow> Some users
                   | Some raw \<Rightarrow>
                       map_option (\<lambda>ds. users @ [assistant_msg (''[Tool call: '' @
                          join '', '' (map (\<lambda>d. str_field str_of d ''name'' ''?'' @ ''('' @
                             (case jget d ''arguments'' of None \<Rightarrow> ''{}'' | Some v \<Rightarrow> py_str str_of v) @ '')'') ds)
                          @ '']'')])
                        (Option.bind (iterate raw) (all_some dict_of))))
         | _ \<Rightarrow> Some users)"

definition DEFAULT_SYSTEM_PROMPT :: string where
  "DEFAULT_SYSTEM_PROMPT = ''You are CorpClaw Lite, a helpful assistant. Use the available tools to help '' @
     ''the user. If a tool returns an error, try to fix it.''"

definition build_from_full_history ::
    "(json \<Rightarrow> string) \<Rightarrow> (json \<Rightarrow> string) \<Rightarrow> (string \<Rightarrow> json option) \<Rightarrow> string \<Rightarrow> message list \<Rightarrow> string option \<Rightarrow>
     (string \<times> json) list list \<Rightarrow> context_builder option" where
  "build_from_full_history dumps str_of loads msg full_history system_prompt_override few_shots =
     (let system = (case system_prompt_override of Some s \<Rightarrow> s | None \<Rightarrow> DEFAULT_SYSTEM_PROMPT);
          history = norm_messages (normalize_transcript full_history)
      in case (all_some (few_shot_messages str_of) few_shots,
               all_some (restore_message dumps str_of loads) history) of
           (Some shots, Some restored) \<Rightarrow>
             Some \<lparr>ctx_system = system, ctx_messages = concat shots @ concat restored @ [user_msg msg]\<rparr>
         | _ \<Rightarrow> None)"

text \<open>\<open>build_initial\<close> keeps only the texts of the user and of the assistant.\<close>

definition plain_message :: "(json \<Rightarrow> string) \<Rightarrow> message \<Rightarrow> message list" where
  "plain_message str_of item =
     (let content = (case jget item ''content'' of None \<Rightarrow> [] | Some v \<Rightarrow> py_str str_of v)
      in if has_role item ''user'' then [user_msg content]
         else if has_role item ''assistant'' then [assistant_msg content] else [])"

definition build_initial ::
    "(json \<Rightarrow> string) \<Rightarrow> string \<Rightarrow> message list \<Rightarrow> string option \<Rightarrow> (string \<times> json) list list \<Rightarrow>
     context_builder option" where
  "build_initial str_of msg history system_prompt_override few_shots =
     (let system = (case system_prompt_override of Some s \<Rightarrow> s | None \<Rightarrow> DEFAULT_SYSTEM_PROMPT);
          canonical = norm_messages (normalize_transcript history)
      in if \<exists>m\<in>set canonical. jget m ''content'' = None then None
         else map_option (\<lambda>shots. \<lparr>ctx_system = system,
                ctx_messages = concat shots @ concat (map (plain_message str_of) canonical) @ [user_msg msg]\<rparr>)
              (all_some (few_shot_messages str_of) few_shots))"

section \<open>Lemmas on transcripts\<close>

lemma valid_pairs_append: "valid_pairs a \<Longrightarrow> valid_pairs b \<Longrightarrow> valid_pairs (a @ b)"
proof (induction a rule: transcript_induct)
  case (Cons m ms)
  define n where "n = length (declared_calls m)"
  have n: "n \<le> length ms"
  proof (cases "declared_calls m = []")
    case False
    then have "map result_id (take n ms) = map (map_option fst) (map call_key (declared_calls m))"
      using Cons.prems(1) by (simp add: valid_pairs.simps(2) Let_def n_def)
    from arg_cong [OF this, of length] show ?thesis by (simp add: n_def)
  qed (simp add: n_def)
  have IH: "valid_pairs ms \<Longrightarrow> valid_pairs (ms @ b)" "valid_pairs (drop n ms) \<Longrightarrow> valid_pairs (drop n ms @ b)"
    using Cons.IH [of ms] Cons.IH [of "drop n ms"] Cons.prems(2) by simp_all
  show ?case
    using Cons.prems(1) IH n by (simp add: valid_pairs.simps(2) Let_def n_def split: if_splits)
qed simp

text \<open>What the protocol sees of a message.\<close>

definition skeleton :: "message \<Rightarrow> bool \<times> string option \<times> (string \<times> string) option list" where
  "skeleton m = (is_tool_msg m, (if is_tool_msg m then result_id m else None), map call_key (declared_calls m))"

lemma skeleton_tools:
  "map skeleton xs = map skeleton ys \<Longrightarrow> \<forall>r\<in>set xs. is_tool_msg r \<Longrightarrow>
   (\<forall>r\<in>set ys. is_tool_msg r) \<and> map result_id ys = map result_id xs"
proof (induction xs arbitrary: ys)
  case (Cons x xs)
  then obtain y ys' where ys: "ys = y # ys'" by (cases ys) auto
  then have sk: "skeleton x = skeleton y" and tail: "map skeleton xs = map skeleton ys'"
    using Cons.prems(1) by simp_all
  have "(\<forall>r\<in>set ys'. is_tool_msg r) \<and> map result_id ys' = map result_id xs"
    by (rule Cons.IH [OF tail]) (use Cons.prems(2) in simp)
  moreover have "is_tool_msg y" "result_id y = result_id x"
    using sk Cons.prems(2) by (simp_all add: skeleton_def)
  ultimately show ?case using ys by simp
qed simp

lemma valid_pairs_skeleton: "map skeleton a = map skeleton b \<Longrightarrow> valid_pairs a \<Longrightarrow> valid_pairs b"
proof (induction a arbitrary: b rule: transcript_induct)
  case (Cons m ms)
  obtain m' ms' where b: "b = m' # ms'" using Cons.prems(1) by (cases b) auto
  have sk: "skeleton m = skeleton m'" "map skeleton ms = map skeleton ms'" using Cons.prems(1) b by simp_all
  define n where "n = length (declared_calls m)"
  have same: "is_tool_msg m = is_tool_msg m'" "map call_key (declared_calls m) = map call_key (declared_calls m')"
    using sk(1) by (simp_all add: skeleton_def)
  have n': "length (declared_calls m') = n" using arg_cong [OF same(2), of length] by (simp add: n_def)
  have "map skeleton (take k ms) = map skeleton (take k ms')" "map skeleton (drop k ms) = map skeleton (drop k ms')" for k
    using sk(2) by (metis take_map, metis drop_map)
  note parts = this
  note tools = skeleton_tools [OF parts(1) [of n]]
  show ?case
  proof (cases "declared_calls m = []")
    case True
    then have "declared_calls m' = []" using n' by (simp add: n_def)
    moreover have "valid_pairs ms'"
      using Cons.IH [OF _ sk(2)] Cons.prems(2) True by (simp add: valid_pairs.simps(2))
    ultimately show ?thesis using True Cons.prems(2) b same by (simp add: valid_pairs.simps(2))
  next
    case False
    then have "declared_calls m' \<noteq> []" using n' by (auto simp: n_def)
    moreover have "valid_pairs (drop n ms')"
      using Cons.IH [of "drop n ms" "drop n ms'"] parts(2) [of n] Cons.prems(2) False
      by (simp add: valid_pairs.simps(2) Let_def n_def)
    ultimately show ?thesis
      using False Cons.prems(2) b tools same n'
      by (simp add: valid_pairs.simps(2) Let_def n_def [symmetric] del: map_map)
  qed
qed simp

text \<open>A transcript may be cut before any message that is not a tool result.\<close>

lemma valid_pairs_cut:
  "valid_pairs (a @ b) \<Longrightarrow> (b \<noteq> [] \<longrightarrow> \<not> is_tool_msg (hd b)) \<Longrightarrow> valid_pairs a \<and> valid_pairs b"
proof (induction a rule: transcript_induct)
  case (Cons m ms)
  define n where "n = length (declared_calls m)"
  show ?case
  proof (cases "declared_calls m = []")
    case True
    then show ?thesis using Cons.IH [of ms] Cons.prems by (simp add: valid_pairs.simps(2))
  next
    case False
    have v: "\<forall>r\<in>set (take n (ms @ b)). is_tool_msg r" "valid_pairs (drop n (ms @ b))"
      "map result_id (take n (ms @ b)) = map (map_option fst) (map call_key (declared_calls m))"
      using Cons.prems(1) False by (simp_all add: valid_pairs.simps(2) Let_def n_def del: map_map)
    have le: "n \<le> length ms"
    proof (rule ccontr)
      assume "\<not> n \<le> length ms"
      moreover have "n \<le> length (ms @ b)" using arg_cong [OF v(3), of length] by (simp add: n_def)
      ultimately have "b \<noteq> []" "hd b \<in> set (take n (ms @ b))"
        by (cases b; auto simp: take_Cons')+
      then show False using v(1) Cons.prems(2) by blast
    qed
    then have "valid_pairs (drop n ms) \<and> valid_pairs b"
      using Cons.IH [of "drop n ms"] v(2) Cons.prems(2) by simp
    then show ?thesis
      using Cons.prems(1) False le by (simp add: valid_pairs.simps(2) Let_def n_def)
  qed
qed simp

lemma valid_pairs_tools_have_ids: "valid_pairs ms \<Longrightarrow> m \<in> set ms \<Longrightarrow> is_tool_msg m \<Longrightarrow> result_id m \<noteq> None"
proof (induction ms rule: transcript_induct)
  case (Cons x ms)
  define n where "n = length (declared_calls x)"
  show ?case
  proof (cases "declared_calls x = []")
    case True
    with Cons show ?thesis by (auto simp: valid_pairs.simps(2))
  next
    case False
    have v: "\<forall>k\<in>set (map call_key (declared_calls x)). k \<noteq> None" "valid_pairs (drop n ms)" "\<not> is_tool_msg x"
      "map result_id (take n ms) = map (map_option fst) (map call_key (declared_calls x))"
      using Cons.prems(1) False by (simp_all add: valid_pairs.simps(2) Let_def n_def del: map_map)
    have "set (map result_id (take n ms)) \<subseteq> map_option fst ` set (map call_key (declared_calls x))"
      unfolding v(4) by (simp only: set_map)
    then have "None \<notin> result_id ` set (take n ms)" using v(1) by fastforce
    moreover have "m \<in> set (take n ms) \<or> m \<in> set (drop n ms)"
      using Cons.prems(2,3) v(3) by (metis Un_iff append_take_drop_id set_ConsD set_append)
    ultimately show ?thesis using Cons.IH [of "drop n ms"] v(2) Cons.prems(3) by (metis imageI length_drop diff_le_self)
  qed
qed simp

lemma plain_skeleton [simp]:
  "skeleton (user_msg c) = (False, None, [])" "skeleton (assistant_msg c) = (False, None, [])"
  by (simp_all add: skeleton_def user_msg_def assistant_msg_def declared_calls_def has_role_def jget_def)

lemma plain_valid [simp]: "valid_pairs [user_msg c]" "valid_pairs [assistant_msg c]"
  by (simp_all add: valid_pairs.simps(2) user_msg_def assistant_msg_def declared_calls_def has_role_def
      jget_def)

lemma tool_result_skeleton: "skeleton (tool_result_msg i n r) = (True, Some i, [])"
  by (simp add: skeleton_def tool_result_msg_def declared_calls_def has_role_def result_id_def jget_def)

lemma call_key_dict: "call_key (call_dict dumps tc) =
    (if tc_id tc = [] \<or> tc_name tc = [] then None else Some (tc_id tc, tc_name tc))"
  by (simp add: call_key_def call_dict_def jget_def)

lemma tool_calls_skeleton:
  "skeleton (tool_calls_msg dumps tcs c) = (False, None, map (call_key \<circ> call_dict dumps) tcs)"
  by (simp add: skeleton_def tool_calls_msg_def declared_calls_def has_role_def jget_def)

text \<open>A batch with its results may be appended.\<close>

definition calls_ok :: "llm_tool_call list \<Rightarrow> bool" where
  "calls_ok tcs \<longleftrightarrow> (\<forall>tc\<in>set tcs. tc_id tc \<noteq> [] \<and> tc_name tc \<noteq> []) \<and> distinct (map tc_id tcs)"

lemma valid_pairs_new_batch:
  assumes "calls_ok tcs" "length results = length tcs"
  shows "valid_pairs (tool_calls_msg dumps tcs c #
    map2 (\<lambda>tc r. tool_result_msg (tc_id tc) (tc_name tc) r) tcs results)"
proof -
  let ?rs = "map2 (\<lambda>tc r. tool_result_msg (tc_id tc) (tc_name tc) r) tcs results"
  have decl: "declared_calls (tool_calls_msg dumps tcs c) = map (call_dict dumps) tcs"
    "\<not> is_tool_msg (tool_calls_msg dumps tcs c)"
    by (simp_all add: tool_calls_msg_def declared_calls_def has_role_def jget_def)
  have keys: "map call_key (map (call_dict dumps) tcs) = map (\<lambda>tc. Some (tc_id tc, tc_name tc)) tcs"
    using assms(1) by (simp add: call_key_dict calls_ok_def)
  have "map result_id ?rs = map (\<lambda>tc. Some (tc_id tc)) tcs" "\<forall>r\<in>set ?rs. is_tool_msg r"
    using assms(2) by (induction tcs results rule: list_induct2')
      (simp_all add: tool_result_msg_def result_id_def has_role_def jget_def)
  moreover have "distinct (map (map_option fst) (map (\<lambda>tc. Some (tc_id tc, tc_name tc)) tcs))"
    using assms(1) by (simp add: calls_ok_def distinct_map inj_on_def)
  ultimately show ?thesis
    unfolding valid_pairs.simps(2) decl(1) Let_def keys using assms(2) decl(2) by (simp add: comp_def)
qed

section \<open>Lemmas on pruning and restoring\<close>

lemma length_prune [simp]: "length (fst (prune_messages p l ms)) = length ms"
  by (simp add: prune_messages_def)

lemma prune_nth:
  "i < length ms \<Longrightarrow> fst (prune_messages p l ms) ! i = ms ! i \<or>
     (prunable p l ms i \<and> fst (prune_messages p l ms) ! i = dput ''content'' (JStr PLACEHOLDER) (ms ! i))"
  by (simp add: prune_messages_def)

lemma skeleton_content: "skeleton (dput ''content'' v m) = skeleton m"
  by (simp add: skeleton_def has_role_def result_id_def declared_calls_def jget_dput)

lemma prune_skeleton: "map skeleton (fst (prune_messages p l ms)) = map skeleton ms"
proof (rule nth_equalityI)
  fix i assume "i < length (map skeleton (fst (prune_messages p l ms)))"
  then show "map skeleton (fst (prune_messages p l ms)) ! i = map skeleton ms ! i"
    using prune_nth [of i ms p l] by (auto simp: skeleton_content)
qed simp

lemma set_tool_indices: "set (tool_indices ms) = {i. i < length ms \<and> is_tool_msg (ms ! i)}"
  by (auto simp: tool_indices_def)

lemma protected_count:
  "0 \<le> p \<Longrightarrow> length (protected_indices p ms) = min (nat p) (length (tool_indices ms))"
  by (simp add: protected_indices_def Let_def min_def)

lemma protected_later:
  assumes "i \<in> set (tool_indices ms)" "i \<notin> set (protected_indices p ms)" "j \<in> set (protected_indices p ms)"
  shows "i < j"
proof -
  define idx where "idx = tool_indices ms"
  have p: "protected_indices p ms = drop (length idx - nat p) idx"
    using assms(3) by (auto simp: protected_indices_def idx_def Let_def split: if_splits)
  have "sorted idx" "distinct idx"
    by (simp_all add: idx_def tool_indices_def sorted_wrt_filter)
  moreover have "idx = take (length idx - nat p) idx @ drop (length idx - nat p) idx" by simp
  moreover have "i \<in> set (take (length idx - nat p) idx)"
    using assms(1,2) unfolding p idx_def [symmetric] by (metis Un_iff append_take_drop_id set_append)
  ultimately have "i \<le> j" "i \<noteq> j"
    using assms(2,3) unfolding p by (metis sorted_append, blast)
  then show ?thesis by simp
qed

lemma all_some_map: "all_some f xs = Some ys \<Longrightarrow> map f xs = map Some ys"
  by (induction xs arbitrary: ys) (auto split: option.splits)

lemma call_key_SomeD:
  assumes "call_key j = Some (i, n)"
  shows "\<exists>call f. j = JObj call \<and> jget call ''id'' = Some (JStr i) \<and> i \<noteq> [] \<and>
    jget call ''function'' = Some (JObj f) \<and> jget f ''name'' = Some (JStr n) \<and> n \<noteq> []"
  using assms by (simp add: call_key_def split: json.splits option.splits if_splits)

lemma tool_call_from_dict_key:
  assumes tc: "tool_call_from_dict str_of loads j = Some tc" and key: "call_key j \<noteq> None"
  shows "call_key (call_dict dumps tc) = call_key j"
proof -
  obtain i n where k: "call_key j = Some (i, n)" using key by auto
  obtain call f where j: "j = JObj call" "jget call ''id'' = Some (JStr i)" "i \<noteq> []"
    "jget call ''function'' = Some (JObj f)" "jget f ''name'' = Some (JStr n)" "n \<noteq> []"
    using call_key_SomeD [OF k] by blast
  then have "tc_id tc = i" "tc_name tc = n"
    using tc by (auto simp: tool_call_from_dict_def dict_of_def str_field_def py_str_def Let_def)
  then show ?thesis using k j by (simp add: call_key_dict)
qed

lemma calls_from_dicts:
  assumes "Option.bind (iterate calls) (all_some (tool_call_from_dict str_of loads)) = Some tcs"
    and "truthy calls" "\<forall>k\<in>set (map call_key (case calls of JArr cs \<Rightarrow> cs | _ \<Rightarrow> [])). k \<noteq> None"
  shows "map (call_key \<circ> call_dict dumps) tcs = map call_key (case calls of JArr cs \<Rightarrow> cs | _ \<Rightarrow> [])"
proof -
  obtain xs where xs: "iterate calls = Some xs" "map (tool_call_from_dict str_of loads) xs = map Some tcs"
    using assms(1) by (auto simp: bind_eq_Some_conv dest: all_some_map)
  show ?thesis
  proof (cases "\<exists>cs. calls = JArr cs")
    case True
    then have c: "(case calls of JArr cs \<Rightarrow> cs | _ \<Rightarrow> []) = xs" using xs(1) by (auto simp: iterate_def)
    have "length xs = length tcs" using xs(2) by (metis length_map)
    then have "map (call_key \<circ> call_dict dumps) tcs = map call_key xs"
      using xs(2) assms(3) unfolding c
    proof (induction xs tcs rule: list_induct2)
      case (Cons x xs t ts)
      then show ?case using tool_call_from_dict_key [of str_of loads x t dumps] by simp
    qed simp
    with c show ?thesis by simp
  next
    case False
    then have "\<forall>x\<in>set xs. \<exists>s. x = JStr s" "xs \<noteq> []"
      using xs(1) assms(2) by (auto simp: iterate_def truthy_def split: json.splits)
    then obtain s ys where "xs = JStr s # ys" by (cases xs) auto
    then have "tool_call_from_dict str_of loads (JStr s) \<noteq> None" using xs(2) by (cases tcs) auto
    then show ?thesis by (simp add: tool_call_from_dict_def dict_of_def)
  qed
qed

lemma restore_skeleton:
  assumes "restore_message dumps str_of loads m = Some out" "known_role m"
    and "is_tool_msg m \<longrightarrow> result_id m \<noteq> None"
    and "\<forall>k\<in>set (map call_key (declared_calls m)). k \<noteq> None"
  shows "map skeleton out = [skeleton m]"
proof -
  consider "has_role m ''user''" | "has_role m ''assistant''" | "is_tool_msg m"
    using assms(2) by (auto simp: known_role_def)
  then show ?thesis
  proof cases
    case 1
    then show ?thesis
      using assms(1) by (auto simp: restore_message_def str_field_def py_str_def has_role_def skeleton_def
        declared_calls_def user_msg_def jget_def)
  next
    case 3
    then obtain i where "jget m ''tool_call_id'' = Some (JStr i)" "result_id m = Some i"
      using assms(3) by (auto simp: result_id_def split: option.splits json.splits)
    moreover from this 3 have "skeleton m = (True, Some i, [])"
      by (simp add: skeleton_def declared_calls_def has_role_def)
    ultimately show ?thesis
      using assms(1) 3 by (auto simp: restore_message_def str_field_def py_str_def has_role_def Let_def
        tool_result_skeleton)
  next
    case 2
    then have role: "str_field str_of m ''role'' ''user'' = ''assistant''"
      by (simp add: str_field_def has_role_def py_str_def)
    have decl: "declared_calls m = (case jget m ''tool_calls'' of
        Some calls \<Rightarrow> (case calls of JArr cs \<Rightarrow> cs | _ \<Rightarrow> []) | None \<Rightarrow> [])"
      using 2 by (simp add: declared_calls_def split: option.splits json.splits)
    have sk: "skeleton m = (False, None, map call_key (declared_calls m))"
      using 2 by (simp add: skeleton_def has_role_def)
    show ?thesis
    proof (cases "jget m ''tool_calls''")
      case None
      with assms(1) role decl sk show ?thesis by (auto simp: restore_message_def Let_def)
    next
      case (Some calls)
      show ?thesis
      proof (cases "truthy calls")
        case True
        then obtain tcs where tcs: "Option.bind (iterate calls) (all_some (tool_call_from_dict str_of loads)) = Some tcs"
          "out = [tool_calls_msg dumps tcs (Some (str_field str_of m ''content'' []))]"
          using assms(1) role Some by (auto simp: restore_message_def Let_def)
        with calls_from_dicts [OF tcs(1) True] assms(4) show ?thesis
          unfolding sk decl Some by (simp add: tool_calls_skeleton)
      next
        case False
        then have "declared_calls m = []"
          unfolding decl Some by (auto simp: truthy_def split: json.splits)
        with False assms(1) role Some sk show ?thesis by (auto simp: restore_message_def Let_def)
      qed
    qed
  qed
qed

lemma all_some_concat:
  assumes "all_some f xs = Some yss" "\<And>x ys. x \<in> set xs \<Longrightarrow> f x = Some ys \<Longrightarrow> map g ys = [g x]"
  shows "map g (concat yss) = map g xs"
  using assms
proof (induction xs arbitrary: yss)
  case (Cons x xs)
  from Cons.prems(1) obtain ys zss where "f x = Some ys" "all_some f xs = Some zss" "yss = ys # zss"
    by (auto split: option.splits)
  with Cons.IH [of zss] Cons.prems(2) show ?case by simp
qed simp

lemma declared_keys_known:
  "valid_pairs ms \<Longrightarrow> m \<in> set ms \<Longrightarrow> \<forall>k\<in>set (map call_key (declared_calls m)). k \<noteq> None"
proof (induction ms rule: transcript_induct)
  case (Cons x ms)
  show ?case
  proof (cases "declared_calls x = []")
    case True
    then have "valid_pairs ms" using Cons.prems(1) by (simp add: valid_pairs.simps(2))
    with True Cons.IH [of ms] Cons.prems(2) show ?thesis by auto
  next
    case False
    define n where "n = length (declared_calls x)"
    have v: "\<forall>k\<in>set (map call_key (declared_calls x)). k \<noteq> None" "valid_pairs (drop n ms)"
      "\<forall>r\<in>set (take n ms). is_tool_msg r"
      using Cons.prems(1) False by (simp_all add: valid_pairs.simps(2) Let_def n_def)
    consider "m = x" | "m \<in> set (take n ms)" | "m \<in> set (drop n ms)"
      using Cons.prems(2) by (metis Un_iff append_take_drop_id set_ConsD set_append)
    then show ?thesis
    proof cases
      case 2
      then have "is_tool_msg m" using v(3) by blast
      then show ?thesis by (simp add: declared_calls_def has_role_def)
    next
      case 3
      then show ?thesis using Cons.IH [of "drop n ms"] v(2) by simp
    qed (use v(1) in simp)
  qed
qed simp

lemma few_shot_valid: "few_shot_messages str_of shot = Some ms \<Longrightarrow> valid_pairs ms"
proof -
  assume s: "few_shot_messages str_of shot = Some ms"
  have plain: "\<forall>m\<in>set ms. skeleton m = (False, None, [])"
    using s by (auto simp: few_shot_messages_def Let_def split: option.splits json.splits if_splits)
  have "\<forall>m\<in>set ns. skeleton m = (False, None, []) \<Longrightarrow> valid_pairs ns" for ns
    by (induction ns) (auto simp: skeleton_def valid_pairs.simps(2))
  from this [OF plain] show ?thesis .
qed

lemma few_shots_valid: "all_some (few_shot_messages str_of) shots = Some mss \<Longrightarrow> valid_pairs (concat mss)"
proof (induction shots arbitrary: mss)
  case (Cons s shots)
  then obtain m rest where "few_shot_messages str_of s = Some m"
    "all_some (few_shot_messages str_of) shots = Some rest" "mss = m # rest"
    by (auto split: option.splits)
  with Cons.IH [of rest] show ?case using few_shot_valid valid_pairs_append by simp
qed simp

lemma restored_valid:
  assumes "provider_valid history" "all_some (restore_message dumps str_of loads) history = Some restored"
  shows "valid_pairs (concat restored)"
proof -
  have v: "valid_pairs history" "\<forall>m\<in>set history. known_role m"
    using assms(1) by (simp_all add: provider_valid_def)
  have "map skeleton (concat restored) = map skeleton history"
    using assms(2)
  proof (rule all_some_concat)
    fix m out assume m: "m \<in> set history" "restore_message dumps str_of loads m = Some out"
    show "map skeleton out = [skeleton m]"
      using restore_skeleton [OF m(2)] v valid_pairs_tools_have_ids [OF v(1) m(1)]
        declared_keys_known [OF v(1) m(1)] m(1) by blast
  qed
  then show ?thesis using valid_pairs_skeleton v(1) by metis
qed

lemma normalize_pairs_users:
  "filter (\<lambda>m. has_role m ''user'') (fst (normalize_tool_pairs ms)) = filter (\<lambda>m. has_role m ''user'') ms"
proof (induction ms rule: transcript_induct)
  case (Cons m ms)
  have none: "filter (\<lambda>m. has_role m ''user'') rs = []" if "\<forall>r\<in>set rs. is_tool_msg r" for rs
    using that by (auto simp: filter_empty_conv has_role_def)
  have results: "filter (\<lambda>m. has_role m ''user'')
      (batch_results calls (fst (collect_results ids (takeWhile is_tool_msg ms) []))) = []" for calls ids
    by (rule none [OF collect_results_tools [OF takeWhile_tools]])
  have "filter (\<lambda>m. has_role m ''user'') (takeWhile is_tool_msg ms @ dropWhile is_tool_msg ms) =
      filter (\<lambda>m. has_role m ''user'') (dropWhile is_tool_msg ms)"
    using none [OF takeWhile_tools] by (simp only: filter_append append_Nil)
  then have drop: "filter (\<lambda>m. has_role m ''user'') (dropWhile is_tool_msg ms) =
      filter (\<lambda>m. has_role m ''user'') ms"
    by simp
  have IH: "filter (\<lambda>m. has_role m ''user'') (fst (normalize_tool_pairs ms)) = filter (\<lambda>m. has_role m ''user'') ms"
    "filter (\<lambda>m. has_role m ''user'') (fst (normalize_tool_pairs (dropWhile is_tool_msg ms))) =
      filter (\<lambda>m. has_role m ''user'') ms"
    using Cons.IH [of ms] Cons.IH [of "dropWhile is_tool_msg ms"] drop by (simp_all add: length_dropWhile_le)
  have "declared_calls m \<noteq> [] \<Longrightarrow> \<not> has_role m ''user''" "is_tool_msg m \<Longrightarrow> \<not> has_role m ''user''"
    using declared_calls_assistant [of m] by (auto simp: has_role_def)
  then show ?case using IH results by (simp add: normalize_unfold)
qed simp

section \<open>Properties\<close>

text \<open>C6: normalisation is a projection onto the protocol. Whatever the stored messages are, the
  result obeys the protocol of the providers, no message of the user is lost, altered or reordered,
  and exactly the transcripts that obey the protocol already are left as they are.\<close>
lemma normalization_reaches_protocol:
  "provider_valid (norm_messages (normalize_transcript ms)) \<and>
   filter (\<lambda>m. has_role m ''user'') (norm_messages (normalize_transcript ms)) =
     filter (\<lambda>m. has_role m ''user'') ms \<and>
   (norm_messages (normalize_transcript ms) = ms \<longleftrightarrow> provider_valid ms)"
proof -
  define canon where "canon = filter (\<lambda>m. \<not> has_role m ''system'' \<and> known_role m) ms"
  have "filter (\<lambda>m. has_role m ''user'') (takeWhile leading_fragment canon) = []"
    by (auto simp: filter_empty_conv leading_fragment_def has_role_def dest!: set_takeWhileD)
  moreover have "filter (\<lambda>m. has_role m ''user'') canon =
      filter (\<lambda>m. has_role m ''user'') (takeWhile leading_fragment canon) @
      filter (\<lambda>m. has_role m ''user'') (dropWhile leading_fragment canon)"
    by (metis filter_append takeWhile_dropWhile_id)
  moreover have "filter (\<lambda>m. has_role m ''user'') canon = filter (\<lambda>m. has_role m ''user'') ms"
    unfolding canon_def filter_filter by (rule filter_cong) (auto simp: known_role_def has_role_def)
  ultimately have "filter (\<lambda>m. has_role m ''user'') (norm_messages (normalize_transcript ms)) =
      filter (\<lambda>m. has_role m ''user'') ms"
    by (simp add: normalize_transcript_def Let_def canon_def [symmetric] case_prod_beta normalize_pairs_users)
  then show ?thesis using normalize_provider_valid [of ms] normalize_provider_id [of ms] by metis
qed

lemma builder_roles [simp]:
  "\<not> has_role (user_msg c) ''system''" "\<not> has_role (assistant_msg c) ''system''"
  "\<not> has_role (tool_calls_msg dumps tcs oc) ''system''" "\<not> has_role (tool_result_msg i n r) ''system''"
  by (simp_all add: user_msg_def assistant_msg_def tool_calls_msg_def tool_result_msg_def has_role_def
      jget_def)

lemma all_some_ball:
  "all_some f xs = Some yss \<Longrightarrow> (\<And>x ys. x \<in> set xs \<Longrightarrow> f x = Some ys \<Longrightarrow> \<forall>y\<in>set ys. P y) \<Longrightarrow>
   \<forall>y\<in>set (concat yss). P y"
proof (induction xs arbitrary: yss)
  case (Cons x xs)
  from Cons.prems(1) obtain ys zss where "f x = Some ys" "all_some f xs = Some zss" "yss = ys # zss"
    by (auto split: option.splits)
  with Cons.IH [of zss] Cons.prems(2) show ?case by auto
qed simp

lemma restore_no_system:
  "restore_message dumps str_of loads m = Some out \<Longrightarrow> \<forall>x\<in>set out. \<not> has_role x ''system''"
  by (auto simp: restore_message_def Let_def split: if_splits option.splits)

lemma few_shot_no_system:
  "few_shot_messages str_of shot = Some out \<Longrightarrow> \<forall>x\<in>set out. \<not> has_role x ''system''"
  by (auto simp: few_shot_messages_def Let_def split: if_splits option.splits json.splits)

text \<open>a restored conversation can be sent. When the stored history and the examples can be read,
  the context built from them obeys the protocol (every declared call is answered before the next
  message), ends with the current message of the user, and contains no message of role system: what
  is stored never gains the authority of the system prompt.\<close>
lemma restored_context_valid:
  assumes "build_from_full_history dumps str_of loads msg history override shots = Some c"
  shows "valid_pairs (ctx_messages c) \<and> (\<exists>earlier. ctx_messages c = earlier @ [user_msg msg]) \<and>
    (\<forall>m\<in>set (ctx_messages c). \<not> has_role m ''system'') \<and>
    ctx_system c = (case override of Some s \<Rightarrow> s | None \<Rightarrow> DEFAULT_SYSTEM_PROMPT)"
proof -
  obtain mss restored where some: "all_some (few_shot_messages str_of) shots = Some mss"
    "all_some (restore_message dumps str_of loads) (norm_messages (normalize_transcript history)) = Some restored"
    and c: "ctx_messages c = (concat mss @ concat restored) @ [user_msg msg]"
      "ctx_system c = (case override of Some s \<Rightarrow> s | None \<Rightarrow> DEFAULT_SYSTEM_PROMPT)"
    using assms by (auto simp: build_from_full_history_def Let_def split: option.splits)
  have "valid_pairs ((concat mss @ concat restored) @ [user_msg msg])"
    using few_shots_valid [OF some(1)] restored_valid [OF normalize_provider_valid some(2)]
    by (intro valid_pairs_append) simp_all
  moreover have "\<forall>m\<in>set (concat mss). \<not> has_role m ''system''"
    by (rule all_some_ball [OF some(1)]) (rule few_shot_no_system)
  moreover have "\<forall>m\<in>set (concat restored). \<not> has_role m ''system''"
    by (rule all_some_ball [OF some(2)]) (rule restore_no_system)
  ultimately show ?thesis using c by auto
qed

definition sample_history :: "message list" where
  "sample_history =
     [[(''role'', JStr ''system''), (''content'', JStr ''obey'')],
      [(''role'', JStr ''user''), (''content'', JStr ''hi'')],
      [(''role'', JStr ''assistant''), (''content'', JNull),
       (''tool_calls'', JArr [JObj [(''id'', JStr ''a''),
          (''function'', JObj [(''name'', JStr ''f''), (''arguments'', JStr ''{}'')])], JNull])]]"

lemmas transcript_eval = normalize_transcript_def normalize_tool_pairs.simps has_role_def known_role_def
  leading_fragment_def jget_def declared_calls_def call_key_def keep_calls_def batch_results_def
  missing_results_def stub_result_def restore_message_def str_field_def py_str_def truthy_def iterate_def
  tool_call_from_dict_def dict_of_def decode_arguments_def dput_def

lemma sample_history_restored:
  "\<exists>c. build_from_full_history (\<lambda>j. ''{}'') (\<lambda>j. ''None'') (\<lambda>s. Some (JObj [])) ''go'' sample_history None [] = Some c"
  by (simp add: build_from_full_history_def sample_history_def transcript_eval)

lemma restored_context_valid_witness:
  "\<exists>c. build_from_full_history (\<lambda>j. ''{}'') (\<lambda>j. ''None'') (\<lambda>s. Some (JObj [])) ''go'' sample_history None [] =
      Some c \<and>
    valid_pairs (ctx_messages c) \<and> (\<exists>earlier. ctx_messages c = earlier @ [user_msg ''go'']) \<and>
    (\<forall>m\<in>set (ctx_messages c). \<not> has_role m ''system'') \<and> ctx_system c = DEFAULT_SYSTEM_PROMPT"
proof -
  obtain c where c: "build_from_full_history (\<lambda>j. ''{}'') (\<lambda>j. ''None'') (\<lambda>s. Some (JObj [])) ''go''
      sample_history None [] = Some c"
    using sample_history_restored by blast
  show ?thesis using restored_context_valid [OF c] c by (intro exI [of _ c]) simp
qed

text \<open>What the builder writes, with the dictionaries that the type of a tool call demands.\<close>

definition call_typed :: "llm_tool_call \<Rightarrow> bool" where
  "call_typed tc \<longleftrightarrow>
     (case tc_arguments tc of JObj d \<Rightarrow> True | _ \<Rightarrow> False) \<and>
     (case tc_metadata tc of None \<Rightarrow> True | Some (JObj md) \<Rightarrow> True | Some _ \<Rightarrow> False)"

datatype written =
    WUser string
  | WAssistant string
  | WCalls "llm_tool_call list" string
  | WResult string string string

fun written_msg :: "(json \<Rightarrow> string) \<Rightarrow> written \<Rightarrow> message" where
  "written_msg dumps (WUser c) = user_msg c"
| "written_msg dumps (WAssistant c) = assistant_msg c"
| "written_msg dumps (WCalls tcs c) = tool_calls_msg dumps tcs (Some c)"
| "written_msg dumps (WResult i n r) = tool_result_msg i n r"

definition call_readable :: "(json \<Rightarrow> string) \<Rightarrow> (string \<Rightarrow> json option) \<Rightarrow> llm_tool_call \<Rightarrow> bool" where
  "call_readable dumps loads tc \<longleftrightarrow>
     call_typed tc \<and> loads (dumps (tc_arguments tc)) = Some (tc_arguments tc)"

fun written_ok :: "(json \<Rightarrow> string) \<Rightarrow> (string \<Rightarrow> json option) \<Rightarrow> written \<Rightarrow> bool" where
  "written_ok dumps loads (WCalls tcs c) = (tcs \<noteq> [] \<and> (\<forall>tc\<in>set tcs. call_readable dumps loads tc))"
| "written_ok dumps loads w = True"

lemma call_dict_roundtrip:
  assumes r: "call_readable dumps loads tc"
  shows "tool_call_from_dict str_of loads (call_dict dumps tc) = Some tc"
proof -
  obtain d where "tc_arguments tc = JObj d"
    using r by (auto simp: call_readable_def call_typed_def split: json.splits)
  moreover have "tc_metadata tc = None \<or> (\<exists>md. tc_metadata tc = Some (JObj md))"
    using r by (auto simp: call_readable_def call_typed_def split: option.splits json.splits)
  ultimately show ?thesis
    using r by (auto simp: call_readable_def tool_call_from_dict_def dict_of_def call_dict_def jget_def str_field_def
      py_str_def decode_arguments_def Let_def intro!: llm_tool_call.equality)
qed

lemma call_dicts_roundtrip:
  assumes "\<forall>tc\<in>set tcs. call_readable dumps loads tc"
  shows "all_some (tool_call_from_dict str_of loads) (map (call_dict dumps) tcs) = Some tcs"
  using assms by (induction tcs) (simp_all add: call_dict_roundtrip)

lemma restore_written:
  assumes w: "written_ok dumps loads w"
  shows "restore_message dumps str_of loads (written_msg dumps w) = Some [written_msg dumps w]"
proof (cases w)
  case (WCalls tcs c)
  then have "truthy (JArr (map (call_dict dumps) tcs))" using w by (simp add: truthy_def)
  then show ?thesis
    using WCalls w by (simp add: restore_message_def tool_calls_msg_def jget_def str_field_def py_str_def
      iterate_def call_dicts_roundtrip)
qed (simp_all add: restore_message_def user_msg_def assistant_msg_def tool_result_msg_def jget_def
    str_field_def py_str_def)

lemma all_some_id: "(\<And>x. x \<in> set xs \<Longrightarrow> f x = Some [x]) \<Longrightarrow> all_some f xs = Some (map (\<lambda>x. [x]) xs)"
  by (induction xs) auto

text \<open>C8: storing and restoring a conversation loses nothing. A transcript written by the builder that
  obeys the protocol is restored message by message as it was, tool calls with their arguments and
  provider metadata included, when \<open>json.loads\<close> reads the arguments back as they
  were written.\<close>
lemma stored_history_roundtrip:
  assumes ws: "\<forall>w\<in>set ws. written_ok dumps loads w" and valid: "provider_valid (map (written_msg dumps) ws)"
  shows "build_from_full_history dumps str_of loads msg (map (written_msg dumps) ws) (Some system) [] =
    Some \<lparr>ctx_system = system, ctx_messages = map (written_msg dumps) ws @ [user_msg msg]\<rparr>"
proof -
  have "all_some (restore_message dumps str_of loads) (map (written_msg dumps) ws) =
      Some (map (\<lambda>m. [m]) (map (written_msg dumps) ws))"
    by (rule all_some_id) (use restore_written ws in auto)
  then show ?thesis
    using normalize_provider_id [OF valid]
    by (simp add: build_from_full_history_def Let_def comp_def)
qed


definition sample_written :: "written list" where
  "sample_written =
     [WUser ''hi'', WCalls [\<lparr>tc_id = ''a'', tc_name = ''f'', tc_arguments = JObj [], tc_metadata = None\<rparr>] [],
      WResult ''a'' ''f'' ''ok'', WAssistant ''done'']"

lemma stored_history_roundtrip_witness:
  "build_from_full_history (\<lambda>j. ''{}'') (\<lambda>j. ''None'') (\<lambda>s. Some (JObj [])) ''go''
     (map (written_msg (\<lambda>j. ''{}'')) sample_written) (Some ''sys'') [] =
   Some \<lparr>ctx_system = ''sys'',
     ctx_messages = map (written_msg (\<lambda>j. ''{}'')) sample_written @ [user_msg ''go'']\<rparr>"
  by (rule stored_history_roundtrip)
    (simp_all add: sample_written_def call_readable_def call_typed_def provider_valid_def valid_pairs.simps
      user_msg_def assistant_msg_def tool_calls_msg_def tool_result_msg_def declared_calls_def has_role_def
      jget_def known_role_def call_key_dict result_id_def)

lemma filter_pointwise:
  "length xs = length ys \<Longrightarrow> (\<And>i. i < length ys \<Longrightarrow> P (xs ! i) = P (ys ! i)) \<Longrightarrow>
   (\<And>i. i < length ys \<Longrightarrow> P (ys ! i) \<Longrightarrow> xs ! i = ys ! i) \<Longrightarrow> filter P xs = filter P ys"
proof (induction xs ys rule: list_induct2)
  case (Cons x xs y ys)
  have "filter P xs = filter P ys"
  proof (rule Cons.IH)
    fix i assume "i < length ys"
    then show "P (xs ! i) = P (ys ! i)" and "P (ys ! i) \<Longrightarrow> xs ! i = ys ! i"
      using Cons.prems(1) [of "Suc i"] Cons.prems(2) [of "Suc i"] by simp_all
  qed
  then show ?case using Cons.prems(1) [of 0] Cons.prems(2) [of 0] by auto
qed simp

text \<open>Pruning only blanks old results. It never changes whether the transcript obeys the protocol, keeps
  every message that is not a tool result, and keeps the last \<open>protect_tail\<close> results as they are.\<close>
lemma pruning_keeps_protocol:
  "valid_pairs (fst (prune_messages p l ms)) = valid_pairs ms \<and>
   filter (\<lambda>m. \<not> is_tool_msg m) (fst (prune_messages p l ms)) = filter (\<lambda>m. \<not> is_tool_msg m) ms \<and>
   map ((!) (fst (prune_messages p l ms))) (protected_indices p ms) = map ((!) ms) (protected_indices p ms) \<and>
   length (protected_indices p ms) = min (nat p) (length (tool_indices ms))"
proof -
  let ?q = "fst (prune_messages p l ms)"
  have plain: "?q ! i = ms ! i" if "i < length ms" "\<not> is_tool_msg (ms ! i) \<or> i \<in> set (protected_indices p ms)" for i
    using that prune_nth [of i ms p l] by (auto simp: prunable_def set_tool_indices)
  have role: "is_tool_msg (?q ! i) = is_tool_msg (ms ! i)" if "i < length ms" for i
    using that arg_cong [OF prune_skeleton [of p l ms], of "\<lambda>xs. xs ! i"] by (simp add: skeleton_def)
  have "filter (\<lambda>m. \<not> is_tool_msg m) ?q = filter (\<lambda>m. \<not> is_tool_msg m) ms"
    by (rule filter_pointwise) (simp_all add: role plain)
  moreover have "set (protected_indices p ms) \<subseteq> {i. i < length ms}"
    using set_tool_indices [of ms] by (auto simp: protected_indices_def Let_def dest: in_set_dropD)
  then have "map ((!) ?q) (protected_indices p ms) = map ((!) ms) (protected_indices p ms)"
    by (intro map_cong refl plain) auto
  moreover have "valid_pairs ?q = valid_pairs ms"
    using valid_pairs_skeleton [OF prune_skeleton] valid_pairs_skeleton [OF prune_skeleton [symmetric]] by blast
  ultimately show ?thesis by (simp add: protected_indices_def Let_def min_def)
qed

end
