(* ===== verification/ToolSurface.thy ===== *)
theory ToolSurface
  imports BudgetGuards ProgressGuards Transcript "HOL-Library.List_Lexorder" "HOL-Library.Char_ord"
    "HOL-Library.Product_Lexorder" "HOL-Library.Sublist"
begin

text \<open>
  \<open>agent/tool_surface.py\<close> and \<open>agent/adaptations/tool_surface.py\<close>: which tools a turn offers to the model
  (the phase of the task filters the schema), and the soft hint that ranks them. Text of the user is a list
  of code points; letters are compared without case on the Latin-1 and Cyrillic blocks. The doubles of the
  BM25 score are rationals, \<open>math.log\<close> is the parameter \<open>logf\<close>.
\<close>

section \<open>The phase of a task\<close>

datatype surface_phase = READING | ANALYZING | EXECUTING | MEMORY

definition is_word_cp :: "nat \<Rightarrow> bool" where
  "is_word_cp n \<longleftrightarrow>
     (if n < 256 then is_word (char_of n)
      else (1024 \<le> n \<and> n \<le> 1153) \<or> (1162 \<le> n \<and> n \<le> 1327))"

definition EXECUTING_WORDS :: "ustr list" where
  "EXECUTING_WORDS =
     [ascii ''write'',
      ascii ''edit'',
      ascii ''save'',
      ascii ''fill'',
      ascii ''create'',
      ascii ''modify'',
      ascii ''update'',
      ascii ''delete'',
      ascii ''run'',
      ascii ''execute'',
      ascii ''script'',
      [1079, 1072, 1087, 1086, 1083, 1085],
      [1089, 1086, 1093, 1088, 1072, 1085],
      [1080, 1079, 1084, 1077, 1085],
      [1089, 1086, 1079, 1076, 1072, 1081],
      [1089, 1086, 1079, 1076, 1072, 1090, 1100],
      [1091, 1076, 1072, 1083],
      [1079, 1072, 1087, 1091, 1089, 1082],
      [1074, 1099, 1087, 1086, 1083, 1085, 1080],
      [1085, 1072, 1087, 1080, 1096],
      [1087, 1088, 1072, 1074, 1082],
      [1085, 1086, 1088, 1084, 1072, 1083, 1080, 1079],
      ascii ''convert'',
      [1082, 1086, 1085, 1074, 1077, 1088, 1090]]"

text \<open>\<open>\b(write|...)\w*\b\<close>: a keyword at the beginning of a word. \<open>prev\<close> tells whether the code point before
  is one of a word.\<close>

fun search_executing :: "bool \<Rightarrow> ustr \<Rightarrow> bool" where
  "search_executing prev [] = False"
| "search_executing prev (c # s) =
     (\<not> prev \<and> (\<exists>w\<in>set EXECUTING_WORDS. starts_with (map lower_cp (c # s)) w) \<or>
      search_executing (is_word_cp c) s)"

definition executing_keyword :: "ustr \<Rightarrow> bool" where
  "executing_keyword s = search_executing False s"

definition ANALYZE_TOOLS :: "string list" where
  "ANALYZE_TOOLS =
     [''table_query'', ''excel_workbook'', ''excel_inspect'', ''pdf_reader'', ''chart_generate'', ''diff_text'']"

definition MUTATING_TOOLS :: "string list" where
  "MUTATING_TOOLS = [''write_file'', ''edit_file'', ''exec_script'', ''normalize_excel'', ''convert_format'']"

definition WRITE_TOOLS :: "string list" where
  "WRITE_TOOLS = MUTATING_TOOLS @ [''excel_workbook'', ''chart_generate'', ''normalize_excel'', ''convert_format'']"

definition MEMORY_TOOLS :: "string list" where
  "MEMORY_TOOLS = [''memory_store'', ''memory_recall'']"

definition READING_ALLOW :: "string list" where
  "READING_ALLOW =
     [''read_file'', ''list_files'', ''search_files'', ''excel_inspect'', ''read_image'', ''memory_recall'',
      ''dispatch_subagent'', ''web_fetch'', ''web_search'', ''send_file''] @ ANALYZE_TOOLS"

definition ANALYZING_ALLOW :: "string list" where
  "ANALYZING_ALLOW = READING_ALLOW @ [''memory_store'']"

definition EXECUTING_ALLOW :: "string list" where
  "EXECUTING_ALLOW = ANALYZING_ALLOW @ MUTATING_TOOLS @ WRITE_TOOLS"

definition MEMORY_ALLOW :: "string list" where
  "MEMORY_ALLOW =
     [''memory_store'', ''memory_recall'', ''read_file'', ''list_files'', ''search_files'', ''dispatch_subagent'']"

fun phase_allow :: "surface_phase \<Rightarrow> string list" where
  "phase_allow READING = READING_ALLOW"
| "phase_allow ANALYZING = ANALYZING_ALLOW"
| "phase_allow EXECUTING = EXECUTING_ALLOW"
| "phase_allow MEMORY = MEMORY_ALLOW"

definition known_tools :: "string list" where
  "known_tools = READING_ALLOW @ ANALYZING_ALLOW @ EXECUTING_ALLOW @ MEMORY_ALLOW"

definition detect_tool_surface_phase ::
    "ustr \<Rightarrow> string list \<Rightarrow> surface_phase option \<Rightarrow> bool \<Rightarrow> bool \<Rightarrow> string \<Rightarrow> surface_phase option" where
  "detect_tool_surface_phase user_message tools_used prev closing mandate_on profile =
     (let wrote = (\<exists>t\<in>set tools_used. t \<in> set WRITE_TOOLS) in
      if mandate_on \<or> profile \<in> {''none'', ''execution''} \<or> closing then None
      else if wrote \<or> prev = Some EXECUTING then Some EXECUTING
      else if executing_keyword user_message then Some EXECUTING
      else if \<exists>t\<in>set tools_used. t \<in> set ANALYZE_TOOLS then Some ANALYZING
      else if tools_used \<noteq> [] \<and> (\<forall>t\<in>set tools_used. t \<in> set MEMORY_TOOLS) then Some MEMORY
      else if (\<exists>t\<in>set tools_used. t \<in> set MEMORY_TOOLS) \<and>
              \<not> (\<exists>t\<in>set tools_used. t \<in> set (ANALYZE_TOOLS @ WRITE_TOOLS)) \<and>
              tools_used \<noteq> [] \<and> last tools_used \<in> set MEMORY_TOOLS
      then Some MEMORY
      else Some READING)"

section \<open>The filter\<close>

definition surface_tool_name :: "schema_entry \<Rightarrow> string" where
  "surface_tool_name entry =
     (let flat = (case jget entry ''name'' of Some (JStr n) \<Rightarrow> n | _ \<Rightarrow> [])
      in case jget entry ''function'' of
           Some (JObj fn) \<Rightarrow> (case jget fn ''name'' of Some (JStr n) \<Rightarrow> n | _ \<Rightarrow> flat)
         | _ \<Rightarrow> flat)"

definition apply_phase_filter ::
    "schema option \<Rightarrow> surface_phase option \<Rightarrow> string \<Rightarrow> bool \<Rightarrow> schema option" where
  "apply_phase_filter base_schema phase profile enabled =
     (case (base_schema, phase) of
        (Some base, Some ph) \<Rightarrow>
          if \<not> enabled \<or> profile \<notin> {''office'', ''main''} then Some base
          else Some [e \<leftarrow> base. surface_tool_name e = [] \<or>
                 profile = ''main'' \<and> surface_tool_name e = ''dispatch_subagent'' \<or>
                 surface_tool_name e \<notin> set known_tools \<or> surface_tool_name e \<in> set (phase_allow ph)]
      | _ \<Rightarrow> base_schema)"

record surface_settings =
  ts_enabled :: bool
  soft_hint_enabled :: bool
  soft_hint_top_k :: int
  hard_filter_profiles :: "string list"

definition resolve_profile :: "string \<Rightarrow> string" where
  "resolve_profile profile =
     (if profile \<in> {''main'', ''office'', ''execution'', ''none''} then profile else ''main'')"

text \<open>\<open>apply_tool_surface\<close> sets the schema and the phase of the run's state.\<close>

definition apply_tool_surface ::
    "surface_settings \<Rightarrow> string \<Rightarrow> ustr \<Rightarrow> string list \<Rightarrow> bool \<Rightarrow> mandate \<Rightarrow> schema option \<Rightarrow>
     schema option \<times> surface_phase option \<Rightarrow> schema option \<times> surface_phase option" where
  "apply_tool_surface cfg profile user_message tools_used closing m base st =
     (if \<not> ts_enabled cfg then (apply_schema_restrict m (fst st), snd st)
      else
        (let resolved = resolve_profile profile;
             hard = (resolved \<in> set (hard_filter_profiles cfg) \<and> \<not> mandate_enabled m);
             phase = detect_tool_surface_phase user_message tools_used (snd st) closing (mandate_enabled m) resolved
         in if hard \<and> phase \<noteq> None
            then (apply_schema_restrict m (apply_phase_filter base phase resolved True), phase)
            else (apply_schema_restrict m base, snd st)))"

section \<open>The soft hint\<close>

definition is_token_cp :: "nat \<Rightarrow> bool" where
  "is_token_cp n \<longleftrightarrow>
     (48 \<le> n \<and> n \<le> 57) \<or> (65 \<le> n \<and> n \<le> 90) \<or> n = 95 \<or> (97 \<le> n \<and> n \<le> 122) \<or>
     (1040 \<le> n \<and> n \<le> 1103) \<or> n = 1105 \<or> n = 1025"

text \<open>The maximal runs of token characters, of two characters at least; \<open>acc\<close> is the current run, reversed.\<close>

fun token_runs :: "ustr \<Rightarrow> ustr \<Rightarrow> ustr list" where
  "token_runs acc [] = (if length acc \<ge> 2 then [rev acc] else [])"
| "token_runs acc (c # s) =
     (if is_token_cp c then token_runs (c # acc) s
      else (if length acc \<ge> 2 then [rev acc] else []) @ token_runs [] s)"

definition tokenize :: "ustr \<Rightarrow> ustr list" where
  "tokenize s = token_runs [] (map lower_cp s)"

definition tool_document :: "schema_entry \<Rightarrow> (string \<times> ustr list) list" where
  "tool_document e =
     (let name = surface_tool_name e;
          desc = (case jget e ''function'' of
                    Some (JObj fn) \<Rightarrow> (case jget fn ''description'' of Some (JStr d) \<Rightarrow> d | _ \<Rightarrow> [])
                  | _ \<Rightarrow> [])
      in if name = [] then [] else [(name, tokenize (ascii (name @ '' '' @ desc)))])"

definition bm25_score ::
    "(rat \<Rightarrow> rat) \<Rightarrow> (string \<times> ustr list) list \<Rightarrow> ustr list \<Rightarrow> ustr list \<Rightarrow> rat" where
  "bm25_score logf docs q_tokens toks =
     (let n_docs = rat_of_nat (length docs);
          avgdl = rat_of_nat (sum_list (map (\<lambda>d. length (snd d)) docs)) / max n_docs 1;
          k1 = 9 / 10; b = 4 / 10; dl = rat_of_nat (length toks)
      in sum_list (map (\<lambda>qt.
           if qt \<notin> set toks then 0
           else
             (let n_qi = rat_of_nat (length (filter (\<lambda>d. qt \<in> set (snd d)) docs));
                  idf = logf (1 + (n_docs - n_qi + 1 / 2) / (n_qi + 1 / 2));
                  freq = rat_of_nat (count_list toks qt);
                  denom = freq + k1 * (1 - b + b * dl / max avgdl (1 / 1000000))
              in idf * (freq * (k1 + 1)) / max denom (1 / 1000000))) q_tokens))"

definition rank_tool_names :: "(rat \<Rightarrow> rat) \<Rightarrow> ustr \<Rightarrow> schema option \<Rightarrow> int \<Rightarrow> string list" where
  "rank_tool_names logf query schm top_k =
     (case schm of
        None \<Rightarrow> []
      | Some es \<Rightarrow>
          if es = [] \<or> top_k \<le> 0 then []
          else
            (let q_tokens = tokenize query; docs = concat (map tool_document es)
             in if q_tokens = [] then take (nat top_k) (filter (\<lambda>n. n \<noteq> []) (map surface_tool_name es))
                else map snd (take (nat top_k)
                       (sort_key (\<lambda>(s, n). (- s, n))
                         (map (\<lambda>(n, toks). (if toks = [] then 0 else bm25_score logf docs q_tokens toks, n)) docs)))))"

definition SOFT_HINT_MARKER :: string where
  "SOFT_HINT_MARKER = ''[Tool relevance]''"

definition has_marker :: "string \<Rightarrow> message \<Rightarrow> bool" where
  "has_marker marker m \<longleftrightarrow> (case jget m ''content'' of Some (JStr s) \<Rightarrow> contains s marker | _ \<Rightarrow> False)"

definition soft_hint :: "string list \<Rightarrow> string" where
  "soft_hint names = SOFT_HINT_MARKER @ '' Prefer if needed: '' @ join '', '' names @ ''. '' @
     ''Only call tools that appear in your tool list.''"

definition inject_soft_hint :: "message list \<Rightarrow> string list \<Rightarrow> bool \<Rightarrow> message list" where
  "inject_soft_hint ms ranked_names enabled =
     (if \<not> enabled then ms
      else
        (let cleaned = filter (\<lambda>m. \<not> has_marker SOFT_HINT_MARKER m) ms
         in if ranked_names = [] then cleaned else cleaned @ [user_msg (soft_hint ranked_names)]))"

definition inject_tool_soft_hint ::
    "(rat \<Rightarrow> rat) \<Rightarrow> surface_settings \<Rightarrow> string \<Rightarrow> ustr \<Rightarrow> schema option \<Rightarrow> message list \<Rightarrow> message list" where
  "inject_tool_soft_hint logf cfg profile user_message tools_schema ms =
     (if \<not> ts_enabled cfg \<or> \<not> soft_hint_enabled cfg \<or> profile \<in> {''none'', ''execution''} then ms
      else inject_soft_hint ms (rank_tool_names logf user_message tools_schema (soft_hint_top_k cfg)) True)"


section \<open>Properties\<close>

lemmas tool_sets = ANALYZE_TOOLS_def MUTATING_TOOLS_def WRITE_TOOLS_def MEMORY_TOOLS_def READING_ALLOW_def
  ANALYZING_ALLOW_def EXECUTING_ALLOW_def MEMORY_ALLOW_def known_tools_def

lemma executing_allows_known: "set EXECUTING_ALLOW = set known_tools"
  by (auto simp: tool_sets)

lemma mutating_only_executing:
  "t \<in> set MUTATING_TOOLS \<Longrightarrow> t \<in> set (phase_allow ph) \<longleftrightarrow> ph = EXECUTING"
  by (cases ph) (auto simp: tool_sets)

lemma mutating_known: "t \<in> set MUTATING_TOOLS \<Longrightarrow> t \<in> set known_tools \<and> t \<noteq> [] \<and> t \<noteq> ''dispatch_subagent''"
  by (auto simp: tool_sets)

lemma executing_hides_nothing: "apply_phase_filter base (Some EXECUTING) profile en = base"
  by (cases base) (auto simp: apply_phase_filter_def executing_allows_known)

text \<open>What makes a task an executing one.\<close>

definition executing_task :: "ustr \<Rightarrow> string list \<Rightarrow> surface_phase option \<Rightarrow> bool" where
  "executing_task msg tools_used prev \<longleftrightarrow>
     (\<exists>t\<in>set tools_used. t \<in> set WRITE_TOOLS) \<or> prev = Some EXECUTING \<or> executing_keyword msg"

lemma detect_executing:
  "detect_tool_surface_phase msg tools_used prev closing mandate_on profile = Some EXECUTING \<longleftrightarrow>
   executing_task msg tools_used prev \<and> \<not> mandate_on \<and> profile \<notin> {''none'', ''execution''} \<and> \<not> closing"
  by (auto simp: detect_tool_surface_phase_def Let_def executing_task_def)

lemma detect_none:
  "detect_tool_surface_phase msg tools_used prev closing mandate_on profile = None \<longleftrightarrow>
   mandate_on \<or> profile \<in> {''none'', ''execution''} \<or> closing"
  by (auto simp: detect_tool_surface_phase_def Let_def)

lemma restrict_disabled [simp]: "\<not> mandate_enabled m \<Longrightarrow> apply_schema_restrict m sch = sch"
  by (simp add: apply_schema_restrict_def restricted_tool_names_def)

text \<open>exactly when a filtered run offers a mutating tool. For a run under the hard filter without a
  mandate, the schema offered is a selection of the base schema in its order; tools the filter does not know
  (plugins, MCP) are always in it; and a tool that writes, edits, executes or converts is in it exactly when
  the user asked for a change, a writing tool has run, an earlier turn was executing, or the run is closing.\<close>
lemma office_surface:
  assumes "ts_enabled cfg" "\<not> mandate_enabled m" "''office'' \<in> set (hard_filter_profiles cfg)"
    and "apply_tool_surface cfg ''office'' msg tools_used closing m (Some base) st = (Some offered, phase)"
  shows "subseq offered base \<and>
    (\<forall>e\<in>set base. surface_tool_name e \<notin> set known_tools \<longrightarrow> e \<in> set offered) \<and>
    (\<forall>e\<in>set base. surface_tool_name e \<in> set MUTATING_TOOLS \<longrightarrow>
       (e \<in> set offered \<longleftrightarrow> closing \<or> executing_task msg tools_used (snd st)))"
proof (cases closing)
  case True
  then have "offered = base"
    using assms by (simp add: apply_tool_surface_def resolve_profile_def detect_tool_surface_phase_def)
  with True show ?thesis by simp
next
  case False
  obtain ph where ph: "detect_tool_surface_phase msg tools_used (snd st) closing (mandate_enabled m) ''office'' = Some ph"
    using False assms(2) by (cases "detect_tool_surface_phase msg tools_used (snd st) closing (mandate_enabled m) ''office''")
      (auto simp: detect_none)
  have offered: "offered = [e \<leftarrow> base. surface_tool_name e = [] \<or> surface_tool_name e \<notin> set known_tools \<or>
      surface_tool_name e \<in> set (phase_allow ph)]"
    using assms ph by (auto simp: apply_tool_surface_def resolve_profile_def apply_phase_filter_def)
  have "ph = EXECUTING \<longleftrightarrow> executing_task msg tools_used (snd st)"
    using detect_executing [of msg tools_used "snd st" closing "mandate_enabled m" "''office''"] ph False assms(2)
    by simp
  then show ?thesis
    using False mutating_only_executing [of _ ph] mutating_known unfolding offered by auto
qed

definition sample_entry :: "string \<Rightarrow> schema_entry" where
  "sample_entry name = [(''type'', JStr ''function''), (''function'', JObj [(''name'', JStr name)])]"

definition idle_mandate :: mandate where
  "idle_mandate = \<lparr>mandate_cfg_enabled = True, terminal_tool = [], required_before = [], nudge_ratio = 1,
     restrict_ratio = 1, mandate_max_time_ms = 1, mandate_max_iterations = None, mandate_start = 0,
     nudge_injected = False, restricted = False\<rparr>"

definition office_settings :: surface_settings where
  "office_settings = \<lparr>ts_enabled = True, soft_hint_enabled = True, soft_hint_top_k = 5,
     hard_filter_profiles = [''office'']\<rparr>"

lemma sample_surface:
  "apply_tool_surface office_settings ''office'' (ascii ''show it'') [] False idle_mandate
     (Some [sample_entry ''read_file'', sample_entry ''write_file'', sample_entry ''x'']) (None, None) =
   (Some [sample_entry ''read_file'', sample_entry ''x''], Some READING)"
  by (simp add: apply_tool_surface_def office_settings_def resolve_profile_def mandate_enabled_def idle_mandate_def
      detect_tool_surface_phase_def executing_keyword_def EXECUTING_WORDS_def ascii_def lower_cp_def
      apply_phase_filter_def sample_entry_def surface_tool_name_def jget_def tool_sets apply_schema_restrict_def
      restricted_tool_names_def is_word_cp_def)

lemma office_surface_witness:
  "sample_entry ''write_file'' \<notin> set [sample_entry ''read_file'', sample_entry ''x''] \<and>
   \<not> executing_task (ascii ''show it'') [] None"
  using office_surface [OF _ _ _ sample_surface]
  by (simp add: office_settings_def idle_mandate_def mandate_enabled_def sample_entry_def surface_tool_name_def
      jget_def tool_sets)

end

