(* ===== verification/ToolExecution.thy ===== *)
theory ToolExecution
  imports ToolSurface ToolGuard ToolRegistry
begin

text \<open>
  \<open>AgentLoop._execute_single_tool\<close> of \<open>agent/loop.py\<close>: the checks that every tool call of a model passes
  (channel, permissions, web access, \<open>ToolGuard\<close> with the user's approval) before the registry runs it,
  and \<open>agent/web_access.py\<close>. Task-run records, health counters, the trajectory recorder and logging are
  not modelled. Parameters: those of \<open>ToolGuard\<close> and \<open>ToolRegistry\<close>, \<open>str_of\<close> (\<open>str\<close> of a value that is
  not a string), \<open>args_str\<close> (\<open>str\<close> of a dictionary) and the user's answer to an approval request.
\<close>

section \<open>Web access\<close>

definition WEB_ACCESS_MARKER :: string where
  "WEB_ACCESS_MARKER = ''[Web access]''"

definition WEB_FETCH_DENIED_MESSAGE :: string where
  "WEB_FETCH_DENIED_MESSAGE =
     ''Error: web_fetch is disabled for this turn (web access OFF). '' @
     ''Do not call web_fetch or invent internet results. '' @
     ''Deep research may still be available via dispatch_subagent if that tool is listed.''"

text \<open>\<open>off_hint\<close> is the (Russian) instruction, it carries the marker.\<close>

definition inject_web_access_hint :: "string \<Rightarrow> bool \<Rightarrow> message list \<Rightarrow> message list" where
  "inject_web_access_hint off_hint enabled ms =
     (let cleaned = filter (\<lambda>m. \<not> has_marker WEB_ACCESS_MARKER m) ms
      in if enabled then cleaned else cleaned @ [user_msg off_hint])"

section \<open>One tool call\<close>

record tool_env =
  te_checker :: "departments option"
  te_enforce :: bool
  te_department :: string
  te_guard :: "tool_guard option"
  te_search :: "string \<Rightarrow> string \<Rightarrow> bool"
  te_str_of :: "json \<Rightarrow> string"
  te_args_str :: "call_args \<Rightarrow> string"
  te_scrub :: "string \<Rightarrow> string"
  te_fs_disabled :: bool
  te_stat :: "string \<Rightarrow> (string \<times> int \<times> int) option"
  te_run_id :: string
  te_channel :: "string option"
  te_web_access :: bool

definition risk_value :: "risk_level \<Rightarrow> string" where
  "risk_value l = (case l of LOW \<Rightarrow> ''low'' | MEDIUM_RISK \<Rightarrow> ''medium'' | HIGH_RISK \<Rightarrow> ''high''
     | CRITICAL_RISK \<Rightarrow> ''critical'')"

definition call_arguments :: "llm_tool_call \<Rightarrow> call_args" where
  "call_arguments tc = (case tc_arguments tc of JObj d \<Rightarrow> d | _ \<Rightarrow> [])"

text \<open>What the guard sees of the arguments: \<open>str(value)\<close>, and nothing of a \<open>None\<close>.\<close>

definition guard_arguments :: "(json \<Rightarrow> string) \<Rightarrow> call_args \<Rightarrow> tool_arguments" where
  "guard_arguments str_of args =
     map (\<lambda>(k, v). (k, case v of JNull \<Rightarrow> None | _ \<Rightarrow> Some (py_str str_of v))) args"

definition permission_denied :: "tool_env \<Rightarrow> 'w registry \<Rightarrow> string \<Rightarrow> bool" where
  "permission_denied env r name =
     (case te_checker env of
        None \<Rightarrow> False
      | Some table \<Rightarrow>
          (case registry_get r name of
             Some t \<Rightarrow> \<not> can_use_registered_tool table (te_department env) (source_of t) (te_enforce env)
           | None \<Rightarrow> te_enforce env \<and> \<not> can_use_tool table (te_department env) name))"

definition guard_decision :: "tool_env \<Rightarrow> 'w registry \<Rightarrow> llm_tool_call \<Rightarrow> guard_outcome" where
  "guard_decision env r tc =
     (case te_guard env of
        None \<Rightarrow> Allowed
      | Some g \<Rightarrow>
          guard_check (te_search env) g (tc_name tc) (guard_arguments (te_str_of env) (call_arguments tc))
            (te_args_str env (call_arguments tc))
            (map_option (\<lambda>t. risk_value (tool_risk t)) (registry_get r (tc_name tc))))"

definition run_registered ::
    "tool_env \<Rightarrow> llm_tool_call \<Rightarrow> 'w registry \<times> 'w \<Rightarrow> ('w registry \<times> 'w) \<times> string" where
  "run_registered env tc rw =
     registry_execute (te_scrub env) (te_fs_disabled env) (te_stat env) (te_checker env)
       (Some \<lparr>au_department = te_department env\<rparr>) (te_enforce env) (Some (te_run_id env)) (tc_name tc)
       (call_arguments tc) rw"

text \<open>\<open>approve\<close> is the user's answer, \<open>None\<close> when the channel cannot ask.\<close>

definition execute_single_tool ::
    "tool_env \<Rightarrow> (string \<Rightarrow> string \<Rightarrow> bool) option \<Rightarrow> llm_tool_call \<Rightarrow> 'w registry \<times> 'w \<Rightarrow>
     ('w registry \<times> 'w) \<times> string" where
  "execute_single_tool env approve tc rw =
     (let name = tc_name tc in
      if te_channel env = Some ''system'' \<and> starts_with name ''schedule_'' then
        (rw, ''Error: schedule tools are not available in headless/system runs.'')
      else if permission_denied env (fst rw) name then
        (rw, ''Error: Permission denied. Your department ('' @ te_department env @
           '') cannot use tool '' @ quoted name @ ''.'')
      else if name = ''web_fetch'' \<and> \<not> te_web_access env then (rw, WEB_FETCH_DENIED_MESSAGE)
      else
        (case guard_decision env (fst rw) tc of
           Allowed \<Rightarrow> run_registered env tc rw
         | NeedsApproval action details \<Rightarrow>
             (case approve of
                None \<Rightarrow>
                  (rw, TOOL_ERROR_PREFIX @ '': Action paused; approval required for '' @ quoted action @
                     '' but no approval channel is configured.'')
              | Some ask \<Rightarrow>
                  if ask action details then run_registered env tc rw
                  else (rw, TOOL_ERROR_PREFIX @ '': Action '' @ quoted action @ '' was denied by user.''))
         | Blocked msg \<Rightarrow> (rw, TOOL_ERROR_PREFIX @ '': '' @ msg)))"

section \<open>Batches\<close>

definition can_parallelize :: "'w registry \<Rightarrow> llm_tool_call list \<Rightarrow> bool" where
  "can_parallelize r calls \<longleftrightarrow>
     length calls > 1 \<and>
     (\<forall>tc\<in>set calls. case registry_get r (tc_name tc) of
        None \<Rightarrow> False
      | Some t \<Rightarrow> \<not> tool_terminal t \<and> parallel_safe t)"

text \<open>The calls of a batch, executed one after the other in the order \<open>idx\<close> of their positions (a
  parallel batch may take effect in any order); the results are returned by position.\<close>

fun execute_in_order ::
    "tool_env \<Rightarrow> (string \<Rightarrow> string \<Rightarrow> bool) option \<Rightarrow> llm_tool_call list \<Rightarrow> nat list \<Rightarrow>
     'w registry \<times> 'w \<Rightarrow> string list \<Rightarrow> ('w registry \<times> 'w) \<times> string list" where
  "execute_in_order env approve calls [] rw results = (rw, results)"
| "execute_in_order env approve calls (i # idx) rw results =
     (case execute_single_tool env approve (calls ! i) rw of
        (rw', res) \<Rightarrow> execute_in_order env approve calls idx rw' (results[i := res]))"

definition execute_parallel ::
    "tool_env \<Rightarrow> (string \<Rightarrow> string \<Rightarrow> bool) option \<Rightarrow> nat list \<Rightarrow> llm_tool_call list \<Rightarrow>
     'w registry \<times> 'w \<Rightarrow> ('w registry \<times> 'w) \<times> string list" where
  "execute_parallel env approve order calls rw =
     execute_in_order env approve calls
       (if distinct order \<and> set order = {..<length calls} then order else [0..<length calls])
       rw (replicate (length calls) [])"

section \<open>Properties\<close>

lemma registry_execute_changes:
  assumes "registry_execute scrub dis stat checker user enforce rid name args rw = (rw', res)" "rw' \<noteq> rw"
  shows "\<exists>t. registry_get (fst rw) name = Some t \<and> \<not> call_denied checker user enforce t"
  using assms by (auto simp: registry_execute_def split: prod.splits option.splits if_splits)

lemma length_execute_in_order:
  "length (snd (execute_in_order env approve calls idx rw results)) = length results"
  by (induction idx arbitrary: rw results) (simp_all add: case_prod_beta)

lemma length_execute_parallel [simp]:
  "length (snd (execute_parallel env approve order calls rw)) = length calls"
  by (simp add: execute_parallel_def length_execute_in_order)

text \<open>C3: nothing runs unauthorised. If a call of the model changes anything (the world or the registry's
  record of reads), then a tool of that name is registered, the user's department may use it, the channel
  and the web switch admit it, the policy allows it or the user was asked and agreed, and no HIGH or
  CRITICAL rule matches it unless the user was asked and agreed.\<close>
lemma tools_run_only_when_authorised:
  assumes "execute_single_tool env approve tc rw = (rw', result)" and "rw' \<noteq> rw"
  shows "(\<exists>t. registry_get (fst rw) (tc_name tc) = Some t \<and>
      (\<forall>table. te_checker env = Some table \<longrightarrow>
         can_use_registered_tool table (te_department env) (source_of t) (te_enforce env))) \<and>
    \<not> (te_channel env = Some ''system'' \<and> starts_with (tc_name tc) ''schedule_'') \<and>
    (tc_name tc = ''web_fetch'' \<longrightarrow> te_web_access env) \<and>
    (guard_decision env (fst rw) tc = Allowed \<or>
     (\<exists>action details ask. guard_decision env (fst rw) tc = NeedsApproval action details \<and>
        approve = Some ask \<and> ask action details)) \<and>
    (\<forall>g r. te_guard env = Some g \<longrightarrow> r \<in> set (tg_rules g) \<longrightarrow>
       rule_evaluate (te_search env) r (tc_name tc) (guard_arguments (te_str_of env) (call_arguments tc)) \<longrightarrow>
       rule_severity r \<in> {HIGH, CRITICAL} \<longrightarrow>
       (\<exists>action details ask. approve = Some ask \<and> ask action details))"
proof -
  have ran: "run_registered env tc rw = (rw', result)"
    and admitted: "\<not> (te_channel env = Some ''system'' \<and> starts_with (tc_name tc) ''schedule_'')"
      "\<not> permission_denied env (fst rw) (tc_name tc)" "tc_name tc = ''web_fetch'' \<longrightarrow> te_web_access env"
    and decided: "guard_decision env (fst rw) tc = Allowed \<or>
      (\<exists>action details ask. guard_decision env (fst rw) tc = NeedsApproval action details \<and>
         approve = Some ask \<and> ask action details)"
    using assms unfolding execute_single_tool_def Let_def
    by (auto split: if_splits guard_outcome.splits option.splits)
  obtain t where t: "registry_get (fst rw) (tc_name tc) = Some t"
    using registry_execute_changes [OF ran [unfolded run_registered_def] assms(2)] by blast
  have severe: "guard_decision env (fst rw) tc \<noteq> Allowed"
    if "te_guard env = Some g" "r \<in> set (tg_rules g)" "rule_severity r \<in> {HIGH, CRITICAL}"
      "rule_evaluate (te_search env) r (tc_name tc) (guard_arguments (te_str_of env) (call_arguments tc))" for g r
    using high_severity_outcome [OF that(2,4,3)] that(1) by (simp add: guard_decision_def)
  have asked: "\<exists>action details ask. approve = Some ask \<and> ask action details"
    if "te_guard env = Some g" "r \<in> set (tg_rules g)" "rule_severity r \<in> {HIGH, CRITICAL}"
      "rule_evaluate (te_search env) r (tc_name tc) (guard_arguments (te_str_of env) (call_arguments tc))" for g r
    using decided severe [OF that] by blast
  have permitted: "can_use_registered_tool table (te_department env) (source_of t) (te_enforce env)"
    if "te_checker env = Some table" for table
    using admitted(2) t that by (simp add: permission_denied_def)
  have tool: "\<exists>t. registry_get (fst rw) (tc_name tc) = Some t \<and>
      (\<forall>table. te_checker env = Some table \<longrightarrow>
         can_use_registered_tool table (te_department env) (source_of t) (te_enforce env))"
    using t permitted by blast
  show ?thesis
    by (intro conjI tool admitted(1,3) decided allI impI asked; assumption)
qed

definition sample_env :: "tool_env" where
  "sample_env = \<lparr>te_checker = None, te_enforce = True, te_department = ''it'',
     te_guard = Some \<lparr>tg_rules = [], tg_provider = None, tg_approval_mode = ''manual''\<rparr>,
     te_search = (\<lambda>p s. False), te_str_of = (\<lambda>j. []), te_args_str = (\<lambda>a. []), te_scrub = id,
     te_fs_disabled = True, te_stat = (\<lambda>p. None), te_run_id = ''r'', te_channel = None, te_web_access = False\<rparr>"

definition sample_tool :: "nat tool" where
  "sample_tool = \<lparr>tool_name = ''f'', tool_description = [], tool_params = [], tool_risk = LOW, parallel_safe = True,
     tool_terminal = False, tool_direct = None, tool_source_kind = None, tool_source_name = None,
     tool_departments = None, tool_run = (\<lambda>args w. (w + 1, Inr ''ok''))\<rparr>"

definition sample_registry :: "nat registry" where
  "sample_registry = \<lparr>reg_tools = [(''f'', sample_tool)], reg_overrides = [], reg_file_state = None\<rparr>"

definition sample_call :: llm_tool_call where
  "sample_call = \<lparr>tc_id = ''c1'', tc_name = ''f'', tc_arguments = JObj [], tc_metadata = None\<rparr>"

lemma sample_runs: "execute_single_tool sample_env None sample_call (sample_registry, 0) = ((sample_registry, 1), ''ok'')"
  by (simp add: execute_single_tool_def sample_env_def sample_call_def sample_registry_def sample_tool_def
    permission_denied_def guard_decision_def guard_check_def risk_value_def registry_get_def dget_def
    run_registered_def registry_execute_def call_denied_def track_read_def)

lemma tools_run_only_when_authorised_witness:
  "registry_get sample_registry ''f'' \<noteq> None \<and> guard_decision sample_env sample_registry sample_call = Allowed"
  using tools_run_only_when_authorised [OF sample_runs]
  by (auto simp: sample_call_def)

end
