(* ===== verification/Compressor.thy ===== *)
theory Compressor
  imports Transcript "HOL-Library.List_Lexorder" "HOL-Library.Char_ord"
begin

text \<open>
  \<open>agent/compressor.py\<close>: \<open>ContextCompressor\<close>, which replaces the middle of a long transcript by a
  summary that a model writes, and the token estimate of \<open>llm/tokenizer_client.py\<close>. \<open>None\<close> as a result
  means that the code raises (a stored value has no \<open>get\<close>, or cannot be iterated). The model's reply is
  the parameter \<open>chat\<close> (\<open>None\<close> when the call fails); \<open>str_of\<close> as in \<open>Transcript\<close>.
\<close>

section \<open>Token estimates\<close>

record compression_settings =
  cs_enabled :: bool
  max_context_tokens :: int
  threshold_ratio :: rat
  protect_tail_tokens :: int
  prune_min_messages :: int

definition utf8_len :: "string \<Rightarrow> nat" where
  "utf8_len s = length s + length (filter (\<lambda>c. cp c \<ge> 128) s)"

text \<open>\<open>len(encoded) > len(text) * 1.3\<close>, without floats.\<close>

definition estimate_tokens_heuristic :: "string \<Rightarrow> nat" where
  "estimate_tokens_heuristic s =
     (if s = [] then 0
      else utf8_len s div (if 10 * utf8_len s > 13 * length s then 2 else 4))"

definition call_tokens :: "(json \<Rightarrow> string) \<Rightarrow> json \<Rightarrow> nat option" where
  "call_tokens str_of tc =
     Option.bind (dict_of tc) (\<lambda>d.
       case jget d ''function'' of
         None \<Rightarrow> Some 0
       | Some (JObj f) \<Rightarrow>
           Some (case jget f ''arguments'' of
                   None \<Rightarrow> 0
                 | Some (JStr s) \<Rightarrow> estimate_tokens_heuristic s
                 | Some a \<Rightarrow> if truthy a then estimate_tokens_heuristic (str_of a) else 0)
       | Some _ \<Rightarrow> None)"

definition message_tokens :: "(json \<Rightarrow> string) \<Rightarrow> message \<Rightarrow> nat option" where
  "message_tokens str_of m =
     (let c = (case jget m ''content'' of
                 None \<Rightarrow> 0
               | Some JNull \<Rightarrow> 0
               | Some v \<Rightarrow> estimate_tokens_heuristic (py_str str_of v))
      in case jget m ''tool_calls'' of
           None \<Rightarrow> Some c
         | Some calls \<Rightarrow>
             if truthy calls
             then map_option (\<lambda>ns. c + sum_list ns)
                    (Option.bind (iterate calls) (all_some (call_tokens str_of)))
             else Some c)"

definition estimate_tokens :: "(json \<Rightarrow> string) \<Rightarrow> message list \<Rightarrow> nat option" where
  "estimate_tokens str_of ms = map_option sum_list (all_some (message_tokens str_of) ms)"

text \<open>\<open>int(max_context_tokens * threshold_ratio)\<close> truncates towards zero.\<close>

definition threshold_tokens :: "compression_settings \<Rightarrow> int" where
  "threshold_tokens c =
     (let x = of_int (max_context_tokens c) * threshold_ratio c
      in if x \<ge> 0 then \<lfloor>x\<rfloor> else \<lceil>x\<rceil>)"

definition effective_tokens :: "(json \<Rightarrow> string) \<Rightarrow> message list \<Rightarrow> int option \<Rightarrow> int option" where
  "effective_tokens str_of ms actual =
     map_option (\<lambda>n. max (int n) (case actual of None \<Rightarrow> 0 | Some a \<Rightarrow> a)) (estimate_tokens str_of ms)"

section \<open>When to compress\<close>

definition string_id :: "json \<Rightarrow> string option" where
  "string_id c =
     (case c of
        JObj d \<Rightarrow> (case jget d ''id'' of Some (JStr i) \<Rightarrow> if i = [] then None else Some i | _ \<Rightarrow> None)
      | _ \<Rightarrow> None)"

definition tool_batch_incomplete :: "message list \<Rightarrow> bool" where
  "tool_batch_incomplete ms \<longleftrightarrow>
     (\<exists>m\<in>set ms. \<exists>c\<in>set (declared_calls m).
        case string_id c of
          None \<Rightarrow> False
        | Some i \<Rightarrow> \<not> (\<exists>r\<in>set ms. is_tool_msg r \<and> result_id r = Some i))"

definition should_compress ::
    "(json \<Rightarrow> string) \<Rightarrow> compression_settings \<Rightarrow> message list \<Rightarrow> int option \<Rightarrow> bool option" where
  "should_compress str_of cfg ms actual =
     (if \<not> cs_enabled cfg then Some False
      else if ms \<noteq> [] \<and> tool_batch_incomplete ms then Some False
      else map_option (\<lambda>n. n \<ge> threshold_tokens cfg) (effective_tokens str_of ms actual))"

section \<open>The protected tail\<close>

text \<open>\<open>toks\<close> holds the estimate of each message.\<close>

fun tail_scan :: "nat list \<Rightarrow> int \<Rightarrow> nat \<Rightarrow> nat \<Rightarrow> nat option" where
  "tail_scan toks budget tokens 0 = None"
| "tail_scan toks budget tokens (Suc i) =
     (let t = tokens + toks ! i in
      if int t \<ge> budget then Some i else tail_scan toks budget t i)"

fun align_boundary :: "message list \<Rightarrow> nat \<Rightarrow> nat" where
  "align_boundary ms 0 = 0"
| "align_boundary ms (Suc i) = (if is_tool_msg (ms ! Suc i) then align_boundary ms i else Suc i)"

definition find_tail_boundary :: "nat list \<Rightarrow> message list \<Rightarrow> int \<Rightarrow> nat" where
  "find_tail_boundary toks ms budget =
     (case tail_scan toks budget 0 (length ms) of None \<Rightarrow> 0 | Some i \<Rightarrow> align_boundary ms i)"

section \<open>Repairing pairs\<close>

text \<open>The truthy \<open>tool_calls\<close> of an assistant message, as dictionaries.\<close>

definition assistant_calls :: "message \<Rightarrow> (string \<times> json) list list option" where
  "assistant_calls m =
     (if has_role m ''assistant'' then
        (case jget m ''tool_calls'' of
           None \<Rightarrow> Some []
         | Some calls \<Rightarrow>
             if truthy calls then Option.bind (iterate calls) (all_some dict_of) else Some [])
      else Some [])"

definition truthy_field :: "(string \<times> json) list \<Rightarrow> string \<Rightarrow> json option" where
  "truthy_field d k = (case jget d k of None \<Rightarrow> None | Some v \<Rightarrow> if truthy v then Some v else None)"

definition all_call_ids :: "(string \<times> json) list list list \<Rightarrow> json list" where
  "all_call_ids calls = List.map_filter (\<lambda>c. truthy_field c ''id'') (concat calls)"

definition all_result_ids :: "message list \<Rightarrow> json list" where
  "all_result_ids ms =
     List.map_filter (\<lambda>m. truthy_field m ''tool_call_id'') (filter is_tool_msg ms)"

definition compression_stub :: "json \<Rightarrow> json \<Rightarrow> message" where
  "compression_stub call_id name =
     [(''role'', JStr ''tool''), (''tool_call_id'', call_id), (''name'', name),
      (''content'', JStr ''[Tool result was lost during context compression]'')]"

text \<open>\<open>tc.get("function", {}).get("name", "unknown")\<close>\<close>

definition call_name :: "(string \<times> json) list \<Rightarrow> json \<Rightarrow> json option" where
  "call_name d dflt =
     (case jget d ''function'' of
        None \<Rightarrow> Some dflt
      | Some (JObj f) \<Rightarrow> Some (case jget f ''name'' of None \<Rightarrow> dflt | Some n \<Rightarrow> n)
      | Some _ \<Rightarrow> None)"

fun call_stubs :: "json list \<Rightarrow> (string \<times> json) list list \<Rightarrow> message list option" where
  "call_stubs orphans [] = Some []"
| "call_stubs orphans (d # ds) =
     (case truthy_field d ''id'' of
        Some i \<Rightarrow>
          if i \<in> set orphans then
            (case call_name d (JStr ''unknown'') of
               None \<Rightarrow> None
             | Some n \<Rightarrow> map_option ((#) (compression_stub i n)) (call_stubs orphans ds))
          else call_stubs orphans ds
      | None \<Rightarrow> call_stubs orphans ds)"

definition sanitize_message ::
    "json list \<Rightarrow> json list \<Rightarrow> message \<times> (string \<times> json) list list \<Rightarrow> message list option" where
  "sanitize_message orphaned_results orphaned_calls mc =
     (case mc of (m, calls) \<Rightarrow>
        if is_tool_msg m \<and> (case jget m ''tool_call_id'' of Some i \<Rightarrow> i \<in> set orphaned_results | None \<Rightarrow> False)
        then Some []
        else map_option ((#) m) (call_stubs orphaned_calls calls))"

definition sanitize_tool_pairs :: "message list \<Rightarrow> message list option" where
  "sanitize_tool_pairs ms =
     Option.bind (all_some assistant_calls ms) (\<lambda>calls.
       let call_ids = all_call_ids calls; result_ids = all_result_ids ms;
           orphaned_results = filter (\<lambda>i. i \<notin> set call_ids) result_ids;
           orphaned_calls = filter (\<lambda>i. i \<notin> set result_ids) call_ids
       in if orphaned_results = [] \<and> orphaned_calls = [] then Some ms
          else map_option concat
                 (all_some (sanitize_message orphaned_results orphaned_calls) (zip ms calls)))"

section \<open>The summary\<close>

abbreviation nl :: string where
  "nl \<equiv> [CHR 0x0A]"

definition turn_content :: "(json \<Rightarrow> string) \<Rightarrow> message \<Rightarrow> json option" where
  "turn_content str_of m =
     (let content = (case jget m ''content'' of None \<Rightarrow> JStr [] | Some c \<Rightarrow> c);
          text = py_str str_of content
      in if is_tool_msg m then
           Some (if content = JStr PLACEHOLDER \<or> length text > 300
                 then JStr (''['' @ str_field str_of m ''name'' ''tool'' @ '' output truncated]'')
                 else content)
         else if has_role m ''assistant'' \<and>
            (case jget m ''tool_calls'' of Some c \<Rightarrow> truthy c | None \<Rightarrow> False) then
           Option.bind (Option.bind (assistant_calls m) (all_some (\<lambda>d. call_name d (JStr ''?'')))) (\<lambda>ns.
             map_option (\<lambda>names. JStr (''[Called tools: '' @ join '', '' names @ ''] '' @
                 (if truthy content then text else [])))
               (all_some (\<lambda>n. case n of JStr s \<Rightarrow> Some s | _ \<Rightarrow> None) ns))
         else Some content)"

fun format_turns :: "(json \<Rightarrow> string) \<Rightarrow> message list \<Rightarrow> nat \<Rightarrow> nat \<Rightarrow> string list option" where
  "format_turns str_of [] max_chars used = Some []"
| "format_turns str_of (m # ms) max_chars used =
     (case turn_content str_of m of
        None \<Rightarrow> None
      | Some content \<Rightarrow>
          if truthy content then
            (let line = str_field str_of m ''role'' ''unknown'' @ '': '' @ py_str str_of content
             in if used + length line > max_chars then Some []
                else map_option ((#) line) (format_turns str_of ms max_chars (used + length line)))
          else format_turns str_of ms max_chars used)"

definition format_turns_for_summary :: "(json \<Rightarrow> string) \<Rightarrow> message list \<Rightarrow> string option" where
  "format_turns_for_summary str_of turns = map_option (join nl) (format_turns str_of turns 8000 0)"

definition summary_prompt :: "string \<Rightarrow> string \<Rightarrow> string" where
  "summary_prompt prev turns_text =
     ''Summarize the following conversation history. Be concise and structured.'' @ nl @ nl @
     ''Format your response as:'' @ nl @
     ''**Goal:** [What the user is trying to accomplish]'' @ nl @
     ''**Progress:** [What has been done so far]'' @ nl @
     ''**Key Decisions:** [Important choices made]'' @ nl @
     ''**Files Involved:** [Any files mentioned]'' @ nl @
     ''**Next Steps:** [What likely needs to happen next]'' @ nl @
     prev @ nl @ ''Conversation to summarize:'' @ nl @ turns_text @ nl @ nl @ ''Summary:''"

definition MAX_TRACKED_USERS :: nat where
  "MAX_TRACKED_USERS = 5000"

type_synonym summaries = "(string, string) pydict"

definition prune_summaries :: "summaries \<Rightarrow> summaries" where
  "prune_summaries d =
     (if length d \<le> MAX_TRACKED_USERS then d
      else fold dpop (take (length d - MAX_TRACKED_USERS div 2) (sort (dkeys d))) d)"

text \<open>The outer \<open>None\<close>: formatting the turns raises, before the call of the model is guarded.\<close>

definition generate_summary ::
    "(json \<Rightarrow> string) \<Rightarrow> (string \<Rightarrow> string option) \<Rightarrow> message list \<Rightarrow> string option \<Rightarrow> summaries \<Rightarrow>
     (summaries \<times> string option) option" where
  "generate_summary str_of chat turns mem_key memo =
     map_option (\<lambda>turns_text.
       if strip turns_text = [] then (memo, None)
       else
         (let prev = (case mem_key of
                        Some k \<Rightarrow>
                          if k = [] then []
                          else (case dget memo k of
                                  Some p \<Rightarrow>
                                    if p = [] then []
                                    else nl @ nl @ ''Previous summary:'' @ nl @ p @ nl
                                | None \<Rightarrow> [])
                      | None \<Rightarrow> [])
          in case chat (summary_prompt prev turns_text) of
               None \<Rightarrow> (memo, None)
             | Some summary \<Rightarrow>
                 (case mem_key of
                    Some k \<Rightarrow>
                      if summary \<noteq> [] \<and> k \<noteq> []
                      then (prune_summaries (dput k (strip summary) memo), Some summary)
                      else (memo, Some summary)
                  | None \<Rightarrow> (memo, Some summary))))
       (format_turns_for_summary str_of turns)"

section \<open>The pipeline\<close>

definition summary_msg :: "string \<Rightarrow> message" where
  "summary_msg summary = user_msg (''[Context Summary]'' @ nl @ summary)"

text \<open>The messages put together again, repaired and normalised.\<close>

definition splice_summary :: "message list \<Rightarrow> nat \<Rightarrow> string option \<Rightarrow> message list option" where
  "splice_summary ms tail_start summary =
     map_option (\<lambda>r. norm_messages (normalize_transcript r))
       (sanitize_tool_pairs
          (take 2 ms @
           (case summary of None \<Rightarrow> [] | Some s \<Rightarrow> if s = [] then [] else [summary_msg s]) @
           drop tail_start ms))"

definition compress ::
    "(json \<Rightarrow> string) \<Rightarrow> (string \<Rightarrow> string option) \<Rightarrow> compression_settings \<Rightarrow> message list \<Rightarrow>
     string option \<Rightarrow> int option \<Rightarrow> summaries \<Rightarrow> summaries \<times> message list option" where
  "compress str_of chat cfg messages mem_key actual memo =
     (let ms = norm_messages (normalize_transcript messages) in
      if length ms < 5 then (memo, sanitize_tool_pairs ms)
      else
        (case all_some (message_tokens str_of) ms of
           None \<Rightarrow> (memo, None)
         | Some toks \<Rightarrow>
             (let effective = max (int (sum_list toks)) (case actual of None \<Rightarrow> 0 | Some a \<Rightarrow> a);
                  tail_start = find_tail_boundary toks ms (protect_tail_tokens cfg)
              in if effective < threshold_tokens cfg \<or> tail_start \<le> 4 then (memo, sanitize_tool_pairs ms)
                 else
                   (case generate_summary str_of chat (drop 2 (take tail_start ms)) mem_key memo of
                      None \<Rightarrow> (memo, None)
                    | Some (memo', summary) \<Rightarrow> (memo', splice_summary ms tail_start summary)))))"

section \<open>Lemmas on the tail\<close>

lemma align_boundary_le: "align_boundary ms i \<le> i"
  by (induction i) auto

lemma align_boundary_not_tool: "align_boundary ms i \<noteq> 0 \<Longrightarrow> \<not> is_tool_msg (ms ! align_boundary ms i)"
  by (induction i) auto

lemma tail_scan_budget:
  assumes "tail_scan toks b t n = Some i" "n \<le> length toks"
  shows "i < n \<and> b \<le> int (t + sum_list (drop i (take n toks)))"
  using assms
proof (induction n arbitrary: t)
  case (Suc n)
  have take: "take (Suc n) toks = take n toks @ [toks ! n]"
    using Suc.prems(2) by (simp add: take_Suc_conv_app_nth)
  show ?case
  proof (cases "int (t + toks ! n) \<ge> b")
    case True
    then have "i = n" using Suc.prems(1) by (simp add: Let_def)
    moreover have "drop n (take (Suc n) toks) = [toks ! n]" using Suc.prems(2) by (simp add: take)
    ultimately show ?thesis using True by simp
  next
    case False
    then have "tail_scan toks b (t + toks ! n) n = Some i" using Suc.prems(1) by (simp add: Let_def)
    from Suc.IH [OF this] Suc.prems(2) show ?thesis by (simp add: take add.assoc)
  qed
qed simp

lemma sum_list_drop_mono: "j \<le> i \<Longrightarrow> sum_list (drop i xs) \<le> sum_list (drop j (xs :: nat list))"
proof -
  assume "j \<le> i"
  then have "drop j xs = take (i - j) (drop j xs) @ drop i xs"
    by (metis append_take_drop_id drop_drop le_add_diff_inverse2)
  then have "sum_list (drop j xs) = sum_list (take (i - j) (drop j xs)) + sum_list (drop i xs)"
    by (metis sum_list_append)
  then show ?thesis by simp
qed

text \<open>A boundary that is used holds the budget and does not start with a tool result.\<close>

lemma find_tail_boundary_spec:
  assumes "length toks = length ms" "find_tail_boundary toks ms b = k" "k \<noteq> 0"
  shows "k < length ms \<and> \<not> is_tool_msg (ms ! k) \<and> b \<le> int (sum_list (drop k toks))"
proof -
  obtain i where i: "tail_scan toks b 0 (length ms) = Some i" "k = align_boundary ms i"
    using assms(2,3) by (auto simp: find_tail_boundary_def split: option.splits)
  then have "i < length ms" "b \<le> int (sum_list (drop i toks))"
    using tail_scan_budget [OF i(1)] assms(1) by simp_all
  moreover have "sum_list (drop i toks) \<le> sum_list (drop k toks)"
    using sum_list_drop_mono [OF align_boundary_le] i(2) by simp
  ultimately show ?thesis
    using i(2) assms(3) align_boundary_le [of ms i] align_boundary_not_tool [of ms i] by simp
qed

section \<open>Lemmas on the repair\<close>

lemma valid_pairs_tl: "valid_pairs (m # ms) \<Longrightarrow> declared_calls m = [] \<Longrightarrow> valid_pairs ms"
  by (simp add: valid_pairs.simps(2))

lemma map_filter_append: "List.map_filter f (xs @ ys) = List.map_filter f xs @ List.map_filter f ys"
  by (simp add: List.map_filter_def)

lemma map_filter_Cons: "List.map_filter f (x # xs) = (case f x of None \<Rightarrow> List.map_filter f xs | Some y \<Rightarrow> y # List.map_filter f xs)"
  by (simp add: List.map_filter_def split: option.split)

lemma all_some_append:
  "all_some f (xs @ ys) = (case all_some f xs of None \<Rightarrow> None
     | Some us \<Rightarrow> map_option ((@) us) (all_some f ys))"
proof (induction xs)
  case Nil
  then show ?case by (cases "all_some f ys") simp_all
next
  case (Cons x xs)
  then show ?case by (cases "f x"; cases "all_some f xs"; cases "all_some f ys") simp_all
qed

lemma all_some_appendD:
  assumes "all_some f (xs @ ys) = Some zs"
  shows "\<exists>us vs. all_some f xs = Some us \<and> all_some f ys = Some vs \<and> zs = us @ vs"
  using assms unfolding all_some_append by (cases "all_some f xs"; cases "all_some f ys") auto

lemma all_some_length: "all_some f xs = Some ys \<Longrightarrow> length ys = length xs"
  by (induction xs arbitrary: ys) (auto split: option.splits)

lemma call_key_dict_of:
  assumes "call_key c = Some (i, n)"
  shows "\<exists>d. dict_of c = Some d \<and> truthy_field d ''id'' = Some (JStr i) \<and> call_name d x = Some (JStr n)"
proof -
  obtain d f where "c = JObj d" "jget d ''id'' = Some (JStr i)" "i \<noteq> []"
    "jget d ''function'' = Some (JObj f)" "jget f ''name'' = Some (JStr n)"
    using call_key_SomeD [OF assms] by blast
  then show ?thesis by (simp add: dict_of_def truthy_field_def truthy_def call_name_def)
qed

lemma keyed_calls:
  assumes "\<forall>c\<in>set cs. call_key c \<noteq> None"
  shows "\<exists>ds. all_some dict_of cs = Some ds \<and>
    map (\<lambda>d. truthy_field d ''id'') ds = map (\<lambda>c. map_option (\<lambda>k. JStr (fst k)) (call_key c)) cs \<and>
    map (\<lambda>d. call_name d x) ds = map (\<lambda>c. map_option (\<lambda>k. JStr (snd k)) (call_key c)) cs"
  using assms
proof (induction cs)
  case (Cons c cs)
  then obtain i n where k: "call_key c = Some (i, n)" by auto
  obtain d where d: "dict_of c = Some d" "truthy_field d ''id'' = Some (JStr i)" "call_name d x = Some (JStr n)"
    using call_key_dict_of [OF k] by blast
  from Cons obtain ds where "all_some dict_of cs = Some ds"
    "map (\<lambda>d. truthy_field d ''id'') ds = map (\<lambda>c. map_option (\<lambda>k. JStr (fst k)) (call_key c)) cs"
    "map (\<lambda>d. call_name d x) ds = map (\<lambda>c. map_option (\<lambda>k. JStr (snd k)) (call_key c)) cs"
    by auto
  with d k show ?case by (intro exI [of _ "d # ds"]) simp
qed simp

lemma iterate_dicts:
  assumes "truthy calls" "Option.bind (iterate calls) (all_some dict_of) = Some ds"
  shows "\<exists>cs. calls = JArr cs \<and> all_some dict_of cs = Some ds"
proof -
  obtain xs where xs: "iterate calls = Some xs" "all_some dict_of xs = Some ds"
    using assms(2) by (auto simp: bind_eq_Some_conv)
  have "calls = JArr xs"
  proof (rule ccontr)
    assume "calls \<noteq> JArr xs"
    then have "\<exists>s ys. xs = JStr s # ys"
      using xs(1) assms(1) by (auto simp: iterate_def truthy_def neq_Nil_conv split: json.splits)
    with xs(2) show False by (auto simp: dict_of_def)
  qed
  with xs(2) show ?thesis by blast
qed

lemma assistant_calls_keys:
  assumes "assistant_calls m = Some ds" "\<forall>k\<in>set (map call_key (declared_calls m)). k \<noteq> None"
  shows "map (\<lambda>d. truthy_field d ''id'') ds =
      map (\<lambda>c. map_option (\<lambda>k. JStr (fst k)) (call_key c)) (declared_calls m) \<and>
    map (\<lambda>d. call_name d x) ds =
      map (\<lambda>c. map_option (\<lambda>k. JStr (snd k)) (call_key c)) (declared_calls m)"
proof (cases "has_role m ''assistant''")
  case False
  then show ?thesis using assms(1) by (simp add: assistant_calls_def declared_calls_def)
next
  case a: True
  show ?thesis
  proof (cases "jget m ''tool_calls''")
    case None
    then show ?thesis using assms(1) a by (simp add: assistant_calls_def declared_calls_def)
  next
    case (Some calls)
    show ?thesis
    proof (cases "truthy calls")
      case False
      then have "declared_calls m = []"
        using a Some by (auto simp: declared_calls_def truthy_def split: json.splits)
      with False show ?thesis using assms(1) a Some by (simp add: assistant_calls_def)
    next
      case True
      then obtain cs where cs: "calls = JArr cs" "all_some dict_of cs = Some ds"
        using assms(1) a Some iterate_dicts [of calls ds] by (auto simp: assistant_calls_def)
      then have "declared_calls m = cs" using a Some by (simp add: declared_calls_def)
      with cs assms(2) keyed_calls [of cs x] show ?thesis by auto
    qed
  qed
qed

lemma not_assistant_calls: "\<not> has_role m ''assistant'' \<Longrightarrow> assistant_calls m = Some []"
  by (simp add: assistant_calls_def)

lemma map_filter_map: "map f xs = map Some ys \<Longrightarrow> List.map_filter f xs = ys"
  by (induction xs arbitrary: ys) (auto simp: List.map_filter_def)

lemma result_ids_take:
  assumes "\<forall>r\<in>set rs. is_tool_msg r" "map result_id rs = map Some ids" "\<forall>i\<in>set ids. i \<noteq> []"
  shows "all_result_ids rs = map JStr ids"
proof -
  have "map (\<lambda>m. truthy_field m ''tool_call_id'') rs = map Some (map JStr ids)"
    using assms(2,3)
  proof (induction rs arbitrary: ids)
    case (Cons r rs)
    then obtain i js where ids: "ids = i # js" "result_id r = Some i" "map result_id rs = map Some js"
      by (cases ids) auto
    then have "truthy_field r ''tool_call_id'' = Some (JStr i)"
      using Cons.prems(2) by (auto simp: result_id_def truthy_field_def truthy_def split: option.splits json.splits)
    with ids Cons show ?case by simp
  qed simp
  moreover have "filter is_tool_msg rs = rs" using assms(1) by (simp add: filter_id_conv)
  ultimately show ?thesis by (simp add: all_result_ids_def map_filter_map del: map_map)
qed

lemma all_result_ids_append: "all_result_ids (a @ b) = all_result_ids a @ all_result_ids b"
  by (simp add: all_result_ids_def map_filter_append)

lemma all_call_ids_append: "all_call_ids (a @ b) = all_call_ids a @ all_call_ids b"
  by (simp add: all_call_ids_def map_filter_append)

lemma all_call_ids_nil: "\<forall>c\<in>set cs. c = [] \<Longrightarrow> all_call_ids cs = []"
  by (simp add: all_call_ids_def concat_eq_Nil_conv [THEN iffD2] List.map_filter_def)

lemma all_some_tools:
  "\<forall>r\<in>set rs. is_tool_msg r \<Longrightarrow> all_some assistant_calls rs = Some cs \<Longrightarrow> all_call_ids cs = []"
proof -
  assume t: "\<forall>r\<in>set rs. is_tool_msg r" and s: "all_some assistant_calls rs = Some cs"
  have "\<forall>c\<in>set cs. c = []"
    using t s by (induction rs arbitrary: cs) (auto simp: assistant_calls_def has_role_def split: option.splits)
  then show ?thesis by (rule all_call_ids_nil)
qed

text \<open>In a valid transcript the declared calls and the results are the same ids in the same order.\<close>

lemma valid_ids:
  "valid_pairs ms \<Longrightarrow> all_some assistant_calls ms = Some calls \<Longrightarrow> all_call_ids calls = all_result_ids ms"
proof (induction ms arbitrary: calls rule: transcript_induct)
  case Nil
  then show ?case by (simp add: all_call_ids_def all_result_ids_def)
next
  case (Cons m ms)
  obtain ds rest where c: "assistant_calls m = Some ds" "all_some assistant_calls ms = Some rest" "calls = ds # rest"
    using Cons.prems(2) by (auto split: option.splits)
  have keys: "\<forall>k\<in>set (map call_key (declared_calls m)). k \<noteq> None"
    by (rule declared_keys_known [OF Cons.prems(1)]) simp
  obtain ids where ids: "map (map_option fst) (map call_key (declared_calls m)) = map Some ids"
    and ne: "\<forall>i\<in>set ids. i \<noteq> []"
  proof
    let ?ids = "map (fst \<circ> the \<circ> call_key) (declared_calls m)"
    show "map (map_option fst) (map call_key (declared_calls m)) = map Some ?ids"
      using keys by (auto simp: option.map_sel)
    have "fst (the (call_key c)) \<noteq> []" if "c \<in> set (declared_calls m)" for c
    proof -
      obtain i n where "call_key c = Some (i, n)" using \<open>c \<in> _\<close> keys by fastforce
      then show ?thesis using call_key_SomeD [of c i n] by auto
    qed
    then show "\<forall>i\<in>set ?ids. i \<noteq> []" by simp
  qed
  have "map (\<lambda>d. truthy_field d ''id'') ds =
      map (map_option JStr) (map (map_option fst) (map call_key (declared_calls m)))"
    using assistant_calls_keys [OF c(1) keys] by (simp add: option.map_comp comp_def)
  then have "map (\<lambda>d. truthy_field d ''id'') ds = map Some (map JStr ids)"
    unfolding ids by simp
  then have head: "all_call_ids [ds] = map JStr ids"
    by (simp add: all_call_ids_def map_filter_map del: map_map)
  have cons: "all_call_ids calls = all_call_ids [ds] @ all_call_ids rest"
    "all_result_ids (m # ms) = all_result_ids ms" 
    using c(3) all_call_ids_append [of "[ds]" rest] valid_pairs_hd [OF Cons.prems(1)]
    by (simp_all add: all_result_ids_def)
  show ?case
  proof (cases "declared_calls m = []")
    case True
    then have "ids = []" using ids by simp
    moreover have "all_call_ids rest = all_result_ids ms"
      using Cons.IH [OF _ _ c(2)] valid_pairs_tl [OF Cons.prems(1) True] by simp
    ultimately show ?thesis using cons head by simp
  next
    case False
    define n where "n = length (declared_calls m)"
    have v: "\<forall>r\<in>set (take n ms). is_tool_msg r" "map result_id (take n ms) = map Some ids" "valid_pairs (drop n ms)"
      using Cons.prems(1) False ids by (simp_all add: valid_pairs.simps(2) Let_def n_def)
    obtain c1 c2 where cc: "all_some assistant_calls (take n ms) = Some c1"
      "all_some assistant_calls (drop n ms) = Some c2" "rest = c1 @ c2"
      using c(2) all_some_appendD [of assistant_calls "take n ms" "drop n ms" rest] by auto
    have "all_call_ids c2 = all_result_ids (drop n ms)" using Cons.IH [OF _ v(3) cc(2)] by simp
    moreover have "all_result_ids ms = all_result_ids (take n ms) @ all_result_ids (drop n ms)"
      using all_result_ids_append [of "take n ms" "drop n ms"] by simp
    ultimately show ?thesis
      using cons head cc(3) all_some_tools [OF v(1) cc(1)] result_ids_take [OF v(1,2) ne]
      by (simp add: all_call_ids_append)
  qed
qed

lemma sanitize_valid:
  assumes "valid_pairs ms" "sanitize_tool_pairs ms = Some out"
  shows "out = ms"
proof -
  obtain calls where calls: "all_some assistant_calls ms = Some calls"
    using assms(2) by (auto simp: sanitize_tool_pairs_def bind_eq_Some_conv)
  then show ?thesis
    using valid_ids [OF assms(1) calls] assms(2) by (simp add: sanitize_tool_pairs_def Let_def)
qed

lemma call_stubs_none:
  "\<forall>d\<in>set ds. \<forall>i. truthy_field d ''id'' = Some i \<longrightarrow> i \<notin> set orphans \<Longrightarrow> call_stubs orphans ds = Some []"
  by (induction ds) (auto split: option.splits)

lemma in_call_ids:
  "cs \<in> set calls \<Longrightarrow> d \<in> set cs \<Longrightarrow> truthy_field d ''id'' = Some i \<Longrightarrow> i \<in> set (all_call_ids calls)"
  by (force simp: all_call_ids_def List.map_filter_def)

lemma in_result_ids:
  "m \<in> set ms \<Longrightarrow> is_tool_msg m \<Longrightarrow> truthy_field m ''tool_call_id'' = Some i \<Longrightarrow> i \<in> set (all_result_ids ms)"
  by (force simp: all_result_ids_def List.map_filter_def)

lemma all_result_ids_truthy: "i \<in> set (all_result_ids ms) \<Longrightarrow> truthy i"
  by (auto simp: all_result_ids_def List.map_filter_def truthy_field_def split: option.splits if_splits)

text \<open>A stretch whose ids are not orphaned passes the repair unchanged.\<close>

lemma sanitize_keeps:
  assumes "all_some assistant_calls ms = Some calls"
    and "set (all_call_ids calls) \<inter> set oc = {}" "set (all_result_ids ms) \<inter> set orr = {}"
    and "\<forall>i\<in>set orr. truthy i"
  shows "all_some (sanitize_message orr oc) (zip ms calls) = Some (map (\<lambda>m. [m]) ms)"
proof -
  have one: "sanitize_message orr oc (m, c) = Some [m]" if "m \<in> set ms" "c \<in> set calls" for m c
  proof -
    have "\<not> (is_tool_msg m \<and> (case jget m ''tool_call_id'' of Some i \<Rightarrow> i \<in> set orr | None \<Rightarrow> False))"
      using assms(3,4) in_result_ids [OF that(1)] by (fastforce simp: truthy_field_def split: option.splits)
    moreover have "call_stubs oc c = Some []"
      using assms(2) in_call_ids [OF that(2)] by (intro call_stubs_none) blast
    ultimately show ?thesis by (simp add: sanitize_message_def)
  qed
  have "length calls = length ms" using all_some_length [OF assms(1)] .
  moreover have "\<forall>m\<in>set ms. \<forall>c\<in>set calls. sanitize_message orr oc (m, c) = Some [m]"
    using one by blast
  ultimately show ?thesis
    by (induction ms arbitrary: calls) (auto simp: length_Suc_conv)
qed

text \<open>The parts of a repaired transcript.\<close>

definition repaired_head :: "message list \<Rightarrow> message list \<Rightarrow> message list option" where
  "repaired_head hd_ms tl_ms =
     Option.bind (all_some assistant_calls hd_ms) (\<lambda>hc.
       Option.bind (all_some assistant_calls tl_ms) (\<lambda>tc.
         let call_ids = all_call_ids (hc @ tc); result_ids = all_result_ids (hd_ms @ tl_ms)
         in map_option concat (all_some
              (sanitize_message (filter (\<lambda>i. i \<notin> set call_ids) result_ids)
                 (filter (\<lambda>i. i \<notin> set result_ids) call_ids)) (zip hd_ms hc))))"

lemma sanitize_append:
  assumes v: "valid_pairs tl_ms" and s: "sanitize_tool_pairs (hd_ms @ tl_ms) = Some out"
  shows "\<exists>h. repaired_head hd_ms tl_ms = Some h \<and> out = h @ tl_ms"
proof -
  obtain calls where "all_some assistant_calls (hd_ms @ tl_ms) = Some calls"
    using s by (auto simp: sanitize_tool_pairs_def bind_eq_Some_conv)
  then obtain hc tc where c: "all_some assistant_calls hd_ms = Some hc" "all_some assistant_calls tl_ms = Some tc"
    "calls = hc @ tc"
    using all_some_appendD [of assistant_calls hd_ms tl_ms calls] by auto
  define call_ids where "call_ids = all_call_ids (hc @ tc)"
  define result_ids where "result_ids = all_result_ids (hd_ms @ tl_ms)"
  define orr where "orr = filter (\<lambda>i. i \<notin> set call_ids) result_ids"
  define oc where "oc = filter (\<lambda>i. i \<notin> set result_ids) call_ids"
  have same: "all_call_ids tc = all_result_ids tl_ms" by (rule valid_ids [OF v c(2)])
  have tl: "all_some (sanitize_message orr oc) (zip tl_ms tc) = Some (map (\<lambda>m. [m]) tl_ms)"
    by (rule sanitize_keeps [OF c(2)])
      (auto simp: same orr_def oc_def call_ids_def result_ids_def all_call_ids_append all_result_ids_append
        dest: all_result_ids_truthy)
  have len: "length hc = length hd_ms" using all_some_length [OF c(1)] .
  have full: "sanitize_tool_pairs (hd_ms @ tl_ms) =
      (if orr = [] \<and> oc = [] then Some (hd_ms @ tl_ms)
       else map_option concat (all_some (sanitize_message orr oc) (zip hd_ms hc @ zip tl_ms tc)))"
    using c len by (simp add: sanitize_tool_pairs_def Let_def orr_def oc_def call_ids_def result_ids_def
      all_some_append)
  have head: "repaired_head hd_ms tl_ms = map_option concat (all_some (sanitize_message orr oc) (zip hd_ms hc))"
    using c by (simp add: repaired_head_def Let_def orr_def oc_def call_ids_def result_ids_def)
  show ?thesis
  proof (cases "orr = [] \<and> oc = []")
    case True
    then have "all_some (sanitize_message orr oc) (zip hd_ms hc) = Some (map (\<lambda>m. [m]) hd_ms)"
      by (intro sanitize_keeps [OF c(1)]) auto
    with True full head s show ?thesis by simp
  next
    case False
    with full head s tl show ?thesis by (auto simp: all_some_append split: option.splits)
  qed
qed

lemma while_append:
  assumes "b = [] \<or> \<not> p (hd b)"
  shows "takeWhile p (a @ b) = takeWhile p a" "dropWhile p (a @ b) = dropWhile p a @ b"
  using assms by (induction a) (cases b; simp)+

lemma normalize_pairs_append:
  assumes v: "valid_pairs b"
  shows "fst (normalize_tool_pairs (a @ b)) = fst (normalize_tool_pairs a) @ b"
proof (induction a rule: transcript_induct)
  case Nil
  then show ?case using normalize_pairs_id [OF v] by simp
next
  case (Cons m ms)
  have "b = [] \<or> \<not> is_tool_msg (hd b)" using v valid_pairs_hd by (cases b) auto
  note w = while_append [of b is_tool_msg ms, OF this]
  have "fst (normalize_tool_pairs (ms @ b)) = fst (normalize_tool_pairs ms) @ b"
    and "fst (normalize_tool_pairs (dropWhile is_tool_msg ms @ b)) = fst (normalize_tool_pairs (dropWhile is_tool_msg ms)) @ b"
    using Cons.IH by (simp_all add: length_dropWhile_le)
  then show ?case by (simp add: normalize_unfold w)
qed

lemma normalize_known:
  assumes "\<forall>m\<in>set ms. known_role m" "ms \<noteq> [] \<longrightarrow> has_role (hd ms) ''user''"
  shows "norm_messages (normalize_transcript ms) = fst (normalize_tool_pairs ms)"
proof -
  have "filter (\<lambda>m. \<not> has_role m ''system'' \<and> known_role m) ms = ms"
    using assms(1) by (auto simp: filter_id_conv known_role_def has_role_def)
  moreover have "dropWhile leading_fragment ms = ms"
    using takeWhile_none [of ms leading_fragment] assms(2)
    by (auto simp: leading_fragment_def has_role_def)
  ultimately show ?thesis by (simp add: normalize_transcript_def case_prod_beta)
qed

lemma call_stubs_tools: "call_stubs oc ds = Some st \<Longrightarrow> \<forall>m\<in>set st. is_tool_msg m"
  by (induction ds arbitrary: st)
    (auto simp: compression_stub_def has_role_def jget_def split: option.splits if_splits)

lemma sanitize_message_known:
  "sanitize_message orr oc (m, c) = Some out \<Longrightarrow> known_role m \<Longrightarrow> \<forall>x\<in>set out. known_role x"
  by (auto simp: sanitize_message_def known_role_def dest!: call_stubs_tools split: if_splits)

lemma repaired_head_known:
  assumes "repaired_head hs tl_ms = Some h" "\<forall>m\<in>set hs. known_role m"
  shows "\<forall>m\<in>set h. known_role m"
proof -
  obtain hc orr oc hss where c: "all_some assistant_calls hs = Some hc"
    "all_some (sanitize_message orr oc) (zip hs hc) = Some hss" "h = concat hss"
    using assms(1) by (auto simp: repaired_head_def bind_eq_Some_conv Let_def)
  have "\<forall>m\<in>set (concat hss). known_role m"
    using c(2)
  proof (rule all_some_ball)
    fix x ys assume x: "x \<in> set (zip hs hc)" "sanitize_message orr oc x = Some ys"
    obtain m cs where mc: "x = (m, cs)" by (cases x)
    then have "known_role m" using x(1) assms(2) by (auto dest: set_zip_leftD)
    then show "\<forall>y\<in>set ys. known_role y" using sanitize_message_known x(2) mc by blast
  qed
  with c(3) show ?thesis by simp
qed

lemma repaired_head_user:
  assumes "repaired_head (m # hs) tl_ms = Some h" "has_role m ''user''"
  shows "\<exists>h'. h = m # h'"
proof -
  obtain hc orr oc hss where c: "all_some assistant_calls (m # hs) = Some hc"
    "all_some (sanitize_message orr oc) (zip (m # hs) hc) = Some hss" "h = concat hss"
    using assms(1) unfolding repaired_head_def bind_eq_Some_conv Let_def by (auto simp del: all_some.simps)
  have u: "assistant_calls m = Some []" "\<not> is_tool_msg m"
    using assms(2) by (auto simp: assistant_calls_def has_role_def)
  then obtain hc' where "hc = [] # hc'" using c(1) by (auto split: option.splits)
  moreover have "sanitize_message orr oc (m, []) = Some [m]" using u by (simp add: sanitize_message_def)
  ultimately show ?thesis using c(2,3) by (auto split: option.splits)
qed

lemma splice_keeps_tail:
  assumes n: "provider_valid ms" and k: "2 < k" "k < length ms" "\<not> is_tool_msg (ms ! k)"
    and s: "splice_summary ms k summary = Some out"
  shows "\<exists>pre. out = pre @ drop k ms \<and> pre \<noteq> [] \<and> hd pre = hd ms"
proof -
  define mid where
    "mid = (case summary of None \<Rightarrow> [] | Some s \<Rightarrow> if s = [] then [] else [summary_msg s])"
  obtain m hs where ms: "take 2 ms = m # hs" "m = hd ms" using k by (cases ms) auto
  have user: "has_role m ''user''" using n k ms by (cases ms) (auto simp: provider_valid_def)
  have "valid_pairs (take k ms @ drop k ms)" using n by (simp add: provider_valid_def)
  moreover have "drop k ms \<noteq> []" "hd (drop k ms) = ms ! k" using k by (simp_all add: hd_drop_conv_nth)
  ultimately have tail: "valid_pairs (drop k ms)" using valid_pairs_cut k(3) by metis
  obtain r where r: "sanitize_tool_pairs ((take 2 ms @ mid) @ drop k ms) = Some r"
    "out = norm_messages (normalize_transcript r)"
    using s by (auto simp: splice_summary_def mid_def)
  obtain h where h: "repaired_head (take 2 ms @ mid) (drop k ms) = Some h" "r = h @ drop k ms"
    using sanitize_append [OF tail r(1)] by blast
  obtain h' where h': "h = m # h'" using repaired_head_user [of m "hs @ mid" "drop k ms" h] h(1) user ms by auto
  have known: "\<forall>x\<in>set ms. known_role x" using n by (simp add: provider_valid_def)
  have "\<forall>x\<in>set mid. known_role x"
    by (auto simp: mid_def summary_msg_def user_msg_def known_role_def has_role_def jget_def
        split: option.splits)
  then have "\<forall>x\<in>set (take 2 ms @ mid). known_role x"
    using known by (metis in_set_takeD Un_iff set_append)
  then have "\<forall>x\<in>set r. known_role x"
    using repaired_head_known [OF h(1)] h(2) known by (metis Un_iff in_set_dropD set_append)
  then have "out = fst (normalize_tool_pairs h) @ drop k ms"
    using normalize_known [of r] r(2) h(2) h' user normalize_pairs_append [OF tail, of h] by simp
  moreover have "\<not> is_tool_msg m" "declared_calls m = []"
    using user by (auto simp: has_role_def declared_calls_def)
  then have "fst (normalize_tool_pairs h) = m # fst (normalize_tool_pairs h')"
    using h' by (simp add: normalize_unfold)
  ultimately show ?thesis using ms(2) by auto
qed

section \<open>Properties\<close>

text \<open>C7: compression is safe. Whatever the transcript, the model's summary and the settings, the result
  obeys the protocol of the providers; and either it is the normalised transcript, or it begins with the
  first message of the user and ends, verbatim, with a stretch of the transcript that holds at least the
  protected number of tokens.\<close>
lemma compression_is_safe:
  assumes "compress str_of chat cfg messages mem_key actual memo = (memo', Some out)"
  defines "ms \<equiv> norm_messages (normalize_transcript messages)"
  shows "provider_valid out \<and>
    (out = ms \<or>
     (\<exists>toks k pre. all_some (message_tokens str_of) ms = Some toks \<and> out = pre @ drop k ms \<and>
        pre \<noteq> [] \<and> hd pre = hd ms \<and> protect_tail_tokens cfg \<le> int (sum_list (drop k toks))))"
proof -
  have n: "provider_valid ms" unfolding ms_def by (rule normalize_provider_valid)
  then have keep: "sanitize_tool_pairs ms = Some out \<Longrightarrow> out = ms"
    using sanitize_valid by (simp add: provider_valid_def)
  consider "sanitize_tool_pairs ms = Some out"
    | toks k summary where "all_some (message_tokens str_of) ms = Some toks"
      "k = find_tail_boundary toks ms (protect_tail_tokens cfg)" "4 < k" "splice_summary ms k summary = Some out"
    using assms(1) unfolding compress_def ms_def [symmetric] Let_def
    by (auto split: if_splits option.splits)
  then show ?thesis
  proof cases
    case 1
    with keep n show ?thesis by simp
  next
    case 2
    then have k: "k < length ms" "\<not> is_tool_msg (ms ! k)" "protect_tail_tokens cfg \<le> int (sum_list (drop k toks))"
      using find_tail_boundary_spec [OF all_some_length [OF 2(1)], of "protect_tail_tokens cfg" k] by simp_all
    moreover have "provider_valid out"
      using 2(4) by (auto simp: splice_summary_def normalize_provider_valid)
    ultimately show ?thesis
      using splice_keeps_tail [OF n _ k(1,2) 2(4)] 2(1,3) by fastforce
  qed
qed

lemma map_keys: "map g cs = map Some ks \<Longrightarrow> map (\<lambda>c. map_option f (g c)) cs = map (\<lambda>k. Some (f k)) ks"
  by (induction cs ks rule: list_induct2') auto

lemma result_ids_string:
  assumes "JStr i \<in> set (all_result_ids ms)"
  shows "\<exists>r\<in>set ms. is_tool_msg r \<and> result_id r = Some i"
proof -
  obtain r where "r \<in> set ms" "is_tool_msg r" "truthy_field r ''tool_call_id'' = Some (JStr i)"
    using assms by (auto simp: all_result_ids_def List.map_filter_def)
  then show ?thesis
    by (intro bexI [of _ r]) (auto simp: truthy_field_def result_id_def split: option.splits if_splits)
qed

definition stubs_for :: "(string \<times> string) list \<Rightarrow> message list" where
  "stubs_for ks = map (\<lambda>k. compression_stub (JStr (fst k)) (JStr (snd k))) ks"

lemma call_stubs_all:
  "map (\<lambda>d. truthy_field d ''id'') ds = map (\<lambda>k. Some (JStr (fst k))) ks \<Longrightarrow>
   map (\<lambda>d. call_name d (JStr ''unknown'')) ds = map (\<lambda>k. Some (JStr (snd k))) ks \<Longrightarrow>
   \<forall>k\<in>set ks. JStr (fst k) \<in> set oc \<Longrightarrow> call_stubs oc ds = Some (stubs_for ks)"
proof (induction ds arbitrary: ks)
  case (Cons d ds)
  then obtain k ks' where "ks = k # ks'" by (cases ks) auto
  with Cons show ?case by (simp add: stubs_for_def)
qed (simp add: stubs_for_def)

text \<open>The head is not protected as meant. The compressor keeps the first two messages; when the second
  one declares tool calls, their results are cut off, and in the compressed transcript every one of these
  calls is answered by a stub that says its result was lost (unless a later batch reuses the id).\<close>
lemma head_results_are_lost:
  assumes n: "provider_valid ms" and k: "2 < k" "k < length ms" "\<not> is_tool_msg (ms ! k)"
    and calls: "map call_key (declared_calls (ms ! 1)) = map Some ks" "ks \<noteq> []"
    and fresh: "\<forall>r\<in>set (drop k ms). is_tool_msg r \<longrightarrow> result_id r \<notin> (Some \<circ> fst) ` set ks"
    and s: "splice_summary ms k summary = Some out"
  shows "\<exists>rest. out = take 2 ms @ stubs_for ks @ rest"
proof -
  define mid where
    "mid = (case summary of None \<Rightarrow> [] | Some s \<Rightarrow> if s = [] then [] else [summary_msg s])"
  obtain m0 m1 where ms: "take 2 ms = [m0, m1]" "m0 = hd ms" "m1 = ms ! 1"
    using k by (cases ms; cases "tl ms") auto
  have user: "has_role m0 ''user''" using n k ms by (auto simp: provider_valid_def)
  have decl: "declared_calls m1 \<noteq> []" using calls ms(3) by auto
  then have assistant: "has_role m1 ''assistant''" by (rule declared_calls_assistant)
  have "valid_pairs (take k ms @ drop k ms)" using n by (simp add: provider_valid_def)
  moreover have "drop k ms \<noteq> []" "hd (drop k ms) = ms ! k" using k by (simp_all add: hd_drop_conv_nth)
  ultimately have tail: "valid_pairs (drop k ms)" using valid_pairs_cut k(3) by metis
  obtain r where r: "sanitize_tool_pairs ((take 2 ms @ mid) @ drop k ms) = Some r"
    "out = norm_messages (normalize_transcript r)"
    using s by (auto simp: splice_summary_def mid_def)
  obtain h where h: "repaired_head (m0 # m1 # mid) (drop k ms) = Some h" "r = h @ drop k ms"
    using sanitize_append [OF tail r(1)] ms(1) by auto
  have mid: "\<forall>x\<in>set mid. \<not> is_tool_msg x \<and> \<not> has_role x ''assistant'' \<and> known_role x"
    by (auto simp: mid_def summary_msg_def user_msg_def known_role_def has_role_def jget_def
        split: option.splits)
  have mid_calls: "all_some assistant_calls mid = Some (map (\<lambda>x. []) mid)"
    using mid by (induction mid) (simp_all add: assistant_calls_def)
  obtain ds tc where ds: "assistant_calls m1 = Some ds" "all_some assistant_calls (drop k ms) = Some tc"
    using h(1) unfolding repaired_head_def by (auto simp: bind_eq_Some_conv split: option.splits)
  have keys: "\<forall>x\<in>set (map call_key (declared_calls m1)). x \<noteq> None" using calls(1) ms(3) by auto
  have dsk: "map (\<lambda>d. truthy_field d ''id'') ds = map (\<lambda>k. Some (JStr (fst k))) ks"
    "map (\<lambda>d. call_name d (JStr ''unknown'')) ds = map (\<lambda>k. Some (JStr (snd k))) ks"
    using assistant_calls_keys [OF ds(1) keys, of "JStr ''unknown''"] calls(1) ms(3)
      map_keys [of call_key "declared_calls m1" ks] by simp_all
  define results where "results = all_result_ids (m0 # m1 # mid @ drop k ms)"
  have "results = all_result_ids (drop k ms)"
    using mid user assistant all_result_ids_append [of "m0 # m1 # mid" "drop k ms"] by (simp add: results_def)
      (auto simp: all_result_ids_def has_role_def List.map_filter_def filter_empty_conv)
  then have "JStr (fst x) \<notin> set results" if "x \<in> set ks" for x
    using fresh that result_ids_string [of "fst x" "drop k ms"] by (auto simp: image_iff)
  note not_results = this
  define oc where "oc = filter (\<lambda>i. i \<notin> set results) (all_call_ids ([] # ds # map (\<lambda>x. []) mid @ tc))"
  define orr where "orr = filter (\<lambda>i. i \<notin> set (all_call_ids ([] # ds # map (\<lambda>x. []) mid @ tc))) results"
  have "JStr (fst x) \<in> set (all_call_ids ([] # ds # map (\<lambda>x. []) mid @ tc))" if x: "x \<in> set ks" for x
  proof -
    have "Some (JStr (fst x)) \<in> set (map (\<lambda>d. truthy_field d ''id'') ds)" unfolding dsk(1) using x by force
    then obtain d where "d \<in> set ds" "truthy_field d ''id'' = Some (JStr (fst x))" by auto
    then show ?thesis by (intro in_call_ids [of ds]) simp_all
  qed
  then have stubs: "call_stubs oc ds = Some (stubs_for ks)"
    using not_results by (intro call_stubs_all [OF dsk]) (simp add: oc_def)
  have plain: "sanitize_message orr oc (x, []) = Some [x]" if "\<not> is_tool_msg x" for x
    using that by (simp add: sanitize_message_def)
  have mids: "all_some (sanitize_message orr oc) (zip mid (map (\<lambda>x. []) mid)) = Some (map (\<lambda>x. [x]) mid)"
    using mid plain by (induction mid) simp_all
  have "\<not> is_tool_msg m0" "\<not> is_tool_msg m1" "assistant_calls m0 = Some []"
    using user assistant by (simp_all add: has_role_def assistant_calls_def)
  then have hh: "h = m0 # m1 # stubs_for ks @ mid"
    using h(1) mid_calls ds mids stubs plain
    by (simp add: repaired_head_def Let_def results_def [symmetric] oc_def [symmetric] orr_def [symmetric]
      sanitize_message_def)
  have "valid_pairs ms" "ms = m0 # m1 # drop 2 ms"
    using n append_take_drop_id [of 2 ms] ms(1) by (simp_all add: provider_valid_def)
  then have "valid_pairs (m1 # drop 2 ms)"
    using user valid_pairs_tl [of m0 "m1 # drop 2 ms"] by (simp add: declared_calls_def has_role_def)
  then have "distinct (map (map_option fst) (map call_key (declared_calls m1)))"
    using decl by (simp add: valid_pairs.simps(2) Let_def)
  moreover have "declared_calls m0 = []" using user by (simp add: declared_calls_def has_role_def)
  moreover have "valid_pairs mid" using mid
    by (induction mid) (auto simp: valid_pairs.simps(2) declared_calls_def)
  moreover have "length (declared_calls m1) = length ks" using calls(1) ms(3) by (metis length_map)
  moreover have "\<forall>r\<in>set (stubs_for ks). is_tool_msg r" "map result_id (stubs_for ks) = map (Some \<circ> fst) ks"
    "length (stubs_for ks) = length ks"
    by (simp_all add: stubs_for_def compression_stub_def has_role_def result_id_def jget_def)
  moreover have "map call_key (declared_calls m1) = map Some ks" using calls(1) ms(3) by simp
  ultimately have "valid_pairs (m0 # m1 # stubs_for ks @ mid)"
    using decl keys \<open>\<not> is_tool_msg m0\<close> \<open>\<not> is_tool_msg m1\<close> map_keys [of call_key "declared_calls m1" ks fst]
    by (simp add: valid_pairs.simps(2) [of m1] valid_pairs.simps(2) [of m0] Let_def comp_def)
  then have norm: "fst (normalize_tool_pairs h) = h" using normalize_pairs_id hh by simp
  have "\<forall>x\<in>set ms. known_role x" using n by (simp add: provider_valid_def)
  then have "\<forall>x\<in>set (m0 # m1 # mid). known_role x"
    using mid user assistant by (auto simp: known_role_def)
  then have "\<forall>x\<in>set r. known_role x"
    using repaired_head_known [OF h(1)] h(2) n by (metis Un_iff in_set_dropD provider_valid_def set_append)
  then have "out = h @ drop k ms"
    using normalize_known [of r] r(2) h(2) hh user normalize_pairs_append [OF tail, of h] norm by simp
  with hh ms(1) show ?thesis by simp
qed

definition sample_chat :: "message list" where
  "sample_chat =
     [user_msg ''q'',
      tool_calls_msg (\<lambda>j. ''{}'') [\<lparr>tc_id = ''a'', tc_name = ''f'', tc_arguments = JObj [], tc_metadata = None\<rparr>] None,
      tool_result_msg ''a'' ''f'' ''data'', assistant_msg ''x'', user_msg ''y'', assistant_msg ''zzzz'']"

lemma sample_chat_valid: "provider_valid sample_chat"
  by (simp add: sample_chat_def provider_valid_def valid_pairs.simps call_key_dict user_msg_def assistant_msg_def
      tool_calls_msg_def tool_result_msg_def declared_calls_def has_role_def jget_def known_role_def result_id_def)

lemmas sanitize_eval = sanitize_tool_pairs_def assistant_calls_def all_call_ids_def all_result_ids_def
  truthy_field_def truthy_def iterate_def dict_of_def List.map_filter_def sanitize_message_def call_name_def
  has_role_def jget_def user_msg_def assistant_msg_def tool_calls_msg_def tool_result_msg_def call_dict_def
  summary_msg_def

lemma sample_chat_spliced: "\<exists>out. splice_summary sample_chat 5 (Some ''S'') = Some out"
  by (simp add: splice_summary_def sample_chat_def sanitize_eval)

lemma head_results_are_lost_witness:
  "\<exists>out rest. splice_summary sample_chat 5 (Some ''S'') = Some out \<and>
     out = take 2 sample_chat @ stubs_for [(''a'', ''f'')] @ rest"
proof -
  obtain out where s: "splice_summary sample_chat 5 (Some ''S'') = Some out"
    using sample_chat_spliced by blast
  have "\<exists>rest. out = take 2 sample_chat @ stubs_for [(''a'', ''f'')] @ rest"
    by (rule head_results_are_lost [OF sample_chat_valid _ _ _ _ _ _ s])
      (simp_all add: sample_chat_def call_key_dict sanitize_eval declared_calls_def,
       simp_all add: call_key_def jget_def)
  with s show ?thesis by blast
qed

definition sample_settings :: compression_settings where
  "sample_settings = \<lparr>cs_enabled = True, max_context_tokens = 4, threshold_ratio = 1 / 2,
     protect_tail_tokens = 1, prune_min_messages = 10\<rparr>"

lemma sample_tokens: "all_some (message_tokens (\<lambda>j. [])) sample_chat = Some [0, 0, 1, 0, 0, 1]"
  by (simp add: sample_chat_def message_tokens_def call_tokens_def sanitize_eval py_str_def
      estimate_tokens_heuristic_def utf8_len_def)

lemma sample_turns: "format_turns_for_summary (\<lambda>j. []) (drop 2 (take 5 sample_chat)) =
    Some (join nl [''tool: data'', ''assistant: x'', ''user: y''])"
  by (simp add: sample_chat_def format_turns_for_summary_def turn_content_def sanitize_eval py_str_def
      str_field_def PLACEHOLDER_def Let_def)

lemma sample_compressed:
  "\<exists>out. compress (\<lambda>j. []) (\<lambda>p. Some ''S'') sample_settings sample_chat None None [] = ([], Some out)"
proof -
  have n: "norm_messages (normalize_transcript sample_chat) = sample_chat"
    using normalize_provider_id [OF sample_chat_valid] by simp
  have len: "length sample_chat = 6" by (simp add: sample_chat_def)
  have k: "find_tail_boundary [0, 0, 1, 0, 0, 1] sample_chat 1 = 5"
    unfolding find_tail_boundary_def len
    by (simp add: numeral_eq_Suc sample_chat_def has_role_def jget_def assistant_msg_def)
  note k' = k [unfolded One_nat_def]
  have "strip (join nl [''tool: data'', ''assistant: x'', ''user: y'']) \<noteq> []"
    unfolding strip_def strip_by_nonempty by (simp add: is_space_def is_space_cp_def)
  then show ?thesis
    using sample_chat_spliced
    by (simp add: compress_def n len sample_tokens sample_settings_def k' Let_def threshold_tokens_def
      generate_summary_def sample_turns)
qed

lemma compression_is_safe_witness:
  "\<exists>out. provider_valid out \<and>
    (out = sample_chat \<or>
     (\<exists>toks k pre. all_some (message_tokens (\<lambda>j. [])) sample_chat = Some toks \<and>
        out = pre @ drop k sample_chat \<and> pre \<noteq> [] \<and> hd pre = hd sample_chat \<and>
        protect_tail_tokens sample_settings \<le> int (sum_list (drop k toks))))"
proof -
  obtain out where c: "compress (\<lambda>j. []) (\<lambda>p. Some ''S'') sample_settings sample_chat None None [] = ([], Some out)"
    using sample_compressed by blast
  have n: "norm_messages (normalize_transcript sample_chat) = sample_chat"
    using normalize_provider_id [OF sample_chat_valid] by simp
  from compression_is_safe [OF c] show ?thesis unfolding n by blast
qed

end
