(* ===== verification/ContextStore.thy ===== *)
theory ContextStore
  imports Transcript
begin

text \<open>
  \<open>channels/web/chat_context_store.py\<close>: the table \<open>web_chat_context\<close> that keeps, per chat session, the
  messages the model saw. The table is the list of its rows in the order of their insertion; \<open>sessions\<close>
  are the ids of \<open>web_chat_sessions\<close> that the foreign key refers to. \<open>dumps\<close> and \<open>loads\<close> are \<open>json.dumps\<close>
  and \<open>json.loads\<close> (\<open>None\<close>: it raises), \<open>str_of\<close> is \<open>str\<close> of a value that is not a string. Faults of the
  disk are not modelled.
\<close>

section \<open>The table\<close>

record context_row =
  cr_session :: int
  cr_user :: string
  cr_role :: string
  cr_content :: string
  cr_calls :: "string option"
  cr_call_id :: "string option"
  cr_name :: "string option"
  cr_reasoning :: "string option"
  cr_seq :: int

type_synonym context_table = "context_row list"

datatype store_error = IntegrityError

text \<open>An \<open>INSERT\<close>: the foreign key and the unique index on (session, seq).\<close>

definition insert_context_row :: "int set \<Rightarrow> context_row \<Rightarrow> context_table \<Rightarrow> store_error + context_table" where
  "insert_context_row sessions row t =
     (if cr_session row \<notin> sessions \<or> (\<exists>r\<in>set t. cr_session r = cr_session row \<and> cr_seq r = cr_seq row)
      then Inl IntegrityError else Inr (t @ [row]))"

definition next_seq :: "int \<Rightarrow> context_table \<Rightarrow> int" where
  "next_seq session t =
     (case [cr_seq r. r \<leftarrow> t, cr_session r = session] of [] \<Rightarrow> 1 | s # ss \<Rightarrow> fold max ss s + 1)"

definition SEQ_COLLISION_RETRIES :: nat where
  "SEQ_COLLISION_RETRIES = 3"

text \<open>The sequence number is computed before the insertion; \<open>raced\<close> holds, per attempt, what another
  connection inserted in between.\<close>

fun append_attempts ::
    "int set \<Rightarrow> nat \<Rightarrow> (nat \<Rightarrow> context_row list) \<Rightarrow> context_row \<Rightarrow> context_table \<Rightarrow>
     context_table \<times> (store_error + int)" where
  "append_attempts sessions 0 raced row t = (t, Inl IntegrityError)"
| "append_attempts sessions (Suc k) raced row t =
     (let seq = next_seq (cr_session row) t; t' = t @ raced k
      in case insert_context_row sessions (row\<lparr>cr_seq := seq\<rparr>) t' of
           Inr t'' \<Rightarrow> (t'', Inr seq)
         | Inl e \<Rightarrow> append_attempts sessions k raced row t')"

text \<open>The keyword arguments of \<open>append_context\<close>, and the message they stand for.\<close>

record context_args =
  ca_role :: string
  ca_content :: string
  ca_calls :: "json list"
  ca_call_id :: "string option"
  ca_name :: "string option"
  ca_reasoning :: "string option"

definition args_row :: "(json \<Rightarrow> string) \<Rightarrow> int \<Rightarrow> string \<Rightarrow> int \<Rightarrow> context_args \<Rightarrow> context_row" where
  "args_row dumps session user seq a =
     \<lparr>cr_session = session, cr_user = user, cr_role = ca_role a, cr_content = ca_content a,
      cr_calls = (if ca_calls a = [] then None else Some (dumps (JArr (ca_calls a)))),
      cr_call_id = ca_call_id a, cr_name = ca_name a, cr_reasoning = ca_reasoning a, cr_seq = seq\<rparr>"

definition append_context ::
    "(json \<Rightarrow> string) \<Rightarrow> int set \<Rightarrow> (nat \<Rightarrow> context_row list) \<Rightarrow> int \<Rightarrow> string \<Rightarrow> context_args \<Rightarrow>
     context_table \<Rightarrow> context_table \<times> (store_error + int)" where
  "append_context dumps sessions raced session user a t =
     append_attempts sessions SEQ_COLLISION_RETRIES raced
       (args_row dumps session user 0 a) t"

text \<open>A value bound to a \<open>TEXT\<close> column: SQLite turns a number into its digits and refuses a list or a
  dictionary (\<open>None\<close>: the code raises).\<close>

definition bind_text :: "(json \<Rightarrow> string) \<Rightarrow> message \<Rightarrow> string \<Rightarrow> string option option" where
  "bind_text str_of m k =
     (case jget m k of
        None \<Rightarrow> Some None
      | Some JNull \<Rightarrow> Some None
      | Some (JStr s) \<Rightarrow> Some (Some s)
      | Some (JInt n) \<Rightarrow> Some (Some (str_of (JInt n)))
      | Some (JNum q) \<Rightarrow> Some (Some (str_of (JNum q)))
      | Some (JBool b) \<Rightarrow> Some (Some (str_of (JInt (if b then 1 else 0))))
      | Some _ \<Rightarrow> None)"

text \<open>The row that \<open>replace_context\<close> writes for a message.\<close>

definition row_of_message ::
    "(json \<Rightarrow> string) \<Rightarrow> (json \<Rightarrow> string) \<Rightarrow> int \<Rightarrow> string \<Rightarrow> int \<Rightarrow> message \<Rightarrow> context_row option" where
  "row_of_message dumps str_of session user seq m =
     (case (bind_text str_of m ''tool_call_id'', bind_text str_of m ''name'', bind_text str_of m ''reasoning'') of
        (Some call_id, Some name, Some reasoning) \<Rightarrow>
          Some \<lparr>cr_session = session, cr_user = user,
            cr_role = (case jget m ''role'' of None \<Rightarrow> ''user'' | Some v \<Rightarrow> py_str str_of v),
            cr_content = (case jget m ''content'' of None \<Rightarrow> [] | Some (JArr xs) \<Rightarrow> dumps (JArr xs)
                          | Some v \<Rightarrow> py_str str_of v),
            cr_calls = (case jget m ''tool_calls'' of None \<Rightarrow> None
                        | Some v \<Rightarrow> if truthy v then Some (dumps v) else None),
            cr_call_id = call_id, cr_name = name, cr_reasoning = reasoning, cr_seq = seq\<rparr>
      | _ \<Rightarrow> None)"

fun insert_messages ::
    "(json \<Rightarrow> string) \<Rightarrow> (json \<Rightarrow> string) \<Rightarrow> int set \<Rightarrow> int \<Rightarrow> string \<Rightarrow> int \<Rightarrow> message list \<Rightarrow> context_table \<Rightarrow>
     context_table option" where
  "insert_messages dumps str_of sessions session user seq [] t = Some t"
| "insert_messages dumps str_of sessions session user seq (m # ms) t =
     (case row_of_message dumps str_of session user seq m of
        None \<Rightarrow> None
      | Some row \<Rightarrow>
          (case insert_context_row sessions row t of
             Inl e \<Rightarrow> None
           | Inr t' \<Rightarrow> insert_messages dumps str_of sessions session user (seq + 1) ms t'))"

definition owned :: "int \<Rightarrow> string \<Rightarrow> context_row \<Rightarrow> bool" where
  "owned session user r \<longleftrightarrow> cr_session r = session \<and> cr_user r = user"

text \<open>A transaction: when it raises (\<open>False\<close>), the table is rolled back.\<close>

definition replace_context ::
    "(json \<Rightarrow> string) \<Rightarrow> (json \<Rightarrow> string) \<Rightarrow> int set \<Rightarrow> int \<Rightarrow> string \<Rightarrow> message list \<Rightarrow> context_table \<Rightarrow>
     context_table \<times> bool" where
  "replace_context dumps str_of sessions session user ms t =
     (case insert_messages dumps str_of sessions session user 1 ms (filter (\<lambda>r. \<not> owned session user r) t) of
        None \<Rightarrow> (t, False)
      | Some t' \<Rightarrow> (t', True))"

definition message_of_row :: "(string \<Rightarrow> json option) \<Rightarrow> context_row \<Rightarrow> message" where
  "message_of_row loads r =
     [(''role'', JStr (cr_role r)), (''content'', JStr (cr_content r))] @
     (case cr_calls r of None \<Rightarrow> []
      | Some raw \<Rightarrow> if raw = [] then []
                    else (case loads raw of None \<Rightarrow> [] | Some v \<Rightarrow> [(''tool_calls'', v)])) @
     (case cr_call_id r of None \<Rightarrow> [] | Some i \<Rightarrow> [(''tool_call_id'', JStr i)]) @
     (case cr_name r of None \<Rightarrow> [] | Some n \<Rightarrow> [(''name'', JStr n)]) @
     (case cr_reasoning r of None \<Rightarrow> [] | Some x \<Rightarrow> [(''reasoning'', JStr x)])"

definition list_context :: "(string \<Rightarrow> json option) \<Rightarrow> int \<Rightarrow> string \<Rightarrow> context_table \<Rightarrow> message list" where
  "list_context loads session user t =
     map (message_of_row loads) (sort_key cr_seq (filter (owned session user) t))"

definition clear_context :: "int \<Rightarrow> string \<Rightarrow> context_table \<Rightarrow> context_table \<times> nat" where
  "clear_context session user t =
     (filter (\<lambda>r. \<not> owned session user r) t, length (filter (owned session user) t))"

definition has_context :: "int \<Rightarrow> context_table \<Rightarrow> bool" where
  "has_context session t \<longleftrightarrow> (\<exists>r\<in>set t. cr_session r = session)"

section \<open>Lemmas\<close>

text \<open>The message that is stored for the arguments of a call; \<open>legible\<close>: the JSON text of its calls can be
  read back.\<close>

definition args_msg :: "context_args \<Rightarrow> message" where
  "args_msg a =
     [(''role'', JStr (ca_role a)), (''content'', JStr (ca_content a))] @
     (if ca_calls a = [] then [] else [(''tool_calls'', JArr (ca_calls a))]) @
     (case ca_call_id a of None \<Rightarrow> [] | Some i \<Rightarrow> [(''tool_call_id'', JStr i)]) @
     (case ca_name a of None \<Rightarrow> [] | Some n \<Rightarrow> [(''name'', JStr n)]) @
     (case ca_reasoning a of None \<Rightarrow> [] | Some x \<Rightarrow> [(''reasoning'', JStr x)])"

definition legible :: "(json \<Rightarrow> string) \<Rightarrow> (string \<Rightarrow> json option) \<Rightarrow> context_args \<Rightarrow> bool" where
  "legible dumps loads a \<longleftrightarrow>
     ca_calls a \<noteq> [] \<longrightarrow> dumps (JArr (ca_calls a)) \<noteq> [] \<and> loads (dumps (JArr (ca_calls a))) = Some (JArr (ca_calls a))"

lemma row_of_args: "row_of_message dumps str_of session user seq (args_msg a) = Some (args_row dumps session user seq a)"
  by (simp add: row_of_message_def args_msg_def args_row_def bind_text_def jget_def py_str_def truthy_def
      split: option.splits)

lemma message_of_args: "legible dumps loads a \<Longrightarrow> message_of_row loads (args_row dumps session user seq a) = args_msg a"
  by (auto simp: message_of_row_def args_row_def args_msg_def legible_def split: option.splits)

lemma sort_key_snoc: "\<forall>y\<in>set xs. f y \<le> f x \<Longrightarrow> sort_key f (xs @ [x]) = sort_key f xs @ [x]"
proof (induction xs)
  case (Cons a xs)
  have "insort_key f a (ys @ [x]) = insort_key f a ys @ [x]" for ys
    using Cons.prems by (induction ys) auto
  with Cons show ?case by simp
qed simp

lemma next_seq_greater:
  assumes "r \<in> set t" "cr_session r = session"
  shows "cr_seq r < next_seq session t"
proof -
  have "cr_seq r \<in> set [cr_seq r. r \<leftarrow> t, cr_session r = session]" using assms by auto
  then obtain s ss where s: "[cr_seq r. r \<leftarrow> t, cr_session r = session] = s # ss" "cr_seq r \<in> set (s # ss)"
    by (cases "[cr_seq r. r \<leftarrow> t, cr_session r = session]") (auto simp only: list.set empty_iff)
  moreover have "cr_seq r \<le> fold max ss s"
    unfolding Max.set_eq_fold [symmetric] by (rule Max_ge) (use s(2) in simp_all)
  ultimately show ?thesis by (simp add: next_seq_def)
qed

text \<open>The insertions of \<open>replace_context\<close>.\<close>

definition numbered_rows :: "(json \<Rightarrow> string) \<Rightarrow> int \<Rightarrow> string \<Rightarrow> int \<Rightarrow> context_args list \<Rightarrow> context_row list" where
  "numbered_rows dumps session user seq as =
     map (\<lambda>(i, a). args_row dumps session user (seq + int i) a) (zip [0..<length as] as)"

lemma numbered_rows_Cons:
  "numbered_rows dumps session user seq (a # as) =
     args_row dumps session user seq a # numbered_rows dumps session user (seq + 1) as"
proof -
  have "zip [0..<length (a # as)] (a # as) = (0, a) # map (\<lambda>(i, x). (Suc i, x)) (zip [0..<length as] as)"
    by (simp add: upt_conv_Cons map_Suc_upt [symmetric] zip_map1 del: upt_Suc)
  then show ?thesis
    by (simp add: numbered_rows_def case_prod_beta algebra_simps del: upt_Suc)
qed

lemma insert_messages_args:
  assumes "insert_messages dumps str_of sessions session user seq (map args_msg as) t = Some t'"
  shows "t' = t @ numbered_rows dumps session user seq as"
  using assms
proof (induction as arbitrary: seq t)
  case Nil
  then show ?case by (simp add: numbered_rows_def)
next
  case (Cons a as)
  from Cons.prems have
    "insert_messages dumps str_of sessions session user (seq + 1) (map args_msg as)
       (t @ [args_row dumps session user seq a]) = Some t'"
    by (simp add: row_of_args insert_context_row_def split: if_splits)
  from Cons.IH [OF this] show ?case by (simp add: numbered_rows_Cons)
qed

lemma insert_messages_succeeds:
  assumes "session \<in> sessions" "\<forall>r\<in>set t. cr_session r = session \<longrightarrow> cr_seq r < seq"
  shows "\<exists>t'. insert_messages dumps str_of sessions session user seq (map args_msg as) t = Some t'"
  using assms(2)
proof (induction as arbitrary: seq t)
  case (Cons a as)
  have "\<forall>r\<in>set (t @ [args_row dumps session user seq a]). cr_session r = session \<longrightarrow> cr_seq r < seq + 1"
    using Cons.prems by (auto simp: args_row_def)
  from Cons.IH [OF this] Cons.prems assms(1) show ?case
    by (auto simp: row_of_args insert_context_row_def args_row_def)
qed simp

lemma numbered_rows_fields:
  "r \<in> set (numbered_rows dumps session user seq as) \<Longrightarrow> owned session user r"
  by (auto simp: numbered_rows_def args_row_def owned_def)

lemma numbered_rows_sorted: "sorted (map cr_seq (numbered_rows dumps session user seq as))"
proof (induction as arbitrary: seq)
  case (Cons a as)
  have "\<forall>r\<in>set (numbered_rows dumps session user (seq + 1) as). seq \<le> cr_seq r"
    by (auto simp: numbered_rows_def args_row_def)
  with Cons show ?case by (simp add: numbered_rows_Cons args_row_def)
qed (simp add: numbered_rows_def)

lemma numbered_rows_messages:
  "\<forall>a\<in>set as. legible dumps loads a \<Longrightarrow> map (message_of_row loads) (numbered_rows dumps session user seq as) = map args_msg as"
proof (induction as arbitrary: seq)
  case (Cons a as)
  then show ?case by (simp add: numbered_rows_Cons message_of_args)
qed (simp add: numbered_rows_def)

lemma list_others:
  assumes "filter (owned s u) t' = filter (owned s u) t"
  shows "list_context loads s u t' = list_context loads s u t"
  using assms by (simp add: list_context_def)

lemma owned_unique: "owned s u r \<Longrightarrow> owned s' u' r \<longleftrightarrow> s' = s \<and> u' = u"
  by (auto simp: owned_def)

lemma replace_lists:
  assumes "replace_context dumps str_of sessions session user (map args_msg as) t = (t', True)"
    and "\<forall>a\<in>set as. legible dumps loads a"
  shows "list_context loads session user t' = map args_msg as \<and>
    (\<forall>s u. (s, u) \<noteq> (session, user) \<longrightarrow> list_context loads s u t' = list_context loads s u t)"
proof -
  have t': "t' = filter (\<lambda>r. \<not> owned session user r) t @ numbered_rows dumps session user 1 as"
    using assms(1) insert_messages_args by (auto simp: replace_context_def split: option.splits)
  have new: "\<forall>r\<in>set (numbered_rows dumps session user 1 as). owned session user r"
    using numbered_rows_fields by blast
  have "filter (owned session user) t' = numbered_rows dumps session user 1 as"
    using new by (simp add: t')
  then have "list_context loads session user t' = map args_msg as"
    by (simp add: list_context_def sort_key_id_if_sorted numbered_rows_sorted numbered_rows_messages [OF assms(2)])
  moreover have "filter (owned s u) t' = filter (owned s u) t" if "(s, u) \<noteq> (session, user)" for s u
  proof -
    have "filter (owned s u) (numbered_rows dumps session user 1 as) = []"
      using new owned_unique that by (fastforce simp: filter_empty_conv)
    moreover have "filter (owned s u) (filter (\<lambda>r. \<not> owned session user r) t) = filter (owned s u) t"
      unfolding filter_filter using owned_unique that by (intro filter_cong) fastforce+
    ultimately show ?thesis by (simp add: t')
  qed
  ultimately show ?thesis using list_others by blast
qed

lemma append_lists:
  assumes "session \<in> sessions" "legible dumps loads a" "\<forall>k. raced k = []"
    and "append_context dumps sessions raced session user a t = (t', res)"
  shows "res = Inr (next_seq session t) \<and> list_context loads session user t' = list_context loads session user t @ [args_msg a] \<and>
    (\<forall>s u. (s, u) \<noteq> (session, user) \<longrightarrow> list_context loads s u t' = list_context loads s u t)"
proof -
  let ?row = "args_row dumps session user (next_seq session t) a"
  have fresh: "\<forall>r\<in>set t. cr_session r = session \<longrightarrow> cr_seq r \<noteq> next_seq session t"
    using next_seq_greater by fastforce
  then have ins: "insert_context_row sessions ?row t = Inr (t @ [?row])"
    using assms(1) by (auto simp: insert_context_row_def args_row_def)
  have "cr_session (args_row dumps session user 0 a) = session"
    "(args_row dumps session user 0 a)\<lparr>cr_seq := next_seq session t\<rparr> = ?row"
    by (simp_all add: args_row_def)
  with ins assms(3,4) have t': "t' = t @ [?row] \<and> res = Inr (next_seq session t)"
    by (simp add: append_context_def SEQ_COLLISION_RETRIES_def numeral_3_eq_3 Let_def)
  have row: "owned session user ?row" by (simp add: owned_def args_row_def)
  have "\<forall>r\<in>set (filter (owned session user) t). cr_seq r \<le> cr_seq ?row"
    using next_seq_greater by (fastforce simp: owned_def args_row_def)
  then have "list_context loads session user t' = list_context loads session user t @ [args_msg a]"
    using t' row by (simp add: list_context_def sort_key_snoc message_of_args [OF assms(2)] del: sort_key_simps)
  moreover have "filter (owned s u) t' = filter (owned s u) t" if "(s, u) \<noteq> (session, user)" for s u
    using t' owned_unique [OF row, of s u] that by auto
  ultimately show ?thesis using t' list_others by blast
qed


section \<open>Properties\<close>


definition sample_args :: "string \<Rightarrow> context_args" where
  "sample_args text = \<lparr>ca_role = ''user'', ca_content = text, ca_calls = [], ca_call_id = None, ca_name = None,
     ca_reasoning = None\<rparr>"


end
