(* ===== verification/ModelReply.thy ===== *)
theory ModelReply
  imports Transcript
begin

text \<open>
  How an answer of a model becomes text and tool calls: the XML fallback of \<open>llm/xml_tool_calling.py\<close> and
  the post-processing of \<open>llm/openai.py\<close> (\<open>_parse_reasoning\<close>, \<open>_tool_calls_from_native\<close>,
  \<open>_resolve_reasoning_fallback\<close>, \<open>_finalize_response\<close>). \<open>loads\<close> is \<open>json.loads\<close> (\<open>None\<close>: it raises);
  a regular expression is the scanner that finds its leftmost match.
\<close>

section \<open>Scanning\<close>

definition matches :: "bool \<Rightarrow> string \<Rightarrow> string \<Rightarrow> bool" where
  "matches ignore_case s pat = starts_with (if ignore_case then lower s else s) pat"

text \<open>The text before and after the first occurrence of a pattern.\<close>

fun split_first :: "bool \<Rightarrow> string \<Rightarrow> string \<Rightarrow> (string \<times> string) option" where
  "split_first ic pat [] = (if pat = [] then Some ([], []) else None)"
| "split_first ic pat (c # s) =
     (if matches ic (c # s) pat then Some ([], drop (length pat) (c # s))
      else map_option (\<lambda>(before, after). (c # before, after)) (split_first ic pat s))"

text \<open>The text before a pattern that ends a string.\<close>

definition before_suffix :: "string \<Rightarrow> string \<Rightarrow> string option" where
  "before_suffix pat s =
     (if length pat \<le> length s \<and> drop (length s - length pat) s = pat
      then Some (take (length s - length pat) s) else None)"

lemma split_first_length: "split_first ic pat s = Some (a, b) \<Longrightarrow> length a + length pat + length b = length s"
proof (induction s arbitrary: a)
  case (Cons c s)
  show ?case
  proof (cases "matches ic (c # s) pat")
    case True
    then have "length pat \<le> length (c # s)"
      by (auto simp: matches_def starts_with_iff lower_def dest!: arg_cong [where f = length] split: if_splits)
    with True Cons.prems show ?thesis by auto
  next
    case False
    with Cons show ?thesis by auto
  qed
qed (auto split: if_splits)

section \<open>XML tool calls\<close>

text \<open>\<open><\s*/?\s*(?:tool_call|name|arguments|function=)\b\<close>\<close>

definition marker_tail :: "string \<Rightarrow> bool" where
  "marker_tail s =
     (let t = dropWhile is_space s;
          u = (case t of CHR 0x2F # r \<Rightarrow> dropWhile is_space r | _ \<Rightarrow> t)
      in (\<exists>w\<in>{''tool_call'', ''name'', ''arguments''}. matches True u w \<and>
            (case drop (length w) u of [] \<Rightarrow> True | c # _ \<Rightarrow> \<not> is_word c)) \<or>
         matches True u ''function='' \<and>
           (case drop 9 u of [] \<Rightarrow> False | c # _ \<Rightarrow> is_word c))"

fun contains_xml_tool_call_markers :: "string \<Rightarrow> bool" where
  "contains_xml_tool_call_markers [] = False"
| "contains_xml_tool_call_markers (c # s) =
     (c = CHR ''<'' \<and> marker_tail s \<or> contains_xml_tool_call_markers s)"

text \<open>\<open><tool_call>\s*(?P<body>.*?)\s*</tool_call>\<close>, without case: the bodies of all matches.\<close>

function xml_blocks :: "string \<Rightarrow> string list" where
  "xml_blocks s =
     (case split_first True ''<tool_call>'' s of
        None \<Rightarrow> []
      | Some (_, rest) \<Rightarrow>
          (case split_first True ''</tool_call>'' rest of
             None \<Rightarrow> []
           | Some (body, rest') \<Rightarrow> strip body # xml_blocks rest'))"
  by pat_completeness auto
termination
proof (relation "measure length", simp, goal_cases)
  case (1 s x before rest y body rest')
  from 1 split_first_length [of True "''<tool_call>''" s before rest]
    split_first_length [of True "''</tool_call>''" rest body rest']
  show ?case by simp
qed

declare xml_blocks.simps [simp del]

text \<open>\<open><parameter=(?P<key>[^>]+)>\s*(?P<value>.*?)\s*</parameter>\<close>\<close>

function qwen_params :: "string \<Rightarrow> (string \<times> string) list" where
  "qwen_params s =
     (case split_first False ''<parameter='' s of
        None \<Rightarrow> []
      | Some (_, rest) \<Rightarrow>
          (let key = takeWhile (\<lambda>c. c \<noteq> CHR ''>'') rest; r = dropWhile (\<lambda>c. c \<noteq> CHR ''>'') rest in
           if key = [] \<or> r = [] then qwen_params rest
           else
             (case split_first False ''</parameter>'' (tl r) of
                None \<Rightarrow> []
              | Some (v, rest') \<Rightarrow> (strip key, strip v) # qwen_params rest')))"
  by pat_completeness auto
termination
proof (relation "measure length", simp, goal_cases)
  case (1 s x before rest key r)
  from 1 split_first_length [of False "''<parameter=''" s before rest] show ?case by simp
next
  case (2 s x before rest key r y v rest')
  have "length r \<le> length rest" using 2(4) by (simp add: length_dropWhile_le)
  with 2 split_first_length [of False "''<parameter=''" s before rest]
    split_first_length [of False "''</parameter>''" "tl r" v rest']
  show ?case by simp
qed

declare qwen_params.simps [simp del]

record xml_result =
  xr_status :: string
  xr_calls :: "llm_tool_call list"
  xr_error :: "(string \<times> string) option"

definition xml_error :: "string \<Rightarrow> string \<Rightarrow> string \<Rightarrow> xml_result" where
  "xml_error status code msg = \<lparr>xr_status = status, xr_calls = [], xr_error = Some (code, msg)\<rparr>"

definition xml_valid :: "llm_tool_call list \<Rightarrow> xml_result" where
  "xml_valid calls = \<lparr>xr_status = ''valid'', xr_calls = calls, xr_error = None\<rparr>"

definition not_allowed :: "(string \<Rightarrow> string) \<Rightarrow> string \<Rightarrow> xml_result" where
  "not_allowed repr name =
     xml_error ''invalid_tool_name'' ''invalid_tool_name''
       (''Tool '' @ repr name @ '' is not in the allowed tool set.'')"

definition xml_call :: "nat \<Rightarrow> string \<Rightarrow> (string \<times> json) list \<Rightarrow> llm_tool_call" where
  "xml_call index name args =
     \<lparr>tc_id = ''xml-tool-call-'' @ nat_str index, tc_name = name, tc_arguments = JObj args, tc_metadata = None\<rparr>"

definition disallowed :: "string list option \<Rightarrow> string \<Rightarrow> bool" where
  "disallowed allowed name \<longleftrightarrow> (case allowed of None \<Rightarrow> False | Some names \<Rightarrow> name \<notin> set names)"

definition qwen_arguments :: "(string \<Rightarrow> json option) \<Rightarrow> string \<Rightarrow> (string \<times> json) list" where
  "qwen_arguments loads params =
     fold (\<lambda>(k, v). dput k (case loads v of Some j \<Rightarrow> j | None \<Rightarrow> JStr v)) (qwen_params params) []"

definition parse_qwen3_body ::
    "(string \<Rightarrow> string) \<Rightarrow> (string \<Rightarrow> json option) \<Rightarrow> string list option \<Rightarrow> string \<Rightarrow> nat \<Rightarrow> xml_result" where
  "parse_qwen3_body repr loads allowed body index =
     (let malformed = xml_error ''malformed_xml'' ''malformed_xml'' ''No valid Qwen3 <function=...> block found.'';
          s = strip body; t = drop 10 s;
          raw_name = takeWhile (\<lambda>c. c \<noteq> CHR ''>'') t; r = dropWhile (\<lambda>c. c \<noteq> CHR ''>'') t
      in if \<not> starts_with s ''<function='' \<or> raw_name = [] \<or> r = [] then malformed
         else
           (case before_suffix ''</function>'' (tl r) of
              None \<Rightarrow> malformed
            | Some params \<Rightarrow>
                (let name = strip raw_name in
                 if disallowed allowed name then not_allowed repr name
                 else xml_valid [xml_call index name (qwen_arguments loads (strip params))])))"

definition parse_standard_body ::
    "(string \<Rightarrow> string) \<Rightarrow> (string \<Rightarrow> json option) \<Rightarrow> string list option \<Rightarrow> string \<Rightarrow> nat \<Rightarrow> xml_result" where
  "parse_standard_body repr loads allowed body index =
     (let malformed = xml_error ''malformed_xml'' ''malformed_xml''
            ''No valid <name>/<arguments> XML tool-call block found.'';
          s = strip body; t = drop 6 s;
          raw_name = takeWhile (\<lambda>c. c \<noteq> CHR ''<'') t; r = dropWhile (\<lambda>c. c \<noteq> CHR ''<'') t;
          u = dropWhile is_space (drop 7 r)
      in if \<not> starts_with s ''<name>'' \<or> raw_name = [] \<or> \<not> starts_with r ''</name>'' \<or>
            \<not> starts_with u ''<arguments>''
         then malformed
         else
           (case before_suffix ''</arguments>'' (drop 11 u) of
              None \<Rightarrow> malformed
            | Some args \<Rightarrow>
                (let name = strip raw_name; raw = strip args in
                 if disallowed allowed name then not_allowed repr name
                 else
                   (case (if raw = [] then Some (JObj []) else loads raw) of
                      None \<Rightarrow> xml_error ''invalid_arguments'' ''invalid_json'' ''Tool arguments must be valid JSON.''
                    | Some (JObj d) \<Rightarrow> xml_valid [xml_call index name d]
                    | Some _ \<Rightarrow> xml_error ''invalid_arguments'' ''expected_object''
                        ''Tool arguments must decode to a JSON object.''))))"

fun parse_blocks ::
    "(string \<Rightarrow> string) \<Rightarrow> (string \<Rightarrow> json option) \<Rightarrow> string list option \<Rightarrow> nat \<Rightarrow> string list \<Rightarrow> llm_tool_call list \<Rightarrow>
     xml_result" where
  "parse_blocks repr loads allowed index [] acc = xml_valid acc"
| "parse_blocks repr loads allowed index (body # bodies) acc =
     (let result = (if contains body ''<function=''
                    then parse_qwen3_body repr loads allowed body index
                    else parse_standard_body repr loads allowed body index)
      in if xr_status result \<noteq> ''valid'' then result
         else parse_blocks repr loads allowed (Suc index) bodies (acc @ xr_calls result))"

definition parse_xml_tool_calls ::
    "(string \<Rightarrow> string) \<Rightarrow> (string \<Rightarrow> json option) \<Rightarrow> string list option \<Rightarrow> string \<Rightarrow> xml_result" where
  "parse_xml_tool_calls repr loads allowed content =
     (if xml_blocks content = [] then
        (if \<not> contains_xml_tool_call_markers content
         then xml_error ''no_tool_call'' ''no_tool_call'' ''No XML tool-call markers detected.''
         else xml_error ''malformed_xml'' ''malformed_xml'' ''No valid <tool_call> block found.'')
      else parse_blocks repr loads allowed 1 (xml_blocks content) [])"

definition build_xml_repair_prompt :: "string \<Rightarrow> string" where
  "build_xml_repair_prompt error_message =
     ''Your previous tool-call output was invalid. '' @ ''Error: '' @ error_message @ '' '' @
     ''Return valid tool calls through the configured tool-calling format, or answer normally '' @
     ''if no tool is needed. Do not expose raw <tool_call> XML to the user.''"

section \<open>The response of an OpenAI-compatible server\<close>

datatype thinking_parser = NativeThinking | ContentThinking string string

record native_call =
  nc_id :: string
  nc_name :: string
  nc_arguments :: string

record raw_message =
  rm_content :: string
  rm_reasoning :: "string option"
  rm_calls :: "native_call list"

text \<open>\<open>_parse_reasoning\<close>: reasoning and content; \<open>None\<close> when \<open>str.index\<close> raises.\<close>

definition parse_reasoning :: "thinking_parser option \<Rightarrow> raw_message \<Rightarrow> (string \<times> string) option" where
  "parse_reasoning cfg m =
     (case cfg of
        None \<Rightarrow> Some ([], rm_content m)
      | Some NativeThinking \<Rightarrow> Some (case rm_reasoning m of None \<Rightarrow> [] | Some r \<Rightarrow> r, rm_content m)
      | Some (ContentThinking open_tag close_tag) \<Rightarrow>
          (let raw = rm_content m in
           if contains raw open_tag \<and> contains raw close_tag then
             (case split_first False open_tag raw of
                None \<Rightarrow> None
              | Some (_, rest) \<Rightarrow>
                  map_option (\<lambda>(reasoning, after). (strip reasoning, strip after))
                    (split_first False close_tag rest))
           else Some ([], raw)))"

text \<open>\<open>_tool_calls_from_native\<close>: \<open>None\<close> when the arguments are no dictionary, which \<open>ToolCall\<close> refuses.\<close>

definition native_call_args :: "(string \<Rightarrow> json option) \<Rightarrow> native_call \<Rightarrow> json option" where
  "native_call_args loads nc =
     (case loads (nc_arguments nc) of
        None \<Rightarrow> Some (JObj [(''__raw__'', JStr (nc_arguments nc))])
      | Some (JObj d) \<Rightarrow> Some (JObj d)
      | Some _ \<Rightarrow> None)"

definition tool_calls_from_native ::
    "(string \<Rightarrow> json option) \<Rightarrow> string list \<Rightarrow> native_call list \<Rightarrow> llm_tool_call list option" where
  "tool_calls_from_native loads allowed calls =
     all_some (\<lambda>nc. map_option (\<lambda>args. \<lparr>tc_id = nc_id nc, tc_name = nc_name nc, tc_arguments = args, tc_metadata = None\<rparr>)
         (native_call_args loads nc))
       (filter (\<lambda>nc. nc_name nc \<in> set allowed) calls)"

definition REASONING_FALLBACK_MIN_CHARS :: nat where
  "REASONING_FALLBACK_MIN_CHARS = 100"

text \<open>\<open>offered\<close> are the names of the tools of the request, \<open>None\<close> when there are none.\<close>

definition resolve_reasoning_fallback ::
    "(string \<Rightarrow> string) \<Rightarrow> (string \<Rightarrow> json option) \<Rightarrow> string list option \<Rightarrow> string option \<Rightarrow> raw_message \<Rightarrow>
     string \<times> llm_tool_call list \<Rightarrow> string \<times> llm_tool_call list" where
  "resolve_reasoning_fallback repr loads offered finish_reason m st =
     (let (content, calls) = st; text = (case rm_reasoning m of None \<Rightarrow> [] | Some r \<Rightarrow> r) in
      if content \<noteq> [] \<or> rm_calls m \<noteq> [] \<or> finish_reason \<noteq> Some ''stop'' \<or> text = [] then (content, calls)
      else
        (let plain = (if length (strip text) < REASONING_FALLBACK_MIN_CHARS then (content, calls)
                      else (strip text, calls))
         in case offered of
              None \<Rightarrow> plain
            | Some names \<Rightarrow>
                if contains text ''<tool_call>'' \<or> contains text ''<function='' then
                  (let result = parse_xml_tool_calls repr loads (Some names) text in
                   if xr_calls result \<noteq> [] then ([], calls @ xr_calls result) else plain)
                else plain))"

definition finalize_response ::
    "(string \<Rightarrow> string) \<Rightarrow> (string \<Rightarrow> json option) \<Rightarrow> string list option \<Rightarrow> string option \<Rightarrow> raw_message \<Rightarrow> string \<Rightarrow>
     (string \<times> llm_tool_call list) option" where
  "finalize_response repr loads offered finish_reason m content =
     map_option (\<lambda>native.
       let (content1, calls) = resolve_reasoning_fallback repr loads offered finish_reason m (content, native) in
       case offered of
         None \<Rightarrow> (content1, calls)
       | Some names \<Rightarrow>
           if calls = [] \<and> content1 \<noteq> [] then
             (let result = parse_xml_tool_calls repr loads (Some names) content1 in
              if xr_calls result \<noteq> [] then ([], xr_calls result) else (content1, calls))
           else (content1, calls))
       (tool_calls_from_native loads (case offered of None \<Rightarrow> [] | Some names \<Rightarrow> names) (rm_calls m))"

section \<open>Lemmas\<close>

definition digits_value :: "string \<Rightarrow> nat" where
  "digits_value s = foldl (\<lambda>a c. 10 * a + (cp c - 48)) 0 s"

lemma digits_value_nat_str: "digits_value (nat_str n) = n"
proof (induction n rule: nat_str.induct)
  case (1 n)
  have d: "of_char (digit_char k) - 48 = k" if "k < 10" for k :: nat
    using that by (simp add: digit_char_def)
  show ?case
  proof (cases "n < 10")
    case True
    then show ?thesis using d [of n] by (subst nat_str.simps) (simp add: digits_value_def)
  next
    case False
    then show ?thesis using 1 d [of "n mod 10"] by (subst nat_str.simps) (simp add: digits_value_def)
  qed
qed

lemma nat_str_inj: "nat_str m = nat_str n \<longleftrightarrow> m = n"
  using digits_value_nat_str by metis

definition body_ok :: "string list option \<Rightarrow> nat \<Rightarrow> xml_result \<Rightarrow> bool" where
  "body_ok allowed index r \<longleftrightarrow>
     (if xr_status r = ''valid'' then \<exists>name d. xr_calls r = [xml_call index name d] \<and> \<not> disallowed allowed name
      else xr_calls r = [])"

lemma body_ok_results:
  "body_ok allowed index (xml_error ''malformed_xml'' c m)" "body_ok allowed index (xml_error ''invalid_arguments'' c m)"
  "body_ok allowed index (not_allowed repr name)"
  "\<not> disallowed allowed name \<Longrightarrow> body_ok allowed index (xml_valid [xml_call index name d])"
  by (auto simp: body_ok_def xml_error_def not_allowed_def xml_valid_def)

lemma qwen3_body_ok: "body_ok allowed index (parse_qwen3_body repr loads allowed body index)"
  unfolding parse_qwen3_body_def Let_def by (simp add: body_ok_results split: option.split)

lemma standard_body_ok: "body_ok allowed index (parse_standard_body repr loads allowed body index)"
  unfolding parse_standard_body_def Let_def by (simp add: body_ok_results split: option.split json.split)

definition call_good :: "string list option \<Rightarrow> llm_tool_call \<Rightarrow> bool" where
  "call_good allowed tc \<longleftrightarrow> \<not> disallowed allowed (tc_name tc) \<and> (case tc_arguments tc of JObj d \<Rightarrow> True | _ \<Rightarrow> False)"

lemma call_goodD: "call_good (Some names) tc \<Longrightarrow> tc_name tc \<in> set names \<and> (\<exists>d. tc_arguments tc = JObj d)"
  by (cases "tc_arguments tc") (auto simp: call_good_def disallowed_def)

lemma parse_blocks_calls:
  assumes "xr_calls (parse_blocks repr loads allowed index bodies acc) \<noteq> []"
  shows "map tc_id (xr_calls (parse_blocks repr loads allowed index bodies acc)) =
      map tc_id acc @ map (\<lambda>i. ''xml-tool-call-'' @ nat_str i) [index..<index + length bodies] \<and>
    (\<forall>tc\<in>set (xr_calls (parse_blocks repr loads allowed index bodies acc)). tc \<in> set acc \<or> call_good allowed tc)"
  using assms
proof (induction bodies arbitrary: index acc)
  case Nil
  then show ?case by (simp add: xml_valid_def)
next
  case (Cons body bodies)
  define r where "r = (if contains body ''<function='' then parse_qwen3_body repr loads allowed body index
      else parse_standard_body repr loads allowed body index)"
  have r: "body_ok allowed index r"
    by (simp add: r_def qwen3_body_ok standard_body_ok)
  have valid: "xr_status r = ''valid''"
    using Cons.prems r unfolding body_ok_def by (auto simp: r_def [symmetric] split: if_splits)
  then obtain name d where call: "xr_calls r = [xml_call index name d]" "\<not> disallowed allowed name"
    using r by (auto simp: body_ok_def)
  have step: "parse_blocks repr loads allowed index (body # bodies) acc =
      parse_blocks repr loads allowed (Suc index) bodies (acc @ [xml_call index name d])"
    using valid call(1) by (simp add: r_def [symmetric])
  have "call_good allowed (xml_call index name d)" using call(2) by (simp add: call_good_def xml_call_def)
  moreover have "[index..<index + length (body # bodies)] = index # [Suc index..<Suc index + length bodies]"
    by (simp add: upt_conv_Cons del: upt_Suc)
  moreover have "tc_id (xml_call index name d) = ''xml-tool-call-'' @ nat_str index"
    by (simp add: xml_call_def)
  ultimately show ?case
    using Cons.IH [of "Suc index" "acc @ [xml_call index name d]"] Cons.prems unfolding step
    by (simp del: append_Cons upt_Suc) metis
qed

lemma xml_calls_good:
  assumes "xr_calls (parse_xml_tool_calls repr loads allowed content) \<noteq> []"
  shows "distinct (map tc_id (xr_calls (parse_xml_tool_calls repr loads allowed content))) \<and>
    (\<forall>tc\<in>set (xr_calls (parse_xml_tool_calls repr loads allowed content)). call_good allowed tc)"
proof -
  have eq: "parse_xml_tool_calls repr loads allowed content = parse_blocks repr loads allowed 1 (xml_blocks content) []"
    using assms by (auto simp: parse_xml_tool_calls_def xml_error_def split: if_splits)
  show ?thesis
    using parse_blocks_calls [of repr loads allowed 1 "xml_blocks content" "[]"] assms
    unfolding eq by (auto simp: distinct_map inj_on_def nat_str_inj)
qed

lemma native_calls_good:
  assumes "tool_calls_from_native loads allowed ncs = Some calls"
  shows "map tc_id calls = map nc_id (filter (\<lambda>nc. nc_name nc \<in> set allowed) ncs) \<and>
    (\<forall>tc\<in>set calls. call_good (Some allowed) tc)"
proof -
  have "map (\<lambda>nc. map_option (\<lambda>args. \<lparr>tc_id = nc_id nc, tc_name = nc_name nc, tc_arguments = args, tc_metadata = None\<rparr>)
      (native_call_args loads nc)) (filter (\<lambda>nc. nc_name nc \<in> set allowed) ncs) = map Some calls"
    using all_some_map assms by (simp add: tool_calls_from_native_def)
  moreover have "map tc_id calls = map nc_id xs \<and> (\<forall>tc\<in>set calls. call_good (Some allowed) tc)"
    if "map (\<lambda>nc. map_option (\<lambda>args. \<lparr>tc_id = nc_id nc, tc_name = nc_name nc, tc_arguments = args, tc_metadata = None\<rparr>)
      (native_call_args loads nc)) xs = map Some calls" "\<forall>nc\<in>set xs. nc_name nc \<in> set allowed" for xs
    using that
  proof (induction xs arbitrary: calls)
    case (Cons nc xs)
    then obtain tc rest where "calls = tc # rest" by (cases calls) auto
    with Cons.prems Cons.IH [of rest] show ?case
      by (auto simp: call_good_def disallowed_def native_call_args_def split: option.splits json.splits)
  qed simp
  ultimately show ?thesis by simp
qed

section \<open>Properties\<close>

text \<open>C5: a model can only call what it was offered. Every call of a response, whether native or parsed from
  XML in the content or in the reasoning, names a tool of the request's schema and has an object as its
  arguments; calls parsed from XML have distinct ids and leave no text behind, native calls keep the ids the
  server gave them.\<close>
lemma calls_were_offered:
  assumes "finalize_response repr loads offered finish_reason m content = Some (reply, calls)"
  shows "(\<forall>tc\<in>set calls. \<exists>names d. offered = Some names \<and> tc_name tc \<in> set names \<and> tc_arguments tc = JObj d) \<and>
    (map tc_id calls = map nc_id (filter (\<lambda>nc. offered \<noteq> None \<and> nc_name nc \<in> set (the offered)) (rm_calls m)) \<or>
     distinct (map tc_id calls) \<and> reply = [])"
proof (cases offered)
  case None
  then have "tool_calls_from_native loads [] (rm_calls m) = Some []" by (simp add: tool_calls_from_native_def)
  with None assms show ?thesis
    by (auto simp: finalize_response_def resolve_reasoning_fallback_def Let_def split: if_splits)
next
  case (Some names)
  obtain native where native: "tool_calls_from_native loads names (rm_calls m) = Some native"
    using assms Some by (auto simp: finalize_response_def)
  have native_ids: "map tc_id native = map nc_id (filter (\<lambda>nc. nc_name nc \<in> set names) (rm_calls m))"
    and native_good: "\<forall>tc\<in>set native. call_good (Some names) tc"
    using native_calls_good [OF native] by simp_all
  define xml where "xml s = xr_calls (parse_xml_tool_calls repr loads (Some names) s)" for s
  have origin: "calls = native \<or> (\<exists>s. calls = xml s \<and> xml s \<noteq> [] \<and> reply = [])"
  proof -
    have empty: "rm_calls m = [] \<Longrightarrow> native = []"
      using native by (simp add: tool_calls_from_native_def)
    obtain content1 calls1 where first: "resolve_reasoning_fallback repr loads (Some names) finish_reason m (content, native) =
        (content1, calls1)" by fastforce
    then have one: "calls1 = native \<or> (\<exists>s. calls1 = xml s \<and> xml s \<noteq> [] \<and> content1 = [])"
      using empty by (auto simp: resolve_reasoning_fallback_def Let_def xml_def [symmetric] split: if_splits)
    have "(reply, calls) = (if calls1 = [] \<and> content1 \<noteq> [] then
        (if xml content1 \<noteq> [] then ([], xml content1) else (content1, calls1)) else (content1, calls1))"
      using assms Some native first by (auto simp: finalize_response_def Let_def xml_def split: if_splits)
    with one show ?thesis by (auto split: if_splits)
  qed
  have good: "\<forall>tc\<in>set calls. call_good (Some names) tc"
    using origin native_good xml_calls_good [of repr loads "Some names"] by (auto simp: xml_def)
  have "map tc_id calls = map nc_id (filter (\<lambda>nc. nc_name nc \<in> set names) (rm_calls m)) \<or>
      distinct (map tc_id calls) \<and> reply = []"
    using origin native_ids xml_calls_good [of repr loads "Some names"] by (auto simp: xml_def)
  moreover have "\<forall>tc\<in>set calls. tc_name tc \<in> set names \<and> (\<exists>d. tc_arguments tc = JObj d)"
    using good call_goodD by blast
  ultimately show ?thesis using Some by simp
qed

definition sample_raw :: raw_message where
  "sample_raw = \<lparr>rm_content = ''hi'', rm_reasoning = None,
     rm_calls = [\<lparr>nc_id = ''c1'', nc_name = ''f'', nc_arguments = ''{}''\<rparr>,
       \<lparr>nc_id = ''c2'', nc_name = ''rm'', nc_arguments = ''{}''\<rparr>]\<rparr>"

lemma sample_final: "finalize_response id (\<lambda>s. Some (JObj [])) (Some [''f'']) None sample_raw ''hi'' =
    Some (''hi'', [\<lparr>tc_id = ''c1'', tc_name = ''f'', tc_arguments = JObj [], tc_metadata = None\<rparr>])"
  by (simp add: finalize_response_def sample_raw_def tool_calls_from_native_def native_call_args_def
      resolve_reasoning_fallback_def)

lemma calls_were_offered_witness:
  "\<exists>names d. Some [''f''] = Some names \<and> ''f'' \<in> set names \<and> JObj [] = JObj d"
  using calls_were_offered [OF sample_final] by simp

subsection \<open>The documented format is read back\<close>

definition render_call :: "(json \<Rightarrow> string) \<Rightarrow> string \<times> (string \<times> json) list \<Rightarrow> string" where
  "render_call dumps call =
     ''<tool_call><name>'' @ fst call @ ''</name><arguments>'' @ dumps (JObj (snd call)) @ ''</arguments></tool_call>''"

definition renderable :: "(json \<Rightarrow> string) \<Rightarrow> (string \<Rightarrow> json option) \<Rightarrow> string \<times> (string \<times> json) list \<Rightarrow> bool" where
  "renderable dumps loads call \<longleftrightarrow>
     (let text = dumps (JObj (snd call)) in
      fst call \<noteq> [] \<and> CHR ''<'' \<notin> set (fst call) \<and> strip (fst call) = fst call \<and>
      text \<noteq> [] \<and> CHR ''<'' \<notin> set text \<and> strip text = text \<and> loads text = Some (JObj (snd call)))"

lemma split_first_skip:
  "CHR ''<'' \<notin> set pre \<Longrightarrow> split_first ic (CHR ''<'' # pat) (pre @ s) =
     map_option (\<lambda>(a, b). (pre @ a, b)) (split_first ic (CHR ''<'' # pat) s)"
proof (induction pre)
  case (Cons c pre)
  have "cp c \<noteq> 60" if "c \<noteq> CHR ''<''" 
    using that of_char_eq_iff [of c "CHR ''<''", where ?'a = nat] by simp
  then have "cp (to_lower c) \<noteq> 60" if "c \<noteq> CHR ''<''" using that by (auto simp: to_lower_def Let_def)
  then have "to_lower c \<noteq> CHR ''<''" if "c \<noteq> CHR ''<''" using that by fastforce
  with Cons show ?case by (auto simp: matches_def lower_def option.map_comp comp_def case_prod_beta)
qed (simp add: case_prod_beta option.map_id)

lemma contains_skip:
  "CHR ''<'' \<notin> set pre \<Longrightarrow> contains (pre @ s) (CHR ''<'' # pat) = contains s (CHR ''<'' # pat)"
  by (induction pre) auto

lemma before_suffix_append [simp]: "before_suffix pat (s @ pat) = Some s"
  by (simp add: before_suffix_def)

lemma strip_ends: "s \<noteq> [] \<Longrightarrow> \<not> is_space (hd s) \<Longrightarrow> \<not> is_space (last s) \<Longrightarrow> strip s = s"
  by (simp add: strip_def strip_by_def hd_rev dropWhile_eq_self_iff [THEN iffD2])

lemma render_first:
  assumes "CHR ''<'' \<notin> set pre" "renderable dumps loads call"
  defines "text \<equiv> dumps (JObj (snd call))"
  shows "xml_blocks (pre @ render_call dumps call @ post) =
    (''<name>'' @ fst call @ ''</name><arguments>'' @ text @ ''</arguments>'') # xml_blocks post"
proof -
  have no: "CHR ''<'' \<notin> set (fst call)" "CHR ''<'' \<notin> set text"
    using assms(2) by (simp_all add: renderable_def text_def Let_def)
  let ?body = "''<name>'' @ fst call @ ''</name><arguments>'' @ text @ ''</arguments>''"
  have 1: "split_first True ''<tool_call>'' (pre @ render_call dumps call @ post) =
      Some (pre, ?body @ ''</tool_call>'' @ post)"
    unfolding split_first_skip [OF assms(1)] render_call_def text_def
    by (simp add: matches_def lower_def to_lower_def)
  have 2: "split_first True ''</tool_call>'' (?body @ ''</tool_call>'' @ post) = Some (?body, post)"
    by (simp add: matches_def lower_def to_lower_def split_first_skip [OF no(1)] split_first_skip [OF no(2)])
  have 3: "strip ?body = ?body"
    by (rule strip_ends) (simp_all add: is_space_def is_space_cp_def)
  show ?thesis
    by (subst xml_blocks.simps) (simp only: 1 2 3 option.case prod.case)
qed

lemma parse_rendered_body:
  assumes "renderable dumps loads call" "\<not> disallowed allowed (fst call)"
  defines "text \<equiv> dumps (JObj (snd call))"
  defines "body \<equiv> ''<name>'' @ fst call @ ''</name><arguments>'' @ text @ ''</arguments>''"
  shows "\<not> contains body ''<function=''"
    and "parse_standard_body repr loads allowed body index = xml_valid [xml_call index (fst call) (snd call)]"
proof -
  have no: "CHR ''<'' \<notin> set (fst call)" "CHR ''<'' \<notin> set text"
    and good: "fst call \<noteq> []" "strip (fst call) = fst call" "text \<noteq> []" "strip text = text"
      "loads text = Some (JObj (snd call))"
    using assms(1) by (simp_all add: renderable_def text_def Let_def)
  show "\<not> contains body ''<function=''"
    unfolding body_def by (simp add: contains_skip [OF no(1)] contains_skip [OF no(2)])
  have body: "strip body = body" unfolding body_def
    by (rule strip_ends) (simp_all add: is_space_def is_space_cp_def)
  have name: "takeWhile (\<lambda>c. c \<noteq> CHR ''<'') (fst call @ CHR ''<'' # rest) = fst call"
    "dropWhile (\<lambda>c. c \<noteq> CHR ''<'') (fst call @ CHR ''<'' # rest) = CHR ''<'' # rest" for rest
    using no(1) by (auto simp: takeWhile_append dropWhile_append)
  have shape: "drop 6 body = fst call @ CHR ''<'' # ''/name>'' @ ''<arguments>'' @ text @ ''</arguments>''"
    "starts_with body ''<name>''"
    unfolding body_def by simp_all
  have "before_suffix ''</arguments>'' (text @ ''</arguments>'') = Some text" by (rule before_suffix_append)
  then show "parse_standard_body repr loads allowed body index = xml_valid [xml_call index (fst call) (snd call)]"
    unfolding parse_standard_body_def Let_def body shape(1) name
    using shape(2) good assms(2) by (simp add: is_space_def is_space_cp_def)
qed

lemma parse_rendered_blocks:
  assumes "\<forall>c\<in>set calls. renderable dumps loads c \<and> \<not> disallowed allowed (fst c)"
  shows "\<exists>new. parse_blocks repr loads allowed index
      (map (\<lambda>c. ''<name>'' @ fst c @ ''</name><arguments>'' @ dumps (JObj (snd c)) @ ''</arguments>'') calls) acc =
        xml_valid (acc @ new) \<and> map (\<lambda>tc. (tc_name tc, tc_arguments tc)) new = map (\<lambda>c. (fst c, JObj (snd c))) calls"
  using assms
proof (induction calls arbitrary: index acc)
  case (Cons c calls)
  from Cons.prems have c: "renderable dumps loads c" "\<not> disallowed allowed (fst c)" by simp_all
  from Cons.IH [of "Suc index" "acc @ [xml_call index (fst c) (snd c)]"] Cons.prems obtain new where
    "parse_blocks repr loads allowed (Suc index)
      (map (\<lambda>c. ''<name>'' @ fst c @ ''</name><arguments>'' @ dumps (JObj (snd c)) @ ''</arguments>'') calls)
      (acc @ [xml_call index (fst c) (snd c)]) = xml_valid ((acc @ [xml_call index (fst c) (snd c)]) @ new)"
    "map (\<lambda>tc. (tc_name tc, tc_arguments tc)) new = map (\<lambda>c. (fst c, JObj (snd c))) calls" by auto
  then show ?case
    by (intro exI [of _ "xml_call index (fst c) (snd c) # new"])
      (simp add: parse_rendered_body [OF c, simplified] xml_valid_def Let_def, simp add: xml_call_def)
qed (simp add: xml_valid_def)

lemma xml_blocks_none: "CHR ''<'' \<notin> set post \<Longrightarrow> xml_blocks post = []"
  using split_first_skip [of post True "''tool_call>''" "[]"] by (subst xml_blocks.simps) simp

text \<open>the documented format is read back. However many calls a model writes in the documented form,
  whatever text without an opening bracket it puts before, between and after them, the parser returns exactly
  these calls in their order, provided that they are offered and that their texts hold no opening bracket.\<close>
lemma xml_format_roundtrip:
  assumes "items \<noteq> []" "\<forall>(pre, call)\<in>set items. CHR ''<'' \<notin> set pre \<and> renderable dumps loads call \<and> fst call \<in> set names"
    and "CHR ''<'' \<notin> set post"
  shows "\<exists>calls. parse_xml_tool_calls repr loads (Some names)
      (concat (map (\<lambda>(pre, call). pre @ render_call dumps call) items) @ post) = xml_valid calls \<and>
    map (\<lambda>tc. (tc_name tc, tc_arguments tc)) calls = map (\<lambda>(pre, name, args). (name, JObj args)) items"
proof -
  have blocks: "xml_blocks (concat (map (\<lambda>(pre, call). pre @ render_call dumps call) items) @ post) =
      map (\<lambda>c. ''<name>'' @ fst c @ ''</name><arguments>'' @ dumps (JObj (snd c)) @ ''</arguments>'') (map snd items)"
    using assms(2)
  proof (induction items)
    case Nil
    then show ?case using xml_blocks_none [OF assms(3)] by simp
  next
    case (Cons item items)
    obtain pre call where item: "item = (pre, call)" by (cases item)
    with Cons.prems have "CHR ''<'' \<notin> set pre" "renderable dumps loads call" by auto
    from render_first [OF this] Cons item show ?case by (simp add: comp_def)
  qed
  have "\<forall>c\<in>set (map snd items). renderable dumps loads c \<and> \<not> disallowed (Some names) (fst c)"
    using assms(2) by (auto simp: disallowed_def)
  from parse_rendered_blocks [OF this, of repr 1 "[]"] obtain calls where
    "parse_blocks repr loads (Some names) 1 (map (\<lambda>c. ''<name>'' @ fst c @ ''</name><arguments>'' @
       dumps (JObj (snd c)) @ ''</arguments>'') (map snd items)) [] = xml_valid calls"
    "map (\<lambda>tc. (tc_name tc, tc_arguments tc)) calls = map (\<lambda>c. (fst c, JObj (snd c))) (map snd items)"
    by auto
  with assms(1) show ?thesis
    unfolding parse_xml_tool_calls_def blocks by (auto simp: case_prod_beta)
qed

lemma xml_format_roundtrip_witness:
  "\<exists>calls. parse_xml_tool_calls id (\<lambda>s. Some (JObj [])) (Some [''f''])
      (concat (map (\<lambda>(pre, call). pre @ render_call (\<lambda>j. ''{}'') call) [(''ok '', ''f'', [])]) @ '' done'') =
        xml_valid calls \<and>
    map (\<lambda>tc. (tc_name tc, tc_arguments tc)) calls = map (\<lambda>(pre, name, args). (name, JObj args)) [(''ok '', ''f'', [])]"
  by (rule xml_format_roundtrip)
    (simp_all add: renderable_def strip_def strip_by_def is_space_def is_space_cp_def)

lemma split_first_none: "split_first False pat s = None \<longleftrightarrow> \<not> contains s pat"
  by (induction s) (auto simp: matches_def)

text \<open>Reasoning tags in the wrong order lose the answer. With tags in the content, the extraction raises
  an error exactly when the closing tag occurs in the text but not after the first opening tag; in every other
  case it succeeds.\<close>
lemma reversed_tags_raise:
  "parse_reasoning (Some (ContentThinking open_tag close_tag)) m = None \<longleftrightarrow>
   contains (rm_content m) close_tag \<and>
   (\<exists>before rest. split_first False open_tag (rm_content m) = Some (before, rest) \<and> \<not> contains rest close_tag)"
proof (cases "split_first False open_tag (rm_content m)")
  case None
  then have "\<not> contains (rm_content m) open_tag" using split_first_none by blast
  with None show ?thesis by (simp add: parse_reasoning_def)
next
  case (Some p)
  then have "contains (rm_content m) open_tag"
    using split_first_none [of open_tag "rm_content m"] by simp
  with Some show ?thesis
    by (cases p) (auto simp: parse_reasoning_def Let_def split_first_none)
qed

end
