(* ===== verification/JsonText.thy ===== *)
theory JsonText
  imports Prelude
begin

text \<open>
  A text encoding of JSON values with its decoder. \<open>json.dumps\<close> and \<open>json.loads\<close> are parameters of the model;
  this pair is the instance at which the hypothesis that \<open>loads\<close> inverts \<open>dumps\<close> is shown to be satisfiable.
\<close>

section \<open>Encoding\<close>

definition enc_nat :: "nat \<Rightarrow> string" where
  "enc_nat n = replicate n (CHR ''1'') @ ''0''"

definition enc_int :: "int \<Rightarrow> string" where
  "enc_int n = (if n < 0 then CHR ''-'' else CHR ''+'') # enc_nat (nat \<bar>n\<bar>)"

definition enc_str :: "string \<Rightarrow> string" where
  "enc_str s = enc_nat (length s) @ s"

fun enc :: "json \<Rightarrow> string" where
  "enc JNull = ''n''"
| "enc (JBool b) = (if b then ''t'' else ''f'')"
| "enc (JInt n) = CHR ''i'' # enc_int n"
| "enc (JNum q) = CHR ''q'' # enc_int (fst (quotient_of q)) @ enc_int (snd (quotient_of q))"
| "enc (JStr s) = CHR ''s'' # enc_str s"
| "enc (JArr xs) = CHR ''a'' # concat (map (\<lambda>x. CHR ''1'' # enc x) xs) @ ''0''"
| "enc (JObj kvs) = CHR ''o'' # concat (map (\<lambda>p. CHR ''1'' # enc_str (fst p) @ enc (snd p)) kvs) @ ''0''"

section \<open>Decoding\<close>

fun dec_nat :: "string \<Rightarrow> (nat \<times> string) option" where
  "dec_nat (c # s) =
     (if c = CHR ''0'' then Some (0, s)
      else if c = CHR ''1'' then map_option (\<lambda>(n, r). (Suc n, r)) (dec_nat s) else None)"
| "dec_nat [] = None"

definition dec_int :: "string \<Rightarrow> (int \<times> string) option" where
  "dec_int s =
     (case s of
        [] \<Rightarrow> None
      | c # r \<Rightarrow> map_option (\<lambda>(n, q). (if c = CHR ''-'' then - int n else int n, q)) (dec_nat r))"

definition dec_str :: "string \<Rightarrow> (string \<times> string) option" where
  "dec_str s = map_option (\<lambda>(n, r). (take n r, drop n r)) (dec_nat s)"

text \<open>The fuel bounds the nesting; the length of the text is enough.\<close>

fun dec :: "nat \<Rightarrow> string \<Rightarrow> (json \<times> string) option"
  and dec_list :: "nat \<Rightarrow> string \<Rightarrow> (json list \<times> string) option"
  and dec_obj :: "nat \<Rightarrow> string \<Rightarrow> ((string \<times> json) list \<times> string) option" where
  "dec (Suc f) (c # s) =
     (if c = CHR ''n'' then Some (JNull, s)
      else if c = CHR ''t'' then Some (JBool True, s)
      else if c = CHR ''f'' then Some (JBool False, s)
      else if c = CHR ''i'' then map_option (\<lambda>(n, r). (JInt n, r)) (dec_int s)
      else if c = CHR ''q'' then
        (case dec_int s of None \<Rightarrow> None
         | Some (a, r) \<Rightarrow> map_option (\<lambda>(b, t). (JNum (of_int a / of_int b), t)) (dec_int r))
      else if c = CHR ''s'' then map_option (\<lambda>(x, r). (JStr x, r)) (dec_str s)
      else if c = CHR ''a'' then map_option (\<lambda>(xs, r). (JArr xs, r)) (dec_list f s)
      else if c = CHR ''o'' then map_option (\<lambda>(kvs, r). (JObj kvs, r)) (dec_obj f s)
      else None)"
| "dec f s = None"
| "dec_list (Suc f) (c # s) =
     (if c = CHR ''0'' then Some ([], s)
      else (case dec f s of None \<Rightarrow> None | Some (x, r) \<Rightarrow> map_option (\<lambda>(xs, q). (x # xs, q)) (dec_list f r)))"
| "dec_list f s = None"
| "dec_obj (Suc f) (c # s) =
     (if c = CHR ''0'' then Some ([], s)
      else (case dec_str s of None \<Rightarrow> None | Some (k, r) \<Rightarrow>
        (case dec f r of None \<Rightarrow> None | Some (x, q) \<Rightarrow> map_option (\<lambda>(kvs, z). ((k, x) # kvs, z)) (dec_obj f q))))"
| "dec_obj f s = None"

definition json_text :: "json \<Rightarrow> string" where
  "json_text = enc"

definition json_read :: "string \<Rightarrow> json option" where
  "json_read s = (case dec (length s) s of Some (v, []) \<Rightarrow> Some v | _ \<Rightarrow> None)"

section \<open>Decoding inverts encoding\<close>

lemma dec_enc_nat: "dec_nat (enc_nat n @ rest) = Some (n, rest)"
  by (induction n) (simp_all add: enc_nat_def)

lemma dec_enc_int: "dec_int (enc_int n @ rest) = Some (n, rest)"
  by (simp add: dec_int_def enc_int_def dec_enc_nat)

lemma dec_enc_str: "dec_str (enc_str s @ rest) = Some (s, rest)"
  by (simp add: dec_str_def enc_str_def dec_enc_nat)

lemma dec_enc: "length (enc v) \<le> f \<Longrightarrow> dec f (enc v @ rest) = Some (v, rest)"
proof (induction v arbitrary: f rest)
  case (JArr xs)
  have list: "dec_list g (concat (map (\<lambda>x. CHR ''1'' # enc x) ys) @ ''0'' @ rest) = Some (ys, rest)"
    if "set ys \<subseteq> set xs" "length (concat (map (\<lambda>x. CHR ''1'' # enc x) ys)) < g" for ys g
    using that
  proof (induction ys arbitrary: g)
    case Nil
    then show ?case by (cases g) simp_all
  next
    case (Cons y ys)
    then obtain g' where g: "g = Suc g'" by (cases g) auto
    have "dec g' (enc y @ concat (map (\<lambda>x. CHR ''1'' # enc x) ys) @ ''0'' @ rest) =
        Some (y, concat (map (\<lambda>x. CHR ''1'' # enc x) ys) @ ''0'' @ rest)"
      using JArr.IH [of y] Cons.prems g by simp
    moreover have "dec_list g' (concat (map (\<lambda>x. CHR ''1'' # enc x) ys) @ ''0'' @ rest) = Some (ys, rest)"
      using Cons.IH [of g'] Cons.prems g by simp
    ultimately show ?case by (simp add: g)
  qed
  from JArr.prems obtain g where "f = Suc g" by (cases f) auto
  with list [of xs g] JArr.prems show ?case by simp
next
  case (JObj kvs)
  let ?e = "\<lambda>p. CHR ''1'' # enc_str (fst p) @ enc (snd p)"
  have obj: "dec_obj g (concat (map ?e ys) @ ''0'' @ rest) = Some (ys, rest)"
    if "set ys \<subseteq> set kvs" "length (concat (map ?e ys)) < g" for ys g
    using that
  proof (induction ys arbitrary: g)
    case Nil
    then show ?case by (cases g) simp_all
  next
    case (Cons y ys)
    then obtain g' where g: "g = Suc g'" by (cases g) auto
    have "dec g' (enc (snd y) @ concat (map ?e ys) @ ''0'' @ rest) = Some (snd y, concat (map ?e ys) @ ''0'' @ rest)"
      using JObj.IH [of y "snd y"] Cons.prems g by (cases y) simp
    moreover have "dec_obj g' (concat (map ?e ys) @ ''0'' @ rest) = Some (ys, rest)"
      using Cons.IH [of g'] Cons.prems g by simp
    ultimately show ?case using dec_enc_str [of "fst y" "enc (snd y) @ concat (map ?e ys) @ ''0'' @ rest"] by (simp add: g)
  qed
  from JObj.prems obtain g where "f = Suc g" by (cases f) auto
  with obj [of kvs g] JObj.prems show ?case by simp
next
  case (JInt n)
  then show ?case by (cases f) (simp_all add: dec_enc_int)
next
  case (JNum q)
  have "of_int (fst (quotient_of q)) / of_int (snd (quotient_of q)) = q"
    using quotient_of_div [of q "fst (quotient_of q)" "snd (quotient_of q)"] by simp
  with JNum show ?case by (cases f) (simp_all add: dec_enc_int)
next
  case (JStr s)
  then show ?case by (cases f) (simp_all add: dec_enc_str)
next
  case (JBool b)
  then show ?case by (cases f) (simp_all split: if_splits)
next
  case JNull
  then show ?case by (cases f) simp_all
qed

lemma json_text_roundtrip: "json_read (json_text v) = Some v"
  using dec_enc [of v "length (enc v)" "[]"] by (simp add: json_read_def json_text_def)

lemma json_text_nonempty: "json_text v \<noteq> []"
  by (cases v) (simp_all add: json_text_def)

end
