(* ===== verification/AgentLoop.thy ===== *)
theory AgentLoop
  imports ToolExecution Compressor ContextStore ModelReply JsonText
begin

text \<open>
  \<open>AgentLoop.run\<close> of \<open>agent/loop.py\<close> with \<open>agent/loop_state.py\<close>, \<open>agent/phase_policy.py\<close> and
  \<open>agent/adaptations/finalize.py\<close>. The state of a run is one record: the loop's own state, what it shares
  with the rest of the process (tool registry and world, context store, summaries), and two histories that the
  code does not keep, the requests sent to the model and the calls that were executed. What a turn meets
  (the clock, the model's answer to a request, the user's approvals, the summarising model) is a
  \<open>turn_env\<close>. \<open>asyncio.wait_for\<close> appears as the answer \<open>TimedOut\<close>, an exception of the provider as \<open>Raised\<close>.
  Texts outside Latin-1 (\<open>PlanningTextGuard.correction_message\<close>, \<open>AUTO_FINALIZE_EMERGENCY_PROMPT\<close>, the
  web access hint) are parameters.
\<close>

section \<open>Phase policy\<close>

record phase_settings =
  pp_enabled :: bool
  closing_thinking :: string
  gathering_thinking :: string
  aggregation_thinking :: string
  aggregation_markers :: "string list"

record phase_ctx =
  is_workflow_subagent :: bool
  pc_closing :: bool
  pc_nudged :: bool
  pc_restricted :: bool
  prev_tool_calls :: "string list"
  pc_tools_used :: "string list"

text \<open>The thinking mode of the \<open>RequestOptions\<close>; \<open>None\<close>: no override.\<close>

definition options_for_phase :: "phase_settings \<Rightarrow> phase_ctx \<Rightarrow> string option" where
  "options_for_phase cfg c =
     (if \<not> pp_enabled cfg then None
      else if pc_closing c then Some (closing_thinking cfg)
      else if is_workflow_subagent c then
        (if set (aggregation_markers cfg) \<inter> (set (pc_tools_used c) \<union> set (prev_tool_calls c)) \<noteq> {}
         then Some (aggregation_thinking cfg)
         else if pc_nudged c \<or> pc_restricted c then Some (aggregation_thinking cfg)
         else Some (gathering_thinking cfg))
      else None)"

section \<open>Configuration and state\<close>

datatype run_status = StatusOk | StatusBudget | StatusLoop | StatusTimeout | StatusError

record run_stats =
  st_iterations :: int
  st_tools_used :: "string list"
  st_status :: run_status
  st_error :: "string option"
  st_run_id :: string
  st_llm_calls :: int
  st_input_tokens :: int
  st_output_tokens :: int
  st_total_tokens :: int
  st_latest_tokens :: int

record request =
  rq_messages :: "message list"
  rq_tools :: "schema option"
  rq_system :: "string option"
  rq_thinking :: "string option"

record llm_response =
  lr_content :: string
  lr_reasoning :: string
  lr_calls :: "llm_tool_call list"
  lr_input_tokens :: int
  lr_output_tokens :: int
  lr_total_tokens :: int

datatype llm_reply = Answer llm_response | TimedOut | Raised string

record 'h loop_config =
  lc_env :: "tool_env"
  lc_compression :: compression_settings
  lc_has_compressor :: bool
  lc_surface :: surface_settings
  lc_profile :: string
  lc_message :: string
  lc_phase :: phase_settings
  lc_dumps :: "json \<Rightarrow> string"
  lc_dumps_raw :: "json \<Rightarrow> string"
  lc_loads :: "string \<Rightarrow> json option"
  lc_logf :: "rat \<Rightarrow> rat"
  lc_hash :: "string \<Rightarrow> 'h"
  lc_off_hint :: string
  lc_correction :: string
  lc_emergency :: "string \<Rightarrow> string"
  lc_sessions :: "int set"
  lc_target :: "(int \<times> string) option"
  lc_mem_key :: string
  lc_store_key :: string

abbreviation lc_str_of :: "'h loop_config \<Rightarrow> json \<Rightarrow> string" where
  "lc_str_of cfg \<equiv> te_str_of (lc_env cfg)"

record ('w, 'h) loop_state =
  ls_stats :: run_stats
  ls_budget :: budget_guard
  ls_progress :: progress_guard
  ls_dedup :: "'h dedup_guard"
  ls_planning :: planning_guard
  ls_deadline :: soft_deadline
  ls_mandate :: mandate
  ls_context :: context_builder
  ls_base :: "schema option"
  ls_schema :: "schema option"
  ls_ephemeral :: "string option"
  ls_durable :: "string option"
  ls_prev_tools :: "string list"
  ls_current_tools :: "string list"
  ls_last_actual :: "int option"
  ls_phase :: "surface_phase option"
  ls_loop_warnings :: nat
  ls_xml_repaired :: bool
  ls_empty_retries :: nat
  ls_nudged :: bool
  ls_tools :: "'w registry \<times> 'w"
  ls_store :: context_table
  ls_memo :: summaries
  ls_sent :: "request list"
  ls_ran :: "llm_tool_call list"

record turn_env =
  tv_now_check :: rat
  tv_now_closing :: "rat \<times> rat"
  tv_queue_wait :: "(rat \<times> rat) option"
  tv_now_after :: rat
  tv_now_mandate :: rat
  tv_reply :: "request \<Rightarrow> llm_reply"
  tv_summarize :: "string \<Rightarrow> string option"
  tv_approve :: "(string \<Rightarrow> string \<Rightarrow> bool) option"
  tv_order :: "nat list"

text \<open>How a turn ends: the next turn, a reply to the user, the \<open>break\<close>, a \<open>BudgetExceededError\<close>, another
  exception.\<close>

datatype turn_outcome = NextTurn | ReplyUser string | LoopBreak | BudgetStop budget_error | Fault string

section \<open>Texts\<close>

definition LOOP_GUARD_TEXT :: string where
  "LOOP_GUARD_TEXT =
     ''System Guard: You seem to be stuck in a loop repeating the same error. '' @
     ''Please change your strategy or stop using this tool.''"

definition LOOP_RECOVERY_INSTRUCTION :: string where
  "LOOP_RECOVERY_INSTRUCTION =
     ''Internal recovery instruction: the previous tool action repeated the same error. '' @
     ''Change strategy now: stop using the failing tool if possible, try different inputs or '' @
     ''another tool, or explain the tool limitation to the user. Do not quote this instruction.''"

definition DEDUP_INSTRUCTION :: string where
  "DEDUP_INSTRUCTION =
     ''Internal recovery instruction: a tool returned the same result it returned before. '' @
     ''Calling it again with the same arguments will not produce new information. Either '' @
     ''answer directly from the data you have already retrieved, or use a different tool or '' @
     ''different input. Do not quote this instruction.''"

definition LOOP_FALLBACK :: string where
  "LOOP_FALLBACK = ''I detected a loop and stopped to avoid repeating the same actions.''"

definition XML_TOOL_CALL_FALLBACK :: string where
  "XML_TOOL_CALL_FALLBACK =
     ''I could not safely parse the model'' @ CHR 0x27 # ''s tool-call output, so I stopped instead of '' @
     ''showing raw internal tool-call markup.''"

definition EMPTY_RESPONSE_MAX_RETRIES :: nat where
  "EMPTY_RESPONSE_MAX_RETRIES = 3"

definition EMPTY_RESPONSE_PROMPT :: string where
  "EMPTY_RESPONSE_PROMPT =
     ''You returned an empty response with no tool call. This is not a valid '' @
     ''final answer. Continue your task: call a tool to gather more data, or '' @
     ''if you have enough information, provide a complete response now.''"

definition APPLY_FILL_CLOSE_NUDGE :: string where
  "APPLY_FILL_CLOSE_NUDGE =
     ''[Tool result] Excel fill finished successfully (apply_fill_plan SUCCESS). '' @
     ''The output file is ready. Summarize for the user now. '' @
     ''Do not call apply_fill_plan again, and do not start unrelated tasks.''"

definition MIXED_TERMINAL_RESULT :: string where
  "MIXED_TERMINAL_RESULT =
     ''Error: Terminal tools must be called alone; no tools in '' @
     ''this batch were executed. Retry the terminal call by itself.''"

definition MIXED_TERMINAL_RETRY :: string where
  "MIXED_TERMINAL_RETRY =
     ''Retry the terminal tool in a separate tool-call response. '' @
     ''Do not combine it with any other tool.''"

definition LLM_TIMEOUT_TEXT :: string where
  "LLM_TIMEOUT_TEXT = ''I could not get a response from the language model (timed out).''"

definition XML_REPAIR_ERROR :: string where
  "XML_REPAIR_ERROR = ''Raw XML tool-call markup was returned as assistant text '' @
     ''instead of parsed tool calls.''"

section \<open>Small steps\<close>

definition update_context ::
    "(context_builder \<Rightarrow> context_builder) \<Rightarrow> ('w, 'h) loop_state \<Rightarrow> ('w, 'h) loop_state" where
  "update_context f s = s\<lparr>ls_context := f (ls_context s)\<rparr>"

definition plain_args :: "string \<Rightarrow> string \<Rightarrow> context_args" where
  "plain_args role content = \<lparr>ca_role = role, ca_content = content, ca_calls = [], ca_call_id = None,
     ca_name = None, ca_reasoning = None\<rparr>"

text \<open>A failure to persist a message is ignored.\<close>

definition persist_context_msg ::
    "'h loop_config \<Rightarrow> context_args \<Rightarrow> ('w, 'h) loop_state \<Rightarrow> ('w, 'h) loop_state" where
  "persist_context_msg cfg a s =
     (case lc_target cfg of
        None \<Rightarrow> s
      | Some (session, user) \<Rightarrow>
          s\<lparr>ls_store := fst (append_context (lc_dumps_raw cfg) (lc_sessions cfg) (\<lambda>k. []) session user a (ls_store s))\<rparr>)"

definition save_turn ::
    "'h loop_config \<Rightarrow> string \<Rightarrow> string option \<Rightarrow> ('w, 'h) loop_state \<Rightarrow> ('w, 'h) loop_state" where
  "save_turn cfg content reasoning =
     persist_context_msg cfg ((plain_args ''assistant'' content)\<lparr>ca_reasoning := reasoning\<rparr>)"

definition update_stats :: "(run_stats \<Rightarrow> run_stats) \<Rightarrow> ('w, 'h) loop_state \<Rightarrow> ('w, 'h) loop_state" where
  "update_stats f s = s\<lparr>ls_stats := f (ls_stats s)\<rparr>"

definition set_status :: "run_status \<Rightarrow> string option \<Rightarrow> ('w, 'h) loop_state \<Rightarrow> ('w, 'h) loop_state" where
  "set_status st err = update_stats (\<lambda>x. x\<lparr>st_status := st, st_error := err\<rparr>)"

definition say :: "string \<Rightarrow> ('w, 'h) loop_state \<Rightarrow> ('w, 'h) loop_state" where
  "say text = update_context (add_user_message text)"

text \<open>The result of a call goes into the context and the store.\<close>

definition answer_call ::
    "'h loop_config \<Rightarrow> llm_tool_call \<Rightarrow> string \<Rightarrow> ('w, 'h) loop_state \<Rightarrow> ('w, 'h) loop_state" where
  "answer_call cfg tc result s =
     persist_context_msg cfg
       \<lparr>ca_role = ''tool'', ca_content = result, ca_calls = [], ca_call_id = Some (tc_id tc),
        ca_name = Some (tc_name tc), ca_reasoning = None\<rparr>
       (update_context (add_tool_result (tc_id tc) (tc_name tc) result) s)"

definition declare_calls ::
    "'h loop_config \<Rightarrow> llm_tool_call list \<Rightarrow> string \<Rightarrow> string option \<Rightarrow> ('w, 'h) loop_state \<Rightarrow>
     ('w, 'h) loop_state" where
  "declare_calls cfg calls content reasoning s =
     persist_context_msg cfg
       \<lparr>ca_role = ''assistant'', ca_content = content, ca_calls = map (call_dict (lc_dumps cfg)) calls,
        ca_call_id = None, ca_name = None, ca_reasoning = reasoning\<rparr>
       (update_context (add_tool_calls (lc_dumps cfg) calls (if content = [] then None else Some content)) s)"

definition note_used :: "string \<Rightarrow> ('w, 'h) loop_state \<Rightarrow> ('w, 'h) loop_state" where
  "note_used name s =
     s\<lparr>ls_stats := (ls_stats s)\<lparr>st_tools_used := st_tools_used (ls_stats s) @ [name]\<rparr>,
       ls_current_tools := ls_current_tools s @ [name]\<rparr>"

definition is_apply_fill_success_result :: "string \<Rightarrow> bool" where
  "is_apply_fill_success_result result =
     (let text = strip result in
      \<not> contains text ''NOOP:'' \<and> starts_with text ''SUCCESS: apply_fill_plan finished.'')"

definition maybe_inject_apply_fill_close_nudge ::
    "string \<Rightarrow> string \<Rightarrow> ('w, 'h) loop_state \<Rightarrow> ('w, 'h) loop_state" where
  "maybe_inject_apply_fill_close_nudge name result s =
     (if ls_nudged s \<or> name \<noteq> ''apply_fill_plan'' then s
      else if starts_with result TOOL_ERROR_PREFIX \<or> \<not> is_apply_fill_success_result result then s
      else (say APPLY_FILL_CLOSE_NUDGE s)\<lparr>ls_nudged := True\<rparr>)"

definition run_tool ::
    "'h loop_config \<Rightarrow> (string \<Rightarrow> string \<Rightarrow> bool) option \<Rightarrow> llm_tool_call \<Rightarrow> ('w, 'h) loop_state \<Rightarrow>
     ('w, 'h) loop_state \<times> string" where
  "run_tool cfg approve tc s =
     (case execute_single_tool (lc_env cfg) approve tc (ls_tools s) of
        (rw, result) \<Rightarrow> (s\<lparr>ls_tools := rw, ls_ran := ls_ran s @ [tc]\<rparr>, result))"

section \<open>Compression during a run\<close>

datatype compress_status = Rewritten | Noop | TooFew | CompressFailed | WriteFailed | Unavailable

text \<open>\<open>_compress_store_transcript\<close>: the stored transcript is compressed and written back.\<close>

definition compress_store_transcript ::
    "'h loop_config \<Rightarrow> (string \<Rightarrow> string option) \<Rightarrow> int option \<Rightarrow> context_table \<times> summaries \<Rightarrow>
     (context_table \<times> summaries) \<times> message list option \<times> compress_status" where
  "compress_store_transcript cfg summarize actual st =
     (case (lc_target cfg, lc_has_compressor cfg) of
        (Some (session, user), True) \<Rightarrow>
          (let (store, memo) = st;
               original = list_context (lc_loads cfg) session user store;
               ms = norm_messages (normalize_transcript original);
               (memo', compressed0) =
                 (if length ms < 5 then (memo, Some ms)
                  else compress (lc_str_of cfg) summarize (lc_compression cfg) ms (Some (lc_store_key cfg)) actual memo)
           in case compressed0 of
                None \<Rightarrow> ((store, memo'), None, CompressFailed)
              | Some out \<Rightarrow>
                  (let compressed = norm_messages (normalize_transcript out) in
                   if compressed = original then
                     (if length original < 5 then ((store, memo'), None, TooFew)
                      else ((store, memo'), Some compressed, Noop))
                   else
                     (case replace_context (lc_dumps_raw cfg) (lc_str_of cfg) (lc_sessions cfg) session user compressed store of
                        (store', ok) \<Rightarrow>
                          if ok then ((store', memo'), Some compressed, Rewritten)
                          else ((store', memo'), None, WriteFailed))))
      | _ \<Rightarrow> (st, None, Unavailable))"

text \<open>\<open>_restore_ephemeral_user_message\<close>\<close>

definition user_text :: "string \<Rightarrow> message \<Rightarrow> bool" where
  "user_text text m \<longleftrightarrow> has_role m ''user'' \<and> jget m ''content'' = Some (JStr text)"

definition restore_ephemeral_user_message ::
    "message list \<Rightarrow> string option \<Rightarrow> string option \<Rightarrow> message list" where
  "restore_ephemeral_user_message ms ephemeral durable =
     (case ephemeral of
        None \<Rightarrow> ms
      | Some eph \<Rightarrow>
          if eph = [] \<or> (\<exists>m\<in>set ms. user_text eph m) then ms
          else
            (let idx = (case durable of None \<Rightarrow> [] | Some d \<Rightarrow> filter (\<lambda>i. user_text d (ms ! i)) [0..<length ms])
             in if idx = [] then ms @ [user_msg eph]
                else ms[last idx := dput ''content'' (JStr eph) (ms ! last idx)]))"

definition set_messages :: "message list \<Rightarrow> ('w, 'h) loop_state \<Rightarrow> ('w, 'h) loop_state" where
  "set_messages ms = update_context (\<lambda>c. c\<lparr>ctx_messages := ms\<rparr>)"

abbreviation ls_messages :: "('w, 'h) loop_state \<Rightarrow> message list" where
  "ls_messages s \<equiv> ctx_messages (ls_context s)"

definition compress_in_memory ::
    "'h loop_config \<Rightarrow> (string \<Rightarrow> string option) \<Rightarrow> ('w, 'h) loop_state \<Rightarrow> ('w, 'h) loop_state" where
  "compress_in_memory cfg summarize s =
     (case compress (lc_str_of cfg) summarize (lc_compression cfg) (ls_messages s) (Some (lc_mem_key cfg))
             (ls_last_actual s) (ls_memo s) of
        (memo', None) \<Rightarrow> s\<lparr>ls_memo := memo'\<rparr>
      | (memo', Some out) \<Rightarrow> (set_messages out s)\<lparr>ls_memo := memo', ls_last_actual := None\<rparr>)"

definition prune_step :: "'h loop_config \<Rightarrow> ('w, 'h) loop_state \<Rightarrow> ('w, 'h) loop_state" where
  "prune_step cfg s =
     (if int (message_count (ls_context s)) > prune_min_messages (lc_compression cfg)
      then update_context (\<lambda>c. fst (prune_old_tool_results 6 200 c)) s else s)"

text \<open>The window follows the rewritten store; in every other case it is compressed in memory.\<close>

definition settle_compression ::
    "'h loop_config \<Rightarrow> (string \<Rightarrow> string option) \<Rightarrow> message list option \<Rightarrow> compress_status \<Rightarrow>
     ('w, 'h) loop_state \<Rightarrow> ('w, 'h) loop_state" where
  "settle_compression cfg summarize compressed status s =
     (if status = Rewritten \<and> compressed \<noteq> None then
        (set_messages (restore_ephemeral_user_message (the compressed) (ls_ephemeral s) (ls_durable s)) s)
          \<lparr>ls_last_actual := None\<rparr>
      else compress_in_memory cfg summarize s)"

definition compress_step ::
    "'h loop_config \<Rightarrow> (string \<Rightarrow> string option) \<Rightarrow> ('w, 'h) loop_state \<Rightarrow> ('w, 'h) loop_state" where
  "compress_step cfg summarize s =
     (case compress_store_transcript cfg summarize (ls_last_actual s) (ls_store s, ls_memo s) of
        ((store', memo'), compressed, status) \<Rightarrow>
          settle_compression cfg summarize compressed status (s\<lparr>ls_store := store', ls_memo := memo'\<rparr>))"

text \<open>\<open>_maybe_compress_mid_run\<close>; \<open>None\<close> when the estimate of the tokens raises.\<close>

definition maybe_compress_mid_run ::
    "'h loop_config \<Rightarrow> (string \<Rightarrow> string option) \<Rightarrow> ('w, 'h) loop_state \<Rightarrow> ('w, 'h) loop_state option" where
  "maybe_compress_mid_run cfg summarize s =
     (if \<not> cs_enabled (lc_compression cfg) then Some s
      else
        (let s1 = prune_step cfg s in
         if \<not> lc_has_compressor cfg then Some s1
         else map_option (\<lambda>wanted. if wanted then compress_step cfg summarize s1 else s1)
                (should_compress (lc_str_of cfg) (lc_compression cfg) (ls_messages s1) (ls_last_actual s1))))"

section \<open>The request to the model\<close>

definition tool_surface_step :: "'h loop_config \<Rightarrow> ('w, 'h) loop_state \<Rightarrow> ('w, 'h) loop_state" where
  "tool_surface_step cfg s =
     (case apply_tool_surface (lc_surface cfg) (lc_profile cfg) (ascii (lc_message cfg)) (st_tools_used (ls_stats s))
             (closing_mode (ls_deadline s)) (ls_mandate s) (ls_base s) (ls_schema s, ls_phase s) of
        (schm, ph) \<Rightarrow> s\<lparr>ls_schema := schm, ls_phase := ph\<rparr>)"

definition terminal_names :: "mandate \<Rightarrow> string list" where
  "terminal_names m = (if mandate_enabled m then required_before m @ [terminal_tool m] else [])"

text \<open>\<open>None\<close> when an entry of the schema has no \<open>get\<close>.\<close>

definition closing_step ::
    "'h loop_config \<Rightarrow> rat \<Rightarrow> ('w, 'h) loop_state \<Rightarrow> ('w, 'h) loop_state option" where
  "closing_step cfg now s =
     (case apply_closing_mode (lc_str_of cfg) (ls_deadline s) (ls_schema s) (terminal_names (ls_mandate s)) now of
        (d, _, res) \<Rightarrow> map_option (\<lambda>schm. s\<lparr>ls_deadline := d, ls_schema := schm\<rparr>) res)"

definition hint_step :: "'h loop_config \<Rightarrow> ('w, 'h) loop_state \<Rightarrow> ('w, 'h) loop_state" where
  "hint_step cfg s =
     set_messages
       (inject_web_access_hint (lc_off_hint cfg) (te_web_access (lc_env cfg))
         (inject_tool_soft_hint (lc_logf cfg) (lc_surface cfg) (lc_profile cfg) (ascii (lc_message cfg))
           (ls_schema s) (ls_messages s))) s"

definition request_of :: "'h loop_config \<Rightarrow> ('w, 'h) loop_state \<Rightarrow> request" where
  "request_of cfg s =
     \<lparr>rq_messages = ls_messages s, rq_tools = ls_schema s,
      rq_system = (if ctx_system (ls_context s) = [] then None else Some (ctx_system (ls_context s))),
      rq_thinking = options_for_phase (lc_phase cfg)
        \<lparr>is_workflow_subagent = mandate_enabled (ls_mandate s), pc_closing = closing_mode (ls_deadline s),
         pc_nudged = nudge_injected (ls_mandate s), pc_restricted = restricted (ls_mandate s),
         prev_tool_calls = ls_prev_tools s, pc_tools_used = st_tools_used (ls_stats s)\<rparr>\<rparr>"

text \<open>The wait for an inference slot pauses the budget.\<close>

definition wait_in_queue :: "turn_env \<Rightarrow> ('w, 'h) loop_state \<Rightarrow> ('w, 'h) loop_state" where
  "wait_in_queue e s =
     (case tv_queue_wait e of
        None \<Rightarrow> s
      | Some (t1, t2) \<Rightarrow> s\<lparr>ls_budget := budget_resume t2 (budget_pause t1 (ls_budget s))\<rparr>)"

definition send_request ::
    "'h loop_config \<Rightarrow> turn_env \<Rightarrow> ('w, 'h) loop_state \<Rightarrow> ('w, 'h) loop_state \<times> llm_reply" where
  "send_request cfg e s =
     (let rq = request_of cfg s in
      ((wait_in_queue e s)\<lparr>ls_sent := ls_sent s @ [rq]\<rparr>, tv_reply e rq))"

definition note_usage :: "llm_response \<Rightarrow> ('w, 'h) loop_state \<Rightarrow> ('w, 'h) loop_state" where
  "note_usage r s =
     (update_stats (\<lambda>x. x\<lparr>st_llm_calls := st_llm_calls x + 1,
          st_input_tokens := st_input_tokens x + lr_input_tokens r,
          st_output_tokens := st_output_tokens x + lr_output_tokens r,
          st_total_tokens := st_total_tokens x + lr_total_tokens r,
          st_latest_tokens := lr_total_tokens r\<rparr>) s)
       \<lparr>ls_last_actual := (if lr_total_tokens r > 0 then Some (lr_total_tokens r) else None)\<rparr>"

section \<open>A reply without tool calls\<close>

definition reply_turn ::
    "'h loop_config \<Rightarrow> llm_response \<Rightarrow> ('w, 'h) loop_state \<Rightarrow> ('w, 'h) loop_state \<times> turn_outcome" where
  "reply_turn cfg r s =
     (if strip (lr_content r) = [] \<and> ls_empty_retries s < EMPTY_RESPONSE_MAX_RETRIES then
        ((say EMPTY_RESPONSE_PROMPT s)\<lparr>ls_empty_retries := ls_empty_retries s + 1\<rparr>, NextTurn)
      else
        (let final0 = (if lr_content r = [] then ''Agent provided no response.'' else lr_content r);
             marked = contains_xml_tool_call_markers final0
         in if marked \<and> \<not> ls_xml_repaired s then
              ((say (build_xml_repair_prompt XML_REPAIR_ERROR) s)\<lparr>ls_xml_repaired := True\<rparr>, NextTurn)
            else
              (let final1 = (if marked then XML_TOOL_CALL_FALLBACK else final0);
                   s1 = (if marked then set_status StatusError (Some ''malformed_xml_tool_call'') s else s)
               in if planning_detect (ls_planning s1) (ascii final1) then
                    ((say (lc_correction cfg) s1)\<lparr>ls_planning := note_correction (ls_planning s1)\<rparr>, NextTurn)
                  else
                    (let echo = (strip final1 = LOOP_GUARD_TEXT);
                         final2 = (if echo then LOOP_FALLBACK else final1);
                         s2 = (if echo then set_status StatusLoop (Some ''model_echoed_loop_guard'') s1 else s1)
                     in (save_turn cfg final2 (Some (lr_reasoning r)) s2, ReplyUser final2)))))"

section \<open>A reply with tool calls\<close>

definition terminal_call :: "'w registry \<Rightarrow> llm_tool_call \<Rightarrow> bool" where
  "terminal_call r tc \<longleftrightarrow> (case registry_get r (tc_name tc) of None \<Rightarrow> False | Some t \<Rightarrow> tool_terminal t)"

definition reject_batch ::
    "'h loop_config \<Rightarrow> llm_tool_call list \<Rightarrow> ('w, 'h) loop_state \<Rightarrow> ('w, 'h) loop_state" where
  "reject_batch cfg calls s = say MIXED_TERMINAL_RETRY (fold (\<lambda>tc. answer_call cfg tc MIXED_TERMINAL_RESULT) calls s)"

text \<open>One result after the other, each followed by the one-shot nudge.\<close>

definition record_result ::
    "'h loop_config \<Rightarrow> llm_tool_call \<Rightarrow> string \<Rightarrow> ('w, 'h) loop_state \<Rightarrow> ('w, 'h) loop_state" where
  "record_result cfg tc result s =
     maybe_inject_apply_fill_close_nudge (tc_name tc) result (note_used (tc_name tc) (answer_call cfg tc result s))"

definition run_parallel ::
    "'h loop_config \<Rightarrow> turn_env \<Rightarrow> llm_tool_call list \<Rightarrow> ('w, 'h) loop_state \<Rightarrow>
     ('w, 'h) loop_state \<times> (string \<times> string) list" where
  "run_parallel cfg e calls s =
     (case execute_parallel (lc_env cfg) (tv_approve e) (tv_order e) calls (ls_tools s) of
        (rw, results) \<Rightarrow>
          (fold (\<lambda>(tc, result). record_result cfg tc result) (zip calls results)
             (s\<lparr>ls_tools := rw, ls_ran := ls_ran s @ calls\<rparr>),
           zip (map tc_name calls) results))"

definition returns_direct :: "'w registry \<Rightarrow> llm_tool_call \<Rightarrow> string \<Rightarrow> bool" where
  "returns_direct r tc result \<longleftrightarrow>
     (case registry_get r (tc_name tc) of
        None \<Rightarrow> False
      | Some t \<Rightarrow> should_return_direct t (call_arguments tc) result) \<and>
     \<not> starts_with result TOOL_ERROR_PREFIX"

text \<open>The result of the third component is the reply of a terminal tool that was called alone.\<close>

fun run_sequential ::
    "'h loop_config \<Rightarrow> turn_env \<Rightarrow> bool \<Rightarrow> llm_tool_call list \<Rightarrow> ('w, 'h) loop_state \<Rightarrow>
     (string \<times> string) list \<Rightarrow> ('w, 'h) loop_state \<times> (string \<times> string) list \<times> string option" where
  "run_sequential cfg e alone [] s results = (s, results, None)"
| "run_sequential cfg e alone (tc # calls) s results =
     (case run_tool cfg (tv_approve e) tc s of
        (s1, result) \<Rightarrow>
          if alone \<and> returns_direct (fst (ls_tools s1)) tc result then
            (save_turn cfg result None (note_used (tc_name tc) (answer_call cfg tc result s1)),
             results @ [(tc_name tc, result)], Some result)
          else
            run_sequential cfg e alone calls (record_result cfg tc result s1) (results @ [(tc_name tc, result)]))"

fun detect_result_dedup ::
    "(string \<Rightarrow> 'h) \<Rightarrow> 'h dedup_guard \<Rightarrow> (string \<times> string) list \<Rightarrow> 'h dedup_guard \<times> bool" where
  "detect_result_dedup h g [] = (g, False)"
| "detect_result_dedup h g ((name, result) # rest) =
     (if starts_with result TOOL_ERROR_PREFIX then detect_result_dedup h g rest
      else (case dedup_detect h g name result of
              (g', hit) \<Rightarrow> if hit then (g', True) else detect_result_dedup h g' rest))"

definition append_system :: "string \<Rightarrow> ('w, 'h) loop_state \<Rightarrow> ('w, 'h) loop_state" where
  "append_system instruction =
     update_context (\<lambda>c. c\<lparr>ctx_system := append_instruction (ctx_system c) instruction\<rparr>)"

definition mandate_step ::
    "'h loop_config \<Rightarrow> rat \<Rightarrow> ('w, 'h) loop_state \<Rightarrow> ('w, 'h) loop_state" where
  "mandate_step cfg now s =
     (case apply_workflow_mandate (ls_mandate s) (ls_schema s) (ctx_system (ls_context s))
             (now, st_tools_used (ls_stats s), Some (st_iterations (ls_stats s))) of
        (m, prompt, schm) \<Rightarrow>
          (update_context (\<lambda>c. c\<lparr>ctx_system := prompt\<rparr>) s)\<lparr>ls_mandate := m, ls_schema := schm\<rparr>)"

text \<open>The mandate comes first, then the deduplication of results, then the loop detection.\<close>

definition after_tools ::
    "'h loop_config \<Rightarrow> turn_env \<Rightarrow> (string \<times> string) list \<Rightarrow> ('w, 'h) loop_state \<Rightarrow>
     ('w, 'h) loop_state \<times> turn_outcome" where
  "after_tools cfg e results s =
     (let s1 = mandate_step cfg (tv_now_mandate e) s;
          (g, hit) = detect_result_dedup (lc_hash cfg) (ls_dedup s1) results;
          s2 = s1\<lparr>ls_dedup := g\<rparr>
      in if hit then (append_system DEDUP_INSTRUCTION s2, NextTurn)
         else
           (case detect_loop_for_results (ls_progress s2) results of
              (p, looping) \<Rightarrow>
                (let s3 = s2\<lparr>ls_progress := p\<rparr> in
                 if \<not> looping then (s3, NextTurn)
                 else
                   (let s4 = (append_system LOOP_RECOVERY_INSTRUCTION s3)\<lparr>ls_loop_warnings := ls_loop_warnings s3 + 1\<rparr>
                    in (s4, if ls_loop_warnings s4 \<ge> 2 then LoopBreak else NextTurn)))))"

definition tool_turn ::
    "'h loop_config \<Rightarrow> turn_env \<Rightarrow> llm_response \<Rightarrow> ('w, 'h) loop_state \<Rightarrow> ('w, 'h) loop_state \<times> turn_outcome" where
  "tool_turn cfg e r s =
     (case budget_check (ls_budget s) (tv_now_after e) of
        Inl err \<Rightarrow> (s, BudgetStop err)
      | Inr _ \<Rightarrow>
          (case reserve_tool_calls (ls_budget s) (int (length (lr_calls r))) of
             Inl err \<Rightarrow> (s, BudgetStop err)
           | Inr b \<Rightarrow>
               (let calls = lr_calls r;
                    s1 = declare_calls cfg calls (lr_content r) (Some (lr_reasoning r)) (s\<lparr>ls_budget := b\<rparr>);
                    reg = fst (ls_tools s1)
                in if (\<exists>tc\<in>set calls. terminal_call reg tc) \<and> length calls > 1
                   then (reject_batch cfg calls s1, NextTurn)
                   else if can_parallelize reg calls then
                     (case run_parallel cfg e calls s1 of (s2, results) \<Rightarrow> after_tools cfg e results s2)
                   else
                     (case run_sequential cfg e (length calls = 1) calls s1 [] of
                        (s2, results, Some reply) \<Rightarrow> (s2, ReplyUser reply)
                      | (s2, results, None) \<Rightarrow> after_tools cfg e results s2))))"

section \<open>A turn, and the run\<close>

definition begin_turn ::
    "'h loop_config \<Rightarrow> turn_env \<Rightarrow> ('w, 'h) loop_state \<Rightarrow> ('w, 'h) loop_state" where
  "begin_turn cfg e s =
     tool_surface_step cfg
       (update_stats (\<lambda>x. x\<lparr>st_iterations := st_iterations x + 1\<rparr>)
         (s\<lparr>ls_prev_tools := ls_current_tools s, ls_current_tools := []\<rparr>))"

definition llm_failed :: "string \<Rightarrow> ('w, 'h) loop_state \<Rightarrow> ('w, 'h) loop_state \<times> turn_outcome" where
  "llm_failed err s = (set_status StatusError (Some err) s, Fault err)"

definition run_turn ::
    "'h loop_config \<Rightarrow> turn_env \<Rightarrow> ('w, 'h) loop_state \<Rightarrow> ('w, 'h) loop_state \<times> turn_outcome" where
  "run_turn cfg e s =
     (let s0 = s\<lparr>ls_budget := consume_iteration (ls_budget s)\<rparr> in
      case budget_check (ls_budget s0) (tv_now_check e) of
        Inl err \<Rightarrow> (s0, BudgetStop err)
      | Inr _ \<Rightarrow>
          (let s1 = begin_turn cfg e s0 in
           case closing_step cfg (fst (tv_now_closing e)) s1 of
             None \<Rightarrow> (s1, Fault ''AttributeError'')
           | Some s2 \<Rightarrow>
               (case maybe_compress_mid_run cfg (tv_summarize e) s2 of
                  None \<Rightarrow> (s2, Fault ''AttributeError'')
                | Some s3 \<Rightarrow>
                    (case closing_step cfg (snd (tv_now_closing e)) (tool_surface_step cfg s3) of
                       None \<Rightarrow> llm_failed ''AttributeError'' (tool_surface_step cfg s3)
                     | Some s4 \<Rightarrow>
                         (case send_request cfg e (hint_step cfg s4) of
                            (s5, TimedOut) \<Rightarrow>
                              (save_turn cfg LLM_TIMEOUT_TEXT None
                                 (update_stats (\<lambda>x. x\<lparr>st_status := StatusTimeout\<rparr>) s5), ReplyUser LLM_TIMEOUT_TEXT)
                          | (s5, Raised err) \<Rightarrow> llm_failed err s5
                          | (s5, Answer r) \<Rightarrow>
                              (let s6 = note_usage r s5 in
                               if lr_calls r = [] then reply_turn cfg r s6 else tool_turn cfg e r s6))))))"

text \<open>The turns of a run. \<open>None\<close>: the run has not ended yet when the given environments are used up.\<close>

fun run_turns ::
    "'h loop_config \<Rightarrow> turn_env list \<Rightarrow> ('w, 'h) loop_state \<Rightarrow> (('w, 'h) loop_state \<times> turn_outcome) option" where
  "run_turns cfg [] s = None"
| "run_turns cfg (e # es) s =
     (case run_turn cfg e s of
        (s', outcome) \<Rightarrow> if outcome = NextTurn then run_turns cfg es s' else Some (s', outcome))"

section \<open>The end of a run\<close>

text \<open>\<open>int(x)\<close> of a float truncates.\<close>

definition truncate :: "rat \<Rightarrow> int" where
  "truncate x = (if x < 0 then - floor (- x) else floor x)"

fun budget_error_text :: "budget_error \<Rightarrow> string" where
  "budget_error_text (IterationBudgetExceeded n k) = ''Iteration budget exceeded: '' @ int_str n @ ''/'' @ int_str k"
| "budget_error_text (ToolCallBudgetExceeded n k) = ''Tool call budget exceeded: '' @ int_str n @ ''/'' @ int_str k"
| "budget_error_text (TimeBudgetExceeded t k) = ''Time budget exceeded: '' @ int_str (truncate t) @ ''ms/'' @ int_str k @ ''ms''"
| "budget_error_text NegativeReservation = ''Tool call reservation count cannot be negative''"

text \<open>\<open>_cascade_execute\<close>: a call of the cascade is declared, executed and answered like any other.\<close>

definition cascade_execute ::
    "'h loop_config \<Rightarrow> turn_env \<Rightarrow> llm_tool_call \<Rightarrow> ('w, 'h) loop_state \<Rightarrow> ('w, 'h) loop_state \<times> string" where
  "cascade_execute cfg e tc s =
     (case run_tool cfg (tv_approve e) tc (declare_calls cfg [tc] [] None s) of
        (s1, result) \<Rightarrow>
          (let s2 = answer_call cfg tc result s1 in
           (if starts_with result TOOL_ERROR_PREFIX then s2 else note_used (tc_name tc) s2, result)))"

definition schemas_of :: "'w registry \<Rightarrow> schema" where
  "schemas_of r = map (\<lambda>j. case j of JObj d \<Rightarrow> d | _ \<Rightarrow> []) (to_schemas r)"

definition finalized :: "('w, 'h) loop_state \<times> string \<Rightarrow> ('w, 'h) loop_state \<times> string option" where
  "finalized p = (fst p, if starts_with (snd p) TOOL_ERROR_PREFIX then None else Some (snd p))"

text \<open>Stage B: one call of the model with the terminal tool only. Stage C: the terminal tool called by the
  program. \<open>None\<close>: nothing could be saved.\<close>

definition auto_finalize_cascade ::
    "'h loop_config \<Rightarrow> turn_env \<Rightarrow> string \<Rightarrow> ('w, 'h) loop_state \<Rightarrow> ('w, 'h) loop_state \<times> string option" where
  "auto_finalize_cascade cfg e terminal s =
     (let s1 = say (lc_emergency cfg terminal) s;
          terminal_schema = filter (\<lambda>d. closing_tool_name (lc_str_of cfg) d = Some terminal) (schemas_of (fst (ls_tools s1)))
      in if terminal_schema = [] then (s1, None)
         else
           (let rq = (request_of cfg s1)\<lparr>rq_tools := Some terminal_schema, rq_thinking := None\<rparr>;
                s2 = s1\<lparr>ls_sent := ls_sent s1 @ [rq]\<rparr>;
                stage_c = (\<lambda>answer. finalized (cascade_execute cfg e
                  \<lparr>tc_id = ''auto-finalize-'' @ st_run_id (ls_stats s2), tc_name = terminal,
                   tc_arguments = JObj [(''answer'', JStr answer)], tc_metadata = None\<rparr> s2))
            in case tv_reply e rq of
                 Answer r \<Rightarrow>
                   (case lr_calls r of
                      [tc] \<Rightarrow> if tc_name tc = terminal then finalized (cascade_execute cfg e tc s2)
                              else stage_c (lr_content r)
                    | _ \<Rightarrow> stage_c (lr_content r))
               | _ \<Rightarrow> stage_c []))"

definition budget_message :: "budget_error \<Rightarrow> string" where
  "budget_message err = ''I reached my resource limit and had to stop: '' @ budget_error_text err"

text \<open>The reply of the run, or the exception that leaves it.\<close>

definition finish_run ::
    "'h loop_config \<Rightarrow> turn_env \<Rightarrow> ('w, 'h) loop_state \<times> turn_outcome \<Rightarrow> ('w, 'h) loop_state \<times> (string + string)" where
  "finish_run cfg e p =
     (case p of
        (s, ReplyUser reply) \<Rightarrow> (s, Inr reply)
      | (s, Fault err) \<Rightarrow> (s, Inl err)
      | (s, BudgetStop err) \<Rightarrow>
          (let terminal = terminal_tool (ls_mandate s);
               (s1, salvage) = (if terminal \<noteq> [] \<and> \<not> terminal_called (ls_mandate s) (st_tools_used (ls_stats s))
                                then auto_finalize_cascade cfg e terminal s else (s, None))
           in case salvage of
                Some reply \<Rightarrow> (save_turn cfg reply None (set_status StatusOk None s1), Inr reply)
              | None \<Rightarrow>
                  (set_status StatusBudget (Some (budget_error_text err)) (save_turn cfg (budget_message err) None s1),
                   Inr (budget_message err)))
      | (s, _) \<Rightarrow> (update_stats (\<lambda>x. x\<lparr>st_status := StatusLoop\<rparr>) (save_turn cfg LOOP_FALLBACK None s), Inr LOOP_FALLBACK))"

definition run_loop ::
    "'h loop_config \<Rightarrow> turn_env list \<Rightarrow> turn_env \<Rightarrow> ('w, 'h) loop_state \<Rightarrow>
     (('w, 'h) loop_state \<times> (string + string)) option" where
  "run_loop cfg es e s = map_option (finish_run cfg e) (run_turns cfg es s)"

section \<open>The beginning of a run\<close>

text \<open>\<open>context_json\<close> is the serialised envelope of the user's persisted data.\<close>

definition format_untrusted_user_message :: "string \<Rightarrow> string \<Rightarrow> string" where
  "format_untrusted_user_message message context_json =
     ''Persisted user context (untrusted data):'' @ nl @ context_json @
     nl @ nl @ ''Current user request:'' @ nl @ message"

record run_settings =
  rs_max_steps :: int
  rs_max_tool_calls :: int
  rs_max_wall_time_ms :: int
  rs_soft_ratio :: rat
  rs_progress :: progress_config
  rs_dedup :: "bool \<times> int"
  rs_planning :: planning_guard
  rs_terminal :: string
  rs_required :: "string list"
  rs_nudge_ratio :: rat
  rs_restrict_ratio :: rat
  rs_tools_enabled :: bool

definition initial_schema :: "'h loop_config \<Rightarrow> run_settings \<Rightarrow> 'w registry \<Rightarrow> schema option" where
  "initial_schema cfg rs r =
     (if \<not> rs_tools_enabled rs then None
      else
        (let env = lc_env cfg;
             all = map (\<lambda>j. case j of JObj d \<Rightarrow> d | _ \<Rightarrow> [])
                     (to_schemas_for_user (te_checker env) (Some \<lparr>au_department = te_department env\<rparr>) (te_enforce env) r)
         in Some (if te_channel env = Some ''system''
                  then filter (\<lambda>d. \<not> starts_with (mandate_entry_name d) ''schedule_'') all else all)))"

definition initial_mandate :: "run_settings \<Rightarrow> rat \<Rightarrow> mandate" where
  "initial_mandate rs now =
     \<lparr>mandate_cfg_enabled = True, terminal_tool = rs_terminal rs, required_before = rs_required rs,
      nudge_ratio = rs_nudge_ratio rs, restrict_ratio = rs_restrict_ratio rs,
      mandate_max_time_ms = rs_max_wall_time_ms rs, mandate_max_iterations = Some (rs_max_steps rs),
      mandate_start = now, nudge_injected = False, restricted = False\<rparr>"

text \<open>The stored history is loaded only when a chat session is bound; \<open>None\<close>: the prologue raises.\<close>

definition initial_context ::
    "'h loop_config \<Rightarrow> string \<Rightarrow> string \<Rightarrow> (string \<times> json) list list \<Rightarrow> context_table \<Rightarrow> context_builder option" where
  "initial_context cfg base_prompt context_json few_shots store =
     (let msg = format_untrusted_user_message (lc_message cfg) context_json in
      case lc_target cfg of
        Some (session, user) \<Rightarrow>
          build_from_full_history (lc_dumps cfg) (lc_str_of cfg) (lc_loads cfg) msg
            (norm_messages (normalize_transcript (list_context (lc_loads cfg) session user store)))
            (Some base_prompt) few_shots
      | None \<Rightarrow> build_initial (lc_str_of cfg) msg [] (Some base_prompt) few_shots)"

definition build_turn_context ::
    "'h loop_config \<Rightarrow> run_settings \<Rightarrow> string \<Rightarrow> string \<Rightarrow> (string \<times> json) list list \<Rightarrow> rat \<Rightarrow>
     'w registry \<times> 'w \<Rightarrow> context_table \<Rightarrow> summaries \<Rightarrow> ('w, 'h) loop_state option" where
  "build_turn_context cfg rs base_prompt context_json few_shots now rw store memo =
     map_option (\<lambda>ctx.
       let schm = initial_schema cfg rs (fst rw) in
       persist_context_msg cfg (plain_args ''user'' (lc_message cfg))
         \<lparr>ls_stats = \<lparr>st_iterations = 0, st_tools_used = [], st_status = StatusOk, st_error = None,
            st_run_id = te_run_id (lc_env cfg), st_llm_calls = 0, st_input_tokens = 0, st_output_tokens = 0,
            st_total_tokens = 0, st_latest_tokens = 0\<rparr>,
          ls_budget = budget_init \<lparr>budget_enabled = True, max_iterations = rs_max_steps rs,
            max_tool_calls = rs_max_tool_calls rs, max_time_ms = rs_max_wall_time_ms rs\<rparr> now,
          ls_progress = progress_init (rs_progress rs), ls_dedup = dedup_init (fst (rs_dedup rs)) (snd (rs_dedup rs)),
          ls_planning = rs_planning rs,
          ls_deadline = deadline_init True (rs_soft_ratio rs) (rs_max_wall_time_ms rs) now,
          ls_mandate = initial_mandate rs now, ls_context = ctx, ls_base = schm, ls_schema = schm,
          ls_ephemeral = Some (format_untrusted_user_message (lc_message cfg) context_json),
          ls_durable = Some (lc_message cfg), ls_prev_tools = [], ls_current_tools = [], ls_last_actual = None,
          ls_phase = None, ls_loop_warnings = 0, ls_xml_repaired = False, ls_empty_retries = 0, ls_nudged = False,
          ls_tools = rw, ls_store = store, ls_memo = memo, ls_sent = [], ls_ran = []\<rparr>)
     (initial_context cfg base_prompt context_json few_shots store)"

section \<open>What the steps leave alone\<close>

text \<open>The books of a run: the budget, the requests, the executed calls, the name of the terminal tool.\<close>

definition books :: "('w, 'h) loop_state \<Rightarrow> budget_guard \<times> request list \<times> llm_tool_call list \<times> string" where
  "books s = (ls_budget s, ls_sent s, ls_ran s, terminal_tool (ls_mandate s))"

lemma books_update [simp]:
  "books (update_context f s) = books s" "books (persist_context_msg cfg a s) = books s"
  "books (update_stats g s) = books s" "books (set_messages ms s) = books s" "books (say text s) = books s"
  by (simp_all add: books_def update_context_def persist_context_msg_def update_stats_def set_messages_def say_def
      split: option.splits prod.splits)

lemma books_small [simp]:
  "books (save_turn cfg c r s) = books s" "books (set_status st err s) = books s"
  "books (answer_call cfg tc res s) = books s" "books (declare_calls cfg calls c r s) = books s"
  "books (append_system i s) = books s"
  by (simp_all add: save_turn_def set_status_def answer_call_def declare_calls_def append_system_def)

lemma books_fields [simp]:
  "books (s\<lparr>ls_last_actual := la\<rparr>) = books s" "books (s\<lparr>ls_memo := memo\<rparr>) = books s"
  "books (s\<lparr>ls_store := st\<rparr>) = books s" "books (s\<lparr>ls_schema := sch\<rparr>) = books s"
  "books (s\<lparr>ls_phase := ph\<rparr>) = books s" "books (s\<lparr>ls_deadline := d\<rparr>) = books s"
  "books (s\<lparr>ls_empty_retries := n\<rparr>) = books s" "books (s\<lparr>ls_xml_repaired := b\<rparr>) = books s"
  "books (s\<lparr>ls_planning := pg\<rparr>) = books s" "books (s\<lparr>ls_nudged := b\<rparr>) = books s"
  "books (s\<lparr>ls_dedup := g\<rparr>) = books s" "books (s\<lparr>ls_progress := p\<rparr>) = books s"
  "books (s\<lparr>ls_loop_warnings := n\<rparr>) = books s" "books (s\<lparr>ls_prev_tools := l\<rparr>) = books s"
  "books (s\<lparr>ls_current_tools := l\<rparr>) = books s" "books (s\<lparr>ls_stats := x\<rparr>) = books s"
  "books (s\<lparr>ls_tools := rw\<rparr>) = books s"
  by (simp_all add: books_def)

lemma books_note_used [simp]: "books (note_used name s) = books s"
  by (simp add: note_used_def books_def)

lemma books_record_result [simp]: "books (record_result cfg tc res s) = books s"
  by (simp add: record_result_def maybe_inject_apply_fill_close_nudge_def)

lemma books_fold: "(\<And>x s. books (f x s) = books s) \<Longrightarrow> books (fold f xs s) = books s"
  by (induction xs arbitrary: s) simp_all

lemma books_reject [simp]: "books (reject_batch cfg calls s) = books s"
  by (simp add: reject_batch_def books_fold)

lemma books_prune [simp]: "books (prune_step cfg s) = books s"
  by (simp add: prune_step_def)

lemma books_compress [simp]: "books (compress_in_memory cfg chat s) = books s"
  by (simp add: compress_in_memory_def split: prod.splits option.splits)

lemma books_compress_step [simp]: "books (compress_step cfg chat s) = books s"
  by (simp add: compress_step_def settle_compression_def case_prod_beta)

lemma books_maybe_compress: "maybe_compress_mid_run cfg chat s = Some s' \<Longrightarrow> books s' = books s"
  by (auto simp: maybe_compress_mid_run_def Let_def split: if_splits)

lemma books_surface [simp]: "books (tool_surface_step cfg s) = books s"
  by (simp add: tool_surface_step_def case_prod_beta)

lemma books_closing: "closing_step cfg now s = Some s' \<Longrightarrow> books s' = books s"
  by (auto simp: closing_step_def case_prod_beta)

lemma books_hint [simp]: "books (hint_step cfg s) = books s"
  by (simp add: hint_step_def)

lemma books_usage [simp]: "books (note_usage r s) = books s"
  by (simp add: note_usage_def)

lemma books_begin [simp]: "books (begin_turn cfg e s) = books s"
  by (simp add: begin_turn_def)

lemma terminal_apply_mandate: "terminal_tool (fst (apply_workflow_mandate m sch prompt q)) = terminal_tool m"
  by (cases q) (simp add: apply_workflow_mandate_def Let_def case_prod_beta)

lemma books_mandate [simp]: "books (mandate_step cfg now s) = books s"
  using terminal_apply_mandate [of "ls_mandate s"]
  by (simp add: mandate_step_def case_prod_beta books_def update_context_def)

lemma books_after_tools [simp]: "books (fst (after_tools cfg e results s)) = books s"
  by (simp add: after_tools_def Let_def case_prod_beta)

lemma books_reply_turn [simp]: "books (fst (reply_turn cfg r s)) = books s"
  by (simp add: reply_turn_def Let_def)

section \<open>Bounds of a run\<close>

definition within_limits :: "budget_config \<Rightarrow> string \<Rightarrow> ('w, 'h) loop_state \<Rightarrow> bool" where
  "within_limits c term s \<longleftrightarrow>
     budget_cfg (ls_budget s) = c \<and> terminal_tool (ls_mandate s) = term \<and>
     int (length (ls_ran s)) \<le> tool_calls_used (ls_budget s) \<and>
     tool_calls_used (ls_budget s) \<le> max 0 (max_tool_calls c) \<and>
     int (length (ls_sent s)) \<le> iterations_used (ls_budget s) \<and>
     int (length (ls_sent s)) \<le> max 0 (max_iterations c - 1)"

lemma books_eqD:
  "books s' = books s \<Longrightarrow> ls_budget s' = ls_budget s \<and> ls_sent s' = ls_sent s \<and> ls_ran s' = ls_ran s \<and>
     terminal_tool (ls_mandate s') = terminal_tool (ls_mandate s)"
  by (simp add: books_def)

lemma within_books: "books s' = books s \<Longrightarrow> within_limits c term s' = within_limits c term s"
  by (auto simp: within_limits_def dest!: books_eqD)

lemma books_run_tool:
  "books (fst (run_tool cfg approve tc s)) = (ls_budget s, ls_sent s, ls_ran s @ [tc], terminal_tool (ls_mandate s))"
  by (simp add: run_tool_def books_def case_prod_beta)

lemma books_sequential:
  "\<exists>k. books (fst (run_sequential cfg e alone calls s results)) =
     (ls_budget s, ls_sent s, ls_ran s @ take k calls, terminal_tool (ls_mandate s))"
proof (induction calls arbitrary: s results)
  case Nil
  then show ?case by (simp add: books_def)
next
  case (Cons tc calls)
  obtain s1 res where run: "run_tool cfg (tv_approve e) tc s = (s1, res)" by fastforce
  then have b1: "books s1 = (ls_budget s, ls_sent s, ls_ran s @ [tc], terminal_tool (ls_mandate s))"
    using books_run_tool [of cfg "tv_approve e" tc s] by simp
  show ?case
  proof (cases "alone \<and> returns_direct (fst (ls_tools s1)) tc res")
    case True
    then show ?thesis using run b1 by (intro exI [of _ 1]) simp
  next
    case False
    from Cons.IH [of "record_result cfg tc res s1" "results @ [(tc_name tc, res)]"] obtain k where
      "books (fst (run_sequential cfg e alone calls (record_result cfg tc res s1) (results @ [(tc_name tc, res)]))) =
        (ls_budget (record_result cfg tc res s1), ls_sent (record_result cfg tc res s1),
         ls_ran (record_result cfg tc res s1) @ take k calls, terminal_tool (ls_mandate (record_result cfg tc res s1)))" ..
    moreover have "books (record_result cfg tc res s1) = books s1" by simp
    ultimately show ?thesis
      using run b1 False by (intro exI [of _ "Suc k"]) (auto simp: books_def)
  qed
qed

lemma books_parallel:
  "books (fst (run_parallel cfg e calls s)) = (ls_budget s, ls_sent s, ls_ran s @ calls, terminal_tool (ls_mandate s))"
proof -
  have "books (fold (\<lambda>(tc, result). record_result cfg tc result) xs s') = books s'" for xs and s' :: "('a, 'b) loop_state"
    by (rule books_fold) (simp add: case_prod_beta)
  then show ?thesis by (simp add: run_parallel_def case_prod_beta) (simp add: books_def)
qed

lemma tool_turn_books:
  "books (fst (tool_turn cfg e r s)) = books s \<or>
   (\<exists>b k. reserve_tool_calls (ls_budget s) (int (length (lr_calls r))) = Inr b \<and>
      books (fst (tool_turn cfg e r s)) =
        (b, ls_sent s, ls_ran s @ take k (lr_calls r), terminal_tool (ls_mandate s)))"
proof (cases "budget_check (ls_budget s) (tv_now_after e)")
  case (Inl err)
  then show ?thesis by (simp add: tool_turn_def)
next
  case Inr
  show ?thesis
  proof (cases "reserve_tool_calls (ls_budget s) (int (length (lr_calls r)))")
    case (Inl err)
    then show ?thesis by (simp add: tool_turn_def Inr)
  next
    case (Inr b)
    define s1 where "s1 = declare_calls cfg (lr_calls r) (lr_content r) (Some (lr_reasoning r)) (s\<lparr>ls_budget := b\<rparr>)"
    have b1: "books s1 = (b, ls_sent s, ls_ran s, terminal_tool (ls_mandate s))"
      by (simp add: s1_def) (simp add: books_def)
    let ?target = "\<lambda>s'. \<exists>k. books s' = (b, ls_sent s, ls_ran s @ take k (lr_calls r), terminal_tool (ls_mandate s))"
    have seq: "?target (fst (run_sequential cfg e alone (lr_calls r) s1 []))" for alone
      using books_sequential [of cfg e alone "lr_calls r" s1 "[]"] b1 by (auto simp: books_def)
    have par: "?target (fst (run_parallel cfg e (lr_calls r) s1))"
      using b1 by (intro exI [of _ "length (lr_calls r)"]) (simp add: books_parallel, simp add: books_def)
    have rej: "?target (reject_batch cfg (lr_calls r) s1)"
      using b1 by (intro exI [of _ 0]) simp
    have "?target (fst (tool_turn cfg e r s))"
      using seq par rej \<open>budget_check (ls_budget s) (tv_now_after e) = Inr _\<close> Inr
      unfolding tool_turn_def Let_def s1_def [symmetric]
      by (auto simp: s1_def [symmetric] case_prod_beta split: option.splits)
    with Inr show ?thesis by blast
  qed
qed

lemma within_tool_turn:
  assumes "within_limits c term s" "budget_enabled c"
  shows "within_limits c term (fst (tool_turn cfg e r s)) \<and>
    iterations_used (ls_budget (fst (tool_turn cfg e r s))) = iterations_used (ls_budget s)"
proof -
  consider "books (fst (tool_turn cfg e r s)) = books s"
    | b k where "reserve_tool_calls (ls_budget s) (int (length (lr_calls r))) = Inr b"
      "books (fst (tool_turn cfg e r s)) = (b, ls_sent s, ls_ran s @ take k (lr_calls r), terminal_tool (ls_mandate s))"
    using tool_turn_books [of cfg e r s] by blast
  then show ?thesis
  proof cases
    case 1
    with assms show ?thesis using within_books [OF 1] books_eqD [OF 1] by simp
  next
    case 2
    note b = reserve_cases [OF 2(1)] reserve_bound [OF 2(1)]
    with assms 2(2) show ?thesis by (auto simp: within_limits_def books_def)
  qed
qed

lemma within_reply_turn:
  "within_limits c term s \<Longrightarrow> within_limits c term (fst (reply_turn cfg r s)) \<and>
    iterations_used (ls_budget (fst (reply_turn cfg r s))) = iterations_used (ls_budget s)"
  using within_books [OF books_reply_turn] books_eqD [OF books_reply_turn] by metis

lemma budget_check_ok: "budget_check g now = Inr u \<Longrightarrow> budget_enabled (budget_cfg g) \<Longrightarrow> iterations_used g < max_iterations (budget_cfg g)"
  by (auto simp: budget_check_def Let_def split: if_splits)

lemma send_request_books:
  "budget_cfg (ls_budget (fst (send_request cfg e s))) = budget_cfg (ls_budget s) \<and>
   iterations_used (ls_budget (fst (send_request cfg e s))) = iterations_used (ls_budget s) \<and>
   tool_calls_used (ls_budget (fst (send_request cfg e s))) = tool_calls_used (ls_budget s) \<and>
   length (ls_sent (fst (send_request cfg e s))) = Suc (length (ls_sent s)) \<and>
   ls_ran (fst (send_request cfg e s)) = ls_ran s \<and>
   terminal_tool (ls_mandate (fst (send_request cfg e s))) = terminal_tool (ls_mandate s)"
  by (auto simp: send_request_def Let_def wait_in_queue_def budget_resume_def budget_pause_def split: option.splits)

text \<open>What a turn does after its first check, as one case split for the proofs below.\<close>

lemma run_turn_cases:
  obtains (budget) err where "run_turn cfg e s = (s\<lparr>ls_budget := consume_iteration (ls_budget s)\<rparr>, BudgetStop err)"
  | (early) s' err where "run_turn cfg e s = (s', Fault err)"
      "books s' = books (s\<lparr>ls_budget := consume_iteration (ls_budget s)\<rparr>)"
      "\<exists>u. budget_check (consume_iteration (ls_budget s)) (tv_now_check e) = Inr u"
  | (sent) s3 s4 s5 reply where "\<exists>u. budget_check (consume_iteration (ls_budget s)) (tv_now_check e) = Inr u"
      "closing_step cfg (fst (tv_now_closing e)) (begin_turn cfg e (s\<lparr>ls_budget := consume_iteration (ls_budget s)\<rparr>)) = Some s3"
      "\<exists>s'. maybe_compress_mid_run cfg (tv_summarize e) s3 = Some s' \<and>
         closing_step cfg (snd (tv_now_closing e)) (tool_surface_step cfg s') = Some s4"
      "books s4 = books (s\<lparr>ls_budget := consume_iteration (ls_budget s)\<rparr>)"
      "send_request cfg e (hint_step cfg s4) = (s5, reply)"
      "run_turn cfg e s =
        (case reply of
           TimedOut \<Rightarrow> (save_turn cfg LLM_TIMEOUT_TEXT None (update_stats (\<lambda>x. x\<lparr>st_status := StatusTimeout\<rparr>) s5),
             ReplyUser LLM_TIMEOUT_TEXT)
         | Raised err \<Rightarrow> llm_failed err s5
         | Answer r \<Rightarrow> if lr_calls r = [] then reply_turn cfg r (note_usage r s5) else tool_turn cfg e r (note_usage r s5))"
proof -
  define s0 where "s0 = s\<lparr>ls_budget := consume_iteration (ls_budget s)\<rparr>"
  have b0: "ls_budget s0 = consume_iteration (ls_budget s)" by (simp add: s0_def)
  show thesis
  proof (cases "budget_check (ls_budget s0) (tv_now_check e)")
    case (Inl err)
    then show ?thesis using budget b0 by (simp add: run_turn_def Let_def s0_def [symmetric])
  next
    case (Inr u)
    note start = run_turn_def [of cfg e s, unfolded Let_def, folded s0_def, unfolded Inr, simplified]
    have ok: "\<exists>u. budget_check (consume_iteration (ls_budget s)) (tv_now_check e) = Inr u" using Inr b0 by simp
    show ?thesis
    proof (cases "closing_step cfg (fst (tv_now_closing e)) (begin_turn cfg e s0)")
      case None
      with start show ?thesis using early [OF _ _ ok] by (simp add: s0_def [symmetric])
    next
      case s3: (Some s3)
      have books3: "books s3 = books s0" using books_closing [OF s3] by simp
      show ?thesis
      proof (cases "maybe_compress_mid_run cfg (tv_summarize e) s3")
        case None
        with start s3 show ?thesis using early [OF _ _ ok] books3 by (simp add: s0_def [symmetric])
      next
        case s': (Some s')
        have books': "books s' = books s0" using books_maybe_compress [OF s'] books3 by simp
        show ?thesis
        proof (cases "closing_step cfg (snd (tv_now_closing e)) (tool_surface_step cfg s')")
          case None
          with start s3 s' show ?thesis using early [OF _ _ ok] books'
            by (simp add: s0_def [symmetric] llm_failed_def)
        next
          case s4: (Some s4)
          obtain s5 reply where s5: "send_request cfg e (hint_step cfg s4) = (s5, reply)" by fastforce
          show ?thesis
          proof (rule sent [OF ok s3 [unfolded s0_def]])
            show "\<exists>s'. maybe_compress_mid_run cfg (tv_summarize e) s3 = Some s' \<and>
                closing_step cfg (snd (tv_now_closing e)) (tool_surface_step cfg s') = Some s4"
              using s' s4 by blast
            show "books s4 = books (s\<lparr>ls_budget := consume_iteration (ls_budget s)\<rparr>)"
              using books_closing [OF s4] books' by (simp add: s0_def [symmetric])
            show "send_request cfg e (hint_step cfg s4) = (s5, reply)" by (fact s5)
          qed (use start s3 s' s4 s5 in \<open>simp split: llm_reply.splits\<close>)
        qed
      qed
    qed
  qed
qed

lemma consume_fields [simp]:
  "budget_cfg (consume_iteration g) = budget_cfg g" "iterations_used (consume_iteration g) = iterations_used g + 1"
  "tool_calls_used (consume_iteration g) = tool_calls_used g"
  by (simp_all add: consume_iteration_def)

lemma within_run_turn:
  assumes "within_limits c term s" "budget_enabled c"
  shows "within_limits c term (fst (run_turn cfg e s)) \<and>
    iterations_used (ls_budget (fst (run_turn cfg e s))) = iterations_used (ls_budget s) + 1 \<and>
    (snd (run_turn cfg e s) = NextTurn \<longrightarrow> iterations_used (ls_budget s) + 1 < max_iterations c)"
proof -
  define s0 where "s0 = s\<lparr>ls_budget := consume_iteration (ls_budget s)\<rparr>"
  have s0: "within_limits c term s0" "iterations_used (ls_budget s0) = iterations_used (ls_budget s) + 1"
    using assms(1) by (auto simp: s0_def within_limits_def)
  show ?thesis
  proof (cases rule: run_turn_cases [of cfg e s])
    case (budget err)
    with s0 show ?thesis by (simp add: s0_def [symmetric])
  next
    case (early s' err)
    with s0 show ?thesis using within_books [of s' s0] books_eqD [of s' s0] by (simp add: s0_def [symmetric])
  next
    case (sent s3 s4 s5 reply)
    have more: "iterations_used (ls_budget s0) < max_iterations c"
      using sent(1) budget_check_ok assms by (fastforce simp: s0_def within_limits_def)
    have b4: "books (hint_step cfg s4) = books s0" using sent(4) by (simp add: s0_def [symmetric])
    have s5: "s5 = fst (send_request cfg e (hint_step cfg s4))" using sent(5) by simp
    have "int (length (ls_sent s)) \<le> iterations_used (ls_budget s)" "ls_sent s0 = ls_sent s"
      using assms(1) by (simp_all add: within_limits_def s0_def)
    then have w5: "within_limits c term s5 \<and> iterations_used (ls_budget s5) = iterations_used (ls_budget s0)"
      using s0 more books_eqD [OF b4] send_request_books [of cfg e "hint_step cfg s4"]
      by (auto simp: s5 within_limits_def)
    have w6: "within_limits c term (note_usage r s5)" "ls_budget (note_usage r s5) = ls_budget s5" for r
      using w5 within_books [OF books_usage [of r s5]] books_eqD [OF books_usage [of r s5]] by auto
    show ?thesis
    proof (cases reply)
      case (Answer r)
      then show ?thesis
        using sent(6) w5 s0(2) more within_tool_turn [OF w6(1) assms(2)] within_reply_turn [OF w6(1)] w6(2) by simp
    next
      case TimedOut
      have b: "books (save_turn cfg LLM_TIMEOUT_TEXT None (update_stats (\<lambda>x. x\<lparr>st_status := StatusTimeout\<rparr>) s5)) = books s5"
        by simp
      show ?thesis using TimedOut sent(6) w5 s0(2) within_books [OF b] books_eqD [OF b] by simp
    next
      case (Raised err)
      have b: "books (set_status StatusError (Some err) s5) = books s5" by simp
      show ?thesis using Raised sent(6) w5 s0(2) within_books [OF b] books_eqD [OF b] by (simp add: llm_failed_def)
    qed
  qed
qed

lemma run_turns_end:
  assumes "within_limits c term s" "budget_enabled c"
    and "max_iterations c \<le> iterations_used (ls_budget s) + int (length es)" "es \<noteq> []"
  shows "\<exists>s' outcome. run_turns cfg es s = Some (s', outcome) \<and> outcome \<noteq> NextTurn \<and> within_limits c term s'"
  using assms(1,3,4)
proof (induction es arbitrary: s)
  case (Cons e es)
  obtain s1 outcome where turn: "run_turn cfg e s = (s1, outcome)" by fastforce
  have w: "within_limits c term s1" "iterations_used (ls_budget s1) = iterations_used (ls_budget s) + 1"
    "outcome = NextTurn \<longrightarrow> iterations_used (ls_budget s) + 1 < max_iterations c"
    using within_run_turn [OF Cons.prems(1) assms(2), of cfg e] turn by simp_all
  show ?case
  proof (cases "outcome = NextTurn")
    case True
    then have "es \<noteq> []" using w(3) Cons.prems(2) by (cases es) auto
    with Cons.IH [OF w(1)] w(2) Cons.prems(2) True turn show ?thesis by simp
  next
    case False
    with turn w(1) show ?thesis by simp
  qed
qed simp

lemma cascade_execute_books:
  "books (fst (cascade_execute cfg e tc s)) = (ls_budget s, ls_sent s, ls_ran s @ [tc], terminal_tool (ls_mandate s))"
proof -
  have same: "books (declare_calls cfg [tc] [] None s) = books s" by simp
  then have "books (fst (run_tool cfg (tv_approve e) tc (declare_calls cfg [tc] [] None s))) =
      (ls_budget s, ls_sent s, ls_ran s @ [tc], terminal_tool (ls_mandate s))"
    using books_eqD [OF same] by (simp add: books_run_tool)
  then show ?thesis by (simp add: cascade_execute_def case_prod_beta Let_def)
qed

lemma auto_finalize_books:
  "length (ls_sent (fst (auto_finalize_cascade cfg e terminal s))) \<le> Suc (length (ls_sent s)) \<and>
   length (ls_ran (fst (auto_finalize_cascade cfg e terminal s))) \<le> Suc (length (ls_ran s))"
proof -
  define s1 where "s1 = say (lc_emergency cfg terminal) s"
  have s1: "ls_sent s1 = ls_sent s" "ls_ran s1 = ls_ran s"
    using books_eqD [of s1 s] by (simp_all add: s1_def)
  have exec: "length (ls_sent (fst (finalized (cascade_execute cfg e tc (s1\<lparr>ls_sent := x\<rparr>))))) = length x \<and>
      length (ls_ran (fst (finalized (cascade_execute cfg e tc (s1\<lparr>ls_sent := x\<rparr>))))) = Suc (length (ls_ran s))" for tc x
    using cascade_execute_books [of cfg e tc "s1\<lparr>ls_sent := x\<rparr>"] s1 by (simp add: finalized_def books_def)
  show ?thesis
    unfolding auto_finalize_cascade_def Let_def s1_def [symmetric]
    using exec s1 by (auto split: llm_reply.split list.split)
qed

lemma initial_within:
  assumes "build_turn_context cfg rs base_prompt context_json few_shots now rw store memo = Some s"
  shows "within_limits \<lparr>budget_enabled = True, max_iterations = rs_max_steps rs, max_tool_calls = rs_max_tool_calls rs,
      max_time_ms = rs_max_wall_time_ms rs\<rparr> (rs_terminal rs) s \<and> iterations_used (ls_budget s) = 0"
proof -
  obtain s0 :: "('a, 'b) loop_state" and ctx where s0: "s = persist_context_msg cfg (plain_args ''user'' (lc_message cfg)) s0"
    "ls_budget s0 = budget_init \<lparr>budget_enabled = True, max_iterations = rs_max_steps rs,
       max_tool_calls = rs_max_tool_calls rs, max_time_ms = rs_max_wall_time_ms rs\<rparr> now"
    "ls_mandate s0 = initial_mandate rs now" "ls_sent s0 = []" "ls_ran s0 = []"
    using assms by (auto simp: build_turn_context_def Let_def)
  have b: "books s = books s0" by (simp add: s0(1))
  show ?thesis
    using within_books [OF b] books_eqD [OF b] s0(2-)
    by (simp add: within_limits_def budget_init_def initial_mandate_def)
qed

text \<open>C2: a run always ends, within its budget. Whatever the model, the tools, the users and the clock do, a
  run that has begun ends after at most \<open>max_steps\<close> turns with a reply or an exception; it sends at most
  \<open>max_steps - 1\<close> requests to the model and executes at most \<open>max_tool_calls\<close> tool calls, plus one of each
  for the emergency finalisation of an agent with a terminal tool.\<close>
lemma run_ends_within_budget:
  assumes "build_turn_context cfg rs base_prompt context_json few_shots now rw store memo = Some s"
    and "rs_max_steps rs \<le> int (length es)" "es \<noteq> []"
  shows "\<exists>s' result. run_loop cfg es e s = Some (s', result) \<and>
    int (length (ls_sent s')) \<le> max 0 (rs_max_steps rs - 1) + (if rs_terminal rs = [] then 0 else 1) \<and>
    int (length (ls_ran s')) \<le> max 0 (rs_max_tool_calls rs) + (if rs_terminal rs = [] then 0 else 1)"
proof -
  define c where "c = \<lparr>budget_enabled = True, max_iterations = rs_max_steps rs, max_tool_calls = rs_max_tool_calls rs,
      max_time_ms = rs_max_wall_time_ms rs\<rparr>"
  have start: "within_limits c (rs_terminal rs) s" "iterations_used (ls_budget s) = 0" "budget_enabled c"
    "max_iterations c = rs_max_steps rs" "max_tool_calls c = rs_max_tool_calls rs"
    using initial_within [OF assms(1)] by (simp_all add: c_def)
  obtain s1 outcome where turns: "run_turns cfg es s = Some (s1, outcome)" "within_limits c (rs_terminal rs) s1"
    "outcome \<noteq> NextTurn"
    using run_turns_end [OF start(1,3), of es cfg] start(2,4) assms(2,3) by auto
  have lim: "int (length (ls_sent s1)) \<le> max 0 (rs_max_steps rs - 1)"
    "int (length (ls_ran s1)) \<le> max 0 (rs_max_tool_calls rs)" "terminal_tool (ls_mandate s1) = rs_terminal rs"
    using turns(2) start(4,5) by (simp_all add: within_limits_def)
  obtain s' result where fin: "finish_run cfg e (s1, outcome) = (s', result)" by fastforce
  have "length (ls_sent s') \<le> length (ls_sent s1) + (if rs_terminal rs = [] then 0 else 1) \<and>
      length (ls_ran s') \<le> length (ls_ran s1) + (if rs_terminal rs = [] then 0 else 1)"
  proof (cases outcome)
    case (BudgetStop err)
    obtain s2 salvage where two: "(s2, salvage) = (if terminal_tool (ls_mandate s1) \<noteq> [] \<and>
        \<not> terminal_called (ls_mandate s1) (st_tools_used (ls_stats s1))
        then auto_finalize_cascade cfg e (terminal_tool (ls_mandate s1)) s1 else (s1, None))" by (metis surj_pair)
    then have grown: "length (ls_sent s2) \<le> length (ls_sent s1) + (if rs_terminal rs = [] then 0 else 1)"
      "length (ls_ran s2) \<le> length (ls_ran s1) + (if rs_terminal rs = [] then 0 else 1)"
      using auto_finalize_books [of cfg e "terminal_tool (ls_mandate s1)" s1] lim(3)
      by (auto split: if_splits dest!: arg_cong [where f = fst])
    have "books s' = books s2"
      using fin two unfolding BudgetStop finish_run_def prod.case turn_outcome.case Let_def
      by (cases salvage) (auto simp: two [symmetric])
    then show ?thesis using grown books_eqD [of s' s2] by simp
  next
    case LoopBreak
    then have "books s' = books s1" using fin by (auto simp: finish_run_def)
    then show ?thesis using books_eqD [of s' s1] by simp
  qed (use fin turns(3) in \<open>auto simp: finish_run_def\<close>)
  then show ?thesis
    using lim turns(1) fin by (auto simp: run_loop_def split: if_splits)
qed

text \<open>A run in which the model calls the one tool of the sample registry, persisted in session 1.\<close>

definition sample_cfg :: "nat loop_config" where
  "sample_cfg = \<lparr>lc_env = sample_env,
     lc_compression = \<lparr>cs_enabled = True, max_context_tokens = 1000, threshold_ratio = 3/4, protect_tail_tokens = 100,
       prune_min_messages = 20\<rparr>,
     lc_has_compressor = True,
     lc_surface = \<lparr>ts_enabled = True, soft_hint_enabled = False, soft_hint_top_k = 5, hard_filter_profiles = []\<rparr>,
     lc_profile = ''main'', lc_message = ''hello'',
     lc_phase = \<lparr>pp_enabled = False, closing_thinking = [], gathering_thinking = [], aggregation_thinking = [],
       aggregation_markers = []\<rparr>,
     lc_dumps = json_text, lc_dumps_raw = json_text, lc_loads = json_read, lc_logf = id, lc_hash = length,
     lc_off_hint = ''off'', lc_correction = ''act'', lc_emergency = (\<lambda>t. t), lc_sessions = {1},
     lc_target = Some (1, ''u''), lc_mem_key = ''m'', lc_store_key = ''s''\<rparr>"

definition sample_run :: run_settings where
  "sample_run = \<lparr>rs_max_steps = 2, rs_max_tool_calls = 5, rs_max_wall_time_ms = 1000, rs_soft_ratio = 1/2,
     rs_progress = \<lparr>progress_enabled = True, max_same_tool_error = 3\<rparr>, rs_dedup = (True, 3),
     rs_planning = \<lparr>planning_enabled = False, planning_max_length = 0, max_corrections = 0, corrections_used = 0\<rparr>,
     rs_terminal = [], rs_required = [], rs_nudge_ratio = 1/2, rs_restrict_ratio = 3/4, rs_tools_enabled = True\<rparr>"

definition sample_turn :: turn_env where
  "sample_turn = \<lparr>tv_now_check = 0, tv_now_closing = (0, 0), tv_queue_wait = None, tv_now_after = 0, tv_now_mandate = 0,
     tv_reply = (\<lambda>rq. Answer \<lparr>lr_content = [], lr_reasoning = [], lr_calls = [sample_call], lr_input_tokens = 1,
       lr_output_tokens = 1, lr_total_tokens = 2\<rparr>),
     tv_summarize = (\<lambda>t. None), tv_approve = None, tv_order = [0]\<rparr>"

definition sample_context :: "(nat, nat) loop_state option" where
  "sample_context = build_turn_context sample_cfg sample_run ''p'' ''{}'' [] 0 (sample_registry, 0) [] []"

lemma sample_context_built:
  obtains s where "sample_context = Some s" "ls_messages s = [user_msg (format_untrusted_user_message ''hello'' ''{}'')]"
  by (simp add: sample_context_def build_turn_context_def initial_context_def sample_cfg_def build_from_full_history_def
    list_context_def normalize_transcript_def Let_def persist_context_msg_def)

lemma run_ends_within_budget_witness:
  "\<exists>s s' result. sample_context = Some s \<and> run_loop sample_cfg [sample_turn, sample_turn] sample_turn s = Some (s', result) \<and>
     length (ls_sent s') \<le> 1 \<and> length (ls_ran s') \<le> 5"
proof -
  obtain s where s: "sample_context = Some s" using sample_context_built by blast
  have "rs_max_steps sample_run = 2" "rs_max_tool_calls sample_run = 5" "rs_terminal sample_run = []"
    by (simp_all add: sample_run_def)
  then show ?thesis
    using s run_ends_within_budget [OF s [unfolded sample_context_def], of "[sample_turn, sample_turn]" sample_turn] by fastforce
qed

end
