(* ===== verification/AgentProtocol.thy ===== *)
theory AgentProtocol
  imports AgentLoop
begin

text \<open>
  The messages that \<open>AgentLoop.run\<close> sends obey the protocol of the providers: every declared call is answered
  before the next message. The hints of a turn drop every message that contains one of their markers, so the
  invariant speaks about the texts of the messages of a batch.
\<close>

section \<open>Texts of a batch\<close>

definition fragment :: "message \<Rightarrow> bool" where
  "fragment m \<longleftrightarrow> is_tool_msg m \<or> declared_calls m \<noteq> []"

definition unmarked :: "string \<Rightarrow> bool" where
  "unmarked s \<longleftrightarrow> \<not> contains s SOFT_HINT_MARKER \<and> \<not> contains s WEB_ACCESS_MARKER"

text \<open>A message that the hints leave alone when it belongs to a batch.\<close>

definition kept :: "message \<Rightarrow> bool" where
  "kept m \<longleftrightarrow> (fragment m \<longrightarrow> (\<exists>s. jget m ''content'' = Some (JStr s) \<and> unmarked s))"

lemma kept_marker: "kept m \<Longrightarrow> fragment m \<Longrightarrow> \<not> has_marker SOFT_HINT_MARKER m \<and> \<not> has_marker WEB_ACCESS_MARKER m"
  by (auto simp: kept_def has_marker_def unmarked_def)

lemma plain_kept [simp]: "kept (user_msg s)" "kept (assistant_msg s)"
  by (simp_all add: kept_def fragment_def user_msg_def assistant_msg_def has_role_def declared_calls_def jget_def)

lemma valid_pairs_filter:
  assumes "valid_pairs ms" "\<forall>m\<in>set ms. fragment m \<longrightarrow> P m"
  shows "valid_pairs (filter P ms)"
  using assms
proof (induction ms rule: transcript_induct)
  case (Cons m ms)
  define n where "n = length (declared_calls m)"
  show ?case
  proof (cases "declared_calls m = []")
    case True
    then show ?thesis using Cons.IH [of ms] Cons.prems by (simp add: valid_pairs.simps(2))
  next
    case False
    have v: "\<forall>r\<in>set (take n ms). is_tool_msg r" "valid_pairs (drop n ms)"
      "map result_id (take n ms) = map (map_option fst) (map call_key (declared_calls m))"
      using Cons.prems(1) False by (simp_all add: valid_pairs.simps(2) Let_def n_def del: map_map)
    have len: "length (take n ms) = n" using arg_cong [OF v(3), of length] by (simp add: n_def)
    have "P m" using Cons.prems(2) False by (simp add: fragment_def)
    moreover have "\<forall>r\<in>set (take n ms). P r"
    proof
      fix r assume "r \<in> set (take n ms)"
      with v(1) in_set_takeD [of r n ms] Cons.prems(2) show "P r" by (simp add: fragment_def)
    qed
    then have "filter P (take n ms) = take n ms" by (simp add: filter_id_conv)
    then have split: "filter P ms = take n ms @ filter P (drop n ms)"
      by (metis append_take_drop_id filter_append)
    moreover have "valid_pairs (filter P (drop n ms))"
      using Cons.IH [of "drop n ms"] v(2) Cons.prems(2) in_set_dropD [of _ n ms] by simp
    ultimately show ?thesis
      using Cons.prems(1) False len unfolding filter.simps
      by (simp add: valid_pairs.simps(2) Let_def n_def [symmetric] del: map_map)
  qed
qed simp

section \<open>Normalisation, pruning and compression keep the texts\<close>

lemma lost_texts: "unmarked ''[Tool result was lost before it could be persisted]''"
  "unmarked ''[Tool result was lost during context compression]''" "unmarked PLACEHOLDER"
  by (simp_all add: unmarked_def SOFT_HINT_MARKER_def WEB_ACCESS_MARKER_def PLACEHOLDER_def)

lemma stub_kept: "kept (stub_result i n)"
  using lost_texts(1) by (simp add: kept_def stub_result_def jget_def)

lemma keep_calls_kept: "declared_calls m \<noteq> [] \<Longrightarrow> kept m \<Longrightarrow> kept (keep_calls m calls)"
  by (auto simp: kept_def fragment_def keep_calls_def jget_dput jget_dpop)

lemma collect_results_from:
  "dget (fst (collect_results ids ms actual)) i = Some m \<Longrightarrow> dget actual i = Some m \<or> m \<in> set ms"
  by (induction ids ms actual rule: collect_results.induct)
    (auto simp: case_prod_beta Let_def dget_dput split: option.splits if_splits)

lemma batch_results_kept:
  assumes "\<forall>m\<in>set ms. kept m"
  shows "\<forall>r\<in>set (batch_results calls (fst (collect_results ids ms []))). kept r"
  using collect_results_from [of ids ms "[]"] assms stub_kept
  by (fastforce simp: batch_results_def split: option.splits)

lemma normalize_pairs_kept:
  "\<forall>m\<in>set ms. kept m \<Longrightarrow> \<forall>m\<in>set (fst (normalize_tool_pairs ms)). kept m"
proof (induction ms rule: transcript_induct)
  case (Cons m ms)
  have tools: "\<forall>m\<in>set (takeWhile is_tool_msg ms). kept m" and rest: "\<forall>m\<in>set (dropWhile is_tool_msg ms). kept m"
    using Cons.prems by (auto dest: set_takeWhileD set_dropWhileD)
  have "\<forall>m\<in>set (fst (normalize_tool_pairs ms)). kept m" "kept m"
    using Cons.prems Cons.IH [of ms] by simp_all
  moreover have "\<forall>m\<in>set (fst (normalize_tool_pairs (dropWhile is_tool_msg ms))). kept m"
    by (rule Cons.IH [OF length_dropWhile_le rest])
  ultimately show ?case
    using batch_results_kept [OF tools] keep_calls_kept by (simp add: normalize_unfold ball_Un)
qed simp

lemma normalize_kept: "\<forall>m\<in>set ms. kept m \<Longrightarrow> \<forall>m\<in>set (norm_messages (normalize_transcript ms)). kept m"
  unfolding normalize_transcript_def Let_def case_prod_beta normalization.select_convs
  by (rule normalize_pairs_kept) (auto dest: set_dropWhileD)

lemma sanitize_kept:
  assumes "sanitize_tool_pairs ms = Some out" "\<forall>m\<in>set ms. kept m"
  shows "\<forall>m\<in>set out. kept m"
proof -
  have stubs: "call_stubs oc ds = Some st \<Longrightarrow> \<forall>m\<in>set st. kept m" for oc ds st
    using lost_texts(2)
    by (induction ds arbitrary: st) (auto simp: compression_stub_def kept_def jget_def split: option.splits if_splits)
  obtain calls orr oc where "out = ms \<or>
      map_option concat (all_some (sanitize_message orr oc) (zip ms calls)) = Some out"
    using assms(1) by (auto simp: sanitize_tool_pairs_def Let_def bind_eq_Some_conv split: if_splits)
  then show ?thesis
  proof
    assume "map_option concat (all_some (sanitize_message orr oc) (zip ms calls)) = Some out"
    then obtain outs where outs: "all_some (sanitize_message orr oc) (zip ms calls) = Some outs" "out = concat outs" by auto
    have "\<forall>m\<in>set (concat outs). kept m"
    proof (rule all_some_ball [OF outs(1)])
      fix x ys assume x: "x \<in> set (zip ms calls)" "sanitize_message orr oc x = Some ys"
      obtain m cs where mc: "x = (m, cs)" by (cases x)
      with x(1) assms(2) have "kept m" by (auto dest: set_zip_leftD)
      with x(2) stubs mc show "\<forall>y\<in>set ys. kept y" by (auto simp: sanitize_message_def split: if_splits)
    qed
    with outs(2) show ?thesis by simp
  qed (use assms(2) in simp)
qed

lemma splice_kept:
  assumes "splice_summary ms k summary = Some out" "\<forall>m\<in>set ms. kept m"
  shows "\<forall>m\<in>set out. kept m"
proof -
  let ?all = "take 2 ms @ (case summary of None \<Rightarrow> [] | Some s \<Rightarrow> if s = [] then [] else [summary_msg s]) @ drop k ms"
  obtain r where "sanitize_tool_pairs ?all = Some r" "out = norm_messages (normalize_transcript r)"
    using assms(1) by (auto simp: splice_summary_def)
  moreover have "\<forall>m\<in>set ?all. kept m"
    using assms(2) by (auto simp: summary_msg_def dest: in_set_takeD in_set_dropD split: option.splits)
  ultimately show ?thesis using sanitize_kept normalize_kept by blast
qed

lemma compress_kept:
  assumes "compress str_of chat cfg ms key actual memo = (memo', Some out)" "\<forall>m\<in>set ms. kept m"
  shows "\<forall>m\<in>set out. kept m"
proof -
  have n: "\<forall>m\<in>set (norm_messages (normalize_transcript ms)). kept m" by (rule normalize_kept [OF assms(2)])
  consider "sanitize_tool_pairs (norm_messages (normalize_transcript ms)) = Some out"
    | k summary where "splice_summary (norm_messages (normalize_transcript ms)) k summary = Some out"
    using assms(1) unfolding compress_def Let_def by (auto split: if_splits option.splits)
  then show ?thesis using sanitize_kept splice_kept n by cases blast+
qed

section \<open>The context store\<close>

definition rows_kept :: "(string \<Rightarrow> json option) \<Rightarrow> context_table \<Rightarrow> bool" where
  "rows_kept loads t \<longleftrightarrow> (\<forall>r\<in>set t. kept (message_of_row loads r))"

lemma message_of_row_content [simp]: "jget (message_of_row loads r) ''content'' = Some (JStr (cr_content r))"
  by (simp add: message_of_row_def jget_def)

lemma message_of_row_role [simp]: "has_role (message_of_row loads r) role \<longleftrightarrow> cr_role r = role"
  by (simp add: message_of_row_def has_role_def jget_def)

lemma message_of_row_calls:
  "jget (message_of_row loads r) ''tool_calls'' = Option.bind (cr_calls r) (\<lambda>raw. if raw = [] then None else loads raw)"
  by (simp add: message_of_row_def jget_def split: option.splits)

lemma kept_rowI:
  "(fragment (message_of_row loads r) \<Longrightarrow> unmarked (cr_content r)) \<Longrightarrow> kept (message_of_row loads r)"
  by (auto simp: kept_def)

lemma list_context_kept: "rows_kept loads t \<Longrightarrow> \<forall>m\<in>set (list_context loads session user t). kept m"
  by (simp add: rows_kept_def list_context_def)

text \<open>What the agent appends: plain messages, or a batch whose texts carry no marker.\<close>

definition args_kept :: "context_args \<Rightarrow> bool" where
  "args_kept a \<longleftrightarrow> ca_role a \<noteq> ''tool'' \<and> ca_calls a = [] \<or> unmarked (ca_content a)"

lemma args_row_kept: "args_kept a \<Longrightarrow> kept (message_of_row loads (args_row dumps session user seq a))"
  by (auto simp: args_kept_def kept_def fragment_def declared_calls_def has_role_def message_of_row_def args_row_def
      jget_def split: option.splits)

lemma append_rows_kept:
  assumes "rows_kept loads t" "args_kept a"
  shows "rows_kept loads (fst (append_context dumps sessions (\<lambda>k. []) session user a t))"
proof -
  have "rows_kept loads (fst (append_attempts sessions n (\<lambda>k. []) (args_row dumps session user q a) t))" for n q
    using assms(1)
  proof (induction n arbitrary: t)
    case (Suc n)
    have row: "(args_row dumps session user q a)\<lparr>cr_seq := q'\<rparr> = args_row dumps session user q' a" for q'
      by (simp add: args_row_def)
    show ?case
      using Suc.IH [OF Suc.prems] Suc.prems args_row_kept [OF assms(2)]
      by (auto simp: Let_def row insert_context_row_def rows_kept_def)
  qed simp
  then show ?thesis by (simp add: append_context_def)
qed

lemma replace_row_kept:
  assumes "row_of_message dumps str_of session user seq m = Some r" "kept m" "known_role m"
    and "\<forall>v. loads (dumps v) = Some v"
  shows "kept (message_of_row loads r)"
proof (rule kept_rowI)
  assume frag: "fragment (message_of_row loads r)"
  obtain role where role: "jget m ''role'' = Some (JStr role)"
    using assms(3) by (auto simp: known_role_def has_role_def split: option.splits)
  have fields: "cr_role r = role" "cr_content r = (case jget m ''content'' of None \<Rightarrow> [] | Some (JArr xs) \<Rightarrow> dumps (JArr xs)
      | Some v \<Rightarrow> py_str str_of v)"
    "cr_calls r = (case jget m ''tool_calls'' of None \<Rightarrow> None | Some v \<Rightarrow> if truthy v then Some (dumps v) else None)"
    using assms(1) role by (auto simp: row_of_message_def py_str_def split: option.splits)
  have "fragment m"
  proof (cases "role = ''tool''")
    case True
    with role show ?thesis by (simp add: fragment_def has_role_def)
  next
    case False
    then have "declared_calls (message_of_row loads r) \<noteq> []" using frag fields(1) by (simp add: fragment_def)
    then obtain x xs where "cr_role r = ''assistant''" "jget (message_of_row loads r) ''tool_calls'' = Some (JArr (x # xs))"
      by (auto simp: declared_calls_def split: if_splits option.splits json.splits list.splits)
        (metis list.exhaust)
    then have "role = ''assistant''" "jget m ''tool_calls'' = Some (JArr (x # xs))"
      using fields(1,3) assms(4) by (auto simp: message_of_row_calls split: option.splits if_splits)
    then have "declared_calls m = x # xs" using role by (simp add: declared_calls_def has_role_def)
    then show ?thesis by (auto simp: fragment_def)
  qed
  with assms(2) obtain s where "jget m ''content'' = Some (JStr s)" "unmarked s" by (auto simp: kept_def)
  with fields(2) show "unmarked (cr_content r)" by (simp add: py_str_def)
qed


lemma replace_rows_kept:
  assumes "replace_context dumps str_of sessions session user ms t = (t', ok)" "rows_kept loads t"
    and "\<forall>m\<in>set ms. kept m \<and> known_role m" "\<forall>v. loads (dumps v) = Some v"
  shows "rows_kept loads t'"
proof -
  have "insert_messages dumps str_of sessions session user q ns u = Some u' \<Longrightarrow> rows_kept loads u \<Longrightarrow>
      \<forall>m\<in>set ns. kept m \<and> known_role m \<Longrightarrow> rows_kept loads u'" for q ns u u'
  proof (induction ns arbitrary: q u)
    case (Cons m ns)
    then obtain row where row: "row_of_message dumps str_of session user q m = Some row"
      "insert_context_row sessions row u = Inr (u @ [row])"
      "insert_messages dumps str_of sessions session user (q + 1) ns (u @ [row]) = Some u'"
      by (auto simp: insert_context_row_def split: option.splits if_splits)
    have "kept (message_of_row loads row)" using replace_row_kept [OF row(1) _ _ assms(4)] Cons.prems(3) by simp
    then show ?case using Cons.IH [OF row(3)] Cons.prems(2,3) by (simp add: rows_kept_def)
  qed simp
  moreover have "rows_kept loads (filter (\<lambda>r. \<not> owned session user r) t)" using assms(2) by (simp add: rows_kept_def)
  ultimately show ?thesis using assms(1-3) by (auto simp: replace_context_def split: option.splits)
qed

section \<open>The invariant of a run\<close>

definition talk_ok :: "('w registry \<times> 'w \<Rightarrow> bool) \<Rightarrow> 'h loop_config \<Rightarrow> ('w, 'h) loop_state \<Rightarrow> bool" where
  "talk_ok I cfg s \<longleftrightarrow>
     I (ls_tools s) \<and> valid_pairs (ls_messages s) \<and> (\<forall>m\<in>set (ls_messages s). kept m) \<and> rows_kept (lc_loads cfg) (ls_store s) \<and>
     (\<forall>rq\<in>set (ls_sent s). valid_pairs (rq_messages rq))"

definition talk ::
    "('w, 'h) loop_state \<Rightarrow> message list \<times> context_table \<times> request list \<times> 'w registry \<times> 'w" where
  "talk s = (ls_messages s, ls_store s, ls_sent s, ls_tools s)"

lemma talk_same: "talk s' = talk s \<Longrightarrow> talk_ok I cfg s' = talk_ok I cfg s"
  by (simp add: talk_def talk_ok_def)

lemma talk_simps [simp]:
  "talk (update_stats g s) = talk s" "talk (set_status st err s) = talk s" "talk (note_used name s) = talk s"
  "talk (append_system i s) = talk s" "talk (note_usage r s) = talk s" "talk (tool_surface_step cfg s) = talk s"
  "talk (begin_turn cfg e s) = talk s" "talk (mandate_step cfg now s) = talk s" "talk (wait_in_queue e s) = talk s"
  by (simp_all add: talk_def update_stats_def set_status_def note_used_def append_system_def note_usage_def
      tool_surface_step_def begin_turn_def mandate_step_def wait_in_queue_def update_context_def case_prod_beta
      split: option.splits)

lemma talk_fields [simp]:
  "talk (s\<lparr>ls_last_actual := la\<rparr>) = talk s" "talk (s\<lparr>ls_memo := memo\<rparr>) = talk s"
  "talk (s\<lparr>ls_empty_retries := n\<rparr>) = talk s" "talk (s\<lparr>ls_xml_repaired := b\<rparr>) = talk s"
  "talk (s\<lparr>ls_planning := pg\<rparr>) = talk s" "talk (s\<lparr>ls_nudged := b\<rparr>) = talk s"
  "talk (s\<lparr>ls_dedup := g\<rparr>) = talk s" "talk (s\<lparr>ls_progress := p\<rparr>) = talk s"
  "talk (s\<lparr>ls_loop_warnings := n\<rparr>) = talk s" "talk (s\<lparr>ls_budget := bg\<rparr>) = talk s"
  by (simp_all add: talk_def)

lemma talk_closing: "closing_step cfg now s = Some s' \<Longrightarrow> talk s' = talk s"
  by (auto simp: closing_step_def talk_def case_prod_beta)

lemma talk_after_tools [simp]: "talk (fst (after_tools cfg e results s)) = talk s"
  by (simp add: after_tools_def Let_def case_prod_beta)

lemma persist_talk_ok: "talk_ok I cfg s \<Longrightarrow> args_kept a \<Longrightarrow> talk_ok I cfg (persist_context_msg cfg a s)"
  by (auto simp: talk_ok_def persist_context_msg_def append_rows_kept split: option.splits)

lemma persist_messages [simp]: "ls_messages (persist_context_msg cfg a s) = ls_messages s"
  "ls_sent (persist_context_msg cfg a s) = ls_sent s" "ls_tools (persist_context_msg cfg a s) = ls_tools s"
  by (simp_all add: persist_context_msg_def split: option.splits prod.splits)

lemma save_turn_talk_ok: "talk_ok I cfg s \<Longrightarrow> talk_ok I cfg (save_turn cfg c r s)"
  by (simp add: save_turn_def persist_talk_ok args_kept_def plain_args_def)

lemma say_talk_ok: "talk_ok I cfg s \<Longrightarrow> talk_ok I cfg (say text s)"
  using valid_pairs_append [of "ls_messages s" "[user_msg text]"]
  by (auto simp: talk_ok_def say_def update_context_def add_user_message_def push_message_def)

lemma talk_ok_fields:
  "talk_ok I cfg s \<Longrightarrow> talk_ok I cfg ((say t s)\<lparr>ls_empty_retries := n\<rparr>)"
  "talk_ok I cfg s \<Longrightarrow> talk_ok I cfg ((say t s)\<lparr>ls_xml_repaired := b\<rparr>)"
  "talk_ok I cfg s \<Longrightarrow> talk_ok I cfg ((say t s)\<lparr>ls_planning := pg\<rparr>)"
  "talk_ok I cfg s \<Longrightarrow> talk_ok I cfg (set_status st err s)"
  using say_talk_ok [of I cfg s t] by (simp_all add: talk_ok_def set_status_def update_stats_def)

lemma reply_turn_talk_ok: "talk_ok I cfg s \<Longrightarrow> talk_ok I cfg (fst (reply_turn cfg r s))"
  by (simp add: reply_turn_def Let_def save_turn_talk_ok talk_ok_fields)

section \<open>Batches\<close>

text \<open>\<open>I\<close> is an invariant of the registry and the world, \<open>C\<close> tells which calls the model makes.\<close>

definition quiet_tools ::
    "('rw \<Rightarrow> bool) \<Rightarrow> (llm_tool_call \<Rightarrow> bool) \<Rightarrow>
     ((string \<Rightarrow> string \<Rightarrow> bool) option \<Rightarrow> llm_tool_call \<Rightarrow> 'rw \<Rightarrow> 'rw \<times> string) \<Rightarrow> bool" where
  "quiet_tools I C exec \<longleftrightarrow>
     (\<forall>approve tc rw. I rw \<longrightarrow> C tc \<longrightarrow> I (fst (exec approve tc rw)) \<and> unmarked (snd (exec approve tc rw)))"

lemma quiet_toolsD:
  "quiet_tools I C exec \<Longrightarrow> I rw \<Longrightarrow> C tc \<Longrightarrow> I (fst (exec approve tc rw)) \<and> unmarked (snd (exec approve tc rw))"
  by (simp add: quiet_tools_def)

definition batch_ok :: "(llm_tool_call \<Rightarrow> bool) \<Rightarrow> llm_response \<Rightarrow> bool" where
  "batch_ok C r \<longleftrightarrow>
     (lr_calls r \<noteq> [] \<longrightarrow>
        calls_ok (lr_calls r) \<and> (\<forall>tc\<in>set (lr_calls r). C tc) \<and> unmarked (lr_content r) \<and>
        (length (lr_calls r) = 1 \<or> (\<forall>tc\<in>set (lr_calls r). tc_name tc \<noteq> ''apply_fill_plan'')))"

abbreviation results_of :: "llm_tool_call list \<Rightarrow> string list \<Rightarrow> message list" where
  "results_of calls results \<equiv> map2 (\<lambda>tc r. tool_result_msg (tc_id tc) (tc_name tc) r) calls results"

text \<open>A state in the middle of a batch: the context is a valid one, followed by a part of the batch.\<close>

definition pending :: "('w registry \<times> 'w \<Rightarrow> bool) \<Rightarrow> 'h loop_config \<Rightarrow> message list \<Rightarrow> message list \<Rightarrow> ('w, 'h) loop_state \<Rightarrow> bool" where
  "pending I cfg base part s \<longleftrightarrow>
     I (ls_tools s) \<and> ls_messages s = base @ part \<and> rows_kept (lc_loads cfg) (ls_store s) \<and>
     (\<forall>rq\<in>set (ls_sent s). valid_pairs (rq_messages rq))"

lemma pending_same: "talk s' = talk s \<Longrightarrow> pending I cfg base part s' = pending I cfg base part s"
  by (simp add: talk_def pending_def)

lemma pending_declare:
  assumes "talk_ok I cfg s" "unmarked content"
  shows "pending I cfg (ls_messages s) [tool_calls_msg (lc_dumps cfg) calls (if content = [] then None else Some content)]
    (declare_calls cfg calls content reasoning s)"
  using assms
  by (auto simp: pending_def declare_calls_def talk_ok_def persist_context_msg_def append_rows_kept args_kept_def
      update_context_def add_tool_calls_def push_message_def split: option.splits)

lemma pending_answer:
  "pending I cfg base part s \<Longrightarrow> unmarked result \<Longrightarrow>
   pending I cfg base (part @ [tool_result_msg (tc_id tc) (tc_name tc) result]) (answer_call cfg tc result s)"
  by (auto simp: pending_def answer_call_def persist_context_msg_def append_rows_kept args_kept_def
      update_context_def add_tool_result_def push_message_def split: option.splits)

lemma pending_record:
  assumes "pending I cfg base part s" "unmarked result" "tc_name tc \<noteq> ''apply_fill_plan''"
  shows "pending I cfg base (part @ [tool_result_msg (tc_id tc) (tc_name tc) result]) (record_result cfg tc result s)"
  using pending_answer [OF assms(1,2)] assms(3)
  by (simp add: record_result_def maybe_inject_apply_fill_close_nudge_def pending_same [OF talk_simps(3)])

lemma calls_msg_kept: "unmarked content \<Longrightarrow> kept (tool_calls_msg dumps calls (if content = [] then None else Some content))"
  by (auto simp: kept_def tool_calls_msg_def jget_def)

lemma result_msg_kept: "unmarked r \<Longrightarrow> kept (tool_result_msg i n r)"
  by (auto simp: kept_def tool_result_msg_def jget_def)

lemma results_kept: "\<forall>r\<in>set results. unmarked r \<Longrightarrow> \<forall>m\<in>set (results_of calls results). kept m"
  by (auto simp: result_msg_kept dest: set_zip_rightD)

text \<open>A complete batch may be followed by anything.\<close>

lemma batch_complete:
  assumes "pending I cfg (ls_messages s0) (tool_calls_msg (lc_dumps cfg) calls (if content = [] then None else Some content) #
      results_of calls results) s" "talk_ok I cfg s0" "calls_ok calls" "length results = length calls"
    "unmarked content" "\<forall>r\<in>set results. unmarked r"
  shows "talk_ok I cfg s"
proof -
  define x where "x = tool_calls_msg (lc_dumps cfg) calls (if content = [] then None else Some content)"
  define ys where "ys = results_of calls results"
  have ms: "ls_messages s = ls_messages s0 @ x # ys" using assms(1) by (simp add: pending_def x_def ys_def)
  have "valid_pairs (x # ys)" unfolding x_def ys_def by (rule valid_pairs_new_batch [OF assms(3,4)])
  then have "valid_pairs (ls_messages s)"
    using assms(2) valid_pairs_append by (simp add: ms talk_ok_def)
  moreover have "kept x" "\<forall>m\<in>set ys. kept m"
    unfolding x_def ys_def by (rule calls_msg_kept [OF assms(5)], rule results_kept [OF assms(6)])
  then have "\<forall>m\<in>set (ls_messages s). kept m" using assms(2) by (auto simp: ms talk_ok_def)
  ultimately show ?thesis using assms(1) by (simp add: pending_def talk_ok_def)
qed

lemma pending_fold:
  assumes "pending I cfg base part s" "length results = length calls" "\<forall>r\<in>set results. unmarked r"
    and "\<And>s part tc r. pending I cfg base part s \<Longrightarrow> tc \<in> set calls \<Longrightarrow> unmarked r \<Longrightarrow>
      pending I cfg base (part @ [tool_result_msg (tc_id tc) (tc_name tc) r]) (f tc r s)"
  shows "pending I cfg base (part @ results_of calls results) (fold (\<lambda>(tc, r). f tc r) (zip calls results) s)"
  using assms(2,1,3,4)
proof (induction calls results arbitrary: s part rule: list_induct2')
  case (4 tc calls r results)
  have "pending I cfg base ((part @ [tool_result_msg (tc_id tc) (tc_name tc) r]) @ results_of calls results)
      (fold (\<lambda>(tc, r). f tc r) (zip calls results) (f tc r s))"
    by (rule "4.IH") (use "4.prems" in auto)
  then show ?case by simp
qed simp_all

lemma empty_unmarked: "unmarked []"
  by (simp add: unmarked_def SOFT_HINT_MARKER_def WEB_ACCESS_MARKER_def)

lemma quiet_order:
  assumes "quiet_tools I C (execute_single_tool env)" "\<forall>tc\<in>set calls. C tc"
  shows "I rw \<Longrightarrow> \<forall>r\<in>set results. unmarked r \<Longrightarrow> \<forall>i\<in>set idx. i < length calls \<Longrightarrow>
    I (fst (execute_in_order env approve calls idx rw results)) \<and>
    (\<forall>r\<in>set (snd (execute_in_order env approve calls idx rw results)). unmarked r)"
proof (induction idx arbitrary: rw results)
  case (Cons i idx)
  have "C (calls ! i)" using Cons.prems(3) assms(2) by simp
  then have step: "I (fst (execute_single_tool env approve (calls ! i) rw)) \<and>
      unmarked (snd (execute_single_tool env approve (calls ! i) rw))"
    by (rule quiet_toolsD [OF assms(1) Cons.prems(1)])
  have "set (results[i := snd (execute_single_tool env approve (calls ! i) rw)]) \<subseteq>
      insert (snd (execute_single_tool env approve (calls ! i) rw)) (set results)"
    by (rule set_update_subset_insert)
  with step Cons.prems(2)
  have "\<forall>r\<in>set (results[i := snd (execute_single_tool env approve (calls ! i) rw)]). unmarked r" by blast
  with Cons.IH [of "fst (execute_single_tool env approve (calls ! i) rw)"] step Cons.prems(3) show ?case
    by (simp add: case_prod_beta)
qed simp

lemma quiet_parallel:
  assumes "quiet_tools I C (execute_single_tool env)" "\<forall>tc\<in>set calls. C tc" "I rw"
  shows "I (fst (execute_parallel env approve order calls rw)) \<and>
    (\<forall>r\<in>set (snd (execute_parallel env approve order calls rw)). unmarked r)"
  unfolding execute_parallel_def by (rule quiet_order [OF assms]) (auto simp: empty_unmarked)

lemma quiet_run_tool:
  assumes "quiet_tools I C (execute_single_tool (lc_env cfg))" "C tc" "pending I cfg base part s"
    and "run_tool cfg approve tc s = (s1, res)"
  shows "pending I cfg base part s1 \<and> unmarked res"
  using quiet_toolsD [OF assms(1) _ assms(2), of "ls_tools s" approve] assms(3,4)
  by (auto simp: run_tool_def case_prod_beta pending_def)

lemma mixed_unmarked: "unmarked MIXED_TERMINAL_RESULT"
  by (simp add: unmarked_def SOFT_HINT_MARKER_def WEB_ACCESS_MARKER_def MIXED_TERMINAL_RESULT_def)

lemma sequential_pending:
  fixes s :: "('w, 'h) loop_state"
  assumes "quiet_tools I C (execute_single_tool (lc_env cfg))" "pending I cfg base part s" "\<forall>tc\<in>set calls. C tc \<and> tc_name tc \<noteq> ''apply_fill_plan''"
  shows "\<exists>rs. length rs = length calls \<and> (\<forall>r\<in>set rs. unmarked r) \<and>
    pending I cfg base (part @ results_of calls rs) (fst (run_sequential cfg e False calls s acc)) \<and>
    snd (snd (run_sequential cfg e False calls s acc)) = None"
  using assms(2,3)
proof (induction calls arbitrary: s part acc)
  case (Cons tc calls)
  obtain s1 res where run: "run_tool cfg (tv_approve e) tc s = (s1, res)" by fastforce
  have quiet: "unmarked res" "pending I cfg base part s1"
    using quiet_run_tool [OF assms(1) _ Cons.prems(1) run] Cons.prems(2) by simp_all
  then have "pending I cfg base (part @ [tool_result_msg (tc_id tc) (tc_name tc) res]) (record_result cfg tc res s1)"
    using pending_record [OF quiet(2,1)] Cons.prems(2) by simp
  from Cons.IH [OF this, of "acc @ [(tc_name tc, res)]"] Cons.prems(2) obtain rs where
    "length rs = length calls" "\<forall>r\<in>set rs. unmarked r"
    "pending I cfg base ((part @ [tool_result_msg (tc_id tc) (tc_name tc) res]) @ results_of calls rs)
       (fst (run_sequential cfg e False calls (record_result cfg tc res s1) (acc @ [(tc_name tc, res)])))"
    "snd (snd (run_sequential cfg e False calls (record_result cfg tc res s1) (acc @ [(tc_name tc, res)]))) = None"
    by auto
  then show ?case using quiet run by (intro exI [of _ "res # rs"]) simp
qed simp

text \<open>A call on its own may be followed by the nudge, or return its result to the user.\<close>

lemma single_call_ok:
  fixes s :: "('w, 'h) loop_state"
  assumes "quiet_tools I C (execute_single_tool (lc_env cfg))"
    and "pending I cfg (ls_messages s0) [tool_calls_msg (lc_dumps cfg) [tc] (if content = [] then None else Some content)] s"
    and "talk_ok I cfg s0" "calls_ok [tc]" "unmarked content" "C tc"
  shows "talk_ok I cfg (fst (run_sequential cfg e True [tc] s acc))"
proof -
  obtain s1 res where run: "run_tool cfg (tv_approve e) tc s = (s1, res)" by fastforce
  have quiet: "unmarked res" "pending I cfg (ls_messages s0)
      [tool_calls_msg (lc_dumps cfg) [tc] (if content = [] then None else Some content)] s1"
    using quiet_run_tool [OF assms(1,6,2) run] by simp_all
  from pending_answer [OF quiet(2,1), of tc]
  have "pending I cfg (ls_messages s0) (tool_calls_msg (lc_dumps cfg) [tc] (if content = [] then None else Some content) #
      results_of [tc] [res]) (answer_call cfg tc res s1)" by simp
  from batch_complete [OF this assms(3,4) _ assms(5)] quiet have ok: "talk_ok I cfg (answer_call cfg tc res s1)" by simp
  then have used: "talk_ok I cfg (note_used (tc_name tc) (answer_call cfg tc res s1))"
    using talk_same [OF talk_simps(3)] by blast
  then have "talk_ok I cfg (record_result cfg tc res s1)"
    using say_talk_ok [OF used]
    unfolding record_result_def maybe_inject_apply_fill_close_nudge_def by (simp only: talk_same [OF talk_fields(6)] split: if_split) blast
  with used run show ?thesis by (simp add: save_turn_talk_ok)
qed

lemma tool_turn_talk_ok:
  fixes s :: "('w, 'h) loop_state"
  assumes "quiet_tools I C (execute_single_tool (lc_env cfg))"
    and "talk_ok I cfg s" "batch_ok C r" "lr_calls r \<noteq> []"
  shows "talk_ok I cfg (fst (tool_turn cfg e r s))"
proof (cases "budget_check (ls_budget s) (tv_now_after e)")
  case (Inl err)
  with assms(2) show ?thesis by (simp add: tool_turn_def)
next
  case check: (Inr u)
  show ?thesis
  proof (cases "reserve_tool_calls (ls_budget s) (int (length (lr_calls r)))")
    case (Inl err)
    with assms(2) check show ?thesis by (simp add: tool_turn_def)
  next
    case reserve: (Inr b)
    define sb where "sb = s\<lparr>ls_budget := b\<rparr>"
    have sb: "talk_ok I cfg sb" using assms(2) by (simp add: sb_def talk_same [OF talk_fields(10)])
    define s1 where "s1 = declare_calls cfg (lr_calls r) (lr_content r) (Some (lr_reasoning r)) sb"
    define call where "call = tool_calls_msg (lc_dumps cfg) (lr_calls r) (if lr_content r = [] then None else Some (lr_content r))"
    have r: "calls_ok (lr_calls r)" "unmarked (lr_content r)" 
      "length (lr_calls r) = 1 \<or> (\<forall>tc\<in>set (lr_calls r). tc_name tc \<noteq> ''apply_fill_plan'')"
      "\<forall>tc\<in>set (lr_calls r). C tc"
      using assms(3,4) by (simp_all add: batch_ok_def)
    have p1: "pending I cfg (ls_messages sb) [call] s1"
      unfolding s1_def call_def by (rule pending_declare [OF sb r(2)])
    have complete: "talk_ok I cfg s'" if "pending I cfg (ls_messages sb) ([call] @ results_of (lr_calls r) rs) s'"
      "length rs = length (lr_calls r)" "\<forall>x\<in>set rs. unmarked x" for s' rs
      using batch_complete [OF _ sb r(1) that(2) r(2) that(3)] that(1) unfolding call_def by simp
    have turn: "fst (tool_turn cfg e r s) =
        (if (\<exists>tc\<in>set (lr_calls r). terminal_call (fst (ls_tools s1)) tc) \<and> length (lr_calls r) > 1
         then reject_batch cfg (lr_calls r) s1
         else if can_parallelize (fst (ls_tools s1)) (lr_calls r) then
           fst (after_tools cfg e (snd (run_parallel cfg e (lr_calls r) s1)) (fst (run_parallel cfg e (lr_calls r) s1)))
         else
           (let q = run_sequential cfg e (length (lr_calls r) = 1) (lr_calls r) s1 [] in
            if snd (snd q) = None then fst (after_tools cfg e (fst (snd q)) (fst q)) else fst q))"
      using check reserve unfolding tool_turn_def Let_def s1_def sb_def
      by (simp add: case_prod_beta Let_def split: option.splits)
    have tools: "talk_ok I cfg (fst (after_tools cfg e q s'))" if "talk_ok I cfg s'" for q s'
      using that talk_same [OF talk_after_tools] by blast
    have rejected: "talk_ok I cfg (reject_batch cfg (lr_calls r) s1)"
    proof -
      have "pending I cfg (ls_messages sb) ([call] @ results_of (lr_calls r) (replicate (length (lr_calls r)) MIXED_TERMINAL_RESULT))
          (fold (\<lambda>(tc, x). answer_call cfg tc x) (zip (lr_calls r) (replicate (length (lr_calls r)) MIXED_TERMINAL_RESULT)) s1)"
        by (rule pending_fold [OF p1]) (auto simp: mixed_unmarked intro: pending_answer)
      moreover have "fold (\<lambda>(tc, x). answer_call cfg tc x) (zip cs (replicate (length cs) MIXED_TERMINAL_RESULT)) s' =
          fold (\<lambda>tc. answer_call cfg tc MIXED_TERMINAL_RESULT) cs s'" for cs and s' :: "('w, 'h) loop_state"
        by (induction cs arbitrary: s') simp_all
      ultimately have "talk_ok I cfg (fold (\<lambda>tc. answer_call cfg tc MIXED_TERMINAL_RESULT) (lr_calls r) s1)"
        using complete [of "replicate (length (lr_calls r)) MIXED_TERMINAL_RESULT"] mixed_unmarked by simp
      then show ?thesis unfolding reject_batch_def by (rule say_talk_ok)
    qed
    have many: "talk_ok I cfg (fst (run_parallel cfg e (lr_calls r) s1)) \<and>
        talk_ok I cfg (fst (run_sequential cfg e False (lr_calls r) s1 []))"
      if "\<forall>tc\<in>set (lr_calls r). tc_name tc \<noteq> ''apply_fill_plan''"
    proof
      define q where "q = execute_parallel (lc_env cfg) (tv_approve e) (tv_order e) (lr_calls r) (ls_tools s1)"
      have len: "length (snd q) = length (lr_calls r)" by (simp add: q_def)
      have "I (ls_tools s1)" using p1 by (simp add: pending_def)
      from quiet_parallel [OF assms(1) r(4) this]
      have quiet: "\<forall>x\<in>set (snd q). unmarked x" "I (fst q)" unfolding q_def by blast+
      have "pending I cfg (ls_messages sb) [call] (s1\<lparr>ls_tools := fst q, ls_ran := ls_ran s1 @ lr_calls r\<rparr>)"
        using p1 quiet(2) by (simp add: pending_def)
      then have "pending I cfg (ls_messages sb) ([call] @ results_of (lr_calls r) (snd q))
          (fold (\<lambda>(tc, x). record_result cfg tc x) (zip (lr_calls r) (snd q))
            (s1\<lparr>ls_tools := fst q, ls_ran := ls_ran s1 @ lr_calls r\<rparr>))"
        by (rule pending_fold [OF _ len quiet(1)]) (use that pending_record in blast)
      then have "pending I cfg (ls_messages sb) ([call] @ results_of (lr_calls r) (snd q))
          (fst (run_parallel cfg e (lr_calls r) s1))"
        by (simp add: run_parallel_def q_def [symmetric] case_prod_beta)
      with complete len quiet(1) show "talk_ok I cfg (fst (run_parallel cfg e (lr_calls r) s1))" by blast
      show "talk_ok I cfg (fst (run_sequential cfg e False (lr_calls r) s1 []))"
        using sequential_pending [OF assms(1) p1, of "lr_calls r" e "[]"] that r(4) complete by blast
    qed
    show ?thesis
    proof (cases "length (lr_calls r) = 1")
      case True
      then obtain tc where tc: "lr_calls r = [tc]" by (cases "lr_calls r") auto
      have "talk_ok I cfg (fst (run_sequential cfg e True [tc] s1 []))"
        using single_call_ok [OF assms(1) _ sb _ r(2)] p1 r(1,4) unfolding call_def tc by simp
      with tc show ?thesis unfolding turn
        by (simp add: can_parallelize_def Let_def tools del: run_sequential.simps)
    next
      case False
      then have "talk_ok I cfg (fst (run_parallel cfg e (lr_calls r) s1))"
        "talk_ok I cfg (fst (run_sequential cfg e False (lr_calls r) s1 []))"
        using many r(3) by blast+
      with False rejected show ?thesis unfolding turn by (simp add: Let_def tools)
    qed
  qed
qed

section \<open>Turns and runs\<close>

lemma prune_talk_ok: "talk_ok I cfg s \<Longrightarrow> talk_ok I cfg (prune_step cfg s)"
proof -
  assume ok: "talk_ok I cfg s"
  let ?ms = "fst (prune_messages 6 200 (ls_messages s))"
  have "valid_pairs ?ms"
    using valid_pairs_skeleton [OF prune_skeleton [symmetric]] ok by (simp add: talk_ok_def)
  moreover have "\<forall>m\<in>set ?ms. kept m"
  proof
    fix m assume "m \<in> set ?ms"
    then obtain i where "i < length (ls_messages s)" "m = ?ms ! i" by (auto simp: in_set_conv_nth)
    then have "m \<in> set (ls_messages s) \<or> jget m ''content'' = Some (JStr PLACEHOLDER)"
      using prune_nth [of i "ls_messages s" 6 200] by (auto simp: jget_dput)
    then show "kept m" using ok lost_texts(3) by (auto simp: talk_ok_def kept_def)
  qed
  ultimately show ?thesis
    using ok by (simp add: prune_step_def update_context_def prune_old_tool_results_def case_prod_beta talk_ok_def)
qed

lemma set_messages_talk_ok:
  assumes "talk_ok I cfg s" "valid_pairs ms" "\<forall>m\<in>set ms. kept m"
  shows "talk_ok I cfg (set_messages ms s)"
  using assms by (simp add: talk_ok_def set_messages_def update_context_def)

lemma compress_valid: "compress str_of chat c ms key actual memo = (memo', Some out) \<Longrightarrow> valid_pairs out"
proof -
  assume a: "compress str_of chat c ms key actual memo = (memo', Some out)"
  have n: "valid_pairs (norm_messages (normalize_transcript ms))"
    using normalize_provider_valid [of ms] by (simp add: provider_valid_def)
  consider "sanitize_tool_pairs (norm_messages (normalize_transcript ms)) = Some out"
    | k summary where "splice_summary (norm_messages (normalize_transcript ms)) k summary = Some out"
    using a unfolding compress_def Let_def by (auto split: if_splits option.splits)
  then show "valid_pairs out"
  proof cases
    case 1
    with n sanitize_valid show ?thesis by fastforce
  next
    case 2
    then show ?thesis using normalize_provider_valid by (auto simp: splice_summary_def provider_valid_def)
  qed
qed

lemma memory_talk_ok: "talk_ok I cfg s \<Longrightarrow> talk_ok I cfg (compress_in_memory cfg chat s)"
proof -
  assume ok: "talk_ok I cfg s"
  obtain memo' res where c: "compress (lc_str_of cfg) chat (lc_compression cfg) (ls_messages s) (Some (lc_mem_key cfg))
      (ls_last_actual s) (ls_memo s) = (memo', res)" by fastforce
  show ?thesis
  proof (cases res)
    case None
    then show ?thesis using c ok talk_same [OF talk_fields(2)] by (simp add: compress_in_memory_def talk_ok_def)
  next
    case (Some out)
    have "\<forall>m\<in>set (ls_messages s). kept m" using ok by (simp add: talk_ok_def)
    then have "talk_ok I cfg (set_messages out s)"
      by (rule set_messages_talk_ok [OF ok compress_valid [OF c [unfolded Some]] compress_kept [OF c [unfolded Some]]])
    with c Some show ?thesis by (simp add: compress_in_memory_def talk_ok_def)
  qed
qed

lemma user_text_skeleton: "user_text d m \<Longrightarrow> \<not> fragment m"
  by (auto simp: user_text_def fragment_def has_role_def declared_calls_def)

lemma restore_ephemeral_ok:
  assumes "valid_pairs ms" "\<forall>m\<in>set ms. kept m"
  shows "valid_pairs (restore_ephemeral_user_message ms eph durable) \<and>
    (\<forall>m\<in>set (restore_ephemeral_user_message ms eph durable). kept m)"
proof -
  have append: "valid_pairs (ms @ [user_msg x]) \<and> (\<forall>m\<in>set (ms @ [user_msg x]). kept m)" for x
    using assms valid_pairs_append by simp
  have replace: "valid_pairs (ms[i := dput ''content'' v (ms ! i)]) \<and> (\<forall>m\<in>set (ms[i := dput ''content'' v (ms ! i)]). kept m)"
    if "i < length ms" "user_text d (ms ! i)" for i v d
  proof
    have "map skeleton (ms[i := dput ''content'' v (ms ! i)]) = map skeleton ms"
      using that(1) by (simp add: map_update skeleton_content list_update_same_conv)
    then show "valid_pairs (ms[i := dput ''content'' v (ms ! i)])" using valid_pairs_skeleton assms(1) by metis
    have "\<not> fragment (dput ''content'' v (ms ! i))"
      using user_text_skeleton [OF that(2)] by (auto simp: fragment_def has_role_def declared_calls_def jget_dput)
    then have "kept (dput ''content'' v (ms ! i))" by (simp add: kept_def)
    then show "\<forall>m\<in>set (ms[i := dput ''content'' v (ms ! i)]). kept m"
      using assms(2) by (auto dest!: set_update_subset_insert [THEN subsetD])
  qed
  show ?thesis
  proof (cases "durable = None \<or> filter (\<lambda>i. user_text (the durable) (ms ! i)) [0..<length ms] = []")
    case True
    then show ?thesis
      using append assms by (auto simp: restore_ephemeral_user_message_def Let_def split: option.splits)
  next
    case False
    then obtain d where d: "durable = Some d" by auto
    let ?idx = "filter (\<lambda>i. user_text d (ms ! i)) [0..<length ms]"
    have "last ?idx \<in> set ?idx" using False d by (intro last_in_set) simp
    then have "last ?idx < length ms" "user_text d (ms ! last ?idx)" by auto
    from replace [OF this] show ?thesis
      using assms d append by (auto simp: restore_ephemeral_user_message_def Let_def split: option.splits)
  qed
qed

lemma store_compress_ok:
  assumes "compress_store_transcript cfg chat actual (store, memo) = ((store', memo'), compressed, status)"
    and "rows_kept (lc_loads cfg) store" "\<forall>v. lc_loads cfg (lc_dumps_raw cfg v) = Some v"
  shows "rows_kept (lc_loads cfg) store' \<and>
    (\<forall>ms. compressed = Some ms \<longrightarrow> valid_pairs ms \<and> (\<forall>m\<in>set ms. kept m))"
proof (cases "lc_target cfg = None \<or> \<not> lc_has_compressor cfg")
  case True
  then show ?thesis using assms(1,2) by (auto simp: compress_store_transcript_def split: option.splits bool.splits)
next
  case False
  then obtain session user where t: "lc_target cfg = Some (session, user)" "lc_has_compressor cfg" by auto
  define original where "original = list_context (lc_loads cfg) session user store"
  define ms where "ms = norm_messages (normalize_transcript original)"
  have kept: "\<forall>m\<in>set ms. kept m"
    unfolding ms_def original_def by (intro normalize_kept list_context_kept assms(2))
  obtain memo1 res where c: "(if length ms < 5 then (memo, Some ms)
      else compress (lc_str_of cfg) chat (lc_compression cfg) ms (Some (lc_store_key cfg)) actual memo) = (memo1, res)"
    by (metis surj_pair)
  have u: "compress_store_transcript cfg chat actual (store, memo) =
      (case res of None \<Rightarrow> ((store, memo1), None, CompressFailed)
       | Some out \<Rightarrow>
           (let compressed = norm_messages (normalize_transcript out) in
            if compressed = original then
              (if length original < 5 then ((store, memo1), None, TooFew) else ((store, memo1), Some compressed, Noop))
            else
              (case replace_context (lc_dumps_raw cfg) (lc_str_of cfg) (lc_sessions cfg) session user compressed store of
                 (store1, ok) \<Rightarrow> if ok then ((store1, memo1), Some compressed, Rewritten)
                                 else ((store1, memo1), None, WriteFailed))))"
    using c unfolding compress_store_transcript_def t option.case prod.case bool.case Let_def
    unfolding original_def [symmetric] ms_def [symmetric] by (simp only: prod.case Let_def t(2) bool.case)
  show ?thesis
  proof (cases res)
    case None
    with u assms(1,2) show ?thesis by auto
  next
    case (Some out)
    define cm where "cm = norm_messages (normalize_transcript out)"
    have "\<forall>m\<in>set out. kept m" using c Some kept compress_kept by (auto split: if_splits)
    then have cm: "\<forall>m\<in>set cm. kept m" "provider_valid cm"
      unfolding cm_def by (rule normalize_kept) (rule normalize_provider_valid)
    obtain store1 ok where r: "replace_context (lc_dumps_raw cfg) (lc_str_of cfg) (lc_sessions cfg) session user cm store =
        (store1, ok)" by fastforce
    have "rows_kept (lc_loads cfg) store1"
      using replace_rows_kept [OF r assms(2) _ assms(3)] cm by (simp add: provider_valid_def)
    moreover have "((store', memo'), compressed, status) =
        (if cm = original then (if length original < 5 then ((store, memo1), None, TooFew) else ((store, memo1), Some cm, Noop))
         else if ok then ((store1, memo1), Some cm, Rewritten) else ((store1, memo1), None, WriteFailed))"
      using u assms(1) r by (simp add: Some cm_def [symmetric] Let_def)
    ultimately show ?thesis using cm assms(2) by (auto simp: provider_valid_def split: if_splits)
  qed
qed

lemma maybe_compress_talk_ok:
  assumes "maybe_compress_mid_run cfg chat s = Some s'" "talk_ok I cfg s" "\<forall>v. lc_loads cfg (lc_dumps_raw cfg v) = Some v"
  shows "talk_ok I cfg s'"
proof -
  have step: "talk_ok I cfg (compress_step cfg chat s1)" if ok: "talk_ok I cfg s1" for s1
  proof -
    obtain store' memo' compressed status where c:
      "compress_store_transcript cfg chat (ls_last_actual s1) (ls_store s1, ls_memo s1) = ((store', memo'), compressed, status)"
      by (metis surj_pair)
    have "rows_kept (lc_loads cfg) (ls_store s1)" using ok by (simp add: talk_ok_def)
    note res = store_compress_ok [OF c this assms(3)]
    define s2 where "s2 = s1\<lparr>ls_store := store', ls_memo := memo'\<rparr>"
    have ok2: "talk_ok I cfg s2" using ok res by (simp add: talk_ok_def s2_def)
    show ?thesis
    proof (cases "status = Rewritten \<and> compressed \<noteq> None")
      case True
      then obtain ms where ms: "compressed = Some ms" by auto
      have "talk_ok I cfg (set_messages (restore_ephemeral_user_message ms (ls_ephemeral s2) (ls_durable s2)) s2)"
        using set_messages_talk_ok [OF ok2] restore_ephemeral_ok [of ms] res ms by blast
      then show ?thesis
        using True c ms talk_same [OF talk_fields(1)]
        by (simp add: compress_step_def settle_compression_def s2_def [symmetric] talk_ok_def)
    next
      case False
      with memory_talk_ok [OF ok2, of chat] c show ?thesis
        by (auto simp: compress_step_def settle_compression_def s2_def [symmetric])
    qed
  qed
  show ?thesis
    using assms(1,2) prune_talk_ok [OF assms(2)] step by (auto simp: maybe_compress_mid_run_def Let_def split: if_splits)
qed

lemma hint_talk_ok: "talk_ok I cfg s \<Longrightarrow> talk_ok I cfg (hint_step cfg s)"
proof -
  assume ok: "talk_ok I cfg s"
  have drop: "valid_pairs (filter (\<lambda>m. \<not> has_marker mk m) ms) \<and> (\<forall>m\<in>set (filter (\<lambda>m. \<not> has_marker mk m) ms). kept m)"
    if "valid_pairs ms" "\<forall>m\<in>set ms. kept m" "mk \<in> {SOFT_HINT_MARKER, WEB_ACCESS_MARKER}" for mk ms
    using valid_pairs_filter [OF that(1)] that(2,3) kept_marker by auto
  have add: "valid_pairs (ms @ [user_msg x]) \<and> (\<forall>m\<in>set (ms @ [user_msg x]). kept m)"
    if "valid_pairs ms \<and> (\<forall>m\<in>set ms. kept m)" for ms x
    using that valid_pairs_append by simp
  define ms1 where "ms1 = inject_tool_soft_hint (lc_logf cfg) (lc_surface cfg) (lc_profile cfg) (ascii (lc_message cfg))
      (ls_schema s) (ls_messages s)"
  have "valid_pairs (ls_messages s)" "\<forall>m\<in>set (ls_messages s). kept m" using ok by (simp_all add: talk_ok_def)
  then have ms1: "valid_pairs ms1 \<and> (\<forall>m\<in>set ms1. kept m)"
    unfolding ms1_def inject_tool_soft_hint_def inject_soft_hint_def Let_def
    using drop [of "ls_messages s" SOFT_HINT_MARKER] add by simp
  then have "valid_pairs (inject_web_access_hint h en ms1) \<and> (\<forall>m\<in>set (inject_web_access_hint h en ms1). kept m)" for h en
    unfolding inject_web_access_hint_def Let_def using drop [of ms1 WEB_ACCESS_MARKER] add by simp
  then show ?thesis
    unfolding hint_step_def ms1_def [symmetric] using set_messages_talk_ok [OF ok] by blast
qed

lemma send_talk_ok:
  assumes "talk_ok I cfg s"
  shows "talk_ok I cfg (fst (send_request cfg e s))"
proof -
  have "talk (wait_in_queue e s) = talk s" by simp
  with assms show ?thesis by (auto simp: send_request_def Let_def talk_ok_def talk_def request_of_def)
qed

lemma run_turn_talk_ok:
  fixes s :: "('w, 'h) loop_state"
  assumes "quiet_tools I C (execute_single_tool (lc_env cfg))"
    and "\<forall>v. lc_loads cfg (lc_dumps_raw cfg v) = Some v" "\<forall>rq r. tv_reply e rq = Answer r \<longrightarrow> batch_ok C r"
    and "talk_ok I cfg s" "run_turn cfg e s = (s', outcome)"
  shows "talk_ok I cfg s' \<or> (\<exists>err. outcome = Fault err) \<and> (\<forall>rq\<in>set (ls_sent s'). valid_pairs (rq_messages rq))"
proof -
  define s0 where "s0 = s\<lparr>ls_budget := consume_iteration (ls_budget s)\<rparr>"
  have ok0: "talk_ok I cfg s0" using assms(4) by (simp add: s0_def talk_same [OF talk_fields(10)])
  show ?thesis
  proof (cases rule: run_turn_cases [of cfg e s])
    case (budget err)
    with assms(5) ok0 show ?thesis by (simp add: s0_def [symmetric])
  next
    case (early s1 err)
    then have "ls_sent s' = ls_sent s" "outcome = Fault err" using assms(5) books_eqD [OF early(2)] by auto
    with assms(4) show ?thesis by (simp add: talk_ok_def)
  next
    case (sent s3 s4 s5 reply)
    then obtain s2 where s2: "maybe_compress_mid_run cfg (tv_summarize e) s3 = Some s2"
      "closing_step cfg (snd (tv_now_closing e)) (tool_surface_step cfg s2) = Some s4" by blast
    have "talk_ok I cfg s3"
      using talk_closing [OF sent(2)] talk_same ok0 by (simp add: s0_def [symmetric] talk_same [of s3 s0])
    from maybe_compress_talk_ok [OF s2(1) this assms(2)] have "talk_ok I cfg s4"
      using talk_closing [OF s2(2)] by (simp add: talk_same [of s4 s2])
    then have ok5: "talk_ok I cfg s5" using send_talk_ok [OF hint_talk_ok, of I cfg s4 e] sent(5) by simp
    show ?thesis
    proof (cases reply)
      case (Answer r)
      have ok6: "talk_ok I cfg (note_usage r s5)" using ok5 by (simp add: talk_same [OF talk_simps(5)])
      have "batch_ok C r" using assms(3) sent(5) Answer by (auto simp: send_request_def Let_def)
      then have "talk_ok I cfg (fst (run_turn cfg e s))"
        unfolding sent(6) Answer using tool_turn_talk_ok [OF assms(1) ok6, of r e] reply_turn_talk_ok [OF ok6, of r] by simp
      with assms(5) show ?thesis by simp
    next
      case TimedOut
      with sent(6) assms(5) ok5 show ?thesis by (auto simp: save_turn_talk_ok talk_same [OF talk_simps(1)])
    next
      case (Raised err)
      with sent(6) assms(5) ok5 show ?thesis by (auto simp: llm_failed_def talk_same [OF talk_simps(2)])
    qed
  qed
qed

lemma run_turns_requests:
  fixes s :: "('w, 'h) loop_state"
  assumes "quiet_tools I C (execute_single_tool (lc_env cfg))"
    and "\<forall>v. lc_loads cfg (lc_dumps_raw cfg v) = Some v" "\<forall>e\<in>set es. \<forall>rq r. tv_reply e rq = Answer r \<longrightarrow> batch_ok C r"
    and "talk_ok I cfg s" "run_turns cfg es s = Some (s', outcome)"
  shows "talk_ok I cfg s' \<or> (\<exists>err. outcome = Fault err) \<and> (\<forall>rq\<in>set (ls_sent s'). valid_pairs (rq_messages rq))"
  using assms(3-5)
proof (induction es arbitrary: s)
  case (Cons e es)
  obtain s1 o1 where turn: "run_turn cfg e s = (s1, o1)" by fastforce
  have "talk_ok I cfg s1 \<or> (\<exists>err. o1 = Fault err) \<and> (\<forall>rq\<in>set (ls_sent s1). valid_pairs (rq_messages rq))"
    using run_turn_talk_ok [OF assms(1,2) _ Cons.prems(2) turn] Cons.prems(1) by simp
  with turn Cons.IH [of s1] Cons.prems(1,3) show ?case by (cases "o1 = NextTurn") auto
qed simp

lemma initial_talk_ok:
  assumes "build_turn_context cfg rs base_prompt context_json few_shots now rw store memo = Some s"
    and "\<forall>m\<in>set (ls_messages s). kept m" "rows_kept (lc_loads cfg) store" "I rw"
  shows "talk_ok I cfg s"
proof -
  obtain s0 :: "('a, 'b) loop_state" and ctx where s0: "s = persist_context_msg cfg (plain_args ''user'' (lc_message cfg)) s0"
    "initial_context cfg base_prompt context_json few_shots store = Some ctx"
    "ls_context s0 = ctx" "ls_store s0 = store" "ls_sent s0 = []" "ls_tools s0 = rw"
    using assms(1) by (auto simp: build_turn_context_def Let_def)
  have "valid_pairs (ctx_messages ctx)"
  proof (cases "lc_target cfg")
    case None
    then obtain mss where "all_some (few_shot_messages (lc_str_of cfg)) few_shots = Some mss"
      "ctx_messages ctx = concat mss @ [user_msg (format_untrusted_user_message (lc_message cfg) context_json)]"
      using s0(2) by (auto simp: initial_context_def Let_def build_initial_def normalize_transcript_def split: if_splits)
    then show ?thesis using few_shots_valid valid_pairs_append plain_valid(1) by metis
  next
    case (Some p)
    then obtain mss restored where "all_some (few_shot_messages (lc_str_of cfg)) few_shots = Some mss"
      "all_some (restore_message (lc_dumps cfg) (lc_str_of cfg) (lc_loads cfg))
         (norm_messages (normalize_transcript (norm_messages (normalize_transcript
            (list_context (lc_loads cfg) (fst p) (snd p) store))))) = Some restored"
      "ctx_messages ctx = concat mss @ concat restored @
         [user_msg (format_untrusted_user_message (lc_message cfg) context_json)]"
      using s0(2) by (cases p) (auto simp: initial_context_def Let_def build_from_full_history_def split: option.splits)
    then show ?thesis
      using few_shots_valid restored_valid [OF normalize_provider_valid] valid_pairs_append plain_valid(1) by metis
  qed
  moreover have "ls_messages s = ctx_messages ctx" using s0 by simp
  ultimately have "talk_ok I cfg s0" using assms(2-4) s0 by (simp add: talk_ok_def)
  then show ?thesis unfolding s0(1) by (rule persist_talk_ok) (simp add: args_kept_def plain_args_def)
qed

lemma cascade_requests:
  assumes "talk_ok I cfg s"
  shows "\<forall>rq\<in>set (ls_sent (fst (auto_finalize_cascade cfg e terminal s))). valid_pairs (rq_messages rq)"
proof -
  define s1 where "s1 = say (lc_emergency cfg terminal) s"
  have ok: "talk_ok I cfg s1" unfolding s1_def by (rule say_talk_ok [OF assms])
  have exec: "ls_sent (fst (finalized (cascade_execute cfg e tc (s1\<lparr>ls_sent := x\<rparr>)))) = x" for tc x
    using cascade_execute_books [of cfg e tc "s1\<lparr>ls_sent := x\<rparr>"] by (simp add: finalized_def books_def)
  have rq: "\<forall>rq\<in>set (ls_sent s1 @ [(request_of cfg s1)\<lparr>rq_tools := a, rq_thinking := b\<rparr>]). valid_pairs (rq_messages rq)" for a b
    using ok by (simp add: talk_ok_def request_of_def)
  show ?thesis
    unfolding auto_finalize_cascade_def Let_def s1_def [symmetric]
    using exec rq ok by (simp add: talk_ok_def split: llm_reply.split list.split)
qed

section \<open>Properties\<close>

text \<open>C1: every request obeys the protocol. All requests to the model, in every turn and in the emergency
  finalisation, answer each declared call before the next message, through pruning, compression, restoring,
  hints, rejected batches and interrupted turns. Assumed: a message of a batch (a declaration of calls or a tool
  result) that the run starts with or that is in the stored rows has a text as its content, and neither of the two
  per-turn hint markers occurs in it, in a tool's answer, or in the text the model writes beside its calls; the calls of a batch have
  distinct ids, non-empty ids and names, and meet the condition \<open>C\<close> under which the tools answer so (and keep
  an invariant \<open>I\<close> of registry and world that holds at the start); \<open>apply_fill_plan\<close> comes alone; \<open>loads\<close> inverts \<open>dumps\<close>. Without the marker condition a hint step deletes such
  a message and leaves calls unanswered or results orphaned (\<open>inject_web_access_hint\<close>).\<close>
lemma requests_obey_protocol:
  fixes s :: "('w, 'h) loop_state"
  assumes "build_turn_context cfg rs base_prompt context_json few_shots now rw store memo = Some s"
    and "\<forall>m\<in>set (ls_messages s). kept m" "rows_kept (lc_loads cfg) store" "I rw"
    and "quiet_tools I C (execute_single_tool (lc_env cfg))"
    and "\<forall>v. lc_loads cfg (lc_dumps_raw cfg v) = Some v" "\<forall>e\<in>set es. \<forall>rq r. tv_reply e rq = Answer r \<longrightarrow> batch_ok C r"
    and "run_loop cfg es e s = Some (s', result)"
  shows "\<forall>rq\<in>set (ls_sent s'). valid_pairs (rq_messages rq)"
proof -
  obtain s1 outcome where turns: "run_turns cfg es s = Some (s1, outcome)" "finish_run cfg e (s1, outcome) = (s', result)"
    using assms(8) by (auto simp: run_loop_def)
  have fin: "talk_ok I cfg s1 \<or> (\<exists>err. outcome = Fault err) \<and> (\<forall>rq\<in>set (ls_sent s1). valid_pairs (rq_messages rq))"
    by (rule run_turns_requests [OF assms(5-7) initial_talk_ok [OF assms(1-3), of I, OF assms(4)] turns(1)])
  then have sent: "\<forall>rq\<in>set (ls_sent s1). valid_pairs (rq_messages rq)" by (auto simp: talk_ok_def)
  show ?thesis
  proof (cases outcome)
    case (BudgetStop err)
    then have ok: "talk_ok I cfg s1" using fin by simp
    obtain s2 salvage where two: "(s2, salvage) = (if terminal_tool (ls_mandate s1) \<noteq> [] \<and>
        \<not> terminal_called (ls_mandate s1) (st_tools_used (ls_stats s1))
        then auto_finalize_cascade cfg e (terminal_tool (ls_mandate s1)) s1 else (s1, None))" by (metis surj_pair)
    have "\<forall>rq\<in>set (ls_sent s2). valid_pairs (rq_messages rq)"
      using two sent cascade_requests [OF ok, of e "terminal_tool (ls_mandate s1)"]
      by (auto split: if_splits dest!: arg_cong [where f = fst])
    moreover have "books s' = books s2"
      using turns(2) two unfolding BudgetStop finish_run_def prod.case turn_outcome.case Let_def
      by (cases salvage) (auto simp: two [symmetric])
    ultimately show ?thesis using books_eqD [of s' s2] by simp
  next
    case LoopBreak
    then have "books s' = books s1" using turns(2) by (auto simp: finish_run_def)
    then show ?thesis using books_eqD [of s' s1] sent by simp
  next
    case NextTurn
    then have "books s' = books s1" using turns(2) by (auto simp: finish_run_def)
    then show ?thesis using books_eqD [of s' s1] sent by simp
  qed (use turns(2) sent in \<open>auto simp: finish_run_def\<close>)
qed

lemma sample_tool_result:
  "fst rw = sample_registry \<Longrightarrow> tc_name tc = ''f'' \<Longrightarrow>
   fst (fst (execute_single_tool sample_env approve tc rw)) = sample_registry \<and>
   unmarked (snd (execute_single_tool sample_env approve tc rw))"
  by (cases rw)
    (simp add: execute_single_tool_def sample_env_def sample_registry_def sample_tool_def
      permission_denied_def guard_decision_def guard_check_def risk_value_def registry_get_def dget_def
      run_registered_def registry_execute_def call_denied_def track_read_def unmarked_def contains_def
      SOFT_HINT_MARKER_def WEB_ACCESS_MARKER_def)

lemma requests_obey_protocol_witness:
  "\<exists>s s' result. sample_context = Some s \<and> run_loop sample_cfg [sample_turn, sample_turn] sample_turn s = Some (s', result) \<and>
     (\<forall>rq\<in>set (ls_sent s'). valid_pairs (rq_messages rq))"
proof -
  obtain s where s: "sample_context = Some s"
    "ls_messages s = [user_msg (format_untrusted_user_message ''hello'' ''{}'')]" using sample_context_built by blast
  define start where "start = s"
  have "within_limits \<lparr>budget_enabled = True, max_iterations = 2, max_tool_calls = 5, max_time_ms = 1000\<rparr> [] s"
    "iterations_used (ls_budget s) = 0"
    using initial_within [OF s(1) [unfolded sample_context_def]] by (simp_all add: sample_run_def)
  then obtain s1 outcome where "run_turns sample_cfg [sample_turn, sample_turn] s = Some (s1, outcome)"
    using run_turns_end [of _ _ s "[sample_turn, sample_turn]" sample_cfg] by fastforce
  then obtain s' result where run: "run_loop sample_cfg [sample_turn, sample_turn] sample_turn s = Some (s', result)"
    by (cases "finish_run sample_cfg sample_turn (s1, outcome)") (simp add: run_loop_def)
  have env: "lc_env sample_cfg = sample_env" "lc_loads sample_cfg = json_read" "lc_dumps_raw sample_cfg = json_text"
    by (simp_all add: sample_cfg_def)
  have quiet: "quiet_tools (\<lambda>rw. fst rw = sample_registry) (\<lambda>tc. tc_name tc = ''f'') (execute_single_tool (lc_env sample_cfg))"
    unfolding env quiet_tools_def using sample_tool_result by blast
  have batch: "batch_ok (\<lambda>tc. tc_name tc = ''f'') \<lparr>lr_content = [], lr_reasoning = [], lr_calls = [sample_call],
      lr_input_tokens = 1, lr_output_tokens = 1, lr_total_tokens = 2\<rparr>"
    by (simp add: batch_ok_def calls_ok_def sample_call_def unmarked_def contains_def SOFT_HINT_MARKER_def WEB_ACCESS_MARKER_def)
  have "\<forall>rq\<in>set (ls_sent s'). valid_pairs (rq_messages rq)"
    by (rule requests_obey_protocol [OF s(1) [unfolded sample_context_def] _ _ _ quiet _ _ run])
      (use batch in \<open>simp_all add: s(2) rows_kept_def env json_text_roundtrip sample_turn_def\<close>)
  with s(1) run show ?thesis by blast
qed

end
