(* ===== verification/AgentReplies.thy ===== *)
theory AgentReplies
  imports AgentProtocol
begin

text \<open>
  What a turn of \<open>AgentLoop.run\<close> may tell the user, what a terminal tool does to a batch of calls, and two ways
  in which the loop itself breaks the protocol that \<open>requests_obey_protocol\<close> states under hypotheses.
\<close>

section \<open>Replies to the user\<close>

lemma no_tag_no_markers: "CHR ''<'' \<notin> set s \<Longrightarrow> \<not> contains_xml_tool_call_markers s"
  by (induction s) auto

lemma strip_inner: "s \<noteq> [] \<Longrightarrow> \<not> is_space (hd s) \<Longrightarrow> \<not> is_space (last s) \<Longrightarrow> strip s = s"
  using dropWhile_eq_self_iff [of is_space s] dropWhile_eq_self_iff [of is_space "rev s"]
  by (simp add: strip_def strip_by_def hd_rev)

lemma fallback_ends:
  "LOOP_FALLBACK \<noteq> [] \<and> hd LOOP_FALLBACK = CHR ''I'' \<and> last LOOP_FALLBACK = CHR ''.''"
  "XML_TOOL_CALL_FALLBACK \<noteq> [] \<and> hd XML_TOOL_CALL_FALLBACK = CHR ''I'' \<and> last XML_TOOL_CALL_FALLBACK = CHR ''.''"
  "hd LOOP_GUARD_TEXT = CHR ''S''"
  by (simp_all add: LOOP_FALLBACK_def XML_TOOL_CALL_FALLBACK_def LOOP_GUARD_TEXT_def)

lemma fallback_no_tag: "CHR ''<'' \<notin> set LOOP_FALLBACK" "CHR ''<'' \<notin> set XML_TOOL_CALL_FALLBACK"
  by (simp_all add: LOOP_FALLBACK_def XML_TOOL_CALL_FALLBACK_def)

lemma fallback_clean:
  "\<not> contains_xml_tool_call_markers LOOP_FALLBACK" "\<not> contains_xml_tool_call_markers XML_TOOL_CALL_FALLBACK"
  "strip LOOP_FALLBACK \<noteq> LOOP_GUARD_TEXT" "strip XML_TOOL_CALL_FALLBACK \<noteq> LOOP_GUARD_TEXT"
  "LOOP_FALLBACK \<noteq> []" "XML_TOOL_CALL_FALLBACK \<noteq> []"
proof -
  have "\<not> is_space (CHR ''I'')" "\<not> is_space (CHR ''.'')" by code_simp+
  then have "strip LOOP_FALLBACK = LOOP_FALLBACK" "strip XML_TOOL_CALL_FALLBACK = XML_TOOL_CALL_FALLBACK"
    using fallback_ends strip_inner by metis+
  then show "strip LOOP_FALLBACK \<noteq> LOOP_GUARD_TEXT" "strip XML_TOOL_CALL_FALLBACK \<noteq> LOOP_GUARD_TEXT"
    using fallback_ends by (auto dest: arg_cong [where f = hd])
qed (use no_tag_no_markers fallback_no_tag fallback_ends in \<open>auto\<close>)

text \<open>the user never sees internals. A reply that ends a run without tool calls is not empty, contains no
  markup of a tool call, and is not the text of the loop guard, whatever the model wrote and whatever repairs
  have been used up before.\<close>
lemma replies_are_clean:
  assumes "reply_turn cfg r s = (s', ReplyUser text)"
  shows "text \<noteq> [] \<and> \<not> contains_xml_tool_call_markers text \<and> strip text \<noteq> LOOP_GUARD_TEXT"
  using assms fallback_clean by (auto simp: reply_turn_def Let_def split: if_splits)

section \<open>Terminal tools\<close>

text \<open>C4: a terminal tool runs alone. When the model combines a terminal tool with other calls, no tool runs:
  the registry and the world stay as they are, no call counts as executed, and the run goes on (or stops on
  its budget) with every call of the batch answered by the same error.\<close>
lemma terminal_tool_alone:
  assumes "tc \<in> set (lr_calls r)" "terminal_call (fst (ls_tools s)) tc" "length (lr_calls r) > 1"
    and "tool_turn cfg e r s = (s', outcome)"
  shows "ls_tools s' = ls_tools s \<and> ls_ran s' = ls_ran s \<and>
    ((\<exists>err. outcome = BudgetStop err \<and> s' = s) \<or>
     outcome = NextTurn \<and>
     ls_messages s' = ls_messages s @
       tool_calls_msg (lc_dumps cfg) (lr_calls r) (if lr_content r = [] then None else Some (lr_content r)) #
       map (\<lambda>tc. tool_result_msg (tc_id tc) (tc_name tc) MIXED_TERMINAL_RESULT) (lr_calls r) @
       [user_msg MIXED_TERMINAL_RETRY])"
proof -
  have answered: "ls_messages (fold (\<lambda>tc. answer_call cfg tc res) calls u) = ls_messages u @
        map (\<lambda>tc. tool_result_msg (tc_id tc) (tc_name tc) res) calls \<and>
      ls_tools (fold (\<lambda>tc. answer_call cfg tc res) calls u) = ls_tools u \<and>
      ls_ran (fold (\<lambda>tc. answer_call cfg tc res) calls u) = ls_ran u" for res calls and u :: "('a, 'b) loop_state"
  proof (induction calls arbitrary: u)
    case (Cons c calls)
    have "ls_messages (answer_call cfg c res u) = ls_messages u @ [tool_result_msg (tc_id c) (tc_name c) res]"
      "ls_tools (answer_call cfg c res u) = ls_tools u" "ls_ran (answer_call cfg c res u) = ls_ran u"
      using books_eqD [OF books_small(3) [of cfg c res u]]
      by (simp_all add: answer_call_def update_context_def add_tool_result_def push_message_def)
    with Cons.IH [of "answer_call cfg c res u"] show ?case by simp
  qed simp
  show ?thesis
  proof (cases "budget_check (ls_budget s) (tv_now_after e)")
    case (Inl err)
    with assms(4) show ?thesis by (auto simp: tool_turn_def)
  next
    case (Inr u)
    show ?thesis
    proof (cases "reserve_tool_calls (ls_budget s) (int (length (lr_calls r)))")
      case (Inl err)
      with Inr assms(4) show ?thesis by (auto simp: tool_turn_def)
    next
      case b: (Inr b)
      define s1 where "s1 = declare_calls cfg (lr_calls r) (lr_content r) (Some (lr_reasoning r)) (s\<lparr>ls_budget := b\<rparr>)"
      have s1: "ls_tools s1 = ls_tools s" "ls_ran s1 = ls_ran s" "ls_messages s1 = ls_messages s @
          [tool_calls_msg (lc_dumps cfg) (lr_calls r) (if lr_content r = [] then None else Some (lr_content r))]"
        using books_eqD [OF books_small(4) [of cfg "lr_calls r" "lr_content r" "Some (lr_reasoning r)" "s\<lparr>ls_budget := b\<rparr>"]]
        by (simp_all add: s1_def declare_calls_def update_context_def add_tool_calls_def push_message_def)
      have "\<exists>tc\<in>set (lr_calls r). terminal_call (fst (ls_tools s1)) tc" using assms(1,2) s1(1) by auto
      then have "tool_turn cfg e r s = (reject_batch cfg (lr_calls r) s1, NextTurn)"
        using assms(3) unfolding tool_turn_def Inr b sum.case Let_def s1_def [symmetric] by simp
      with assms(4) show ?thesis
        using answered [of MIXED_TERMINAL_RESULT "lr_calls r" s1] s1
        by (auto simp: reject_batch_def say_def update_context_def add_user_message_def push_message_def)
    qed
  qed
qed

section \<open>Two breaches of the protocol\<close>

lemma valid_pairs_suffix:
  assumes "\<not> is_tool_msg m" "valid_pairs (xs @ m # ys)"
  shows "valid_pairs (m # ys)"
  using assms(2)
proof (induction xs rule: transcript_induct)
  case (Cons x xs)
  define n where "n = length (declared_calls x)"
  show ?case
  proof (cases "declared_calls x = []")
    case True
    then show ?thesis using Cons.IH [of xs] Cons.prems by (simp add: valid_pairs.simps(2))
  next
    case False
    then have v: "\<forall>r\<in>set (take n (xs @ m # ys)). is_tool_msg r" "valid_pairs (drop n (xs @ m # ys))"
      using Cons.prems by (simp_all add: valid_pairs.simps(2) Let_def n_def del: take_append drop_append)
    have "n \<le> length xs"
    proof (rule ccontr)
      assume "\<not> n \<le> length xs"
      then have "m \<in> set (take n (xs @ m # ys))" by (cases "n - length xs") auto
      with v(1) assms(1) show False by blast
    qed
    with v(2) Cons.IH [of "drop n xs"] show ?thesis by simp
  qed
qed simp

lemma declared_tool_calls [simp]: "declared_calls (tool_calls_msg dumps tcs c) = map (call_dict dumps) tcs"
  "\<not> is_tool_msg (tool_calls_msg dumps tcs c)"
  by (simp_all add: tool_calls_msg_def declared_calls_def has_role_def jget_def)

lemma user_not_tool [simp]: "\<not> is_tool_msg (user_msg q)"
  by (simp add: user_msg_def has_role_def jget_def)

text \<open>Declared calls that are not all answered before another message.\<close>

lemma unanswered_batch_invalid:
  assumes "length (takeWhile is_tool_msg rest) < length tcs"
  shows "\<not> valid_pairs (xs @ tool_calls_msg dumps tcs c # rest)"
proof
  assume v: "valid_pairs (xs @ tool_calls_msg dumps tcs c # rest)"
  have "tcs \<noteq> []" using assms(1) by auto
  with valid_pairs_suffix [OF declared_tool_calls(2) v]
  have r: "\<forall>r\<in>set (take (length tcs) rest). is_tool_msg r"
    "map result_id (take (length tcs) rest) = map (map_option fst) (map call_key (map (call_dict dumps) tcs))"
    by (simp_all add: valid_pairs.simps(2) Let_def del: map_map)
  from arg_cong [OF r(2), of length] have len: "length tcs \<le> length rest" by simp
  have "takeWhile is_tool_msg rest = take (length tcs) rest @ takeWhile is_tool_msg (drop (length tcs) rest)"
    using r(1) takeWhile_append2 [of "take (length tcs) rest" is_tool_msg "drop (length tcs) rest"] by simp
  then show False using assms(1) len by simp
qed

definition fill_tool :: "nat tool" where
  "fill_tool = sample_tool\<lparr>tool_name := ''apply_fill_plan'', parallel_safe := False,
     tool_run := (\<lambda>args w. (w + 1, Inr ''SUCCESS: apply_fill_plan finished.''))\<rparr>"

definition fill_registry :: "nat registry" where
  "fill_registry = \<lparr>reg_tools = [(''apply_fill_plan'', fill_tool), (''f'', sample_tool)], reg_overrides = [],
     reg_file_state = None\<rparr>"

definition fill_call :: llm_tool_call where
  "fill_call = sample_call\<lparr>tc_id := ''c0'', tc_name := ''apply_fill_plan''\<rparr>"

definition fill_reply :: llm_response where
  "fill_reply = \<lparr>lr_content = [], lr_reasoning = [], lr_calls = [fill_call, sample_call], lr_input_tokens = 1,
     lr_output_tokens = 1, lr_total_tokens = 2\<rparr>"

definition submit_registry :: "nat registry" where
  "submit_registry = \<lparr>reg_tools = [(''apply_fill_plan'', fill_tool\<lparr>tool_terminal := True\<rparr>)], reg_overrides = [],
     reg_file_state = None\<rparr>"

lemma fill_runs:
  "execute_single_tool sample_env None fill_call (fill_registry, w) =
     ((fill_registry, w + 1), ''SUCCESS: apply_fill_plan finished.'')"
  "execute_single_tool sample_env None sample_call (fill_registry, w) = ((fill_registry, w + 1), ''ok'')"
  by (simp_all add: execute_single_tool_def sample_env_def sample_call_def fill_call_def fill_registry_def fill_tool_def
    sample_tool_def permission_denied_def guard_decision_def guard_check_def risk_value_def registry_get_def dget_def
    run_registered_def registry_execute_def call_denied_def track_read_def)

lemma fill_succeeds: "is_apply_fill_success_result ''SUCCESS: apply_fill_plan finished.''"
  "\<not> starts_with ''SUCCESS: apply_fill_plan finished.'' TOOL_ERROR_PREFIX"
  by code_simp+

lemma record_changes:
  "ls_messages (record_result cfg tc res s) = ls_messages s @ tool_result_msg (tc_id tc) (tc_name tc) res #
     (if ls_nudged s \<or> tc_name tc \<noteq> ''apply_fill_plan'' \<or> starts_with res TOOL_ERROR_PREFIX \<or>
         \<not> is_apply_fill_success_result res then [] else [user_msg APPLY_FILL_CLOSE_NUDGE])"
  "ls_tools (record_result cfg tc res s) = ls_tools s"
  by (simp_all add: record_result_def maybe_inject_apply_fill_close_nudge_def note_used_def answer_call_def
      persist_context_msg_def case_prod_beta update_context_def add_tool_result_def push_message_def say_def
      add_user_message_def split: option.splits)

text \<open>the closing nudge splits a batch. In any state with a correct transcript, a model that calls
  \<open>apply_fill_plan\<close> together with another tool makes the loop put the user message of the nudge between the
  two results: the second result no longer follows its call, and the transcript is invalid.\<close>
lemma nudge_splits_batch:
  fixes s :: "(nat, nat) loop_state"
  assumes "ls_tools s = (fill_registry, w)" "\<not> ls_nudged s" "valid_pairs (ls_messages s)"
    and "tool_turn sample_cfg sample_turn fill_reply s = (s', outcome)" "\<forall>err. outcome \<noteq> BudgetStop err"
  shows "\<not> valid_pairs (ls_messages s')"
proof -
  define decl where "decl = tool_calls_msg json_text [fill_call, sample_call] None"
  have reply: "lr_calls fill_reply = [fill_call, sample_call]" "lr_content fill_reply = []"
    by (simp_all add: fill_reply_def)
  have cfg: "lc_env sample_cfg = sample_env" "lc_dumps sample_cfg = json_text" "tv_approve sample_turn = None"
    by (simp_all add: sample_cfg_def sample_turn_def)
  obtain u b where u: "budget_check (ls_budget s) (tv_now_after sample_turn) = Inr u"
    "reserve_tool_calls (ls_budget s) (int (length (lr_calls fill_reply))) = Inr b"
    using assms(4,5) by (auto simp: tool_turn_def split: sum.splits)
  define s1 where "s1 = declare_calls sample_cfg [fill_call, sample_call] [] (Some (lr_reasoning fill_reply)) (s\<lparr>ls_budget := b\<rparr>)"
  have s1: "ls_tools s1 = (fill_registry, w)" "\<not> ls_nudged s1" "ls_messages s1 = ls_messages s @ [decl]"
    using assms(1,2) by (simp_all add: s1_def declare_calls_def persist_context_msg_def sample_cfg_def case_prod_beta
      update_context_def add_tool_calls_def push_message_def decl_def)
  have kinds: "\<not> terminal_call fill_registry fill_call" "\<not> terminal_call fill_registry sample_call"
    "\<not> can_parallelize fill_registry [fill_call, sample_call]"
    by (simp_all add: terminal_call_def can_parallelize_def registry_get_def fill_registry_def fill_call_def sample_call_def
      fill_tool_def sample_tool_def dget_def)
  define r1 where "r1 = tool_result_msg ''c0'' ''apply_fill_plan'' ''SUCCESS: apply_fill_plan finished.''"
  define r2 where "r2 = tool_result_msg ''c1'' ''f'' ''ok''"
  obtain s2 where two: "run_tool sample_cfg None fill_call s1 = (s2, ''SUCCESS: apply_fill_plan finished.'')"
    "ls_tools s2 = (fill_registry, w + 1)" "ls_messages s2 = ls_messages s1" "\<not> ls_nudged s2"
    using s1(1,2) by (simp add: run_tool_def cfg fill_runs)
  define s3 where "s3 = record_result sample_cfg fill_call ''SUCCESS: apply_fill_plan finished.'' s2"
  have s3: "ls_tools s3 = (fill_registry, w + 1)" "ls_messages s3 = ls_messages s2 @ [r1, user_msg APPLY_FILL_CLOSE_NUDGE]"
    using two fill_succeeds by (simp_all add: s3_def record_changes r1_def fill_call_def sample_call_def)
  obtain s4 where four: "run_tool sample_cfg None sample_call s3 = (s4, ''ok'')" "ls_messages s4 = ls_messages s3"
    using s3(1) by (simp add: run_tool_def cfg fill_runs)
  define s5 where "s5 = record_result sample_cfg sample_call ''ok'' s4"
  have s5: "ls_messages s5 = ls_messages s4 @ [r2]"
    by (simp add: s5_def record_changes r2_def sample_call_def)
  have seq: "run_sequential sample_cfg sample_turn False [fill_call, sample_call] s1 [] =
      (s5, [(tc_name fill_call, ''SUCCESS: apply_fill_plan finished.''), (tc_name sample_call, ''ok'')], None)"
    using two(1) four(1) by (simp add: cfg s3_def [symmetric] s5_def [symmetric])
  have "(s', outcome) = after_tools sample_cfg sample_turn
      [(tc_name fill_call, ''SUCCESS: apply_fill_plan finished.''), (tc_name sample_call, ''ok'')] s5"
    using assms(4) u kinds seq s1(1) unfolding tool_turn_def Let_def
    by (simp add: reply s1_def [symmetric] del: run_sequential.simps)
  then have "ls_messages s' = ls_messages s5" using talk_after_tools by (metis fst_conv talk_def)
  then have "ls_messages s' = ls_messages s @ decl # [r1, user_msg APPLY_FILL_CLOSE_NUDGE, r2]"
    using s5 four(2) s3(2) two(3) s1(3) by simp
  moreover have "is_tool_msg r1" by (simp add: r1_def tool_result_msg_def has_role_def jget_def)
  ultimately show ?thesis
    unfolding decl_def by (simp only:, intro unanswered_batch_invalid) simp
qed

lemma tool_turn_no_stop:
  assumes "budget_check (ls_budget s) (tv_now_after e) = Inr u" "tool_turn cfg e r s = (s', outcome)"
    and "reserve_tool_calls (ls_budget s) (int (length (lr_calls r))) = Inr b"
  shows "outcome \<noteq> BudgetStop err"
proof -
  have "after_tools cfg e results q \<noteq> (x, BudgetStop err)" for results q x
    by (simp add: after_tools_def Let_def case_prod_beta)
  with assms(2) show ?thesis
    unfolding tool_turn_def assms(1,3) by (auto simp: Let_def case_prod_beta split: if_splits option.splits)
qed

lemma nudge_splits_batch_witness:
  "\<exists>(s :: (nat, nat) loop_state) s' outcome. valid_pairs (ls_messages s) \<and> tool_turn sample_cfg sample_turn fill_reply s = (s', outcome) \<and>
     \<not> valid_pairs (ls_messages s')"
proof -
  obtain s0 where s0: "sample_context = Some s0"
    "ls_messages s0 = [user_msg (format_untrusted_user_message ''hello'' ''{}'')]" using sample_context_built by blast
  define s where "s = s0\<lparr>ls_tools := (fill_registry, 0), ls_nudged := False,
    ls_budget := budget_init \<lparr>budget_enabled = True, max_iterations = 2, max_tool_calls = 5, max_time_ms = 1000\<rparr> 0\<rparr>"
  have v: "valid_pairs (ls_messages s)" using s0(2) by (simp add: s_def)
  obtain s' outcome where t: "tool_turn sample_cfg sample_turn fill_reply s = (s', outcome)" by fastforce
  have "\<exists>u. budget_check (ls_budget s) (tv_now_after sample_turn) = Inr u"
    "\<exists>b. reserve_tool_calls (ls_budget s) (int (length (lr_calls fill_reply))) = Inr b"
    by (simp_all add: s_def budget_check_def reserve_tool_calls_def budget_init_def sample_turn_def fill_reply_def Let_def
      active_ms_def)
  then have "\<forall>err. outcome \<noteq> BudgetStop err" using tool_turn_no_stop [OF _ t] by blast
  then have "\<not> valid_pairs (ls_messages s')"
    using nudge_splits_batch [of s 0 s' outcome] v t by (simp add: s_def)
  with v t show ?thesis by blast
qed

text \<open>a result that quotes a hint loses its place. When a tool returns a text that contains the marker of
  the web access hint (for instance because it read a file or log that quotes it), the next hint step deletes
  the result but keeps the call that it answers: a correct transcript becomes invalid.\<close>
lemma marked_result_is_dropped:
  assumes "ls_messages s = base @ [tool_calls_msg dumps [tc] None, tool_result_msg (tc_id tc) (tc_name tc) result]"
    and "valid_pairs base" "calls_ok [tc]" "contains result WEB_ACCESS_MARKER"
  shows "valid_pairs (ls_messages s) \<and> \<not> valid_pairs (ls_messages (hint_step cfg s))"
proof
  define call_msg where "call_msg = tool_calls_msg dumps [tc] None"
  define res_msg where "res_msg = tool_result_msg (tc_id tc) (tc_name tc) result"
  show "valid_pairs (ls_messages s)"
    using valid_pairs_new_batch [OF assms(3), of "[result]" dumps None] valid_pairs_append [OF assms(2)] assms(1) by simp
  have call: "\<not> has_marker mk call_msg" if "mk \<noteq> []" for mk
    using that by (simp add: has_marker_def call_msg_def tool_calls_msg_def jget_def)
  have res: "has_marker WEB_ACCESS_MARKER res_msg"
    using assms(4) by (simp add: has_marker_def res_msg_def tool_result_msg_def jget_def)
  define like where "like P ms \<longleftrightarrow> (\<exists>xs rest. ms = xs @ call_msg # rest \<and> (\<forall>m\<in>set rest. P m))" for P ms
  define user where "user m \<longleftrightarrow> (\<exists>q. m = user_msg q)" for m
  have drop: "like Q (filter (\<lambda>m. \<not> has_marker mk m) ms)"
    if "like P ms" "mk \<noteq> []" "\<And>m. P m \<Longrightarrow> \<not> has_marker mk m \<Longrightarrow> Q m" for P Q mk ms
  proof -
    obtain xs rest where ms: "ms = xs @ call_msg # rest" "\<forall>m\<in>set rest. P m" using \<open>like P ms\<close> by (auto simp: like_def)
    show ?thesis unfolding like_def
      by (rule exI [of _ "filter (\<lambda>m. \<not> has_marker mk m) xs"], rule exI [of _ "filter (\<lambda>m. \<not> has_marker mk m) rest"])
        (use ms that(2,3) call in auto)
  qed
  have add: "like P (ms @ [user_msg q])" if "like P ms" "\<And>q. P (user_msg q)" for P ms q
  proof -
    obtain xs rest where "ms = xs @ call_msg # rest" "\<forall>m\<in>set rest. P m" using \<open>like P ms\<close> by (auto simp: like_def)
    with that(2) show ?thesis unfolding like_def by (intro exI [of _ xs] exI [of _ "rest @ [user_msg q]"]) simp
  qed
  have marks: "SOFT_HINT_MARKER \<noteq> []" "WEB_ACCESS_MARKER \<noteq> []"
    by (simp_all add: SOFT_HINT_MARKER_def WEB_ACCESS_MARKER_def)
  define ms1 where "ms1 = inject_tool_soft_hint (lc_logf cfg) (lc_surface cfg) (lc_profile cfg) (ascii (lc_message cfg))
      (ls_schema s) (ls_messages s)"
  have "like (\<lambda>m. m = res_msg \<or> user m) (ls_messages s)"
    unfolding like_def assms(1) call_msg_def res_msg_def by (rule exI [of _ base]) simp
  from this drop [OF this marks(1), of "\<lambda>m. m = res_msg \<or> user m"] have ms1: "like (\<lambda>m. m = res_msg \<or> user m) ms1"
    unfolding ms1_def inject_tool_soft_hint_def inject_soft_hint_def Let_def using add by (auto simp: user_def)
  have "like user (inject_web_access_hint h en ms1)" for h en
    unfolding inject_web_access_hint_def Let_def
    using drop [OF ms1 marks(2), of user] res add [of user] by (auto simp: user_def)
  then have "like user (ls_messages (hint_step cfg s))"
    by (simp add: hint_step_def set_messages_def update_context_def ms1_def)
  then obtain xs rest where final: "ls_messages (hint_step cfg s) = xs @ call_msg # rest" "\<forall>m\<in>set rest. user m"
    by (auto simp: like_def)
  have "takeWhile is_tool_msg rest = []" using final(2) by (cases rest) (auto simp: user_def)
  then show "\<not> valid_pairs (ls_messages (hint_step cfg s))"
    unfolding final(1) call_msg_def by (intro unanswered_batch_invalid) simp
qed

lemma marked_result_is_dropped_witness:
  "\<exists>s :: (nat, nat) loop_state. valid_pairs (ls_messages s) \<and> \<not> valid_pairs (ls_messages (hint_step sample_cfg s))"
proof -
  obtain s0 :: "(nat, nat) loop_state" where "sample_context = Some s0" using sample_context_built by blast
  define s where "s = set_messages [tool_calls_msg json_text [sample_call] None,
    tool_result_msg (tc_id sample_call) (tc_name sample_call) ''log: [Web access] OFF''] s0"
  have "ls_messages s = [] @ [tool_calls_msg json_text [sample_call] None,
      tool_result_msg (tc_id sample_call) (tc_name sample_call) ''log: [Web access] OFF'']"
    by (simp add: s_def set_messages_def update_context_def)
  moreover have "calls_ok [sample_call]" by (simp add: calls_ok_def sample_call_def)
  moreover have "contains ''log: [Web access] OFF'' WEB_ACCESS_MARKER" by code_simp
  ultimately show ?thesis using marked_result_is_dropped [of s "[]"] by fastforce
qed

lemma terminal_tool_alone_witness:
  "\<exists>s s' outcome. ls_tools s = (submit_registry, 0) \<and> tool_turn sample_cfg sample_turn fill_reply s = (s', outcome) \<and>
     ls_tools s' = (submit_registry, 0) \<and> ls_ran s' = ls_ran s"
proof -
  obtain s0 :: "(nat, nat) loop_state" where "sample_context = Some s0" using sample_context_built by blast
  define s where "s = s0\<lparr>ls_tools := (submit_registry, 0)\<rparr>"
  have "terminal_call (fst (ls_tools s)) fill_call"
    by (simp add: s_def terminal_call_def submit_registry_def fill_call_def registry_get_def dget_def)
  moreover have "fill_call \<in> set (lr_calls fill_reply)" "length (lr_calls fill_reply) > 1" by (simp_all add: fill_reply_def)
  moreover obtain s' outcome where t: "tool_turn sample_cfg sample_turn fill_reply s = (s', outcome)" by fastforce
  ultimately have "ls_tools s' = (submit_registry, 0)" "ls_ran s' = ls_ran s"
    using terminal_tool_alone [OF _ _ _ t, of fill_call] by (simp_all add: s_def)
  with t show ?thesis by (intro exI [of _ s] exI [of _ s'] exI [of _ outcome]) (simp add: s_def)
qed

lemma replies_are_clean_witness:
  "\<exists>(s :: (nat, nat) loop_state) s' text. reply_turn sample_cfg \<lparr>lr_content = ''hello'', lr_reasoning = [], lr_calls = [],
     lr_input_tokens = 1, lr_output_tokens = 1, lr_total_tokens = 2\<rparr> s = (s', ReplyUser text) \<and> text \<noteq> []"
proof -
  let ?r = "\<lparr>lr_content = ''hello'', lr_reasoning = [], lr_calls = [],
     lr_input_tokens = 1, lr_output_tokens = 1, lr_total_tokens = 2\<rparr>"
  obtain s0 :: "(nat, nat) loop_state" where "sample_context = Some s0" using sample_context_built by blast
  define s where "s = s0\<lparr>ls_planning := \<lparr>planning_enabled = False, planning_max_length = 0, max_corrections = 0,
    corrections_used = 0\<rparr>\<rparr>"
  have hello: "strip ''hello'' = ''hello''" by (rule strip_inner; code_simp)
  then have "strip ''hello'' \<noteq> LOOP_GUARD_TEXT" using fallback_ends(3) by (auto dest: arg_cong [where f = hd])
  moreover have "\<not> contains_xml_tool_call_markers ''hello''" by (rule no_tag_no_markers) simp
  ultimately have "\<exists>s'. reply_turn sample_cfg ?r s = (s', ReplyUser ''hello'')"
    by (simp add: reply_turn_def planning_detect_def s_def hello Let_def)
  then obtain s' where "reply_turn sample_cfg ?r s = (s', ReplyUser ''hello'')" ..
  with replies_are_clean [OF this] show ?thesis by blast
qed

end
