(* ===== verification/IpcAuth.thy ===== *)
theory IpcAuth
  imports Prelude "HOL-Library.Char_ord" "HOL-Library.List_Lexorder" "HOL-Library.Multiset"
begin

text \<open>
  Signed messages between the host and the containers (\<open>security/ipc_auth.py\<close>): the canonical JSON text that
  is signed, \<open>sign\<close>, and \<open>verify\<close> with its checks in the order of the code and its store of seen nonces.

  Parameters: \<open>mac secret text\<close> is the HMAC-SHA256 hex digest, \<open>str_of\<close> is Python's \<open>str\<close> of a JSON value that
  is not a string (the text of a float). \<open>verify\<close> reads the clock twice, once itself and once in
  \<open>_cleanup_nonces\<close>, so it takes two times.
\<close>

section \<open>The canonical text of a payload\<close>

text \<open>\<open>json.dumps(payload, sort_keys=True, separators=(",", ":"))\<close>, with the escapes of \<open>ensure_ascii\<close>.\<close>

definition hex_digit :: "nat \<Rightarrow> char" where
  "hex_digit n = char_of (if n < 10 then 48 + n else 87 + n)"

definition json_char :: "char \<Rightarrow> string" where
  "json_char c =
     (let n = cp c; b = CHR 0x5C in
      if n = 34 then [b, c] else if n = 92 then [b, b]
      else if n = 10 then [b, CHR ''n''] else if n = 13 then [b, CHR ''r''] else if n = 9 then [b, CHR ''t'']
      else if n = 12 then [b, CHR ''f''] else if n = 8 then [b, CHR ''b'']
      else if 32 \<le> n \<and> n \<le> 126 then [c]
      else [b, CHR ''u'', CHR ''0'', CHR ''0'', hex_digit (n div 16), hex_digit (n mod 16)])"

definition json_quote :: "string \<Rightarrow> string" where
  "json_quote s = CHR 0x22 # concat (map json_char s) @ [CHR 0x22]"

fun dumps_sorted :: "(json \<Rightarrow> string) \<Rightarrow> json \<Rightarrow> string" where
  "dumps_sorted str_of JNull = ''null''"
| "dumps_sorted str_of (JBool b) = (if b then ''true'' else ''false'')"
| "dumps_sorted str_of (JInt n) = int_str n"
| "dumps_sorted str_of (JNum q) = str_of (JNum q)"
| "dumps_sorted str_of (JStr s) = json_quote s"
| "dumps_sorted str_of (JArr xs) = ''['' @ join '','' (map (dumps_sorted str_of) xs) @ '']''"
| "dumps_sorted str_of (JObj kvs) =
     ''{'' @ join '',''
       (map (\<lambda>(k, t). json_quote k @ '':'' @ t)
         (sort_key fst (map (\<lambda>p. (fst p, dumps_sorted str_of (snd p))) kvs))) @ ''}''"

section \<open>Messages, errors and state\<close>

datatype ipc_error =
    SecretMissing | SecretTooShort
  | MissingFields | TimestampRange | NonceCapacity | ReplayDetected | InvalidSignature
  | IpcTypeError

definition MAX_NONCES :: nat where
  "MAX_NONCES = 100000"

definition MIN_SECRET_LENGTH :: nat where
  "MIN_SECRET_LENGTH = 32"

text \<open>Nonces are keys of a \<open>dict\<close>: equal numbers are one key, whatever their type.\<close>

record ipc_auth =
  ia_secret :: string
  ia_ttl :: rat
  ia_seen :: "(json, rat) pydict"

definition ipc_init :: "string option \<Rightarrow> string option \<Rightarrow> rat \<Rightarrow> ipc_error + ipc_auth" where
  "ipc_init env secret ttl =
     (let raw = (case secret of Some s \<Rightarrow> if s \<noteq> [] then Some s else env | None \<Rightarrow> env) in
      case raw of
        None \<Rightarrow> Inl SecretMissing
      | Some s \<Rightarrow>
          if s = [] then Inl SecretMissing
          else if length s < MIN_SECRET_LENGTH then Inl SecretTooShort
          else Inr \<lparr>ia_secret = s, ia_ttl = ttl, ia_seen = []\<rparr>)"

definition secret_for_stdin :: "ipc_auth \<Rightarrow> string" where
  "secret_for_stdin a = ia_secret a"

definition cleanup_nonces :: "rat \<Rightarrow> ipc_auth \<Rightarrow> ipc_auth" where
  "cleanup_nonces now a = a\<lparr>ia_seen := filter (\<lambda>(n, t). \<not> now - t > ia_ttl a) (ia_seen a)\<rparr>"

section \<open>Signing and verifying\<close>

definition signed_text :: "(json \<Rightarrow> string) \<Rightarrow> json \<Rightarrow> json \<Rightarrow> json \<Rightarrow> string" where
  "signed_text str_of nonce timestamp payload =
     py_str str_of nonce @ '':'' @ py_str str_of timestamp @ '':'' @ dumps_sorted str_of payload"

type_synonym ipc_message = "(string \<times> json) list"

definition ipc_sign ::
    "(string \<Rightarrow> string \<Rightarrow> string) \<Rightarrow> (json \<Rightarrow> string) \<Rightarrow> string \<Rightarrow> rat \<Rightarrow> ipc_auth \<Rightarrow> json \<Rightarrow> ipc_message" where
  "ipc_sign mac str_of nonce now a payload =
     [(''signature'', JStr (mac (ia_secret a) (signed_text str_of (JStr nonce) (JNum now) payload))),
      (''nonce'', JStr nonce), (''timestamp'', JNum now), (''payload'', payload)]"

text \<open>The number in a JSON value (a \<open>bool\<close> is one in Python), and a value as a key of a \<open>dict\<close>: lists and
  dictionaries are not hashable.\<close>

fun num_of :: "json \<Rightarrow> rat option" where
  "num_of (JInt n) = Some (of_int n)"
| "num_of (JNum q) = Some q"
| "num_of (JBool b) = Some (of_bool b)"
| "num_of _ = None"

fun dict_key :: "json \<Rightarrow> json option" where
  "dict_key (JArr xs) = None"
| "dict_key (JObj kvs) = None"
| "dict_key j = Some (case num_of j of Some q \<Rightarrow> JNum q | None \<Rightarrow> j)"

definition ascii_text :: "string \<Rightarrow> bool" where
  "ascii_text s \<longleftrightarrow> (\<forall>c\<in>set s. cp c < 128)"

text \<open>What \<open>hexdigest\<close> promises.\<close>

definition digest_ok :: "(string \<Rightarrow> string \<Rightarrow> string) \<Rightarrow> bool" where
  "digest_ok mac \<longleftrightarrow> (\<forall>key text. mac key text \<noteq> [] \<and> ascii_text (mac key text))"

text \<open>\<open>hmac.compare_digest(signature, expected)\<close> refuses values that are not strings and strings that are not
  ASCII.\<close>

definition check_signature :: "json \<Rightarrow> string \<Rightarrow> ipc_error option" where
  "check_signature signature expected =
     (case signature of
        JStr s \<Rightarrow> if \<not> ascii_text s then Some IpcTypeError else if s \<noteq> expected then Some InvalidSignature else None
      | _ \<Rightarrow> Some IpcTypeError)"

definition ipc_verify ::
    "(string \<Rightarrow> string \<Rightarrow> string) \<Rightarrow> (json \<Rightarrow> string) \<Rightarrow> rat \<Rightarrow> rat \<Rightarrow> ipc_auth \<Rightarrow> ipc_message \<Rightarrow>
     ipc_auth \<times> (ipc_error + json)" where
  "ipc_verify mac str_of now now_cleanup a m =
     (case (jget m ''signature'', jget m ''nonce'', jget m ''timestamp'', jget m ''payload'') of
        (Some signature, Some nonce, Some timestamp, Some payload) \<Rightarrow>
          if \<not> truthy signature \<or> \<not> truthy nonce \<or> \<not> truthy timestamp \<or> payload = JNull then (a, Inl MissingFields)
          else (case num_of timestamp of
            None \<Rightarrow> (a, Inl IpcTypeError)
          | Some ts \<Rightarrow>
              if \<bar>now - ts\<bar> > ia_ttl a then (a, Inl TimestampRange)
              else let b = cleanup_nonces now_cleanup a in
                if length (ia_seen b) \<ge> MAX_NONCES then (b, Inl NonceCapacity)
                else (case dict_key nonce of
                  None \<Rightarrow> (b, Inl IpcTypeError)
                | Some k \<Rightarrow>
                    if k \<in> set (dkeys (ia_seen b)) then (b, Inl ReplayDetected)
                    else (case check_signature signature
                                 (mac (ia_secret a) (signed_text str_of nonce timestamp payload)) of
                        Some e \<Rightarrow> (b, Inl e)
                      | None \<Rightarrow> (b\<lparr>ia_seen := dput k now (ia_seen b)\<rparr>, Inr payload))))
      | _ \<Rightarrow> (a, Inl MissingFields))"

text \<open>A sequence of calls, each with its two readings of the clock.\<close>

fun ipc_verify_all ::
    "(string \<Rightarrow> string \<Rightarrow> string) \<Rightarrow> (json \<Rightarrow> string) \<Rightarrow> ipc_auth \<Rightarrow> (rat \<times> rat \<times> ipc_message) list \<Rightarrow> ipc_auth" where
  "ipc_verify_all mac str_of a [] = a"
| "ipc_verify_all mac str_of a ((now, now_c, m) # calls) =
     ipc_verify_all mac str_of (fst (ipc_verify mac str_of now now_c a m)) calls"

section \<open>The cleanup and the store\<close>

lemma cleanup_fields [simp]:
  "ia_secret (cleanup_nonces now a) = ia_secret a" "ia_ttl (cleanup_nonces now a) = ia_ttl a"
  by (simp_all add: cleanup_nonces_def)

lemma cleanup_member:
  "(k, t) \<in> set (ia_seen (cleanup_nonces now a)) \<longleftrightarrow> (k, t) \<in> set (ia_seen a) \<and> now - t \<le> ia_ttl a"
  by (auto simp: cleanup_nonces_def)

lemma cleanup_cleanup:
  assumes "now \<le> later"
  shows "cleanup_nonces later (cleanup_nonces now a) = cleanup_nonces later a"
proof -
  have "\<not> later - t > ia_ttl a \<Longrightarrow> \<not> now - t > ia_ttl a" for t
    using assms by linarith
  then have "(case p of (n, t) \<Rightarrow> \<not> ia_ttl a < now - t) \<and> (case p of (n, t) \<Rightarrow> \<not> ia_ttl a < later - t) \<longleftrightarrow>
      (case p of (n, t) \<Rightarrow> \<not> ia_ttl a < later - t)" for p :: "json \<times> rat"
    by (cases p) auto
  then show ?thesis
    by (simp add: cleanup_nonces_def)
qed

lemma cleanup_length: "length (ia_seen (cleanup_nonces now a)) \<le> length (ia_seen a)"
  by (simp add: cleanup_nonces_def)

lemma distinct_keys_filter: "distinct (dkeys d) \<Longrightarrow> distinct (dkeys (filter P d))"
  by (simp add: dkeys_def distinct_map_filter)

text \<open>What a call can do: fail, leaving the store as it was or cleaned, or accept and record the nonce.\<close>

lemma truthy_JStr [simp]: "truthy (JStr s) \<longleftrightarrow> s \<noteq> []"
  by (simp add: truthy_def)

lemma verify_cases [consumes 1, case_names untouched cleaned accepted]:
  assumes "ipc_verify mac str_of now now_c a m = (b, r)"
  obtains e where "r = Inl e" "b = a"
  | e where "r = Inl e" "b = cleanup_nonces now_c a"
  | payload nonce timestamp ts signature k where
      "r = Inr payload" "b = (cleanup_nonces now_c a)\<lparr>ia_seen := dput k now (ia_seen (cleanup_nonces now_c a))\<rparr>"
      "jget m ''signature'' = Some (JStr signature)" "jget m ''nonce'' = Some nonce"
      "jget m ''timestamp'' = Some timestamp" "jget m ''payload'' = Some payload"
      "signature \<noteq> []" "truthy nonce" "truthy timestamp" "payload \<noteq> JNull"
      "num_of timestamp = Some ts" "\<bar>now - ts\<bar> \<le> ia_ttl a"
      "length (ia_seen (cleanup_nonces now_c a)) < MAX_NONCES"
      "dict_key nonce = Some k" "k \<notin> set (dkeys (ia_seen (cleanup_nonces now_c a)))" "ascii_text signature"
      "signature = mac (ia_secret a) (signed_text str_of nonce timestamp payload)"
  using assms
  unfolding ipc_verify_def check_signature_def Let_def
  by (auto simp: not_less not_le split: option.splits if_splits json.splits)

lemma verify_keeps:
  "ia_secret (fst (ipc_verify mac str_of now now_c a m)) = ia_secret a"
  "ia_ttl (fst (ipc_verify mac str_of now now_c a m)) = ia_ttl a"
proof -
  obtain b r where "ipc_verify mac str_of now now_c a m = (b, r)" by fastforce
  then show "ia_secret (fst (ipc_verify mac str_of now now_c a m)) = ia_secret a"
    and "ia_ttl (fst (ipc_verify mac str_of now now_c a m)) = ia_ttl a"
    by (cases rule: verify_cases; simp)+
qed

lemma verify_all_ttl: "ia_ttl (ipc_verify_all mac str_of a calls) = ia_ttl a"
  by (induction mac str_of a calls rule: ipc_verify_all.induct) (simp_all add: verify_keeps)

lemma verify_keeps_nonce:
  assumes "(k, t) \<in> set (ia_seen a)" "now_c - t \<le> ia_ttl a"
  shows "(k, t) \<in> set (ia_seen (fst (ipc_verify mac str_of now now_c a m)))"
proof -
  obtain b r where v: "ipc_verify mac str_of now now_c a m = (b, r)" by fastforce
  have "(k, t) \<in> set (ia_seen b)"
    using v assms by (cases rule: verify_cases) (simp_all add: cleanup_member dput_fresh)
  with v show ?thesis by simp
qed

lemma verify_all_keeps_nonce:
  assumes "(k, t) \<in> set (ia_seen a)" "\<forall>(now, now_c, m)\<in>set calls. now_c - t \<le> ia_ttl a"
  shows "(k, t) \<in> set (ia_seen (ipc_verify_all mac str_of a calls))"
  using assms
proof (induction mac str_of a calls rule: ipc_verify_all.induct)
  case (2 mac str_of a now now_c m calls)
  then show ?case by (simp add: verify_keeps_nonce verify_keeps)
qed simp

section \<open>The text that is signed\<close>

text \<open>The order of the fields of an object does not change its text: the peer may re-encode what it parsed.\<close>

lemma dumps_field_order:
  assumes "mset kvs = mset kvs'" "distinct (map fst kvs)"
  shows "dumps_sorted str_of (JObj kvs) = dumps_sorted str_of (JObj kvs')"
proof -
  define f where "f = (\<lambda>p :: string \<times> json. (fst p, dumps_sorted str_of (snd p)))"
  have "mset (map f kvs) = mset (sort_key fst (map f kvs'))"
    using assms(1) by simp
  moreover have "inj_on fst (set (map f kvs))"
    using assms(2) by (auto simp: f_def distinct_map inj_on_def)
  ultimately have "sort_key fst (map f kvs) = sort_key fst (map f kvs')"
    by (rule sort_key_inj_key_eq) simp
  then show ?thesis
    by (simp add: f_def)
qed

section \<open>Correctness of the protocol\<close>

lemma own_signature: "s \<noteq> [] \<and> ascii_text s \<Longrightarrow> check_signature (JStr s) s = None"
  by (simp add: check_signature_def)

text \<open>A message signed by one side is accepted by the other side, which returns the payload and records the
  nonce with the time of receipt.\<close>

lemma verify_signed:
  assumes digest: "digest_ok mac"
    and shared: "ia_secret receiver = ia_secret sender"
    and msg: "nonce \<noteq> []" "sent > 0" "payload \<noteq> JNull"
    and fresh: "\<bar>now - sent\<bar> \<le> ia_ttl receiver"
    and new: "JStr nonce \<notin> set (dkeys (ia_seen receiver))"
    and room: "length (ia_seen receiver) < MAX_NONCES"
  shows "ipc_verify mac str_of now now_c receiver (ipc_sign mac str_of nonce sent sender payload) =
    (receiver\<lparr>ia_seen := ia_seen (cleanup_nonces now_c receiver) @ [(JStr nonce, now)]\<rparr>, Inr payload)"
proof -
  have n: "JStr nonce \<notin> set (dkeys (ia_seen (cleanup_nonces now_c receiver)))"
    using new by (auto simp: dkeys_def cleanup_nonces_def)
  have r: "\<not> MAX_NONCES \<le> length (ia_seen (cleanup_nonces now_c receiver))"
    using room cleanup_length [of now_c receiver] by simp
  have g: "(cleanup_nonces now_c receiver)\<lparr>ia_seen := d\<rparr> = receiver\<lparr>ia_seen := d\<rparr>" for d
    by (simp add: cleanup_nonces_def)
  have own: "mac (ia_secret sender) (signed_text str_of (JStr nonce) (JNum sent) payload) \<noteq> [] \<and>
      ascii_text (mac (ia_secret sender) (signed_text str_of (JStr nonce) (JNum sent) payload))"
    using digest by (simp add: digest_ok_def)
  show ?thesis
    using msg fresh own own_signature [OF own] n r
    by (simp add: ipc_verify_def ipc_sign_def jget_def truthy_def shared Let_def dput_fresh g)
qed

text \<open>C21: A message that was accepted is never accepted again by the same verifier, after any number of other
  verifications, provided that its time stamp was already at least \<open>delta\<close> old when it was accepted, where \<open>delta\<close>
  bounds the time between the two readings of the clock in the later call, and the clock does not go back. The
  first condition is needed: the clean-up of the later call reads the clock last, so a nonce whose message was
  stamped at, or ahead of, the receiver's time can be dropped just before it is looked up
  (\<open>future_message_replays\<close>).\<close>

theorem no_replay:
  assumes first: "ipc_verify mac str_of now now_c a m = (b, Inr payload)"
    and stamp: "jget m ''timestamp'' = Some stamp" "num_of stamp = Some sent" "sent + delta \<le> now"
    and clock: "\<forall>(x, y, m)\<in>set calls. y \<le> later" "later_c - later \<le> delta" "0 \<le> delta"
    and again: "jget m' ''nonce'' = jget m ''nonce''" "jget m' ''timestamp'' = jget m ''timestamp''"
  shows "\<exists>e. snd (ipc_verify mac str_of later later_c (ipc_verify_all mac str_of b calls) m') = Inl e"
proof (rule ccontr)
  define c where "c = ipc_verify_all mac str_of b calls"
  assume "\<not> ?thesis"
  then obtain d q where second: "ipc_verify mac str_of later later_c c m' = (d, Inr q)"
    unfolding c_def [symmetric] by (metis surj_pair snd_conv sum.exhaust)
  from first obtain nonce k where k: "jget m ''nonce'' = Some nonce" "dict_key nonce = Some k"
      "k \<notin> set (dkeys (ia_seen (cleanup_nonces now_c a)))"
      "b = (cleanup_nonces now_c a)\<lparr>ia_seen := dput k now (ia_seen (cleanup_nonces now_c a))\<rparr>"
    by (cases rule: verify_cases) auto
  from second obtain ts where s: "\<bar>later - sent\<bar> \<le> ia_ttl c" "k \<notin> set (dkeys (ia_seen (cleanup_nonces later_c c)))"
    using again stamp(1,2) k(1,2) by (cases rule: verify_cases) auto
  have ttl: "ia_ttl c = ia_ttl a" "ia_ttl b = ia_ttl a"
    by (simp_all add: c_def verify_all_ttl k(4))
  have "later - now \<le> ia_ttl a - delta"
    using s(1) stamp(3) ttl by linarith
  moreover have "(k, now) \<in> set (ia_seen b)"
    by (simp add: k(3,4) dput_fresh)
  moreover have "\<forall>(x, y, m)\<in>set calls. y - now \<le> ia_ttl b"
    using clock \<open>later - now \<le> ia_ttl a - delta\<close> ttl by force
  ultimately have "(k, now) \<in> set (ia_seen c)" and "later_c - now \<le> ia_ttl c"
    using verify_all_keeps_nonce clock(2) ttl by (auto simp: c_def)
  then have "(k, now) \<in> set (ia_seen (cleanup_nonces later_c c))"
    by (simp add: cleanup_member)
  with s(2) show False
    by (force simp: dkeys_def)
qed

text \<open>A rejected message changes no later answer: whatever was rejected (a forged signature, a replay, a stale
  time stamp), every message verified afterwards gets the answer it would have got without it. In particular a
  forgery does not use up the nonce of a genuine message.\<close>

theorem rejected_leaves_no_trace:
  assumes "ipc_verify mac str_of now now_c a m = (b, Inl e)" "now_c \<le> later_c"
  shows "snd (ipc_verify mac str_of later later_c b m') = snd (ipc_verify mac str_of later later_c a m')"
  using assms(1)
proof (cases rule: verify_cases)
  case cleaned
  then show ?thesis
    by (simp add: ipc_verify_def cleanup_cleanup [OF assms(2)] Let_def split: option.splits)
qed simp_all

section \<open>The size of the store\<close>

definition nonces_ok :: "ipc_auth \<Rightarrow> bool" where
  "nonces_ok a \<longleftrightarrow> length (ia_seen a) \<le> MAX_NONCES \<and> distinct (dkeys (ia_seen a))"

inductive ipc_step ::
    "(string \<Rightarrow> string \<Rightarrow> string) \<Rightarrow> (json \<Rightarrow> string) \<Rightarrow> ipc_auth \<Rightarrow> ipc_auth \<Rightarrow> bool" for mac str_of where
  ipc_call: "ipc_verify mac str_of now now_c a m = (b, r) \<Longrightarrow> ipc_step mac str_of a b"

inductive_cases ipc_stepE: "ipc_step mac str_of a b"

lemma nonces_ok_cleanup: "nonces_ok a \<Longrightarrow> nonces_ok (cleanup_nonces now a)"
  using order_trans [OF cleanup_length [of now a]]
  by (simp add: nonces_ok_def) (simp add: cleanup_nonces_def distinct_keys_filter)

lemma nonces_ok_step [inv_intros]:
  assumes "nonces_ok a" "ipc_step mac str_of a b"
  shows "nonces_ok b"
  using assms(2)
proof (rule ipc_stepE)
  fix now now_c m r
  assume "ipc_verify mac str_of now now_c a m = (b, r)"
  then show "nonces_ok b"
  proof (cases rule: verify_cases)
    case (accepted payload nonce timestamp ts signature k)
    then show ?thesis
      using nonces_ok_cleanup [OF assms(1), of now_c] by (simp add: nonces_ok_def dput_fresh dkeys_def)
  qed (simp_all add: nonces_ok_cleanup assms(1))
qed

interpretation nonce_store: invariant_system "\<lambda>a. ia_seen a = []" "ipc_step mac str_of" nonces_ok
  for mac :: "string \<Rightarrow> string \<Rightarrow> string" and str_of :: "json \<Rightarrow> string"
proof unfold_locales
  show "ia_seen a = [] \<Longrightarrow> nonces_ok a" for a by (simp add: nonces_ok_def)
qed (rule nonces_ok_step)

text \<open>The store of seen nonces holds at most \<open>MAX_NONCES\<close> entries, one per nonce, after any sequence of
  verifications, whatever messages arrive.\<close>

theorem nonce_store_bounded:
  assumes "reach (\<lambda>a. ia_seen a = []) (ipc_step mac str_of) a"
  shows "length (ia_seen a) \<le> MAX_NONCES \<and> distinct (dkeys (ia_seen a))"
  using nonce_store.reach_inv [OF assms] by (simp add: nonces_ok_def)

section \<open>A message from the future\<close>

text \<open>
  A nonce is kept for one life time from the receipt of its message, and the message is fresh for one life time
  around its time stamp: with a sender whose clock is ahead, the nonce is dropped while the message is still fresh.
\<close>

definition sample_mac :: "string \<Rightarrow> string \<Rightarrow> string" where
  "sample_mac key text = ''0f''"

definition sample_auth :: ipc_auth where
  "sample_auth = \<lparr>ia_secret = replicate 32 (CHR ''k''), ia_ttl = 300, ia_seen = []\<rparr>"

lemma sample_digest: "digest_ok sample_mac"
  by (simp add: digest_ok_def sample_mac_def ascii_text_def)

lemma sample_accepts:
  assumes "nonce \<noteq> []" "sent > 0" "\<bar>now - sent\<bar> \<le> 300" "JStr nonce \<notin> set (dkeys d)" "length d < MAX_NONCES"
  shows "ipc_verify sample_mac str_of now now (sample_auth\<lparr>ia_seen := d\<rparr>)
      (ipc_sign sample_mac str_of nonce sent sample_auth (JObj [])) =
    (sample_auth\<lparr>ia_seen := filter (\<lambda>(n, t). \<not> now - t > 300) d @ [(JStr nonce, now)]\<rparr>, Inr (JObj []))"
  using verify_signed [of sample_mac "sample_auth\<lparr>ia_seen := d\<rparr>" sample_auth nonce sent "JObj []" now str_of now]
    sample_digest assms
  by (simp add: sample_auth_def cleanup_nonces_def)

lemma sample_first:
  assumes "nonce \<noteq> []" "sent > 0" "\<bar>now - sent\<bar> \<le> 300"
  shows "ipc_verify sample_mac str_of now now sample_auth
      (ipc_sign sample_mac str_of nonce sent sample_auth (JObj [])) =
    (sample_auth\<lparr>ia_seen := [(JStr nonce, now)]\<rparr>, Inr (JObj []))"
  using sample_accepts [OF assms, of "[]"] by (simp add: sample_auth_def MAX_NONCES_def)

text \<open>The sender's clock is 100 seconds ahead: the message is accepted at 1000 and again at 1301, one second
  after its nonce was dropped.\<close>

lemma future_message_replays:
  fixes str_of :: "json \<Rightarrow> string"
  defines "m \<equiv> ipc_sign sample_mac str_of ''n'' 1100 sample_auth (JObj [])"
  shows "snd (ipc_verify sample_mac str_of 1000 1000 sample_auth m) = Inr (JObj [])"
    and "snd (ipc_verify sample_mac str_of 1301 1301
           (fst (ipc_verify sample_mac str_of 1000 1000 sample_auth m)) m) = Inr (JObj [])"
proof -
  have first: "ipc_verify sample_mac str_of 1000 1000 sample_auth m =
      (sample_auth\<lparr>ia_seen := [(JStr ''n'', 1000)]\<rparr>, Inr (JObj []))"
    unfolding m_def by (rule sample_first) simp_all
  then show "snd (ipc_verify sample_mac str_of 1000 1000 sample_auth m) = Inr (JObj [])" by simp
  define b where "b = cleanup_nonces 1301 (fst (ipc_verify sample_mac str_of 1000 1000 sample_auth m))"
  have b: "b = sample_auth"
    unfolding b_def first by (simp add: cleanup_nonces_def sample_auth_def)
  have "snd (ipc_verify sample_mac str_of 1301 1301 b m) = Inr (JObj [])"
    unfolding b m_def using sample_first [of "''n''" 1100 1301] by simp
  moreover have "snd (ipc_verify sample_mac str_of 1301 1301
      (fst (ipc_verify sample_mac str_of 1000 1000 sample_auth m)) m) = snd (ipc_verify sample_mac str_of 1301 1301 b m)"
    by (simp add: ipc_verify_def b_def cleanup_cleanup Let_def split: option.splits)
  ultimately show "snd (ipc_verify sample_mac str_of 1301 1301
      (fst (ipc_verify sample_mac str_of 1000 1000 sample_auth m)) m) = Inr (JObj [])" by simp
qed

section \<open>Witnesses\<close>

theorem no_replay_witness:
  "\<exists>e. snd (ipc_verify sample_mac (\<lambda>_. []) 1100 1100
     (ipc_verify_all sample_mac (\<lambda>_. []) (sample_auth\<lparr>ia_seen := [(JStr ''n'', 1001)]\<rparr>) [(1002, 1003, [])])
     (ipc_sign sample_mac (\<lambda>_. []) ''n'' 1000 sample_auth (JObj []))) = Inl e"
  by (rule no_replay [where delta = 1 and sent = 1000 and stamp = "JNum 1000", OF sample_first [of "''n''" 1000 1001]])
    (simp_all add: ipc_sign_def jget_def)

theorem rejected_leaves_no_trace_witness:
  "snd (ipc_verify sample_mac (\<lambda>_. []) 1002 1002 sample_auth
     (ipc_sign sample_mac (\<lambda>_. []) ''n'' 1000 sample_auth (JObj []))) =
   snd (ipc_verify sample_mac (\<lambda>_. []) 1002 1002 sample_auth
     (ipc_sign sample_mac (\<lambda>_. []) ''n'' 1000 sample_auth (JObj [])))"
  by (rule rejected_leaves_no_trace [where now = 1001 and now_c = 1001 and e = InvalidSignature and
        m = "[(''signature'', JStr ''f0''), (''nonce'', JStr ''n''), (''timestamp'', JNum 1000), (''payload'', JObj [])]"])
    (simp_all add: ipc_verify_def jget_def truthy_def sample_auth_def cleanup_nonces_def MAX_NONCES_def
      check_signature_def ascii_text_def sample_mac_def)

theorem nonce_store_bounded_witness:
  "length (ia_seen sample_auth) \<le> MAX_NONCES \<and> distinct (dkeys (ia_seen sample_auth))"
  by (rule nonce_store_bounded [where mac = sample_mac and str_of = "\<lambda>_. []"])
    (rule reach_start, simp add: sample_auth_def)

end
