(* ===== verification/ContainerIpc.thy ===== *)
theory ContainerIpc
  imports IpcAuth JsonText
begin

text \<open>
  Tool calls in a container: the proxy on the host (\<open>container/proxy.py\<close>), the request and the reading of the
  response (\<open>container/ipc.py\<close>), and the worker process in the container (\<open>container/agent_worker.py\<close>).

  Parameters: \<open>mac\<close> and \<open>str_of\<close> as in IpcAuth; \<open>dumps\<close> and \<open>loads\<close>, the JSON text on the pipe; \<open>docker\<close>, what
  \<open>docker exec\<close> does with a container name and an input; \<open>tools\<close>, the tools of the worker; \<open>exc_text\<close>, the
  text of an exception; \<open>py_float\<close>, Python's \<open>float()\<close>.
\<close>

section \<open>The host: client state and the request\<close>

definition MAX_LAST_USED :: nat where
  "MAX_LAST_USED = 10000"

definition IPC_OVERHEAD_SECONDS :: rat where
  "IPC_OVERHEAD_SECONDS = 5"

record ipc_client =
  ic_auth :: ipc_auth
  ic_timeout :: rat
  ic_tool_timeout :: rat
  ic_last_used :: "(int, rat) pydict"

definition client_init :: "ipc_auth \<Rightarrow> rat \<Rightarrow> ipc_client" where
  "client_init auth timeout =
     \<lparr>ic_auth = auth, ic_timeout = timeout, ic_tool_timeout = timeout - IPC_OVERHEAD_SECONDS, ic_last_used = []\<rparr>"

definition client_from_env :: "string option \<Rightarrow> rat \<Rightarrow> ipc_error + ipc_client" where
  "client_from_env env timeout =
     (case ipc_init env None 300 of Inl e \<Rightarrow> Inl e | Inr a \<Rightarrow> Inr (client_init a timeout))"

text \<open>\<open>_prune_last_used\<close>: the keys sorted by their time, all but the newest half of the limit removed.\<close>

definition prune_last_used :: "(int, rat) pydict \<Rightarrow> (int, rat) pydict" where
  "prune_last_used d =
     (if length d > MAX_LAST_USED then
        let sorted_keys = map fst (sort_key snd d);
            to_remove = take (length sorted_keys - MAX_LAST_USED div 2) sorted_keys
        in fold dpop to_remove d
      else d)"

definition note_call :: "int \<Rightarrow> rat \<Rightarrow> (int, rat) pydict \<Rightarrow> (int, rat) pydict" where
  "note_call user now d = prune_last_used (dput user now d)"

definition get_last_used :: "int \<Rightarrow> ipc_client \<Rightarrow> rat option" where
  "get_last_used user c = dget (ic_last_used c) user"

definition container_name :: "int \<Rightarrow> string" where
  "container_name user = ''corpclaw_agent_'' @ int_str user"

definition tool_payload :: "rat \<Rightarrow> string \<Rightarrow> (string \<times> json) list \<Rightarrow> json" where
  "tool_payload tool_timeout name args =
     JObj [(''type'', JStr ''tool_call''), (''tool'', JStr name), (''args'', JObj args), (''tool_timeout'', JNum tool_timeout)]"

text \<open>The secret on the first line, the signed message on the second.\<close>

definition stdin_text :: "(json \<Rightarrow> string) \<Rightarrow> ipc_auth \<Rightarrow> ipc_message \<Rightarrow> string" where
  "stdin_text dumps a m = secret_for_stdin a @ [LF] @ dumps (JObj m) @ [LF]"

section \<open>The host: the response\<close>

datatype exec_outcome =
    ExecTimeout
  | ExecFailed string
  | ExecOutput string
  | ExecNotStarted

datatype container_error =
    ToolTimedOut | ExecutionError string | InvalidJsonResponse | SecurityFailed
  | ContainerFailed "json option" | CommunicationError | UserUnknown | NotSerializable

text \<open>\<open>stdout.strip().split(newline)[-1]\<close>.\<close>

definition last_line :: "string \<Rightarrow> string" where
  "last_line s = rev (takeWhile (\<lambda>c. c \<noteq> LF) (rev s))"

definition read_response ::
    "(string \<Rightarrow> string \<Rightarrow> string) \<Rightarrow> (json \<Rightarrow> string) \<Rightarrow> (string \<Rightarrow> json option) \<Rightarrow> rat \<Rightarrow> rat \<Rightarrow> ipc_auth \<Rightarrow> string \<Rightarrow>
     ipc_auth \<times> (container_error + string)" where
  "read_response mac str_of loads now now_c a stdout =
     (case loads (last_line (strip stdout)) of
        None \<Rightarrow> (a, Inl InvalidJsonResponse)
      | Some (JObj m) \<Rightarrow>
          (case ipc_verify mac str_of now now_c a m of
             (b, Inl e) \<Rightarrow> (b, Inl SecurityFailed)
           | (b, Inr payload) \<Rightarrow>
               (b, case payload of
                     JObj p \<Rightarrow>
                       if jget p ''status'' = Some (JStr ''error'') then Inl (ContainerFailed (jget p ''error''))
                       else Inr (case jget p ''result'' of None \<Rightarrow> [] | Some v \<Rightarrow> py_str str_of v)
                   | _ \<Rightarrow> Inl CommunicationError))
      | Some _ \<Rightarrow> (a, Inl SecurityFailed))"

text \<open>\<open>nonce\<close> and \<open>sent\<close> are what \<open>sign\<close> draws; \<open>tick\<close> is \<open>time.monotonic()\<close>; \<open>now\<close> and \<open>now_c\<close> are read when the
  response is verified.\<close>

definition send_tool_call ::
    "(string \<Rightarrow> string \<Rightarrow> string) \<Rightarrow> (json \<Rightarrow> string) \<Rightarrow> (json \<Rightarrow> string) \<Rightarrow> (string \<Rightarrow> json option) \<Rightarrow>
     (string \<Rightarrow> string \<Rightarrow> exec_outcome) \<Rightarrow> rat \<Rightarrow> string \<Rightarrow> rat \<Rightarrow> rat \<Rightarrow> rat \<Rightarrow>
     int \<Rightarrow> string \<Rightarrow> (string \<times> json) list \<Rightarrow> ipc_client \<Rightarrow> ipc_client \<times> (container_error + string)" where
  "send_tool_call mac str_of dumps loads docker tick nonce sent now now_c user name args c =
     (let c1 = c\<lparr>ic_last_used := note_call user tick (ic_last_used c)\<rparr>;
          signed = ipc_sign mac str_of nonce sent (ic_auth c1) (tool_payload (ic_tool_timeout c1) name args)
      in case docker (container_name user) (stdin_text dumps (ic_auth c1) signed) of
           ExecNotStarted \<Rightarrow> (c1, Inl CommunicationError)
         | ExecTimeout \<Rightarrow> (c1, Inl ToolTimedOut)
         | ExecFailed err \<Rightarrow> (c1, Inl (ExecutionError (strip err)))
         | ExecOutput out \<Rightarrow>
             (case read_response mac str_of loads now now_c (ic_auth c1) out of
                (a, r) \<Rightarrow> (c1\<lparr>ic_auth := a\<rparr>, r)))"

section \<open>The host: the proxy\<close>

text \<open>A keyword argument is a JSON value from the model, or a live object of the host.\<close>

datatype kwarg = Json json | LiveObject

definition HOST_ONLY_KWARGS :: "string list" where
  "HOST_ONLY_KWARGS = [''user'', ''run_id'', ''on_subagent_tool_start'', ''on_subagent_tool_batch_start'',
     ''on_subagent_llm_stage'', ''on_subagent_llm_queue_status'', ''parent_trajectory_recorder'']"

definition forwarded_args :: "string list \<Rightarrow> (string \<times> kwarg) list \<Rightarrow> (string \<times> kwarg) list" where
  "forwarded_args declared kwargs =
     filter (\<lambda>(k, v). k \<in> set declared) (filter (\<lambda>(k, v). k \<notin> set HOST_ONLY_KWARGS) kwargs)"

fun json_args :: "(string \<times> kwarg) list \<Rightarrow> (string \<times> json) list option" where
  "json_args [] = Some []"
| "json_args ((k, Json j) # kvs) = map_option ((#) (k, j)) (json_args kvs)"
| "json_args ((k, LiveObject) # kvs) = None"

text \<open>\<open>IPCToolProxy.execute\<close>: \<open>send user args\<close> is \<open>send_tool_call\<close> for the tool of the proxy. An argument that is
  not JSON makes \<open>json.dumps\<close> in \<open>sign\<close> raise.\<close>

definition proxy_execute ::
    "(int \<Rightarrow> (string \<times> json) list \<Rightarrow> ipc_client \<Rightarrow> ipc_client \<times> (container_error + string)) \<Rightarrow>
     string list \<Rightarrow> int option \<Rightarrow> (string \<times> kwarg) list \<Rightarrow> ipc_client \<Rightarrow> ipc_client \<times> (container_error + string)" where
  "proxy_execute send declared user kwargs c =
     (case user of
        None \<Rightarrow> (c, Inl UserUnknown)
      | Some u \<Rightarrow>
          if u = 0 then (c, Inl UserUnknown)
          else (case json_args (forwarded_args declared kwargs) of
                  None \<Rightarrow> (c, Inl NotSerializable)
                | Some args \<Rightarrow> send u args c))"

section \<open>The worker in the container\<close>

text \<open>\<open>readline\<close> returns a line with its line feed.\<close>

definition read_line :: "string \<Rightarrow> string \<times> string" where
  "read_line s = (let n = Suc (length (takeWhile (\<lambda>c. c \<noteq> LF) s)) in (take n s, drop n s))"

datatype worker_error =
    WorkerBadJson | WorkerAuth ipc_error | WorkerAttribute | UnknownPayloadType | BadToolField | ArgsNotDict
  | UnknownTool string | BadTimeout | ToolRaised string

definition DEFAULT_TOOL_TIMEOUT :: rat where
  "DEFAULT_TOOL_TIMEOUT = 25"

type_synonym tool_body = "(string \<times> json) list \<Rightarrow> rat \<Rightarrow> string + string"
type_synonym tool_run = "string \<times> (string \<times> json) list \<times> rat"

text \<open>The body of the \<open>try\<close> after the request is parsed: the tool run it starts, and its outcome.\<close>

definition worker_payload ::
    "(json \<Rightarrow> rat option) \<Rightarrow> (string \<Rightarrow> tool_body option) \<Rightarrow> json \<Rightarrow> tool_run option \<times> (worker_error + string)" where
  "worker_payload py_float tools payload =
     (case payload of
        JObj p \<Rightarrow>
          if jget p ''type'' \<noteq> Some (JStr ''tool_call'') then (None, Inl UnknownPayloadType)
          else (case (case jget p ''tool_timeout'' of None \<Rightarrow> Some DEFAULT_TOOL_TIMEOUT | Some v \<Rightarrow> py_float v) of
            None \<Rightarrow> (None, Inl BadTimeout)
          | Some limit \<Rightarrow>
              (case jget p ''tool'' of
                 Some (JStr name) \<Rightarrow>
                   (case (case jget p ''args'' of None \<Rightarrow> JObj [] | Some v \<Rightarrow> v) of
                      JObj args \<Rightarrow>
                        (case tools name of
                           None \<Rightarrow> (None, Inl (UnknownTool name))
                         | Some body \<Rightarrow>
                             (Some (name, args, limit),
                              case body args limit of Inl e \<Rightarrow> Inl (ToolRaised e) | Inr r \<Rightarrow> Inr r))
                    | _ \<Rightarrow> (None, Inl ArgsNotDict))
               | _ \<Rightarrow> (None, Inl BadToolField)))
      | _ \<Rightarrow> (None, Inl WorkerAttribute))"

definition worker_request ::
    "(string \<Rightarrow> string \<Rightarrow> string) \<Rightarrow> (json \<Rightarrow> string) \<Rightarrow> (json \<Rightarrow> rat option) \<Rightarrow> (string \<Rightarrow> tool_body option) \<Rightarrow>
     rat \<Rightarrow> rat \<Rightarrow> ipc_auth \<Rightarrow> json \<Rightarrow> tool_run option \<times> (worker_error + string)" where
  "worker_request mac str_of py_float tools now now_c a req =
     (case req of
        JObj m \<Rightarrow>
          (case snd (ipc_verify mac str_of now now_c a m) of
             Inl e \<Rightarrow> (None, Inl (WorkerAuth e))
           | Inr payload \<Rightarrow> worker_payload py_float tools payload)
      | _ \<Rightarrow> (None, Inl WorkerAttribute))"

definition response_payload :: "(worker_error \<Rightarrow> string) \<Rightarrow> worker_error + string \<Rightarrow> json" where
  "response_payload exc_text outcome =
     (case outcome of
        Inr r \<Rightarrow> JObj [(''status'', JStr ''success''), (''result'', JStr r)]
      | Inl e \<Rightarrow> JObj [(''status'', JStr ''error''),
                      (''error'', JStr (case e of ToolRaised t \<Rightarrow> t | _ \<Rightarrow> exc_text e))])"

definition fatal_response :: ipc_message where
  "fatal_response =
     [(''signature'', JStr []), (''nonce'', JStr []), (''timestamp'', JStr ''0''),
      (''payload'', JObj [(''status'', JStr ''error''), (''error'', JStr ''Fatal IPC auth error in container'')])]"

text \<open>\<open>process_request\<close>: the tool run it starts and the message it prints (\<open>None\<close>: an empty input, nothing is
  printed). \<open>env\<close> is the secret in the environment of the container.\<close>

definition process_request ::
    "(string \<Rightarrow> string \<Rightarrow> string) \<Rightarrow> (json \<Rightarrow> string) \<Rightarrow> (string \<Rightarrow> json option) \<Rightarrow> (json \<Rightarrow> rat option) \<Rightarrow>
     (worker_error \<Rightarrow> string) \<Rightarrow> (string \<Rightarrow> tool_body option) \<Rightarrow> string option \<Rightarrow>
     rat \<Rightarrow> rat \<Rightarrow> string \<Rightarrow> rat \<Rightarrow> string \<Rightarrow> tool_run option \<times> ipc_message option" where
  "process_request mac str_of loads py_float exc_text tools env now now_c nonce sent input =
     (let (line1, rest) = read_line (universal_newlines input);
          first = strip line1;
          second = strip (fst (read_line rest));
          data = (if second = [] then first else second);
          secret = (if second = [] then [] else first)
      in if data = [] then (None, None)
         else
           let (auth, run, outcome) =
             (case loads data of
                None \<Rightarrow> (None, None, Inl WorkerBadJson)
              | Some req \<Rightarrow>
                  (case ipc_init env (if secret = [] then None else Some secret) 300 of
                     Inl e \<Rightarrow> (None, None, Inl (WorkerAuth e))
                   | Inr a \<Rightarrow> (Some a, worker_request mac str_of py_float tools now now_c a req)))
           in (run, Some
                (case (case auth of Some a \<Rightarrow> Inr a | None \<Rightarrow> ipc_init env None 300) of
                   Inl e \<Rightarrow> fatal_response
                 | Inr a \<Rightarrow> ipc_sign mac str_of nonce sent a (response_payload exc_text outcome))))"

section \<open>Lines on the pipe\<close>

definition one_line :: "string \<Rightarrow> bool" where
  "one_line s \<longleftrightarrow> s \<noteq> [] \<and> \<not> is_space (hd s) \<and> \<not> is_space (List.last s) \<and> LF \<notin> set s \<and> CR \<notin> set s"

text \<open>What \<open>json.dumps\<close> and \<open>json.loads\<close> promise for the pipe.\<close>

definition wire_ok :: "(json \<Rightarrow> string) \<Rightarrow> (string \<Rightarrow> json option) \<Rightarrow> bool" where
  "wire_ok dumps loads \<longleftrightarrow> (\<forall>j. loads (dumps j) = Some j \<and> one_line (dumps j))"

lemma LF_space [simp]: "is_space LF"
  by (simp add: is_space_def is_space_cp_def)

lemma read_line_append: "LF \<notin> set s \<Longrightarrow> read_line (s @ LF # rest) = (s @ [LF], rest)"
  by (simp add: read_line_def takeWhile_append2 [where P = "\<lambda>c. c \<noteq> LF"] takeWhile_append)

lemma dropWhile_line: "s \<noteq> [] \<Longrightarrow> \<not> p (hd s) \<Longrightarrow> dropWhile p (s @ t) = s @ t"
  by (cases s) simp_all

lemma strip_edges: "one_line s \<Longrightarrow> strip (N @ s @ [LF]) = dropWhile is_space (N @ s)"
proof -
  assume s: "one_line s"
  then have r: "rev s \<noteq> []" "\<not> is_space (hd (rev s))"
    by (simp_all add: one_line_def hd_rev)
  define N' where "N' = dropWhile is_space N"
  have "dropWhile is_space (N @ s @ t) = N' @ s @ t" for t
    using s dropWhile_line [of s is_space t]
    by (cases "N' = []") (auto simp: N'_def one_line_def dropWhile_append dropWhile_append3)
  from this [of "[LF]"] this [of "[]"] show ?thesis
    using dropWhile_line [where p = is_space, OF r, of "rev N'"] by (simp add: strip_def strip_by_def)
qed

lemma strip_line: "one_line s \<Longrightarrow> strip (s @ [LF]) = s"
  using strip_edges [of s "[]"] dropWhile_line [of s is_space "[]"] by (simp add: one_line_def)

lemma last_line_strip:
  assumes s: "one_line s" and noise: "noise = [] \<or> List.last noise = LF"
  shows "last_line (strip (noise @ s @ [LF])) = s"
proof -
  define N where "N = dropWhile is_space noise"
  have N: "N = [] \<or> List.last N = LF"
    using noise unfolding N_def by (metis dropWhile.simps(1) last_appendR takeWhile_dropWhile_id)
  have "dropWhile is_space (noise @ s) = N @ s"
    using s dropWhile_line [of s is_space "[]"]
    by (cases "N = []") (auto simp: N_def one_line_def dropWhile_append dropWhile_append3)
  then have e: "strip (noise @ s @ [LF]) = N @ s"
    by (simp add: strip_edges [OF s])
  have "takeWhile (\<lambda>c. c \<noteq> LF) (rev s @ rev N) = rev s"
  proof (cases "N = []")
    case True
    with s show ?thesis by (auto simp: one_line_def takeWhile_eq_all_conv)
  next
    case False
    with N obtain M where M: "rev N = LF # M" by (cases "rev N") (auto simp: hd_rev [symmetric])
    have "takeWhile (\<lambda>c. c \<noteq> LF) (rev s @ LF # M) = rev s"
      using s by (subst takeWhile_append2) (auto simp: one_line_def)
    then show ?thesis by (simp add: M)
  qed
  then show ?thesis by (simp add: e last_line_def)
qed

section \<open>The input of the worker\<close>

lemma worker_reads:
  assumes secret: "one_line secret" and data: "one_line data"
  defines "input \<equiv> secret @ [LF] @ data @ [LF]"
  shows "read_line (universal_newlines input) = (secret @ [LF], data @ [LF])"
    and "read_line (data @ [LF]) = (data @ [LF], [])"
proof -
  have "universal_newlines input = input"
    using secret data by (intro universal_newlines_id) (auto simp: input_def one_line_def)
  then show "read_line (universal_newlines input) = (secret @ [LF], data @ [LF])"
    using read_line_append [of secret "data @ [LF]"] secret by (simp add: input_def one_line_def)
  show "read_line (data @ [LF]) = (data @ [LF], [])"
    using read_line_append [of data "[]"] data by (simp add: one_line_def)
qed

text \<open>A worker that receives a signed request with a secret of its own line accepts it, whatever the secret.\<close>

lemma worker_accepts:
  assumes digest: "digest_ok mac"
    and wire: "wire_ok dumps loads"
    and secret: "one_line (ia_secret a)" "MIN_SECRET_LENGTH \<le> length (ia_secret a)"
    and req: "nonce \<noteq> []" "sent > 0" "payload \<noteq> JNull" "\<bar>now - sent\<bar> \<le> 300"
  shows "process_request mac str_of loads py_float exc_text tools env now now_c nonce' sent'
      (stdin_text dumps a (ipc_sign mac str_of nonce sent a payload)) =
    (fst (worker_payload py_float tools payload),
     Some (ipc_sign mac str_of nonce' sent' a
       (response_payload exc_text (snd (worker_payload py_float tools payload)))))"
proof -
  define m where "m = ipc_sign mac str_of nonce sent a payload"
  define w where "w = \<lparr>ia_secret = ia_secret a, ia_ttl = 300, ia_seen = []\<rparr>"
  have line: "one_line (dumps (JObj m))" and load: "loads (dumps (JObj m)) = Some (JObj m)"
    using wire by (simp_all add: wire_ok_def)
  have input: "stdin_text dumps a m = ia_secret a @ [LF] @ dumps (JObj m) @ [LF]"
    by (simp add: stdin_text_def secret_for_stdin_def)
  have nonempty: "ia_secret a \<noteq> []" "dumps (JObj m) \<noteq> []"
    using secret(1) line by (simp_all add: one_line_def)
  have init: "ipc_init env (Some (ia_secret a)) 300 = Inr w"
    using nonempty secret(2) by (simp add: ipc_init_def w_def)
  have verified: "snd (ipc_verify mac str_of now now_c w m) = Inr payload"
    unfolding m_def using verify_signed [of mac w a nonce sent payload now str_of now_c] digest req
    by (simp add: w_def MAX_NONCES_def)
  have handled: "worker_request mac str_of py_float tools now now_c w (JObj m) = worker_payload py_float tools payload"
    by (simp add: worker_request_def verified)
  have signs: "ipc_sign mac str_of nonce' sent' w q = ipc_sign mac str_of nonce' sent' a q" for q
    by (simp add: ipc_sign_def w_def)
  show ?thesis
    using worker_reads [OF secret(1) line] nonempty
    by (simp add: process_request_def m_def [symmetric] input strip_line [OF secret(1)] strip_line [OF line]
        Let_def load init handled signs split: prod.splits)
qed

lemma worker_runs_tool:
  assumes "\<forall>q. py_float (JNum q) = Some q" "tools name = Some body"
  shows "worker_payload py_float tools (tool_payload limit name args) =
    (Some (name, args, limit), case body args limit of Inl e \<Rightarrow> Inl (ToolRaised e) | Inr r \<Rightarrow> Inr r)"
  using assms by (simp add: worker_payload_def tool_payload_def jget_def)

section \<open>A call from end to end\<close>

text \<open>\<open>docker exec\<close> runs the worker on the input; \<open>noise\<close> is what the tool itself printed before.\<close>

definition worker_docker ::
    "(json \<Rightarrow> string) \<Rightarrow> string \<Rightarrow> (string \<Rightarrow> tool_run option \<times> ipc_message option) \<Rightarrow> string \<Rightarrow> string \<Rightarrow> exec_outcome" where
  "worker_docker dumps noise worker container input =
     (case snd (worker input) of
        None \<Rightarrow> ExecOutput noise
      | Some m \<Rightarrow> ExecOutput (noise @ dumps (JObj m) @ [LF]))"

lemma read_own_response:
  assumes digest: "digest_ok mac"
    and wire: "wire_ok dumps loads"
    and noise: "noise = [] \<or> List.last noise = LF"
    and rsp: "nonce \<noteq> []" "sent > 0" "\<bar>now - sent\<bar> \<le> ia_ttl a"
    and store: "JStr nonce \<notin> set (dkeys (ia_seen a))" "length (ia_seen a) < MAX_NONCES"
  shows "snd (read_response mac str_of loads now now_c a
      (noise @ dumps (JObj (ipc_sign mac str_of nonce sent a (response_payload exc_text outcome))) @ [LF])) =
    (case outcome of
       Inr r \<Rightarrow> Inr r
     | Inl e \<Rightarrow> Inl (ContainerFailed (Some (JStr (case e of ToolRaised t \<Rightarrow> t | _ \<Rightarrow> exc_text e)))))"
proof -
  define m where "m = ipc_sign mac str_of nonce sent a (response_payload exc_text outcome)"
  have line: "one_line (dumps (JObj m))" and load: "loads (dumps (JObj m)) = Some (JObj m)"
    using wire by (simp_all add: wire_ok_def)
  have "response_payload exc_text outcome \<noteq> JNull"
    by (simp add: response_payload_def split: sum.splits)
  then obtain b where v: "ipc_verify mac str_of now now_c a m = (b, Inr (response_payload exc_text outcome))"
    unfolding m_def using verify_signed [of mac a a nonce sent "response_payload exc_text outcome" now str_of now_c]
      digest rsp store by simp
  show ?thesis
    unfolding m_def [symmetric]
    using last_line_strip [OF line noise]
    by (cases outcome) (simp_all add: read_response_def load v response_payload_def jget_def py_str_def)
qed

text \<open>C22: A tool call through the container gives what the tool gives. The worker starts exactly the tool the
  host asked for, once, with its arguments and the tool time limit, and the host returns the text of the tool, or
  reports the text of its exception as a container error. What the tool printed itself before is skipped when it is
  empty or ends with a line feed; without a final line feed it shares the line of the reply, which is then not
  parsed. Hypotheses: JSON text is one line and is read back (\<open>wire_ok\<close>), the digest is a non-empty ASCII text
  (\<open>digest_ok\<close>), a number is converted exactly, the secret is one line without outer white space and of the minimal
  length, both nonces are not empty, the worker's nonce is new to the host, whose table of nonces has room, both time
  stamps are positive and within the life time of a nonce of the reading clock, the worker has the tool.\<close>

theorem tool_call_end_to_end:
  assumes digest: "digest_ok mac"
    and wire: "wire_ok dumps loads"
    and float: "\<forall>q. py_float (JNum q) = Some q"
    and secret: "one_line (ia_secret (ic_auth c))" "MIN_SECRET_LENGTH \<le> length (ia_secret (ic_auth c))"
    and tool: "tools name = Some body"
    and request: "nonce \<noteq> []" "sent > 0" "\<bar>wnow - sent\<bar> \<le> 300"
    and response: "nonce' \<noteq> []" "sent' > 0" "\<bar>now - sent'\<bar> \<le> ia_ttl (ic_auth c)"
    and store: "JStr nonce' \<notin> set (dkeys (ia_seen (ic_auth c)))" "length (ia_seen (ic_auth c)) < MAX_NONCES"
    and noise: "noise = [] \<or> List.last noise = LF"
    and worker: "worker = process_request mac str_of loads py_float exc_text tools env wnow wnow_c nonce' sent'"
  shows "fst (worker (stdin_text dumps (ic_auth c)
           (ipc_sign mac str_of nonce sent (ic_auth c) (tool_payload (ic_tool_timeout c) name args)))) =
         Some (name, args, ic_tool_timeout c) \<and>
         snd (send_tool_call mac str_of dumps loads (worker_docker dumps noise worker) tick nonce sent now now_c
           user name args c) =
         (case body args (ic_tool_timeout c) of
            Inr r \<Rightarrow> Inr r
          | Inl e \<Rightarrow> Inl (ContainerFailed (Some (JStr e))))"
proof -
  define payload where "payload = tool_payload (ic_tool_timeout c) name args"
  have "payload \<noteq> JNull"
    by (simp add: payload_def tool_payload_def)
  note run = worker_accepts [where mac = mac and str_of = str_of and py_float = py_float and exc_text = exc_text and
      tools = tools and env = env and now_c = wnow_c and nonce' = nonce' and sent' = sent',
      OF digest wire secret request(1,2) this request(3)]
  note pay = worker_runs_tool [where tools = tools and args = args, OF float tool]
  have started: "fst (worker (stdin_text dumps (ic_auth c)
           (ipc_sign mac str_of nonce sent (ic_auth c) (tool_payload (ic_tool_timeout c) name args)))) =
         Some (name, args, ic_tool_timeout c)"
    using run by (simp add: worker payload_def pay)
  note read = read_own_response [where str_of = str_of and exc_text = exc_text and now_c = now_c,
      OF digest wire noise response store]
  have answered: "snd (send_tool_call mac str_of dumps loads (worker_docker dumps noise worker) tick nonce sent now now_c
           user name args c) =
         (case body args (ic_tool_timeout c) of
            Inr r \<Rightarrow> Inr r
          | Inl e \<Rightarrow> Inl (ContainerFailed (Some (JStr e))))"
    using run read
    by (simp add: send_tool_call_def worker_docker_def worker payload_def pay Let_def case_prod_beta split: sum.splits)
  from started answered show ?thesis by (rule conjI)
qed

text \<open>The worker takes the key from the same input as the message and starts with an empty store of nonces:
  whoever writes its input can sign with a key of their own choice, and an input that was accepted is accepted again
  by every later worker while its time stamp is fresh. The secret and the nonces of the requests protect nothing
  inside the container.\<close>

theorem worker_trusts_its_input:
  fixes nonce :: string and sent :: rat
  assumes digest: "digest_ok mac" and wire: "wire_ok dumps loads" and float: "\<forall>q. py_float (JNum q) = Some q"
    and secret: "one_line secret" "MIN_SECRET_LENGTH \<le> length secret"
    and tool: "tools name = Some body"
    and request: "nonce \<noteq> []" "sent > 0"
  shows "\<exists>input. \<forall>now now_c nonce' sent'. \<bar>now - sent\<bar> \<le> 300 \<longrightarrow>
    fst (process_request mac str_of loads py_float exc_text tools env now now_c nonce' sent' input) =
      Some (name, args, limit)"
proof -
  define forger where "forger = \<lparr>ia_secret = secret, ia_ttl = 300, ia_seen = []\<rparr>"
  define input where
    "input = stdin_text dumps forger (ipc_sign mac str_of nonce sent forger (tool_payload limit name args))"
  have s: "one_line (ia_secret forger)" "MIN_SECRET_LENGTH \<le> length (ia_secret forger)"
    using secret by (simp_all add: forger_def)
  have p: "tool_payload limit name args \<noteq> JNull"
    by (simp add: tool_payload_def)
  have "fst (process_request mac str_of loads py_float exc_text tools env now now_c nonce' sent' input) =
      Some (name, args, limit)" if "\<bar>now - sent\<bar> \<le> 300" for now now_c nonce' sent'
    unfolding input_def worker_accepts [OF digest wire s request p that]
    by (simp add: worker_runs_tool [where tools = tools and name = name, OF float tool])
  then show ?thesis by blast
qed

text \<open>A secret with a blank at its end passes the checks of the host, but the worker strips the line: the
  request fails there, and the response, signed with the stripped secret, fails on the host.\<close>

lemma padded_secret_breaks:
  assumes digest: "digest_ok mac" and wire: "wire_ok dumps loads"
    and secret: "ia_secret a = core @ '' ''" "one_line core" "MIN_SECRET_LENGTH \<le> length core"
    and differs: "\<And>t. mac (core @ '' '') t \<noteq> mac core t"
    and msg: "nonce \<noteq> []" "sent > 0" "payload \<noteq> JNull" "\<bar>now - sent\<bar> \<le> 300"
  shows "fst (process_request mac str_of loads py_float exc_text tools env now now_c nonce' sent'
      (stdin_text dumps a (ipc_sign mac str_of nonce sent a payload))) = None"
proof -
  define m where "m = ipc_sign mac str_of nonce sent a payload"
  define w where "w = \<lparr>ia_secret = core, ia_ttl = 300, ia_seen = []\<rparr>"
  have line: "one_line (dumps (JObj m))" and load: "loads (dumps (JObj m)) = Some (JObj m)"
    using wire by (simp_all add: wire_ok_def)
  have input: "stdin_text dumps a m = (core @ '' '') @ LF # (dumps (JObj m) @ [LF])"
    by (simp add: stdin_text_def secret_for_stdin_def secret(1))
  have CR: "CR \<notin> set (stdin_text dumps a m)"
    using secret(2) line by (auto simp: input one_line_def)
  have read1: "read_line (stdin_text dumps a m) = ((core @ '' '') @ [LF], dumps (JObj m) @ [LF])"
    unfolding input using secret(2) by (intro read_line_append) (auto simp: one_line_def)
  have read2: "read_line (dumps (JObj m) @ [LF]) = (dumps (JObj m) @ [LF], [])"
    using read_line_append [of "dumps (JObj m)" "[]"] line by (simp add: one_line_def)
  have "dropWhile is_space (rev ((core @ '' '') @ [LF])) = rev core"
    using secret(2) dropWhile_line [of "rev core" is_space "[]"]
    by (simp add: one_line_def hd_rev is_space_def is_space_cp_def)
  moreover have "dropWhile is_space ((core @ '' '') @ [LF]) = (core @ '' '') @ [LF]"
    using secret(2) dropWhile_line [of core is_space "'' '' @ [LF]"] by (simp add: one_line_def)
  ultimately have strip1: "strip (core @ [CHR '' '', LF]) = core"
    by (simp add: strip_def strip_by_def)
  have nonempty: "core \<noteq> []" "dumps (JObj m) \<noteq> []"
    using secret(2) line by (simp_all add: one_line_def)
  have init: "ipc_init env (Some core) 300 = Inr w"
    using nonempty secret(3) by (simp add: ipc_init_def w_def)
  have bad: "\<exists>e. snd (ipc_verify mac str_of now now_c w m) = Inl e"
  proof (rule ccontr)
    assume "\<not> ?thesis"
    then obtain b q where "ipc_verify mac str_of now now_c w m = (b, Inr q)"
      by (metis surj_pair snd_conv sum.exhaust)
    then show False
      using differs secret(1) by (cases rule: verify_cases) (auto simp: m_def ipc_sign_def jget_def w_def)
  qed
  then show ?thesis
    using nonempty
    by (auto simp: process_request_def m_def [symmetric] universal_newlines_id [OF CR] read1 read2 strip1
        strip_line [OF line] Let_def load init worker_request_def)
qed

section \<open>The proxy and the activity table\<close>

lemma json_args_set: "json_args kvs = Some args \<Longrightarrow> map (\<lambda>(k, j). (k, Json j)) args = kvs"
  by (induction kvs arbitrary: args rule: json_args.induct) auto

text \<open>What crosses the boundary are exactly the JSON arguments the wrapped tool declares: no context object of
  the host, no undeclared argument, and the container is the one of a known user.\<close>

theorem proxy_forwards_declared_only:
  assumes "proxy_execute send declared user kwargs c = (c', Inr answer)"
  shows "\<exists>u args. user = Some u \<and> u \<noteq> 0 \<and> send u args c = (c', Inr answer) \<and>
    (\<forall>k j. (k, j) \<in> set args \<longleftrightarrow> (k, Json j) \<in> set kwargs \<and> k \<in> set declared \<and> k \<notin> set HOST_ONLY_KWARGS)"
proof -
  obtain u args where u: "user = Some u" "u \<noteq> 0" "send u args c = (c', Inr answer)"
      "json_args (forwarded_args declared kwargs) = Some args"
    using assms by (auto simp: proxy_execute_def split: option.splits if_splits)
  have "set (forwarded_args declared kwargs) = (\<lambda>(k, j). (k, Json j)) ` set args"
    using json_args_set [OF u(4)] by (metis list.set_map)
  then have "(k, j) \<in> set args \<longleftrightarrow> (k, Json j) \<in> set (forwarded_args declared kwargs)" for k j
    by auto
  then have "\<forall>k j. (k, j) \<in> set args \<longleftrightarrow> (k, Json j) \<in> set kwargs \<and> k \<in> set declared \<and> k \<notin> set HOST_ONLY_KWARGS"
    by (auto simp: forwarded_args_def)
  with u show ?thesis by blast
qed

lemma length_dpop_present:
  "distinct (dkeys d) \<Longrightarrow> k \<in> set (dkeys d) \<Longrightarrow> Suc (length (dpop k d)) = length d"
  by (induction d) (auto simp: dict_rec dpop_notin)

lemma fold_dpop:
  assumes "distinct (dkeys d)" "distinct ks" "set ks \<subseteq> set (dkeys d)"
  shows "length (fold dpop ks d) + length ks = length d \<and>
    set (dkeys (fold dpop ks d)) = set (dkeys d) - set ks \<and> distinct (dkeys (fold dpop ks d))"
  using assms
proof (induction ks arbitrary: d)
  case (Cons k ks)
  have "set ks \<subseteq> set (dkeys (dpop k d))"
    using Cons.prems by (auto simp: set_dkeys_dpop)
  then show ?case
    using Cons.IH [of "dpop k d"] Cons.prems length_dpop_present [of d k]
    by (auto simp: set_dkeys_dpop distinct_dpop)
qed simp

lemma take_sorted_excludes:
  assumes "sorted (map f xs)" "distinct xs" "x \<in> set xs" "\<forall>y\<in>set xs. y \<noteq> x \<longrightarrow> f y < f x" "n < length xs"
  shows "x \<notin> set (take n xs)"
proof
  assume "x \<in> set (take n xs)"
  then obtain i where i: "i < n" "xs ! i = x"
    by (auto simp: in_set_conv_nth)
  have "xs ! n \<noteq> x"
    using i assms(2,5) by (metis nat_neq_iff nth_eq_iff_index_eq order_less_trans)
  then have "f (xs ! n) < f x"
    using assms(4,5) by simp
  moreover have "f (xs ! i) \<le> f (xs ! n)"
    using sorted_nth_mono [OF assms(1), of i n] i assms(5) by simp
  ultimately show False using i(2) by simp
qed

text \<open>The table of last uses never exceeds its limit, and the pruning never forgets the user whose call
  triggered it: after any call of a user, under a strictly increasing clock, the table is within the limit and the
  user is in it.\<close>

theorem last_used_bounded:
  assumes distinct: "distinct (dkeys d)" and size: "length d \<le> MAX_LAST_USED"
    and clock: "\<forall>(u, t)\<in>set d. t < now"
  shows "length (note_call user now d) \<le> MAX_LAST_USED \<and> distinct (dkeys (note_call user now d)) \<and>
    user \<in> set (dkeys (note_call user now d))"
proof (cases "length (dput user now d) > MAX_LAST_USED")
  case False
  then show ?thesis
    using distinct by (simp add: note_call_def prune_last_used_def distinct_dput set_dkeys_dput)
next
  case True
  define e where "e = dput user now d"
  define ks where "ks = sort_key snd e"
  define n where "n = length e - MAX_LAST_USED div 2"
  have de: "distinct (dkeys e)" and ue: "user \<in> set (dkeys e)"
    using distinct by (simp_all add: e_def distinct_dput set_dkeys_dput)
  have "user \<notin> set (dkeys d)"
    using True size by (auto simp: length_dput)
  then have e: "e = d @ [(user, now)]"
    by (simp add: e_def dput_fresh)
  have len: "length e > MAX_LAST_USED" "length e \<le> Suc MAX_LAST_USED"
    using True size by (simp_all add: e_def length_dput)
  have keys: "set (map fst ks) = set (dkeys e)" "distinct (map fst ks)" "length ks = length e"
    using de by (simp_all add: ks_def dkeys_def distinct_map inj_on_def)
  have "(user, now) \<notin> set (take n ks)"
  proof (rule take_sorted_excludes [where f = snd])
    show "sorted (map snd ks)" by (simp add: ks_def)
    show "distinct ks" using keys(2) by (simp add: distinct_map)
    show "(user, now) \<in> set ks" by (simp add: ks_def e)
    show "\<forall>y\<in>set ks. y \<noteq> (user, now) \<longrightarrow> snd y < snd (user, now)"
      using clock by (auto simp: ks_def e)
    show "n < length ks" using len by (simp add: n_def keys(3) MAX_LAST_USED_def)
  qed
  moreover have "t = now" if "(user, t) \<in> set ks" for t
    using that \<open>user \<notin> set (dkeys d)\<close> by (force simp: ks_def e dkeys_def)
  ultimately have kept: "user \<notin> set (take n (map fst ks))"
    by (fastforce simp: take_map dest: in_set_takeD)
  have "note_call user now d = fold dpop (take n (map fst ks)) e"
    using True keys(3) by (simp add: note_call_def prune_last_used_def e_def [symmetric] ks_def [symmetric] n_def Let_def)
  moreover have "length (fold dpop (take n (map fst ks)) e) + length (take n (map fst ks)) = length e \<and>
    set (dkeys (fold dpop (take n (map fst ks)) e)) = set (dkeys e) - set (take n (map fst ks)) \<and>
    distinct (dkeys (fold dpop (take n (map fst ks)) e))"
    using keys by (intro fold_dpop de) (auto dest: in_set_takeD)
  ultimately show ?thesis
    using len ue kept keys(3) by (auto simp: n_def MAX_LAST_USED_def)
qed

section \<open>Witnesses\<close>

text \<open>A wire format: the encoding of JsonText in hexadecimal letters.\<close>

definition hex_text :: "string \<Rightarrow> string" where
  "hex_text s = concat (map (\<lambda>c. [hex_digit (cp c div 16), hex_digit (cp c mod 16)]) s)"

definition hex_value :: "char \<Rightarrow> nat" where
  "hex_value c = (if cp c < 58 then cp c - 48 else cp c - 87)"

fun unhex :: "string \<Rightarrow> string" where
  "unhex (a # b # s) = char_of (16 * hex_value a + hex_value b) # unhex s"
| "unhex _ = []"

definition wire_dumps :: "json \<Rightarrow> string" where
  "wire_dumps j = hex_text (json_text j)"

definition wire_loads :: "string \<Rightarrow> json option" where
  "wire_loads s = json_read (unhex s)"

lemma cp_hex_digit: "n < 16 \<Longrightarrow> cp (hex_digit n) = (if n < 10 then 48 + n else 87 + n)"
  by (simp add: hex_digit_def of_char_of take_bit_eq_mod)

lemma hex_value_digit: "n < 16 \<Longrightarrow> hex_value (hex_digit n) = n"
  by (simp add: hex_value_def cp_hex_digit)

lemma cp_high: "cp c div 16 < 16"
  by (rule less_mult_imp_div_less) simp

lemma unhex_hex: "unhex (hex_text s) = s"
proof (induction s)
  case (Cons c s)
  have "cp c div 16 < 16"
    by (rule cp_high)
  then have "16 * hex_value (hex_digit (cp c div 16)) + hex_value (hex_digit (cp c mod 16)) = cp c"
    by (simp add: hex_value_digit)
  with Cons show ?case by (simp add: hex_text_def)
qed (simp add: hex_text_def)

lemma hex_char: "n < 16 \<Longrightarrow> \<not> is_space (hex_digit n) \<and> hex_digit n \<noteq> LF \<and> hex_digit n \<noteq> CR"
proof -
  assume "n < 16"
  then have "48 \<le> cp (hex_digit n) \<and> cp (hex_digit n) < 127"
    by (simp add: cp_hex_digit)
  then show ?thesis
    by (auto simp: is_space_def is_space_cp_def)
qed

lemma hex_text_chars: "c \<in> set (hex_text s) \<Longrightarrow> \<not> is_space c \<and> c \<noteq> LF \<and> c \<noteq> CR"
  using hex_char [OF cp_high] hex_char [of "n mod 16" for n] by (auto simp: hex_text_def)

lemma wire_ok_hex: "wire_ok wire_dumps wire_loads"
proof -
  have "one_line (hex_text s)" if "s \<noteq> []" for s
  proof -
    have "hex_text s \<noteq> []" using that by (cases s) (simp_all add: hex_text_def)
    then show ?thesis
      using hex_text_chars [of _ s] by (auto simp: one_line_def dest: hd_in_set last_in_set)
  qed
  then show ?thesis
    by (simp add: wire_ok_def wire_dumps_def wire_loads_def unhex_hex json_text_roundtrip json_text_nonempty)
qed

definition sample_float :: "json \<Rightarrow> rat option" where
  "sample_float = num_of"

definition sample_tools :: "string \<Rightarrow> tool_body option" where
  "sample_tools name = (if name = ''echo'' then Some (\<lambda>args limit. Inr name) else None)"

lemma sample_secret: "one_line (replicate 32 (CHR ''k''))"
  by (simp add: one_line_def is_space_def is_space_cp_def)

theorem tool_call_end_to_end_witness:
  "snd (send_tool_call sample_mac (\<lambda>_. []) wire_dumps wire_loads
     (worker_docker wire_dumps (''hi'' @ [LF])
       (process_request sample_mac (\<lambda>_. []) wire_loads sample_float (\<lambda>_. []) sample_tools None 1001 1001 ''b'' 1002))
     7 ''a'' 1000 1003 1003 5 ''echo'' [] (client_init sample_auth 30)) = Inr ''echo''"
  using tool_call_end_to_end [where mac = sample_mac and dumps = wire_dumps and loads = wire_loads and
      py_float = sample_float and c = "client_init sample_auth 30" and tools = sample_tools and name = "''echo''" and
      nonce = "''a''" and sent = 1000 and wnow = 1001 and wnow_c = 1001 and nonce' = "''b''" and sent' = 1002 and
      now = 1003 and now_c = 1003 and noise = "''hi'' @ [LF]" and args = "[]" and str_of = "\<lambda>_. []" and
      exc_text = "\<lambda>_. []" and env = None and user = 5 and tick = 7 and body = "\<lambda>args limit. Inr ''echo''",
      OF sample_digest wire_ok_hex _ _ _ _ _ _ _ _ _ _ _ _ _ refl]
    sample_secret
  by (simp add: sample_float_def sample_tools_def client_init_def sample_auth_def MIN_SECRET_LENGTH_def MAX_NONCES_def)

theorem worker_trusts_its_input_witness:
  "\<exists>input. \<forall>now now_c nonce' sent'. \<bar>now - 1000\<bar> \<le> 300 \<longrightarrow>
    fst (process_request sample_mac (\<lambda>_. []) wire_loads sample_float (\<lambda>_. []) sample_tools None
      now now_c nonce' sent' input) = Some (''echo'', [], 25)"
  using worker_trusts_its_input [where mac = sample_mac and dumps = wire_dumps and loads = wire_loads and
      py_float = sample_float and tools = sample_tools and name = "''echo''" and nonce = "''a''" and sent = 1000 and
      secret = "replicate 32 (CHR ''k'')" and args = "[]" and limit = 25 and str_of = "\<lambda>_. []" and
      exc_text = "\<lambda>_. []" and env = None and body = "\<lambda>args limit. Inr ''echo''",
      OF sample_digest wire_ok_hex _ sample_secret]
  by (simp add: sample_float_def sample_tools_def MIN_SECRET_LENGTH_def)

theorem proxy_forwards_declared_only_witness:
  "\<exists>u args. Some (5 :: int) = Some u \<and> u \<noteq> 0 \<and> (client_init sample_auth 30, Inr ''ok'') = (client_init sample_auth 30, Inr ''ok'') \<and>
    (\<forall>k j. (k, j) \<in> set args \<longleftrightarrow>
       (k, Json j) \<in> set [(''path'', Json (JStr ''a'')), (''run_id'', LiveObject)] \<and> k \<in> set [''path''] \<and>
       k \<notin> set HOST_ONLY_KWARGS)"
  using proxy_forwards_declared_only [where send = "\<lambda>u args c. (c, Inr ''ok'')" and declared = "[''path'']" and
      user = "Some 5" and kwargs = "[(''path'', Json (JStr ''a'')), (''run_id'', LiveObject)]" and
      c = "client_init sample_auth 30" and c' = "client_init sample_auth 30" and answer = "''ok''"]
  by (simp add: proxy_execute_def forwarded_args_def HOST_ONLY_KWARGS_def)

theorem last_used_bounded_witness:
  "length (note_call 5 2 [(3, 1)]) \<le> MAX_LAST_USED \<and> distinct (dkeys (note_call 5 2 [(3, 1)])) \<and>
    5 \<in> set (dkeys (note_call 5 2 [(3, 1)]))"
  by (rule last_used_bounded) (simp_all add: MAX_LAST_USED_def)

end
