(* ===== verification/Users.thy ===== *)
theory Users
  imports Prelude
begin

text \<open>
  \<open>users/manager.py\<close>: accounts, web logins and web sessions, the Telegram whitelist and revocations, the agent
  context and the opt-in state of the memory worker. Each table of \<open>users.db\<close> is a list of rows or a dictionary by
  its primary key; a statement that violates a constraint is \<open>IntegrityViolation\<close> and leaves the database as it was.

  Parameters: \<open>kdf password salt iterations\<close> is the hexadecimal PBKDF2 digest, \<open>token_hash\<close> the one of a session
  token; salts, tokens and the clock (integers) are arguments. The asynchronous wrappers are the operations themselves.
\<close>

section \<open>Tables\<close>

record user =
  u_id :: int
  u_name :: string
  u_department :: string
  u_telegram :: "int option"
  u_username :: "string option"
  u_admin :: bool
  u_disabled :: bool
  u_created :: int

text \<open>\<open>memory_key\<close> and \<open>workspace_key\<close>.\<close>

definition memory_key :: "'a user_scheme \<Rightarrow> string" where
  "memory_key u = int_str (u_id u)"

definition workspace_key :: "'a user_scheme \<Rightarrow> string" where
  "workspace_key u = int_str (u_id u)"

text \<open>The row of a user, which the code returns without its password hash (\<open>_row_to_user\<close>).\<close>

record user_row = user +
  u_hash :: "string option"

definition row_to_user :: "user_row \<Rightarrow> user" where
  "row_to_user r = user.truncate r"

record web_session =
  ws_token :: string
  ws_user :: int
  ws_csrf :: string
  ws_expires :: int

record worker_state =
  mw_enabled :: bool
  mw_last_run :: "int option"
  mw_status :: "string option"
  mw_error :: "string option"
  mw_updated :: int

record users_db =
  users :: "user_row list"
  next_user :: int
  web_sessions :: "web_session list"
  whitelist :: "(int, string) pydict"
  revoked :: "int list"
  auth_imported :: bool
  agent_context :: "(int, string \<times> string) pydict"
  workers :: "(int, worker_state) pydict"

definition users_empty :: users_db where
  "users_empty = \<lparr>users = [], next_user = 1, web_sessions = [], whitelist = [], revoked = [], auth_imported = False,
     agent_context = [], workers = []\<rparr>"

datatype user_error =
    UsernameRequired | UsernameTooLong | UsernameCharacters
  | PasswordWithoutUsername | PasswordRequired | PasswordTooShort | PasswordTooLong
  | NotRegistered | UsernameTaken | TelegramTaken | IntegrityViolation
  | SameUser | SourceNotFound | TargetNotFound | DifferentUsernames | ReloadFailed
  | BadLegacyFile

section \<open>Usernames and passwords\<close>

definition normalize_username :: "string \<Rightarrow> user_error + string" where
  "normalize_username username =
     (let clean = lower (strip username) in
      if clean = [] then Inl UsernameRequired
      else if length clean > 64 then Inl UsernameTooLong
      else if \<not> list_all (\<lambda>c. is_word c \<or> c \<in> {CHR ''_'', CHR ''-'', CHR ''.''}) clean then Inl UsernameCharacters
      else Inr clean)"

record password_policy =
  min_length :: nat
  max_length :: nat

definition policy_init :: "int \<Rightarrow> int \<Rightarrow> password_policy" where
  "policy_init lo hi =
     (let m = max 1 lo in \<lparr>min_length = nat m, max_length = nat (max m hi)\<rparr>)"

definition validate_password :: "password_policy \<Rightarrow> string \<Rightarrow> user_error option" where
  "validate_password p password =
     (if password = [] then Some PasswordRequired
      else if length password < min_length p then Some PasswordTooShort
      else if length password > max_length p then Some PasswordTooLong
      else None)"

type_synonym kdf = "string \<Rightarrow> string \<Rightarrow> nat \<Rightarrow> string"

definition PASSWORD_ITERATIONS :: nat where
  "PASSWORD_ITERATIONS = 200000"

definition hash_password :: "kdf \<Rightarrow> string \<Rightarrow> string \<Rightarrow> string" where
  "hash_password kdf salt password =
     ''pbkdf2_sha256$'' @ nat_str PASSWORD_ITERATIONS @ ''$'' @ salt @ ''$'' @ kdf password salt PASSWORD_ITERATIONS"

text \<open>\<open>s.split(c, n)\<close>, \<open>int(s)\<close>, and \<open>s.encode("ascii")\<close>, which raises for other characters.\<close>

fun split_max :: "char \<Rightarrow> nat \<Rightarrow> string \<Rightarrow> string list" where
  "split_max c 0 s = [s]"
| "split_max c (Suc n) s =
     (case dropWhile (\<lambda>d. d \<noteq> c) s of
        [] \<Rightarrow> [s]
      | _ # rest \<Rightarrow> takeWhile (\<lambda>d. d \<noteq> c) s # split_max c n rest)"

fun digit_groups :: "string \<Rightarrow> bool" where
  "digit_groups [] = False"
| "digit_groups [c] = is_digit c"
| "digit_groups (c # d # s) = (is_digit c \<and> (if d = CHR ''_'' then digit_groups s else digit_groups (d # s)))"

definition py_int :: "string \<Rightarrow> int option" where
  "py_int s =
     (let t = strip s;
          neg = (t \<noteq> [] \<and> hd t = CHR ''-'');
          u = (if t \<noteq> [] \<and> (hd t = CHR ''-'' \<or> hd t = CHR ''+'') then tl t else t);
          v = foldl (\<lambda>n c. 10 * n + (int (cp c) - 48)) 0 (filter is_digit u)
      in if digit_groups u then Some (if neg then - v else v) else None)"

definition is_ascii :: "string \<Rightarrow> bool" where
  "is_ascii s \<longleftrightarrow> (\<forall>c\<in>set s. cp c < 128)"

definition verify_password :: "kdf \<Rightarrow> string \<Rightarrow> string \<Rightarrow> bool" where
  "verify_password kdf password password_hash =
     (case split_max (CHR ''$'') 3 password_hash of
        [scheme, iterations_raw, salt, expected] \<Rightarrow>
          scheme = ''pbkdf2_sha256'' \<and>
          (case py_int iterations_raw of
             None \<Rightarrow> False
           | Some n \<Rightarrow> n > 0 \<and> is_ascii salt \<and> is_ascii expected \<and> kdf password salt (nat n) = expected)
      | _ \<Rightarrow> False)"

section \<open>Accounts\<close>

definition find_user :: "(user_row \<Rightarrow> bool) \<Rightarrow> users_db \<Rightarrow> user_row option" where
  "find_user p db = find p (users db)"

definition map_users :: "(user_row \<Rightarrow> bool) \<Rightarrow> (user_row \<Rightarrow> user_row) \<Rightarrow> users_db \<Rightarrow> users_db" where
  "map_users p f db = db\<lparr>users := map (\<lambda>r. if p r then f r else r) (users db)\<rparr>"

definition get_by_telegram_id :: "int \<Rightarrow> users_db \<Rightarrow> user option" where
  "get_by_telegram_id t db = map_option row_to_user (find_user (\<lambda>r. u_telegram r = Some t) db)"

definition get_by_id :: "int \<Rightarrow> users_db \<Rightarrow> user option" where
  "get_by_id i db = map_option row_to_user (find_user (\<lambda>r. u_id r = i) db)"

definition get_by_username :: "string \<Rightarrow> users_db \<Rightarrow> user option" where
  "get_by_username name db =
     map_option row_to_user (find_user (\<lambda>r. u_username r = Some (lower (strip name))) db)"

definition get_id_by_telegram :: "int \<Rightarrow> users_db \<Rightarrow> int" where
  "get_id_by_telegram t db = (case find_user (\<lambda>r. u_telegram r = Some t) db of None \<Rightarrow> 0 | Some r \<Rightarrow> u_id r)"

definition list_users :: "users_db \<Rightarrow> user list" where
  "list_users db = map row_to_user (sort_key u_id (users db))"

text \<open>The \<open>INSERT\<close> into \<open>users\<close> with its two unique columns.\<close>

definition insert_user :: "user_row \<Rightarrow> users_db \<Rightarrow> user_error + users_db" where
  "insert_user row db =
     (if (\<exists>r\<in>set (users db). (u_telegram row \<noteq> None \<and> u_telegram r = u_telegram row) \<or>
            (u_username row \<noteq> None \<and> u_username r = u_username row))
      then Inl IntegrityViolation
      else Inr (db\<lparr>users := users db @ [row\<lparr>u_id := next_user db\<rparr>], next_user := next_user db + 1\<rparr>))"

record new_user =
  nu_department :: string
  nu_name :: string
  nu_telegram :: "int option"
  nu_username :: "string option"
  nu_password :: "string option"
  nu_admin :: bool

definition default_name :: "string \<Rightarrow> string option \<Rightarrow> int option \<Rightarrow> string" where
  "default_name name clean telegram =
     (if name \<noteq> [] then name
      else if clean \<noteq> None \<and> clean \<noteq> Some [] then the clean
      else case telegram of Some t \<Rightarrow> if t \<noteq> 0 then ''user_'' @ int_str t else ''user'' | None \<Rightarrow> ''user'')"

definition create_user ::
    "kdf \<Rightarrow> password_policy \<Rightarrow> string \<Rightarrow> int \<Rightarrow> new_user \<Rightarrow> users_db \<Rightarrow> user_error + users_db \<times> user" where
  "create_user kdf policy salt now n db =
     (case (case nu_username n of
              None \<Rightarrow> if nu_password n \<noteq> None then Inl PasswordWithoutUsername else Inr (None, None)
            | Some raw \<Rightarrow>
                (case normalize_username raw of
                   Inl e \<Rightarrow> Inl e
                 | Inr clean \<Rightarrow>
                     let password = (case nu_password n of None \<Rightarrow> [] | Some p \<Rightarrow> p) in
                     (case validate_password policy password of
                        Some e \<Rightarrow> Inl e
                      | None \<Rightarrow> Inr (Some clean, Some (hash_password kdf salt password))))) of
        Inl e \<Rightarrow> Inl e
      | Inr (clean, hash) \<Rightarrow>
          (case Option.bind (nu_telegram n) (\<lambda>t. get_by_telegram_id t db) of
             Some existing \<Rightarrow> Inr (db, existing)
           | None \<Rightarrow>
               let row = \<lparr>u_id = 0, u_name = default_name (nu_name n) clean (nu_telegram n),
                          u_department = nu_department n, u_telegram = nu_telegram n, u_username = clean,
                          u_admin = nu_admin n, u_disabled = False, u_created = now, u_hash = hash\<rparr> in
               (case insert_user row db of
                  Inl e \<Rightarrow> Inl e
                | Inr db' \<Rightarrow> Inr (db', row_to_user (row\<lparr>u_id := next_user db\<rparr>)))))"

definition update_name :: "int \<Rightarrow> string \<Rightarrow> users_db \<Rightarrow> users_db" where
  "update_name i name db = map_users (\<lambda>r. u_id r = i) (\<lambda>r. r\<lparr>u_name := name\<rparr>) db"

section \<open>Web logins\<close>

definition update_login :: "string \<Rightarrow> string \<Rightarrow> bool \<Rightarrow> user_row \<Rightarrow> user_row" where
  "update_login clean hash admin r =
     r\<lparr>u_username := Some clean, u_admin := u_admin r \<or> admin, u_hash := Some hash\<rparr>"

definition link_web_login ::
    "kdf \<Rightarrow> password_policy \<Rightarrow> string \<Rightarrow> int \<Rightarrow> string \<Rightarrow> string \<Rightarrow> bool \<Rightarrow> users_db \<Rightarrow>
     user_error + users_db \<times> user" where
  "link_web_login kdf policy salt i username password admin db =
     (case normalize_username username of
        Inl e \<Rightarrow> Inl e
      | Inr clean \<Rightarrow>
          (case validate_password policy password of
             Some e \<Rightarrow> Inl e
           | None \<Rightarrow>
               (case find_user (\<lambda>r. u_id r = i) db of
                  None \<Rightarrow> Inl NotRegistered
                | Some target \<Rightarrow>
                    if find_user (\<lambda>r. u_username r = Some clean \<and> u_id r \<noteq> i) db \<noteq> None then Inl UsernameTaken
                    else
                      let db' = map_users (\<lambda>r. u_id r = i)
                                  (update_login clean (hash_password kdf salt password) admin) db
                      in (case get_by_id i db' of None \<Rightarrow> Inl ReloadFailed | Some u \<Rightarrow> Inr (db', u)))))"

definition link_web_user ::
    "kdf \<Rightarrow> password_policy \<Rightarrow> string \<Rightarrow> int \<Rightarrow> string \<Rightarrow> string \<Rightarrow> bool \<Rightarrow> users_db \<Rightarrow>
     user_error + users_db \<times> user" where
  "link_web_user kdf policy salt telegram username password admin db =
     (case get_by_telegram_id telegram db of
        None \<Rightarrow> Inl NotRegistered
      | Some u \<Rightarrow> link_web_login kdf policy salt (u_id u) username password admin db)"

definition create_web_user ::
    "kdf \<Rightarrow> password_policy \<Rightarrow> string \<Rightarrow> int \<Rightarrow> string \<Rightarrow> string \<Rightarrow> string \<Rightarrow> string \<Rightarrow> bool \<Rightarrow> int option \<Rightarrow> users_db \<Rightarrow>
     user_error + users_db \<times> user" where
  "create_web_user kdf policy salt now username password department name admin telegram db =
     (case telegram of
        Some t \<Rightarrow> link_web_user kdf policy salt t username password admin db
      | None \<Rightarrow>
          (case normalize_username username of
             Inl e \<Rightarrow> Inl e
           | Inr clean \<Rightarrow>
               (case validate_password policy password of
                  Some e \<Rightarrow> Inl e
                | None \<Rightarrow>
                    let row = \<lparr>u_id = 0, u_name = (if name \<noteq> [] then name else clean), u_department = department,
                               u_telegram = None, u_username = Some clean, u_admin = admin, u_disabled = False,
                               u_created = now, u_hash = Some (hash_password kdf salt password)\<rparr> in
                    (case insert_user row db of
                       Inl e \<Rightarrow> Inl e
                     | Inr db' \<Rightarrow> Inr (db', row_to_user (row\<lparr>u_id := next_user db\<rparr>))))))"

definition link_telegram_user :: "int \<Rightarrow> int \<Rightarrow> users_db \<Rightarrow> user_error + users_db \<times> user" where
  "link_telegram_user i telegram db =
     (if find_user (\<lambda>r. u_id r = i) db = None then Inl NotRegistered
      else if find_user (\<lambda>r. u_telegram r = Some telegram \<and> u_id r \<noteq> i) db \<noteq> None then Inl TelegramTaken
      else
        let db' = map_users (\<lambda>r. u_id r = i) (\<lambda>r. r\<lparr>u_telegram := Some telegram\<rparr>) db
        in (case get_by_id i db' of None \<Rightarrow> Inl ReloadFailed | Some u \<Rightarrow> Inr (db', u)))"

text \<open>\<open>set_web_password\<close> also deletes the sessions of the user; \<open>False\<close>: no such user.\<close>

definition set_web_password ::
    "kdf \<Rightarrow> password_policy \<Rightarrow> string \<Rightarrow> string \<Rightarrow> string \<Rightarrow> users_db \<Rightarrow> user_error + users_db \<times> bool" where
  "set_web_password kdf policy salt username password db =
     (case normalize_username username of
        Inl e \<Rightarrow> Inl e
      | Inr clean \<Rightarrow>
          (case validate_password policy password of
             Some e \<Rightarrow> Inl e
           | None \<Rightarrow>
               (case find_user (\<lambda>r. u_username r = Some clean) db of
                  None \<Rightarrow> Inr (db, False)
                | Some row \<Rightarrow>
                    let db' = map_users (\<lambda>r. u_username r = Some clean)
                                (\<lambda>r. r\<lparr>u_hash := Some (hash_password kdf salt password)\<rparr>) db
                    in Inr (db'\<lparr>web_sessions := filter (\<lambda>w. ws_user w \<noteq> u_id row) (web_sessions db')\<rparr>, True))))"

definition authenticate_web_user :: "kdf \<Rightarrow> string \<Rightarrow> string \<Rightarrow> users_db \<Rightarrow> user option" where
  "authenticate_web_user kdf username password db =
     (case find_user (\<lambda>r. u_username r = Some (lower (strip username))) db of
        None \<Rightarrow> None
      | Some r \<Rightarrow>
          if u_disabled r then None
          else (case u_hash r of
                  None \<Rightarrow> None
                | Some h \<Rightarrow>
                    if h = [] \<or> \<not> verify_password kdf password h then None else Some (row_to_user r)))"

section \<open>Web sessions\<close>

text \<open>\<open>INSERT\<close> checks the primary key and the foreign key. Times are seconds; the code compares the ISO texts in
  \<open>prune\<close>, which for times of one format is the comparison of the times.\<close>

definition create_web_session ::
    "(string \<Rightarrow> string) \<Rightarrow> string \<Rightarrow> string \<Rightarrow> int \<Rightarrow> int \<Rightarrow> int \<Rightarrow> users_db \<Rightarrow> user_error + users_db \<times> string \<times> string" where
  "create_web_session token_hash raw csrf now ttl_hours i db =
     (if (\<exists>w\<in>set (web_sessions db). ws_token w = token_hash raw) \<or> (\<forall>r\<in>set (users db). u_id r \<noteq> i)
      then Inl IntegrityViolation
      else Inr (db\<lparr>web_sessions := web_sessions db @
                  [\<lparr>ws_token = token_hash raw, ws_user = i, ws_csrf = csrf, ws_expires = now + 3600 * ttl_hours\<rparr>]\<rparr>,
                raw, csrf))"

definition delete_web_session :: "(string \<Rightarrow> string) \<Rightarrow> string \<Rightarrow> users_db \<Rightarrow> users_db" where
  "delete_web_session token_hash raw db =
     db\<lparr>web_sessions := filter (\<lambda>w. ws_token w \<noteq> token_hash raw) (web_sessions db)\<rparr>"

definition get_user_by_session ::
    "(string \<Rightarrow> string) \<Rightarrow> int \<Rightarrow> string \<Rightarrow> users_db \<Rightarrow> users_db \<times> (user \<times> string) option" where
  "get_user_by_session token_hash now raw db =
     (case find (\<lambda>w. ws_token w = token_hash raw) (web_sessions db) of
        None \<Rightarrow> (db, None)
      | Some w \<Rightarrow>
          (case find_user (\<lambda>r. u_id r = ws_user w) db of
             None \<Rightarrow> (db, None)
           | Some r \<Rightarrow>
               if ws_expires w \<le> now \<or> u_disabled r then (delete_web_session token_hash raw db, None)
               else (db, Some (row_to_user r, ws_csrf w))))"

definition prune_expired_web_sessions :: "int \<Rightarrow> users_db \<Rightarrow> users_db \<times> nat" where
  "prune_expired_web_sessions now db =
     (db\<lparr>web_sessions := filter (\<lambda>w. \<not> ws_expires w \<le> now) (web_sessions db)\<rparr>,
      length (filter (\<lambda>w. ws_expires w \<le> now) (web_sessions db)))"

section \<open>The Telegram whitelist and the revocations\<close>

definition add_to_whitelist :: "int \<Rightarrow> string \<Rightarrow> users_db \<Rightarrow> users_db" where
  "add_to_whitelist t department db =
     (if t \<in> set (dkeys (whitelist db)) then db else db\<lparr>whitelist := whitelist db @ [(t, department)]\<rparr>)"

definition seed_whitelist :: "int list \<Rightarrow> string \<Rightarrow> users_db \<Rightarrow> users_db" where
  "seed_whitelist ids department db = fold (\<lambda>t. add_to_whitelist t department) ids db"

definition remove_from_whitelist :: "int \<Rightarrow> users_db \<Rightarrow> users_db \<times> bool" where
  "remove_from_whitelist t db = (db\<lparr>whitelist := dpop t (whitelist db)\<rparr>, t \<in> set (dkeys (whitelist db)))"

definition get_whitelist :: "users_db \<Rightarrow> (int \<times> string) list" where
  "get_whitelist db = sort_key fst (whitelist db)"

definition is_allowed_telegram :: "int \<Rightarrow> users_db \<Rightarrow> bool" where
  "is_allowed_telegram t db \<longleftrightarrow> t \<in> set (dkeys (whitelist db))"

definition get_whitelist_department :: "int \<Rightarrow> users_db \<Rightarrow> string" where
  "get_whitelist_department t db = (case dget (whitelist db) t of Some d \<Rightarrow> d | None \<Rightarrow> ''default'')"

definition revoke_session :: "int \<Rightarrow> users_db \<Rightarrow> users_db" where
  "revoke_session t db = (if t \<in> set (revoked db) then db else db\<lparr>revoked := revoked db @ [t]\<rparr>)"

definition unrevoke_session :: "int \<Rightarrow> users_db \<Rightarrow> users_db" where
  "unrevoke_session t db = db\<lparr>revoked := filter (\<lambda>x. x \<noteq> t) (revoked db)\<rparr>"

definition is_session_revoked :: "int \<Rightarrow> users_db \<Rightarrow> bool" where
  "is_session_revoked t db \<longleftrightarrow> t \<in> set (revoked db)"

section \<open>The import of the old files\<close>

text \<open>A legacy JSON file: \<open>None\<close> does not exist, \<open>Some None\<close> cannot be read or parsed.\<close>

definition legacy_entry :: "json \<Rightarrow> (int \<times> string) option" where
  "legacy_entry j =
     (case j of
        JObj d \<Rightarrow>
          (case (jget d ''telegram_id'', case jget d ''department'' of None \<Rightarrow> JStr ''default'' | Some v \<Rightarrow> v) of
             (Some (JInt t), JStr dep) \<Rightarrow> if dep = [] then None else Some (t, dep)
           | _ \<Rightarrow> None)
      | _ \<Rightarrow> None)"

definition legacy_id :: "json \<Rightarrow> int option" where
  "legacy_id j = (case j of JInt t \<Rightarrow> Some t | JStr s \<Rightarrow> py_int s | _ \<Rightarrow> None)"

fun all_of :: "('a \<Rightarrow> 'b option) \<Rightarrow> 'a list \<Rightarrow> 'b list option" where
  "all_of f [] = Some []"
| "all_of f (x # xs) = (case f x of None \<Rightarrow> None | Some y \<Rightarrow> map_option ((#) y) (all_of f xs))"

definition read_legacy :: "(json \<Rightarrow> 'b option) \<Rightarrow> json option option \<Rightarrow> user_error + 'b list" where
  "read_legacy entry file =
     (case file of
        None \<Rightarrow> Inr []
      | Some (Some (JArr xs)) \<Rightarrow> (case all_of entry xs of None \<Rightarrow> Inl BadLegacyFile | Some ys \<Rightarrow> Inr ys)
      | _ \<Rightarrow> Inl BadLegacyFile)"

definition migrate_legacy_auth ::
    "json option option \<Rightarrow> json option option \<Rightarrow> users_db \<Rightarrow> user_error + users_db" where
  "migrate_legacy_auth whitelist_file revoked_file db =
     (if auth_imported db then Inr db
      else case (read_legacy legacy_entry whitelist_file, read_legacy legacy_id revoked_file) of
             (Inl e, _) \<Rightarrow> Inl e
           | (_, Inl e) \<Rightarrow> Inl e
           | (Inr wl, Inr rv) \<Rightarrow>
               Inr ((fold revoke_session rv (fold (\<lambda>(t, d). add_to_whitelist t d) wl db))\<lparr>auth_imported := True\<rparr>))"

section \<open>Agent context and memory worker\<close>

definition tone_directive :: "string \<Rightarrow> string" where
  "tone_directive tone =
     (if tone = ''concise'' then
        ''Be concise: give short, direct answers. Skip preamble, hedging, and '' @
        ''restating the question. Prefer lists over prose when several items are involved.''
      else if tone = ''detailed'' then
        ''Be thorough: explain your reasoning, structure the answer with headings, '' @
        ''and include relevant context. Prefer completeness over brevity.''
      else [])"

definition get_agent_context :: "int \<Rightarrow> users_db \<Rightarrow> (string \<times> string) option" where
  "get_agent_context i db = dget (agent_context db) i"

definition set_agent_context :: "int \<Rightarrow> string \<Rightarrow> string \<Rightarrow> users_db \<Rightarrow> users_db" where
  "set_agent_context i instructions tone db =
     db\<lparr>agent_context := dput i
          (take 10000 (strip instructions),
           if tone \<in> {''default'', ''concise'', ''detailed''} then tone else ''default'') (agent_context db)\<rparr>"

definition set_memory_worker_enabled :: "int \<Rightarrow> int \<Rightarrow> bool \<Rightarrow> users_db \<Rightarrow> users_db" where
  "set_memory_worker_enabled now i enabled db =
     db\<lparr>workers := dput i
          (case dget (workers db) i of
             None \<Rightarrow> \<lparr>mw_enabled = enabled, mw_last_run = None, mw_status = None, mw_error = None, mw_updated = now\<rparr>
           | Some w \<Rightarrow> w\<lparr>mw_enabled := enabled, mw_updated := now\<rparr>) (workers db)\<rparr>"

definition get_memory_worker_state :: "int \<Rightarrow> users_db \<Rightarrow> worker_state option" where
  "get_memory_worker_state i db = dget (workers db) i"

definition list_memory_worker_enabled_users :: "users_db \<Rightarrow> int list" where
  "list_memory_worker_enabled_users db = map fst (filter (\<lambda>(i, w). mw_enabled w) (workers db))"

definition update_memory_worker_run ::
    "int \<Rightarrow> int \<Rightarrow> string \<Rightarrow> string option \<Rightarrow> bool \<Rightarrow> users_db \<Rightarrow> users_db" where
  "update_memory_worker_run now i status error advance db =
     (let err = (case error of None \<Rightarrow> None | Some e \<Rightarrow> if e = [] then None else Some (take 2000 e))
      in db\<lparr>workers := dput i
           (case dget (workers db) i of
              None \<Rightarrow> \<lparr>mw_enabled = False, mw_last_run = (if advance then Some now else None),
                       mw_status = Some status, mw_error = err, mw_updated = now\<rparr>
            | Some w \<Rightarrow> w\<lparr>mw_last_run := (if advance then Some now else mw_last_run w),
                         mw_status := Some status, mw_error := err, mw_updated := now\<rparr>) (workers db)\<rparr>)"

section \<open>The merge of two users: its transactions on the accounts\<close>

text \<open>\<open>a or b\<close> for two values of a text column.\<close>

definition or_text :: "string option \<Rightarrow> string option \<Rightarrow> string option" where
  "or_text a b = (if a \<noteq> None \<and> a \<noteq> Some [] then a else b)"

text \<open>The first transaction of \<open>merge_web_user\<close>: the sessions and the credentials move to the target.\<close>

definition merge_credentials :: "int \<Rightarrow> int \<Rightarrow> users_db \<Rightarrow> user_error + users_db" where
  "merge_credentials source target db =
     (if source = target then Inl SameUser
      else case find_user (\<lambda>r. u_id r = source) db of
        None \<Rightarrow> Inl SourceNotFound
      | Some s \<Rightarrow>
          (case find_user (\<lambda>r. u_id r = target) db of
             None \<Rightarrow> Inl TargetNotFound
           | Some t \<Rightarrow>
               if u_username s \<notin> {None, Some []} \<and> u_username t \<notin> {None, Some []} \<and> u_username s \<noteq> u_username t
               then Inl DifferentUsernames
               else
                 let name = or_text (u_username t) (u_username s);
                     hash = or_text (u_hash t) (u_hash s);
                     admin = (u_admin t \<or> u_admin s);
                     db1 = db\<lparr>web_sessions := map (\<lambda>w. if ws_user w = source then w\<lparr>ws_user := target\<rparr> else w)
                                (web_sessions db)\<rparr>;
                     db2 = map_users (\<lambda>r. u_id r = source) (\<lambda>r. r\<lparr>u_username := None, u_hash := None\<rparr>) db1
                 in Inr (map_users (\<lambda>r. u_id r = target)
                      (\<lambda>r. r\<lparr>u_username := name, u_admin := admin, u_hash := hash\<rparr>) db2)))"

text \<open>The last one, after the files and the memory have moved.\<close>

definition merge_disable :: "int \<Rightarrow> users_db \<Rightarrow> users_db" where
  "merge_disable source db =
     map_users (\<lambda>r. u_id r = source) (\<lambda>r. r\<lparr>u_username := None, u_disabled := True, u_hash := None\<rparr>) db"

section \<open>Steps\<close>

inductive users_step ::
    "kdf \<Rightarrow> password_policy \<Rightarrow> (string \<Rightarrow> string) \<Rightarrow> users_db \<Rightarrow> users_db \<Rightarrow> bool" for kdf policy token_hash where
  step_create: "create_user kdf policy salt now n db = Inr (db', u) \<Longrightarrow> users_step kdf policy token_hash db db'"
| step_create_web: "create_web_user kdf policy salt now name pw dep dn adm tg db = Inr (db', u) \<Longrightarrow>
    users_step kdf policy token_hash db db'"
| step_link_web: "link_web_login kdf policy salt i name pw adm db = Inr (db', u) \<Longrightarrow>
    users_step kdf policy token_hash db db'"
| step_link_telegram: "link_telegram_user i tg db = Inr (db', u) \<Longrightarrow> users_step kdf policy token_hash db db'"
| step_password: "set_web_password kdf policy salt name pw db = Inr (db', b) \<Longrightarrow>
    users_step kdf policy token_hash db db'"
| step_merge: "merge_credentials i j db = Inr db' \<Longrightarrow> users_step kdf policy token_hash db db'"
| step_disable: "users_step kdf policy token_hash db (merge_disable i db)"
| step_name: "users_step kdf policy token_hash db (update_name i name db)"
| step_session: "create_web_session token_hash raw csrf now ttl i db = Inr (db', q) \<Longrightarrow>
    users_step kdf policy token_hash db db'"
| step_resolve: "users_step kdf policy token_hash db (fst (get_user_by_session token_hash now raw db))"
| step_logout: "users_step kdf policy token_hash db (delete_web_session token_hash raw db)"
| step_prune: "users_step kdf policy token_hash db (fst (prune_expired_web_sessions now db))"
| step_allow: "users_step kdf policy token_hash db (add_to_whitelist t dep db)"
| step_disallow: "users_step kdf policy token_hash db (fst (remove_from_whitelist t db))"
| step_revoke: "users_step kdf policy token_hash db (revoke_session t db)"
| step_unrevoke: "users_step kdf policy token_hash db (unrevoke_session t db)"
| step_import: "migrate_legacy_auth wl rv db = Inr db' \<Longrightarrow> users_step kdf policy token_hash db db'"
| step_context: "users_step kdf policy token_hash db (set_agent_context i instr tone db)"
| step_opt: "users_step kdf policy token_hash db (set_memory_worker_enabled now i enabled db)"
| step_run: "users_step kdf policy token_hash db (update_memory_worker_run now i st err adv db)"

section \<open>Names and hashes\<close>

lemma to_lower_idem: "to_lower (to_lower c) = to_lower c"
proof (cases "to_lower c = c")
  case False
  then have c: "(65 \<le> cp c \<and> cp c \<le> 90) \<or> (192 \<le> cp c \<and> cp c \<le> 222 \<and> cp c \<noteq> 215)"
    "to_lower c = char_of (cp c + 32)"
    by (auto simp: to_lower_def Let_def split: if_splits)
  then have "cp (to_lower c) = cp c + 32"
    by (auto simp: of_char_of take_bit_eq_mod)
  with c(1) show ?thesis by (auto simp: to_lower_def Let_def)
qed simp

lemma normalize_props:
  assumes "normalize_username raw = Inr n"
  shows "n \<noteq> []" "length n \<le> 64" "\<forall>c\<in>set n. is_word c \<or> c \<in> {CHR ''_'', CHR ''-'', CHR ''.''}" "lower n = n"
  using assms
  by (auto simp: normalize_username_def Let_def lower_def to_lower_idem list_all_iff split: if_splits)

lemma username_char_no_space: "is_word c \<or> c \<in> {CHR ''_'', CHR ''-'', CHR ''.''} \<Longrightarrow> \<not> is_space c"
proof -
  have "cp c < 256" by simp
  then show "is_word c \<or> c \<in> {CHR ''_'', CHR ''-'', CHR ''.''} \<Longrightarrow> \<not> is_space c"
    by (auto simp: is_word_def is_space_def is_space_cp_def Let_def simp del: nat_of_char_less_256)
qed

text \<open>A stored name is its own normal form: a lookup by the name finds it.\<close>

lemma normalize_idem: "normalize_username raw = Inr n \<Longrightarrow> strip n = n \<and> normalize_username n = Inr n"
proof -
  assume a: "normalize_username raw = Inr n"
  note p = normalize_props [OF a]
  have "strip n = n"
    unfolding strip_def by (rule strip_by_id) (use p(3) username_char_no_space in blast)
  then show ?thesis
    using p by (auto simp: normalize_username_def Let_def list_all_iff)
qed

lemma split_max_prefix: "c \<notin> set a \<Longrightarrow> split_max c (Suc n) (a @ c # b) = a # split_max c n b"
  by (simp add: takeWhile_append dropWhile_append)

lemma iterations_text: "nat_str PASSWORD_ITERATIONS = ''200000''"
  by (simp add: PASSWORD_ITERATIONS_def nat_str.simps digit_char_def char_of_eq_iff)

lemma iterations_int: "py_int ''200000'' = Some 200000"
  by (simp add: py_int_def strip_def strip_by_def is_space_def is_space_cp_def is_digit_def Let_def)

text \<open>A password is accepted against the hash of another exactly when the two have the same digest.\<close>

lemma verify_hash:
  assumes "is_ascii salt" "CHR ''$'' \<notin> set salt" "is_ascii (kdf pw salt PASSWORD_ITERATIONS)"
  shows "verify_password kdf pw' (hash_password kdf salt pw) \<longleftrightarrow>
    kdf pw' salt PASSWORD_ITERATIONS = kdf pw salt PASSWORD_ITERATIONS"
proof -
  have e: "hash_password kdf salt pw =
      ''pbkdf2_sha256'' @ CHR ''$'' # (''200000'' @ CHR ''$'' # (salt @ CHR ''$'' # kdf pw salt PASSWORD_ITERATIONS))"
    by (simp add: hash_password_def iterations_text)
  have "split_max (CHR ''$'') (Suc (Suc (Suc 0))) (hash_password kdf salt pw) =
      [''pbkdf2_sha256'', ''200000'', salt, kdf pw salt PASSWORD_ITERATIONS]"
    unfolding e using assms(2) by (subst split_max_prefix, simp)+ simp
  then have "split_max (CHR ''$'') 3 (hash_password kdf salt pw) =
      [''pbkdf2_sha256'', ''200000'', salt, kdf pw salt PASSWORD_ITERATIONS]"
    by (simp add: eval_nat_numeral)
  with assms show ?thesis
    by (auto simp: verify_password_def iterations_int PASSWORD_ITERATIONS_def)
qed

section \<open>The invariant of the tables\<close>

text \<open>A unique column: rows with the same value are one row.\<close>

definition unique_col :: "(user_row \<Rightarrow> 'b option) \<Rightarrow> user_row list \<Rightarrow> bool" where
  "unique_col g rs \<longleftrightarrow> (\<forall>r\<in>set rs. \<forall>q\<in>set rs. g r \<noteq> None \<and> g r = g q \<longrightarrow> u_id r = u_id q)"

definition names_ok :: "user_row list \<Rightarrow> bool" where
  "names_ok rs \<longleftrightarrow> (\<forall>r\<in>set rs. \<forall>n. u_username r = Some n \<longrightarrow> normalize_username n = Inr n)"

definition accounts_ok :: "user_row list \<Rightarrow> int \<Rightarrow> bool" where
  "accounts_ok rs nxt \<longleftrightarrow>
     distinct (map u_id rs) \<and> (\<forall>r\<in>set rs. u_id r < nxt) \<and>
     unique_col u_telegram rs \<and> unique_col u_username rs \<and> names_ok rs"

definition sessions_ok :: "web_session list \<Rightarrow> user_row list \<Rightarrow> bool" where
  "sessions_ok ws rs \<longleftrightarrow> distinct (map ws_token ws) \<and> ws_user ` set ws \<subseteq> u_id ` set rs"

definition users_ok :: "users_db \<Rightarrow> bool" where
  "users_ok db \<longleftrightarrow> accounts_ok (users db) (next_user db) \<and> sessions_ok (web_sessions db) (users db)"

lemma same_user:
  assumes "accounts_ok rs nxt" "r \<in> set rs" "q \<in> set rs" "u_id r = u_id q"
  shows "r = q"
  using assms by (auto simp: accounts_ok_def distinct_map inj_on_def)

lemma find_unique:
  assumes "r \<in> set rs" "p r" "\<And>q. q \<in> set rs \<Longrightarrow> p q \<Longrightarrow> q = r"
  shows "find p rs = Some r"
  using assms
proof (induction rs)
  case (Cons a rs)
  show ?case
  proof (cases "p a")
    case True
    with Cons.prems(3) [of a] show ?thesis by simp
  next
    case False
    have "find p rs = Some r"
    proof (rule Cons.IH)
      show "r \<in> set rs" using False Cons.prems(1,2) by auto
      show "p r" by (rule Cons.prems(2))
      show "q = r" if "q \<in> set rs" "p q" for q using Cons.prems(3) [of q] that by simp
    qed
    with False show ?thesis by simp
  qed
qed simp

lemma find_snoc: "find p rs = None \<Longrightarrow> find p (rs @ [r]) = (if p r then Some r else None)"
  by (induction rs) (auto split: if_splits)

lemma find_some: "find p rs = Some r \<Longrightarrow> r \<in> set rs \<and> p r"
  by (induction rs) (auto split: if_splits)

lemma find_none: "find p rs = None \<Longrightarrow> r \<in> set rs \<Longrightarrow> \<not> p r"
  by (induction rs) (auto split: if_splits)

lemma find_by_id:
  assumes "accounts_ok (users db) nxt" "r \<in> set (users db)"
  shows "find_user (\<lambda>q. u_id q = u_id r) db = Some r"
  unfolding find_user_def using assms by (intro find_unique) (auto intro: same_user)

lemma unique_col_snoc:
  assumes "unique_col g rs" "g row = None \<or> (\<forall>r\<in>set rs. g r \<noteq> g row)"
  shows "unique_col g (rs @ [row])"
  unfolding unique_col_def
proof (intro ballI impI, elim conjE)
  fix r q
  assume r: "r \<in> set (rs @ [row])" "q \<in> set (rs @ [row])" "g r \<noteq> None" "g r = g q"
  show "u_id r = u_id q"
  proof (cases "r = row \<or> q = row")
    case True
    with r assms(2) have "r = row \<and> q = row" by auto
    then show ?thesis by simp
  next
    case False
    with r have "r \<in> set rs" "q \<in> set rs" by auto
    with assms(1) r(3,4) show ?thesis unfolding unique_col_def by blast
  qed
qed

lemma accounts_insert:
  assumes ok: "accounts_ok (users db) (next_user db)" and ins: "insert_user row db = Inr db'"
    and name: "\<forall>n. u_username row = Some n \<longrightarrow> normalize_username n = Inr n"
  shows "accounts_ok (users db') (next_user db') \<and> web_sessions db' = web_sessions db \<and>
    users db' = users db @ [row\<lparr>u_id := next_user db\<rparr>]"
proof -
  define row' where "row' = row\<lparr>u_id := next_user db\<rparr>"
  have new: "db' = db\<lparr>users := users db @ [row'], next_user := next_user db + 1\<rparr>"
    and free: "u_telegram row' = None \<or> (\<forall>r\<in>set (users db). u_telegram r \<noteq> u_telegram row')"
      "u_username row' = None \<or> (\<forall>r\<in>set (users db). u_username r \<noteq> u_username row')"
    using ins by (auto simp: insert_user_def row'_def split: if_splits)
  have lt: "\<forall>r\<in>set (users db). u_id r < next_user db"
    using ok by (simp add: accounts_ok_def)
  then have "next_user db \<notin> u_id ` set (users db)" by auto
  moreover have "\<forall>r\<in>set (users db). u_id r < next_user db + 1" using lt by auto
  moreover have "unique_col u_telegram (users db @ [row'])" "unique_col u_username (users db @ [row'])"
    using ok free by (auto simp: accounts_ok_def intro: unique_col_snoc)
  moreover have "names_ok (users db @ [row'])"
    using ok name by (auto simp: accounts_ok_def names_ok_def row'_def)
  ultimately have "accounts_ok (users db @ [row']) (next_user db + 1)"
    using ok by (simp add: accounts_ok_def row'_def)
  then show ?thesis by (simp add: new row'_def)
qed

text \<open>An update that keeps the ids, the unique columns and the form of the names.\<close>

lemma users_map:
  assumes ok: "users_ok db" and id: "\<And>r. u_id (f r) = u_id r"
    and tg: "unique_col u_telegram (map f (users db))" and un: "unique_col u_username (map f (users db))"
    and nm: "names_ok (map f (users db))"
  shows "users_ok (db\<lparr>users := map f (users db)\<rparr>)"
proof -
  have ids: "map u_id (map f (users db)) = map u_id (users db)"
    by (simp add: id)
  have image: "u_id ` f ` set (users db) = u_id ` set (users db)"
    by (simp add: image_image id)
  have "distinct (map u_id (map f (users db)))" "\<forall>r\<in>set (map f (users db)). u_id r < next_user db"
    using ok ids by (auto simp: users_ok_def accounts_ok_def id simp del: map_map)
  then show ?thesis
    using ok tg un nm image
    by (simp add: users_ok_def accounts_ok_def sessions_ok_def del: map_map)
qed

text \<open>Changing a unique column of one row: to nothing, or to a value no other row has.\<close>

lemma unique_col_map:
  assumes "\<And>r. u_id (f r) = u_id r"
    and "\<And>r q. r \<in> set rs \<Longrightarrow> q \<in> set rs \<Longrightarrow> g (f r) \<noteq> None \<Longrightarrow> g (f r) = g (f q) \<Longrightarrow> u_id r = u_id q"
  shows "unique_col g (map f rs)"
  unfolding unique_col_def set_map
proof (intro ballI impI, elim conjE imageE)
  fix x y r q
  assume a: "x = f r" "y = f q" "r \<in> set rs" "q \<in> set rs" "g x \<noteq> None" "g x = g y"
  then have "u_id r = u_id q" using assms(2) [of r q] by blast
  with a show "u_id x = u_id y" by (simp add: assms(1))
qed

lemma unique_colD: "unique_col g rs \<Longrightarrow> r \<in> set rs \<Longrightarrow> q \<in> set rs \<Longrightarrow> g r \<noteq> None \<Longrightarrow> g r = g q \<Longrightarrow> u_id r = u_id q"
  unfolding unique_col_def by blast

lemma unique_col_keep:
  assumes "unique_col g rs" "\<And>r. u_id (f r) = u_id r" "\<And>r. g (f r) = g r"
  shows "unique_col g (map f rs)"
  using assms(2)
proof (rule unique_col_map)
  fix r q
  assume rq: "r \<in> set rs" "q \<in> set rs" "g (f r) \<noteq> None" "g (f r) = g (f q)"
  then have "g r \<noteq> None" "g r = g q" by (simp_all add: assms(3))
  then show "u_id r = u_id q" by (rule unique_colD [OF assms(1) rq(1,2)])
qed

lemma unique_col_set:
  assumes u: "unique_col g rs" and id: "\<And>r. u_id (f r) = u_id r"
    and other: "\<And>r. u_id r \<noteq> i \<Longrightarrow> g (f r) = g r" and own: "\<And>r. u_id r = i \<Longrightarrow> g (f r) = v"
    and free: "\<And>r. r \<in> set rs \<Longrightarrow> u_id r \<noteq> i \<Longrightarrow> v = None \<or> g r \<noteq> v"
  shows "unique_col g (map f rs)"
  using id
proof (rule unique_col_map)
  fix r q
  assume rq: "r \<in> set rs" "q \<in> set rs" "g (f r) \<noteq> None" "g (f r) = g (f q)"
  show "u_id r = u_id q"
  proof (cases "u_id r = i \<or> u_id q = i")
    case True
    have clash: False if "x \<in> set rs" "u_id x \<noteq> i" "g (f x) = v" "v \<noteq> None" for x
      using free [OF that(1,2)] other [OF that(2)] that(3,4) by simp
    show ?thesis
    proof (rule ccontr)
      assume ne: "u_id r \<noteq> u_id q"
      from True consider "u_id r = i" "u_id q \<noteq> i" | "u_id q = i" "u_id r \<noteq> i"
        using ne by metis
      then show False
      proof cases
        case 1
        from own [OF 1(1)] rq(3,4) have "g (f q) = v" "v \<noteq> None" by simp_all
        with clash [OF rq(2) 1(2)] show False by blast
      next
        case 2
        from own [OF 2(1)] rq(3,4) have "g (f r) = v" "v \<noteq> None" by simp_all
        with clash [OF rq(1) 2(2)] show False by blast
      qed
    qed
  next
    case False
    with other [of r] other [of q] rq(3,4) have "g r \<noteq> None" "g r = g q" by simp_all
    then show ?thesis by (rule unique_colD [OF u rq(1,2)])
  qed
qed

lemma names_set:
  assumes "names_ok rs" "\<forall>r\<in>set rs. u_username (f r) = u_username r \<or> u_username (f r) = None \<or>
    (\<exists>n. u_username (f r) = Some n \<and> normalize_username n = Inr n)"
  shows "names_ok (map f rs)"
  using assms unfolding names_ok_def by fastforce

lemma users_okD:
  assumes "users_ok db"
  shows "accounts_ok (users db) (next_user db)" "unique_col u_telegram (users db)" "unique_col u_username (users db)"
    "names_ok (users db)" "sessions_ok (web_sessions db) (users db)"
  using assms by (simp_all add: users_ok_def accounts_ok_def)

lemma users_ok_sessions:
  assumes "users_ok db" "sessions_ok ws (users db)"
  shows "users_ok (db\<lparr>web_sessions := ws\<rparr>)"
  using assms by (simp add: users_ok_def)

lemma sessions_ok_filter: "sessions_ok ws rs \<Longrightarrow> sessions_ok (filter p ws) rs"
  by (auto simp: sessions_ok_def distinct_map_filter)

text \<open>Updates that change neither of the unique columns.\<close>

lemma users_map_plain:
  assumes ok: "users_ok db" and f: "\<And>r. u_id (f r) = u_id r" "\<And>r. u_telegram (f r) = u_telegram r"
    "\<And>r. u_username (f r) = u_username r"
  shows "users_ok (map_users p f db)"
  unfolding map_users_def
proof (rule users_map [OF ok])
  let ?F = "\<lambda>r. if p r then f r else r"
  show "unique_col u_telegram (map ?F (users db))" "unique_col u_username (map ?F (users db))"
    by (rule unique_col_keep; use users_okD [OF ok] f in simp)+
  show "names_ok (map ?F (users db))"
    by (rule names_set) (use users_okD [OF ok] f in auto)
qed (simp add: f)

lemma users_map_name:
  assumes ok: "users_ok db" and f: "\<And>r. u_id (f r) = u_id r" "\<And>r. u_telegram (f r) = u_telegram r"
      "\<And>r. u_username (f r) = v"
    and v: "v = None \<or> (\<exists>n. v = Some n \<and> normalize_username n = Inr n)"
      "\<And>r. r \<in> set (users db) \<Longrightarrow> u_id r \<noteq> i \<Longrightarrow> v = None \<or> u_username r \<noteq> v"
  shows "users_ok (map_users (\<lambda>r. u_id r = i) f db)"
  unfolding map_users_def
proof (rule users_map [OF ok])
  let ?F = "\<lambda>r. if u_id r = i then f r else r"
  show "unique_col u_telegram (map ?F (users db))"
    by (rule unique_col_keep) (use users_okD [OF ok] f in simp_all)
  show "unique_col u_username (map ?F (users db))"
    by (rule unique_col_set [where i = i and v = v]) (use users_okD [OF ok] f v(2) in simp_all)
  show "names_ok (map ?F (users db))"
    by (rule names_set) (use users_okD [OF ok] f v(1) in auto)
qed (simp add: f)

lemma link_telegram_ok:
  assumes ok: "users_ok db" and op: "link_telegram_user i t db = Inr (db', u)"
  shows "users_ok db'"
proof -
  have db': "db' = map_users (\<lambda>r. u_id r = i) (\<lambda>r. r\<lparr>u_telegram := Some t\<rparr>) db"
    and free: "find_user (\<lambda>r. u_telegram r = Some t \<and> u_id r \<noteq> i) db = None"
    using op by (auto simp: link_telegram_user_def Let_def split: if_splits option.splits)
  let ?F = "\<lambda>r. if u_id r = i then r\<lparr>u_telegram := Some t\<rparr> else r"
  show ?thesis
    unfolding db' map_users_def
  proof (rule users_map [OF ok])
    show "unique_col u_telegram (map ?F (users db))"
      by (rule unique_col_set [where i = i and v = "Some t"])
        (use users_okD [OF ok] find_none [OF free [unfolded find_user_def]] in auto)
    show "unique_col u_username (map ?F (users db))"
      by (rule unique_col_keep) (use users_okD [OF ok] in simp_all)
    show "names_ok (map ?F (users db))"
      by (rule names_set) (use users_okD [OF ok] in auto)
  qed simp
qed

lemma link_web_login_cases:
  assumes "link_web_login kdf policy salt i name pw adm db = Inr (db', u)"
  obtains clean where "normalize_username name = Inr clean" "validate_password policy pw = None"
    "db' = map_users (\<lambda>r. u_id r = i) (update_login clean (hash_password kdf salt pw) adm) db"
    "find_user (\<lambda>r. u_username r = Some clean \<and> u_id r \<noteq> i) db = None" "get_by_id i db' = Some u"
  using assms by (auto simp: link_web_login_def Let_def split: if_splits option.splits sum.splits)

lemma link_web_login_ok:
  assumes ok: "users_ok db" and op: "link_web_login kdf policy salt i name pw adm db = Inr (db', u)"
  shows "users_ok db'"
proof -
  obtain clean where c: "normalize_username name = Inr clean"
    "db' = map_users (\<lambda>r. u_id r = i) (update_login clean (hash_password kdf salt pw) adm) db"
    "find_user (\<lambda>r. u_username r = Some clean \<and> u_id r \<noteq> i) db = None"
    using op by (rule link_web_login_cases)
  show ?thesis
    unfolding c(2)
    by (rule users_map_name [OF ok, where v = "Some clean"])
      (use normalize_idem [OF c(1)] find_none [OF c(3) [unfolded find_user_def]] in \<open>auto simp: update_login_def\<close>)
qed

lemma insert_user_ok:
  assumes ok: "users_ok db" and ins: "insert_user row db = Inr db'"
    and name: "\<forall>n. u_username row = Some n \<longrightarrow> normalize_username n = Inr n"
  shows "users_ok db'"
  using accounts_insert [OF users_okD(1) [OF ok] ins name] users_okD(5) [OF ok]
  by (auto simp: users_ok_def sessions_ok_def)

lemma create_user_ok:
  assumes ok: "users_ok db" and op: "create_user kdf policy salt now n db = Inr (db', u)"
  shows "users_ok db'"
proof -
  have *: "(\<forall>c. clean = Some c \<longrightarrow> normalize_username c = Inr c) \<longrightarrow> users_ok d"
    if "insert_user \<lparr>u_id = 0, u_name = x, u_department = dep, u_telegram = tg, u_username = clean, u_admin = adm,
         u_disabled = dis, u_created = cr, u_hash = h\<rparr> db = Inr d" for x dep tg clean adm dis cr h d
    using insert_user_ok [OF ok that] by simp
  show ?thesis
    using op ok normalize_idem
    by (auto simp: create_user_def Let_def dest!: * split: option.splits sum.splits if_splits)
qed

lemma create_web_user_ok:
  assumes ok: "users_ok db"
    and op: "create_web_user kdf policy salt now name pw dep dn adm tg db = Inr (db', u)"
  shows "users_ok db'"
proof (cases tg)
  case None
  then obtain clean where c: "normalize_username name = Inr clean"
      "insert_user \<lparr>u_id = 0, u_name = (if dn \<noteq> [] then dn else clean), u_department = dep, u_telegram = None,
         u_username = Some clean, u_admin = adm, u_disabled = False, u_created = now,
         u_hash = Some (hash_password kdf salt pw)\<rparr> db = Inr db'"
    using op by (auto simp: create_web_user_def Let_def split: option.splits sum.splits)
  show ?thesis
    by (rule insert_user_ok [OF ok c(2)]) (use normalize_idem [OF c(1)] in simp)
next
  case (Some t)
  with op show ?thesis
    by (auto simp: create_web_user_def link_web_user_def split: option.splits intro: link_web_login_ok [OF ok])
qed

lemma set_web_password_cases:
  assumes "set_web_password kdf policy salt name pw db = Inr (db', b)"
  obtains "db' = db" "\<not> b"
  | clean row where "normalize_username name = Inr clean" "validate_password policy pw = None" b
      "find_user (\<lambda>r. u_username r = Some clean) db = Some row"
      "db' = (map_users (\<lambda>r. u_username r = Some clean) (\<lambda>r. r\<lparr>u_hash := Some (hash_password kdf salt pw)\<rparr>) db)
         \<lparr>web_sessions := filter (\<lambda>w. ws_user w \<noteq> u_id row) (web_sessions db)\<rparr>"
proof -
  note res = assms [unfolded set_web_password_def Let_def]
  obtain clean where c: "normalize_username name = Inr clean"
    using res by (cases "normalize_username name") simp_all
  have v: "validate_password policy pw = None"
    using res c by (cases "validate_password policy pw") simp_all
  show thesis
  proof (cases "find_user (\<lambda>r. u_username r = Some clean) db")
    case None
    with res c v that(1) show ?thesis by simp
  next
    case (Some row)
    show ?thesis
      by (rule that(2) [OF c v _ Some]) (use res c v Some in \<open>simp_all add: map_users_def\<close>)
  qed
qed

lemma set_web_password_ok:
  assumes ok: "users_ok db" and op: "set_web_password kdf policy salt name pw db = Inr (db', b)"
  shows "users_ok db'"
  using op
proof (cases rule: set_web_password_cases)
  case 1
  with ok show ?thesis by simp
next
  case (2 clean row)
  define db1 where "db1 = map_users (\<lambda>r. u_username r = Some clean) (\<lambda>r. r\<lparr>u_hash := Some (hash_password kdf salt pw)\<rparr>) db"
  have db1: "users_ok db1" "web_sessions db1 = web_sessions db"
    unfolding db1_def by (rule users_map_plain [OF ok]; simp) (simp add: map_users_def)
  show ?thesis
    unfolding 2(5) db1_def [symmetric]
    by (rule users_ok_sessions [OF db1(1)])
      (use users_okD(5) [OF db1(1)] in \<open>simp add: db1(2) sessions_ok_filter\<close>)
qed

lemma merge_credentials_cases:
  assumes "merge_credentials i j db = Inr db'"
  obtains s t where "i \<noteq> j" "find_user (\<lambda>r. u_id r = i) db = Some s" "find_user (\<lambda>r. u_id r = j) db = Some t"
    "db' = map_users (\<lambda>r. u_id r = j)
       (\<lambda>r. r\<lparr>u_username := or_text (u_username t) (u_username s), u_admin := u_admin t \<or> u_admin s,
             u_hash := or_text (u_hash t) (u_hash s)\<rparr>)
       (map_users (\<lambda>r. u_id r = i) (\<lambda>r. r\<lparr>u_username := None, u_hash := None\<rparr>)
         (db\<lparr>web_sessions := map (\<lambda>w. if ws_user w = i then w\<lparr>ws_user := j\<rparr> else w) (web_sessions db)\<rparr>))"
  using assms by (auto simp: merge_credentials_def Let_def split: if_splits option.splits)

lemma merge_credentials_ok:
  assumes ok: "users_ok db" and op: "merge_credentials i j db = Inr db'"
  shows "users_ok db'"
proof -
  obtain s t where m: "i \<noteq> j" "find_user (\<lambda>r. u_id r = i) db = Some s" "find_user (\<lambda>r. u_id r = j) db = Some t"
    "db' = map_users (\<lambda>r. u_id r = j)
       (\<lambda>r. r\<lparr>u_username := or_text (u_username t) (u_username s), u_admin := u_admin t \<or> u_admin s,
             u_hash := or_text (u_hash t) (u_hash s)\<rparr>)
       (map_users (\<lambda>r. u_id r = i) (\<lambda>r. r\<lparr>u_username := None, u_hash := None\<rparr>)
         (db\<lparr>web_sessions := map (\<lambda>w. if ws_user w = i then w\<lparr>ws_user := j\<rparr> else w) (web_sessions db)\<rparr>))"
    using op by (rule merge_credentials_cases)
  define db1 where
    "db1 = db\<lparr>web_sessions := map (\<lambda>w. if ws_user w = i then w\<lparr>ws_user := j\<rparr> else w) (web_sessions db)\<rparr>"
  define db2 where "db2 = map_users (\<lambda>r. u_id r = i) (\<lambda>r. r\<lparr>u_username := None, u_hash := None\<rparr>) db1"
  have st: "s \<in> set (users db)" "u_id s = i" "t \<in> set (users db)" "u_id t = j"
    using find_some [OF m(2) [unfolded find_user_def]] find_some [OF m(3) [unfolded find_user_def]] by simp_all
  have "map ws_token (map (\<lambda>w. if ws_user w = i then w\<lparr>ws_user := j\<rparr> else w) (web_sessions db)) =
      map ws_token (web_sessions db)"
    by simp
  then have ok1: "users_ok db1"
    unfolding db1_def using users_okD(5) [OF ok] st(3,4)
    by (intro users_ok_sessions [OF ok]) (auto simp: sessions_ok_def simp del: map_map)
  have ok2: "users_ok db2"
    unfolding db2_def by (rule users_map_name [OF ok1, where v = None]) simp_all
  have users2: "users db2 = map (\<lambda>r. if u_id r = i then r\<lparr>u_username := None, u_hash := None\<rparr> else r) (users db)"
    by (simp add: db2_def map_users_def db1_def)
  have same: "r = q" if "r \<in> set (users db)" "q \<in> set (users db)" "u_username r \<noteq> None" "u_username r = u_username q" for r q
    using unique_colD [OF users_okD(3) [OF ok] that] same_user [OF users_okD(1) [OF ok] that(1,2)] by simp
  define v where "v = or_text (u_username t) (u_username s)"
  have "v = None \<or> v = u_username t \<or> v = u_username s"
    by (simp add: v_def or_text_def)
  then have named: "v = None \<or> (\<exists>n. v = Some n \<and> normalize_username n = Inr n)"
    using users_okD(4) [OF ok] st(1,3) unfolding names_ok_def by (cases v) (metis option.distinct(1))+
  have free: "v = None \<or> u_username r \<noteq> v" if r: "r \<in> set (users db2)" "u_id r \<noteq> j" for r
  proof (rule ccontr)
    assume a: "\<not> ?thesis"
    then have v: "v \<noteq> None" "u_username r = v" by simp_all
    from r(1) obtain q where q: "q \<in> set (users db)" "r = (if u_id q = i then q\<lparr>u_username := None, u_hash := None\<rparr> else q)"
      unfolding users2 by auto
    with v have "u_id q \<noteq> i" "u_username q = v" by (auto split: if_splits)
    moreover have "u_id q \<noteq> j" using q(2) r(2) \<open>u_id q \<noteq> i\<close> by simp
    ultimately have "q \<noteq> s" "q \<noteq> t" using st by auto
    then show False
      using same [OF q(1) st(1)] same [OF q(1) st(3)] \<open>u_username q = v\<close> v(1) \<open>v = None \<or> v = u_username t \<or> v = u_username s\<close>
      by metis
  qed
  show ?thesis
    unfolding m(4) db1_def [symmetric] db2_def [symmetric] v_def [symmetric]
    by (rule users_map_name [OF ok2 _ _ _ named]) (use free in simp_all)
qed

text \<open>The operations on the other tables, and those that only remove sessions.\<close>

definition same_accounts :: "users_db \<Rightarrow> users_db \<Rightarrow> bool" where
  "same_accounts db db' \<longleftrightarrow> users db' = users db \<and> next_user db' = next_user db"

lemma fold_keeps:
  assumes "\<And>x db. g (f x db) = g db"
  shows "g (fold f xs db) = g db"
  by (induction xs arbitrary: db) (simp_all add: assms)

lemma whitelist_keeps:
  "same_accounts db (add_to_whitelist t d db)" "web_sessions (add_to_whitelist t d db) = web_sessions db"
  "same_accounts db (revoke_session t db)" "web_sessions (revoke_session t db) = web_sessions db"
  by (simp_all add: same_accounts_def add_to_whitelist_def revoke_session_def)

lemma migrate_keeps:
  assumes "migrate_legacy_auth wl rv db = Inr db'"
  shows "same_accounts db db' \<and> web_sessions db' = web_sessions db"
proof -
  have a: "users (fold (\<lambda>(t, d). add_to_whitelist t d) xs db) = users db \<and>
      next_user (fold (\<lambda>(t, d). add_to_whitelist t d) xs db) = next_user db \<and>
      web_sessions (fold (\<lambda>(t, d). add_to_whitelist t d) xs db) = web_sessions db" for xs db
    using whitelist_keeps(1,2) by (intro conjI fold_keeps) (auto simp: same_accounts_def)
  have r: "users (fold revoke_session xs db) = users db \<and> next_user (fold revoke_session xs db) = next_user db \<and>
      web_sessions (fold revoke_session xs db) = web_sessions db" for xs db
    using whitelist_keeps(3,4) by (intro conjI fold_keeps) (auto simp: same_accounts_def)
  show ?thesis
    using assms by (auto simp: migrate_legacy_auth_def same_accounts_def a r split: if_splits sum.splits)
qed

text \<open>What a step can do to the accounts and the sessions: the general form that the properties use.\<close>

definition only_drops_sessions :: "users_db \<Rightarrow> users_db \<Rightarrow> bool" where
  "only_drops_sessions db db' \<longleftrightarrow>
     same_accounts db db' \<and> (\<exists>p. web_sessions db' = filter p (web_sessions db))"

lemma only_drops_sessionsI: "same_accounts db db' \<Longrightarrow> web_sessions db' = web_sessions db \<Longrightarrow> only_drops_sessions db db'"
  unfolding only_drops_sessions_def by (intro conjI exI [of _ "\<lambda>_. True"]) simp_all

lemma only_drops_ok: "users_ok db \<Longrightarrow> only_drops_sessions db db' \<Longrightarrow> users_ok db'"
  by (auto simp: users_ok_def only_drops_sessions_def same_accounts_def sessions_ok_filter)

lemma delete_session_drops: "only_drops_sessions db (delete_web_session token_hash raw db)"
  by (auto simp: only_drops_sessions_def same_accounts_def delete_web_session_def)

lemma resolve_drops: "only_drops_sessions db (fst (get_user_by_session token_hash now raw db))"
  using delete_session_drops only_drops_sessionsI [of db db]
  by (auto simp: get_user_by_session_def same_accounts_def split: option.splits)

lemma prune_drops: "only_drops_sessions db (fst (prune_expired_web_sessions now db))"
  by (auto simp: only_drops_sessions_def same_accounts_def prune_expired_web_sessions_def)

lemmas drops_plain =
  only_drops_sessionsI [OF whitelist_keeps(1,2)] only_drops_sessionsI [OF whitelist_keeps(3,4)]

lemma drops_tables:
  "only_drops_sessions db (fst (remove_from_whitelist t db))" "only_drops_sessions db (unrevoke_session t db)"
  "only_drops_sessions db (set_agent_context i instr tone db)"
  "only_drops_sessions db (set_memory_worker_enabled now i enabled db)"
  "only_drops_sessions db (update_memory_worker_run now i st err adv db)"
  by (rule only_drops_sessionsI;
      simp add: same_accounts_def remove_from_whitelist_def unrevoke_session_def set_agent_context_def
        set_memory_worker_enabled_def update_memory_worker_run_def Let_def)+

lemmas drops = resolve_drops delete_session_drops prune_drops drops_plain drops_tables

lemma create_session_ok:
  assumes "users_ok db" "create_web_session token_hash raw csrf now ttl i db = Inr (db', q)"
  shows "users_ok db'"
proof -
  have "db' = db\<lparr>web_sessions := web_sessions db @
      [\<lparr>ws_token = token_hash raw, ws_user = i, ws_csrf = csrf, ws_expires = now + 3600 * ttl\<rparr>]\<rparr>"
    "\<forall>w\<in>set (web_sessions db). ws_token w \<noteq> token_hash raw" "i \<in> u_id ` set (users db)"
    using assms(2) by (auto simp: create_web_session_def split: if_splits)
  then show ?thesis
    using assms(1) by (auto simp: users_ok_def sessions_ok_def)
qed

lemma users_ok_step [inv_intros]:
  assumes "users_ok db" "users_step kdf policy token_hash db db'"
  shows "users_ok db'"
  using assms(2,1)
proof (induction rule: users_step.induct)
  case (step_create salt now n db db' u)
  then show ?case by (rule create_user_ok [rotated])
next
  case (step_create_web salt now name pw dep dn adm tg db db' u)
  then show ?case by (rule create_web_user_ok [rotated])
next
  case (step_link_web salt i name pw adm db db' u)
  then show ?case by (rule link_web_login_ok [rotated])
next
  case (step_link_telegram i tg db db' u)
  then show ?case by (rule link_telegram_ok [rotated])
next
  case (step_password salt name pw db db' b)
  then show ?case by (rule set_web_password_ok [rotated])
next
  case (step_merge i j db db')
  then show ?case by (rule merge_credentials_ok [rotated])
next
  case (step_disable db i)
  then show ?case
    unfolding merge_disable_def by (rule users_map_name [where v = None]) simp_all
next
  case (step_name db i name)
  then show ?case unfolding update_name_def by (rule users_map_plain) simp_all
next
  case (step_session raw csrf now ttl i db db' q)
  then show ?case by (rule create_session_ok [rotated])
next
  case (step_import wl rv db db')
  then show ?case
    using migrate_keeps [OF step_import(1)] by (auto intro: only_drops_ok [OF _ only_drops_sessionsI])
qed (rule only_drops_ok, assumption, rule drops)+

interpretation accounts: invariant_system "\<lambda>db. db = users_empty" "users_step kdf policy token_hash" users_ok
  for kdf :: kdf and policy :: password_policy and token_hash :: "string \<Rightarrow> string"
proof unfold_locales
  show "db = users_empty \<Longrightarrow> users_ok db" for db
    by (simp add: users_empty_def users_ok_def accounts_ok_def sessions_ok_def unique_col_def names_ok_def)
qed (rule users_ok_step)

section \<open>Correctness of accounts and sessions\<close>

lemma resolve_some:
  assumes "snd (get_user_by_session token_hash now raw db) = Some (u, csrf)"
  obtains w r where "find (\<lambda>w. ws_token w = token_hash raw) (web_sessions db) = Some w"
    "find_user (\<lambda>r. u_id r = ws_user w) db = Some r" "u = row_to_user r" "csrf = ws_csrf w"
    "now < ws_expires w" "\<not> u_disabled r"
proof -
  obtain w where w: "find (\<lambda>w. ws_token w = token_hash raw) (web_sessions db) = Some w"
    using assms by (cases "find (\<lambda>w. ws_token w = token_hash raw) (web_sessions db)")
      (simp_all add: get_user_by_session_def)
  obtain r where r: "find_user (\<lambda>r. u_id r = ws_user w) db = Some r"
    using assms w by (cases "find_user (\<lambda>r. u_id r = ws_user w) db") (simp_all add: get_user_by_session_def)
  show thesis
    using assms by (intro that [OF w r]) (simp_all add: get_user_by_session_def w r split: if_splits)
qed

text \<open>C23: In every reachable state of the database no two users share an id, a Telegram id or a web login, every
  stored login is in normal form, so that the login form finds it, no two sessions share a token, and every session
  belongs to a user: over creations, links, password changes, merges, disabling and all other operations.\<close>

theorem accounts_consistent:
  assumes "reach (\<lambda>db. db = users_empty) (users_step kdf policy token_hash) db"
  shows "distinct (map u_id (users db)) \<and>
    (\<forall>r\<in>set (users db). \<forall>q\<in>set (users db).
       (u_telegram r \<noteq> None \<and> u_telegram r = u_telegram q) \<or> (u_username r \<noteq> None \<and> u_username r = u_username q) \<longrightarrow> r = q) \<and>
    (\<forall>r\<in>set (users db). \<forall>n. u_username r = Some n \<longrightarrow> get_by_username n db = Some (row_to_user r)) \<and>
    distinct (map ws_token (web_sessions db)) \<and>
    (\<forall>w\<in>set (web_sessions db). \<exists>r\<in>set (users db). get_by_id (ws_user w) db = Some (row_to_user r))"
proof -
  have ok: "users_ok db" by (rule accounts.reach_inv [OF assms])
  note ids = same_user [OF users_okD(1) [OF ok]]
  have same: "r = q" if "r \<in> set (users db)" "q \<in> set (users db)" "u_username r \<noteq> None" "u_username r = u_username q" for r q
    by (rule ids [OF that(1,2) unique_colD [OF users_okD(3) [OF ok] that]])
  have same': "r = q" if "r \<in> set (users db)" "q \<in> set (users db)" "u_telegram r \<noteq> None" "u_telegram r = u_telegram q" for r q
    by (rule ids [OF that(1,2) unique_colD [OF users_okD(2) [OF ok] that]])
  have login: "get_by_username n db = Some (row_to_user r)" if r: "r \<in> set (users db)" "u_username r = Some n" for r n
  proof -
    have "normalize_username n = Inr n"
      using users_okD(4) [OF ok] r by (auto simp: names_ok_def)
    then have n: "lower (strip n) = n"
      using normalize_idem normalize_props(4) by metis
    have "find_user (\<lambda>q. u_username q = Some n) db = Some r"
      unfolding find_user_def
    proof (rule find_unique [OF r(1)])
      fix q
      assume q: "q \<in> set (users db)" "u_username q = Some n"
      show "q = r" by (rule same [OF q(1) r(1)]) (simp_all add: q(2) r(2))
    qed (rule r(2))
    then show ?thesis by (simp add: get_by_username_def n)
  qed
  have owner: "\<exists>r\<in>set (users db). get_by_id (ws_user w) db = Some (row_to_user r)" if "w \<in> set (web_sessions db)" for w
  proof -
    have "ws_user w \<in> u_id ` set (users db)"
      using users_okD(5) [OF ok] that by (auto simp: sessions_ok_def)
    then obtain r where r: "r \<in> set (users db)" "ws_user w = u_id r" by auto
    then show ?thesis
      using find_by_id [OF users_okD(1) [OF ok] r(1)] by (auto simp: get_by_id_def)
  qed
  have keys: "distinct (map u_id (users db))" "distinct (map ws_token (web_sessions db))"
    using users_okD(1,5) [OF ok] by (simp_all add: accounts_ok_def sessions_ok_def)
  have unique: "\<forall>r\<in>set (users db). \<forall>q\<in>set (users db).
       (u_telegram r \<noteq> None \<and> u_telegram r = u_telegram q) \<or> (u_username r \<noteq> None \<and> u_username r = u_username q) \<longrightarrow> r = q"
    by (intro ballI impI, elim disjE conjE) (rule same', assumption+, rule same, assumption+)
  show ?thesis
    by (intro conjI keys unique ballI allI impI login owner)
qed

text \<open>C24: After a password change no session that was open before identifies the user any more, and the account
  is opened by the new password and, unless it has the same digest under the new salt, by no other.\<close>

theorem password_change_locks_out:
  assumes ok: "users_ok db" and op: "set_web_password kdf policy salt name pw db = Inr (db', True)"
    and kdf: "is_ascii salt" "CHR ''$'' \<notin> set salt" "is_ascii (kdf pw salt PASSWORD_ITERATIONS)"
  shows "\<exists>r. r \<in> set (users db') \<and>
    (\<forall>now raw u csrf. snd (get_user_by_session token_hash now raw db') = Some (u, csrf) \<longrightarrow> u_id u \<noteq> u_id r) \<and>
    (\<forall>pw'. authenticate_web_user kdf name pw' db' =
       (if \<not> u_disabled r \<and> kdf pw' salt PASSWORD_ITERATIONS = kdf pw salt PASSWORD_ITERATIONS
        then Some (row_to_user r) else None))"
  using op
proof (cases rule: set_web_password_cases)
  case (2 clean row)
  define f where "f = (\<lambda>r :: user_row. r\<lparr>u_hash := Some (hash_password kdf salt pw)\<rparr>)"
  have row: "row \<in> set (users db)" "u_username row = Some clean"
    using find_some [OF 2(4) [unfolded find_user_def]] by simp_all
  have users: "users db' = map (\<lambda>r. if u_username r = Some clean then f r else r) (users db)"
    and sessions: "web_sessions db' = filter (\<lambda>w. ws_user w \<noteq> u_id row) (web_sessions db)"
    by (simp_all add: 2(5) map_users_def f_def)
  have mem: "f row \<in> set (users db')"
    using row by (auto simp: users)
  have ok': "users_ok db'"
    by (rule set_web_password_ok [OF ok op])
  have gone: "u_id u \<noteq> u_id (f row)" if found: "snd (get_user_by_session token_hash now raw db') = Some (u, csrf)" for now raw u csrf
  proof -
    obtain w r where w: "find (\<lambda>w. ws_token w = token_hash raw) (web_sessions db') = Some w"
        "find_user (\<lambda>r. u_id r = ws_user w) db' = Some r" "u = row_to_user r"
      using found by (rule resolve_some)
    have "ws_user w \<noteq> u_id row" using find_some [OF w(1)] by (simp add: sessions)
    moreover have "u_id r = ws_user w" using find_some [OF w(2) [unfolded find_user_def]] by simp
    ultimately show ?thesis by (simp add: w(3) row_to_user_def user.truncate_def f_def)
  qed
  have "lower (strip name) = clean"
    using 2(1) by (auto simp: normalize_username_def Let_def split: if_splits)
  moreover have "find_user (\<lambda>r. u_username r = Some clean) db' = Some (f row)"
    unfolding find_user_def
  proof (rule find_unique [OF mem])
    fix q
    assume q: "q \<in> set (users db')" "u_username q = Some clean"
    have "u_username (f row) = u_username q" using q(2) row(2) by (simp add: f_def)
    then have "u_id (f row) = u_id q"
      by (intro unique_colD [OF users_okD(3) [OF ok'] mem q(1)]) (simp_all add: q(2))
    then show "q = f row" using same_user [OF users_okD(1) [OF ok'] mem q(1)] by simp
  qed (simp add: f_def row)
  moreover have "hash_password kdf salt pw \<noteq> []"
    by (simp add: hash_password_def)
  ultimately have "authenticate_web_user kdf name pw' db' =
       (if \<not> u_disabled (f row) \<and> kdf pw' salt PASSWORD_ITERATIONS = kdf pw salt PASSWORD_ITERATIONS
        then Some (row_to_user (f row)) else None)" for pw'
    using verify_hash [where kdf = kdf and pw = pw and pw' = pw', OF kdf]
    by (auto simp: authenticate_web_user_def f_def split: if_splits)
  with mem gone show ?thesis by blast
qed simp

text \<open>A session identifies its user exactly until it expires, for every later clock, unless the user is
  disabled; logging out ends it at once.\<close>

theorem session_lives_until_expiry:
  assumes ok: "users_ok db" and op: "create_web_session token_hash raw csrf now ttl i db = Inr (db', q)"
  shows "\<exists>r\<in>set (users db). u_id r = i \<and>
    (\<forall>t. snd (get_user_by_session token_hash t raw db') =
       (if t < now + 3600 * ttl \<and> \<not> u_disabled r then Some (row_to_user r, csrf) else None)) \<and>
    (\<forall>t. snd (get_user_by_session token_hash t raw (delete_web_session token_hash raw db')) = None)"
proof -
  define w where "w = \<lparr>ws_token = token_hash raw, ws_user = i, ws_csrf = csrf, ws_expires = now + 3600 * ttl\<rparr>"
  have db': "db' = db\<lparr>web_sessions := web_sessions db @ [w]\<rparr>"
    and fresh: "\<forall>w\<in>set (web_sessions db). ws_token w \<noteq> token_hash raw" and "i \<in> u_id ` set (users db)"
    using op by (auto simp: create_web_session_def w_def split: if_splits)
  then obtain r where r: "r \<in> set (users db)" "u_id r = i" by auto
  have "find (\<lambda>w. ws_token w = token_hash raw) (web_sessions db) = None"
    using fresh by (simp add: find_None_iff)
  then have "find (\<lambda>w. ws_token w = token_hash raw) (web_sessions db') = Some w"
    by (simp add: db' find_snoc w_def)
  moreover have "find_user (\<lambda>q. u_id q = ws_user w) db' = Some r"
    using find_by_id [OF users_okD(1) [OF ok] r(1)] r(2) by (simp add: w_def db' find_user_def)
  ultimately have "snd (get_user_by_session token_hash t raw db') =
       (if t < now + 3600 * ttl \<and> \<not> u_disabled r then Some (row_to_user r, csrf) else None)" for t
    by (auto simp: get_user_by_session_def w_def)
  moreover have "snd (get_user_by_session token_hash t raw (delete_web_session token_hash raw db')) = None" for t
  proof -
    have "find (\<lambda>w. ws_token w = token_hash raw) (web_sessions (delete_web_session token_hash raw db')) = None"
      by (auto simp: find_None_iff delete_web_session_def)
    then show ?thesis by (simp add: get_user_by_session_def)
  qed
  ultimately show ?thesis using r by blast
qed

subsection \<open>Disabled users\<close>

definition disabled_in :: "int \<Rightarrow> users_db \<Rightarrow> bool" where
  "disabled_in i db \<longleftrightarrow> (\<exists>r\<in>set (users db). u_id r = i \<and> u_disabled r)"

lemma disabled_map:
  assumes "disabled_in i db" "users db' = map f (users db)" "\<And>r. u_id (f r) = u_id r" "\<And>r. u_disabled r \<Longrightarrow> u_disabled (f r)"
  shows "disabled_in i db'"
  using assms by (fastforce simp: disabled_in_def)

lemma disabled_map_users:
  assumes "disabled_in i db" "\<And>r. u_id (f r) = u_id r" "\<And>r. u_disabled r \<Longrightarrow> u_disabled (f r)"
  shows "disabled_in i (map_users p f db)"
  by (rule disabled_map [OF assms(1), of _ "\<lambda>r. if p r then f r else r"]) (simp_all add: map_users_def assms(2,3))

lemma disabled_insert: "disabled_in i db \<Longrightarrow> insert_user row db = Inr db' \<Longrightarrow> disabled_in i db'"
  by (auto simp: disabled_in_def insert_user_def split: if_splits)

lemma disabled_sessions: "disabled_in i db \<Longrightarrow> disabled_in i (db\<lparr>web_sessions := ws\<rparr>)"
  by (simp add: disabled_in_def)

lemma disabled_link: "disabled_in i db \<Longrightarrow> link_web_login kdf policy salt j name pw adm db = Inr (db', u) \<Longrightarrow> disabled_in i db'"
  by (erule link_web_login_cases) (simp add: disabled_map_users update_login_def)

lemma disabled_drops: "only_drops_sessions db db' \<Longrightarrow> disabled_in i db \<Longrightarrow> disabled_in i db'"
  by (simp add: disabled_in_def only_drops_sessions_def same_accounts_def)

lemma disabled_step:
  assumes "users_step kdf policy token_hash db db'" "disabled_in i db"
  shows "disabled_in i db'"
  using assms
proof (induction rule: users_step.induct)
  case (step_create salt now n db db' u)
  then show ?case
    using disabled_insert [OF step_create(2)]
    by (auto simp: create_user_def Let_def split: option.splits sum.splits if_splits)
next
  case (step_create_web salt now name pw dep dn adm tg db db' u)
  then show ?case
    using disabled_insert [OF step_create_web(2)] disabled_link [OF step_create_web(2)]
    by (auto simp: create_web_user_def link_web_user_def Let_def split: option.splits sum.splits)
next
  case (step_link_web salt j name pw adm db db' u)
  then show ?case by (blast intro: disabled_link)
next
  case (step_link_telegram j tg db db' u)
  then show ?case
    by (auto simp: link_telegram_user_def Let_def split: if_splits option.splits intro!: disabled_map_users)
next
  case (step_password salt name pw db db' b)
  show ?case
    using step_password(1)
    by (cases rule: set_web_password_cases) (simp_all add: step_password(2) disabled_sessions disabled_map_users)
next
  case (step_merge j k db db')
  from step_merge(1) show ?case
    by (rule merge_credentials_cases) (simp add: step_merge(2) disabled_sessions disabled_map_users)
next
  case (step_disable db j)
  then show ?case unfolding merge_disable_def by (rule disabled_map_users) simp_all
next
  case (step_name db j name)
  then show ?case unfolding update_name_def by (rule disabled_map_users) simp_all
next
  case (step_session raw csrf now ttl j db db' q)
  then show ?case by (auto simp: create_web_session_def disabled_in_def split: if_splits)
next
  case (step_import wl rv db db')
  then show ?case
    using migrate_keeps [OF step_import(1)] by (simp add: disabled_in_def same_accounts_def)
qed (rule drops [THEN disabled_drops], assumption)+

text \<open>C25: Disabling is final: whatever operations follow (new passwords, links, merges, new sessions), neither a
  login nor a session ever opens a disabled account again.\<close>

theorem disabled_is_final:
  assumes ok: "users_ok db" and off: "r \<in> set (users db)" "u_disabled r"
    and later: "(users_step kdf policy token_hash)\<^sup>*\<^sup>* db db'"
    and opened: "authenticate_web_user kdf name pw db' = Some u \<or>
      snd (get_user_by_session token_hash now raw db') = Some (u, csrf)"
  shows "u_id u \<noteq> u_id r"
proof -
  have "disabled_in (u_id r) db" using off by (auto simp: disabled_in_def)
  with later have "users_ok db' \<and> disabled_in (u_id r) db'"
    using ok by (induction rule: rtranclp_induct) (auto intro: users_ok_step disabled_step)
  then have acc: "accounts_ok (users db') (next_user db')" and dis: "disabled_in (u_id r) db'"
    by (simp_all add: users_okD)
  then obtain d where d: "d \<in> set (users db')" "u_id d = u_id r" "u_disabled d"
    by (auto simp: disabled_in_def)
  have active: "\<exists>q. q \<in> set (users db') \<and> \<not> u_disabled q \<and> u_id u = u_id q"
    using opened
  proof
    assume a: "authenticate_web_user kdf name pw db' = Some u"
    obtain q where q: "find_user (\<lambda>r. u_username r = Some (lower (strip name))) db' = Some q"
      using a by (cases "find_user (\<lambda>r. u_username r = Some (lower (strip name))) db'")
        (simp_all add: authenticate_web_user_def)
    have "\<not> u_disabled q" "u = row_to_user q"
      using a q by (simp_all add: authenticate_web_user_def split: if_splits option.splits)
    moreover have "q \<in> set (users db')" using find_some [OF q [unfolded find_user_def]] by simp
    ultimately show ?thesis by (auto simp: row_to_user_def user.truncate_def)
  next
    assume "snd (get_user_by_session token_hash now raw db') = Some (u, csrf)"
    then obtain w :: web_session and q where q: "find_user (\<lambda>r. u_id r = ws_user w) db' = Some q" "u = row_to_user q" "\<not> u_disabled q"
      by (rule resolve_some)
    moreover have "q \<in> set (users db')" using find_some [OF q(1) [unfolded find_user_def]] by simp
    ultimately show ?thesis by (auto simp: row_to_user_def user.truncate_def)
  qed
  show ?thesis
  proof
    assume "u_id u = u_id r"
    with active d obtain q where "q \<in> set (users db')" "\<not> u_disabled q" "u_id q = u_id d" by auto
    with same_user [OF acc _ d(1)] d(3) show False by blast
  qed
qed

text \<open>A login name is taken in all its spellings: creating a web user whose name differs from an existing one
  only in case or in outer blanks is refused, with the error of the first check it fails: the password policy, or the
  unique column.\<close>

theorem name_variants_collide:
  assumes ok: "users_ok db" and taken: "get_by_username name db = Some u"
    and variant: "lower (strip name') = lower (strip name)"
  shows "create_web_user kdf policy salt now name' pw dep dn adm None db =
    Inl (case validate_password policy pw of None \<Rightarrow> IntegrityViolation | Some e \<Rightarrow> e)"
proof -
  define n where "n = lower (strip name)"
  obtain r where f: "find_user (\<lambda>r. u_username r = Some n) db = Some r"
    using taken by (auto simp: get_by_username_def n_def)
  have r: "r \<in> set (users db)" "u_username r = Some n"
    using find_some [OF f [unfolded find_user_def]] by simp_all
  have n: "normalize_username n = Inr n"
    using users_okD(4) [OF ok] r by (auto simp: names_ok_def)
  have "lower (strip n) = n"
    using normalize_idem [OF n] normalize_props(4) [OF n] by simp
  then have norm: "normalize_username name' = Inr n"
    using n variant by (simp add: normalize_username_def n_def Let_def)
  have "insert_user row db = Inl IntegrityViolation" if "u_username row = Some n" for row
    using r that by (auto simp: insert_user_def)
  then show ?thesis
    by (cases "validate_password policy pw") (simp_all add: create_web_user_def norm Let_def)
qed

text \<open>\<open>link_web_login\<close> also replaces the password of a user who has one, but keeps the sessions.\<close>

lemma link_login_keeps_sessions:
  assumes "link_web_login kdf policy salt i name pw adm db = Inr (db', u)"
  shows "web_sessions db' = web_sessions db"
  using assms by (rule link_web_login_cases) (simp add: map_users_def)

text \<open>Recording a run never opts a user in or out.\<close>

lemma run_keeps_consent:
  "(\<exists>w. get_memory_worker_state j (update_memory_worker_run now i st err adv db) = Some w \<and> mw_enabled w) \<longleftrightarrow>
   (\<exists>w. get_memory_worker_state j db = Some w \<and> mw_enabled w)"
  by (cases "j = i"; cases "dget (workers db) i")
    (simp_all add: get_memory_worker_state_def update_memory_worker_run_def Let_def dget_dput)

section \<open>Witnesses\<close>

definition sample_row :: user_row where
  "sample_row = \<lparr>u_id = 1, u_name = ''Ann'', u_department = ''default'', u_telegram = Some 5, u_username = Some ''ann'',
     u_admin = False, u_disabled = False, u_created = 0, u_hash = Some ''x''\<rparr>"

definition sample_db :: users_db where
  "sample_db = users_empty\<lparr>users := [sample_row], next_user := 2\<rparr>"

definition sample_kdf :: kdf where
  "sample_kdf pw salt n = replicate (length pw) (CHR ''a'')"

definition sample_policy :: password_policy where
  "sample_policy = policy_init 12 256"

definition sample_pw :: string where
  "sample_pw = replicate 12 (CHR ''p'')"

lemma sample_name: "normalize_username ''ann'' = Inr ''ann''"
  by (simp add: normalize_username_def strip_def strip_by_def lower_def to_lower_def is_space_def is_space_cp_def
      is_word_def Let_def)

lemma sample_ok: "users_ok sample_db"
  by (simp add: users_ok_def accounts_ok_def sessions_ok_def unique_col_def names_ok_def sample_db_def users_empty_def
      sample_row_def sample_name)

lemma sample_lower: "lower (strip ''ann'') = ''ann''"
  by (simp add: strip_def strip_by_def lower_def to_lower_def is_space_def is_space_cp_def Let_def)

definition sample_created :: users_db where
  "sample_created = users_empty\<lparr>next_user := 2, users := [\<lparr>u_id = 1, u_name = ''Ann'', u_department = ''sales'', u_telegram = None,
     u_username = Some ''ann'', u_admin = False, u_disabled = False, u_created = 7,
     u_hash = Some (hash_password sample_kdf ''salt'' sample_pw)\<rparr>]\<rparr>"

lemma sample_create_step: "users_step sample_kdf sample_policy (\<lambda>s. s) users_empty sample_created"
proof (rule step_create_web)
  show "create_web_user sample_kdf sample_policy ''salt'' 7 ''ann'' sample_pw ''sales'' ''Ann'' False None users_empty =
      Inr (sample_created, row_to_user (hd (users sample_created)))"
    by (simp add: create_web_user_def sample_name validate_password_def sample_policy_def policy_init_def sample_pw_def
        insert_user_def users_empty_def sample_created_def row_to_user_def Let_def)
qed

theorem accounts_consistent_witness:
  "distinct (map u_id (users sample_created)) \<and>
   get_by_username ''ann'' sample_created = Some (row_to_user (hd (users sample_created)))"
proof -
  have "reach (\<lambda>db. db = users_empty) (users_step sample_kdf sample_policy (\<lambda>s. s)) sample_created"
    by (rule reach_step, rule reach_start, rule refl, rule sample_create_step)
  from accounts_consistent [OF this] show ?thesis
    by (simp add: sample_created_def)
qed

definition sample_changed :: users_db where
  "sample_changed = sample_db\<lparr>users := [sample_row\<lparr>u_hash := Some (hash_password sample_kdf ''salt'' sample_pw)\<rparr>]\<rparr>"

lemma sample_password:
  "set_web_password sample_kdf sample_policy ''salt'' ''ann'' sample_pw sample_db = Inr (sample_changed, True)"
  by (simp add: set_web_password_def sample_name validate_password_def sample_policy_def policy_init_def find_user_def
      map_users_def sample_changed_def sample_db_def users_empty_def sample_row_def sample_pw_def Let_def)

theorem password_change_locks_out_witness:
  "\<exists>r. r \<in> set (users sample_changed) \<and>
    (\<forall>now raw u csrf. snd (get_user_by_session (\<lambda>s. s) now raw sample_changed) = Some (u, csrf) \<longrightarrow> u_id u \<noteq> u_id r) \<and>
    (\<forall>pw'. authenticate_web_user sample_kdf ''ann'' pw' sample_changed =
       (if \<not> u_disabled r \<and> sample_kdf pw' ''salt'' PASSWORD_ITERATIONS = sample_kdf sample_pw ''salt'' PASSWORD_ITERATIONS
        then Some (row_to_user r) else None))"
  by (rule password_change_locks_out [OF sample_ok sample_password]) (simp_all add: is_ascii_def sample_kdf_def)

definition sample_open :: users_db where
  "sample_open =
     sample_db\<lparr>web_sessions := [\<lparr>ws_token = ''tok'', ws_user = 1, ws_csrf = ''csrf'', ws_expires = 43200\<rparr>]\<rparr>"

lemma sample_session:
  "create_web_session (\<lambda>s. s) ''tok'' ''csrf'' 0 12 1 sample_db = Inr (sample_open, ''tok'', ''csrf'')"
  by (simp add: create_web_session_def sample_open_def sample_db_def users_empty_def sample_row_def)

theorem session_lives_until_expiry_witness:
  "\<exists>r\<in>set (users sample_db). u_id r = 1 \<and>
    (\<forall>t. snd (get_user_by_session (\<lambda>s. s) t ''tok'' sample_open) =
       (if t < 0 + 3600 * 12 \<and> \<not> u_disabled r then Some (row_to_user r, ''csrf'') else None)) \<and>
    (\<forall>t. snd (get_user_by_session (\<lambda>s. s) t ''tok'' (delete_web_session (\<lambda>s. s) ''tok'' sample_open)) = None)"
  by (rule session_lives_until_expiry [OF sample_ok sample_session])

text \<open>Two users, the first disabled by a merge: the second still logs in.\<close>

definition sample_row2 :: user_row where
  "sample_row2 = sample_row\<lparr>u_id := 2, u_telegram := None, u_username := Some ''bo'',
     u_hash := Some (hash_password sample_kdf ''salt'' sample_pw)\<rparr>"

definition sample_db2 :: users_db where
  "sample_db2 = users_empty\<lparr>users := [sample_row\<lparr>u_username := None, u_disabled := True, u_hash := None\<rparr>, sample_row2],
     next_user := 3\<rparr>"

lemma sample_bo: "normalize_username ''bo'' = Inr ''bo''" "lower (strip ''bo'') = ''bo''"
  by (simp_all add: normalize_username_def strip_def strip_by_def lower_def to_lower_def is_space_def is_space_cp_def
      is_word_def Let_def)

lemma sample_ok2: "users_ok sample_db2"
  by (simp add: users_ok_def accounts_ok_def sessions_ok_def unique_col_def names_ok_def sample_db2_def users_empty_def
      sample_row_def sample_row2_def sample_bo)

theorem disabled_is_final_witness: "u_id (row_to_user sample_row2) \<noteq> u_id sample_row"
proof -
  have "verify_password sample_kdf sample_pw (hash_password sample_kdf ''salt'' sample_pw)"
    by (subst verify_hash) (simp_all add: is_ascii_def sample_kdf_def)
  then have "authenticate_web_user sample_kdf ''bo'' sample_pw sample_db2 = Some (row_to_user sample_row2)"
    by (simp add: authenticate_web_user_def sample_bo find_user_def sample_db2_def users_empty_def sample_row2_def
        sample_row_def hash_password_def)
  then have "u_id (row_to_user sample_row2) \<noteq> u_id (sample_row\<lparr>u_username := None, u_disabled := True, u_hash := None\<rparr>)"
    by (intro disabled_is_final [where db = sample_db2 and db' = sample_db2 and kdf = sample_kdf and
          policy = sample_policy and token_hash = "\<lambda>s. s" and name = "''bo''" and pw = sample_pw and now = 0 and
          raw = "[]" and csrf = "[]", OF sample_ok2])
      (simp_all add: sample_db2_def sample_row_def)
  then show ?thesis by simp
qed

theorem name_variants_collide_witness:
  "create_web_user sample_kdf sample_policy ''salt'' 0 '' ANN'' sample_pw ''it'' [] False None sample_db =
    Inl (case validate_password sample_policy sample_pw of None \<Rightarrow> IntegrityViolation | Some e \<Rightarrow> e)"
proof (rule name_variants_collide [OF sample_ok])
  show "get_by_username ''ann'' sample_db = Some (row_to_user sample_row)"
    by (simp add: get_by_username_def sample_lower find_user_def sample_db_def users_empty_def sample_row_def)
  show "lower (strip '' ANN'') = lower (strip ''ann'')"
    by (simp add: sample_lower) (simp add: strip_def strip_by_def lower_def to_lower_def is_space_def is_space_cp_def
        Let_def char_of_eq_iff)
qed

end
