(* ===== verification/MemoryStore.thy ===== *)
theory MemoryStore
  imports JsonText "HOL-Library.Char_ord" "HOL-Library.List_Lexorder" "HOL-Library.Product_Lexorder" "HOL-Library.Multiset"
begin

text \<open>
  \<open>memory/sqlite.py\<close>: the memory entries of all users, with the search index beside them.

  The two tables are lists of rows; one call is one transaction. Parameters: \<open>cf\<close>, \<open>str.casefold\<close>; \<open>dumps\<close> and
  \<open>loads\<close>, the JSON text of the cues (\<open>str_of\<close> is the text of a value that is not a string); the ranking of the search
  index. The index may fail at a statement (\<open>OperationalError\<close>); the code then goes on without it.
\<close>

section \<open>Normal forms\<close>

text \<open>\<open>re.sub("\s+", " ", s)\<close> and \<open>s.rstrip()\<close>.\<close>

fun squeeze :: "bool \<Rightarrow> string \<Rightarrow> string" where
  "squeeze b [] = []"
| "squeeze b (c # s) =
     (if is_space c then (if b then squeeze True s else CHR '' '' # squeeze True s) else c # squeeze False s)"

definition collapse_ws :: "string \<Rightarrow> string" where
  "collapse_ws s = squeeze False s"

definition rstrip :: "string \<Rightarrow> string" where
  "rstrip s = rev (dropWhile is_space (rev s))"

definition clip :: "nat \<Rightarrow> string \<Rightarrow> string" where
  "clip n s = (if length s > n then rstrip (take n s) else s)"

definition MAX_ABSTRACTION_LEN :: nat where "MAX_ABSTRACTION_LEN = 120"
definition MAX_CUES :: nat where "MAX_CUES = 16"
definition MAX_CUE_LEN :: nat where "MAX_CUE_LEN = 64"
definition MAX_VALUE_LEN :: nat where "MAX_VALUE_LEN = 8000"
definition FALLBACK_RECALL_LIMIT :: nat where "FALLBACK_RECALL_LIMIT = 500"
definition FTS_WEIGHT :: rat where "FTS_WEIGHT = 2"
definition CUE_EXACT_WEIGHT :: rat where "CUE_EXACT_WEIGHT = 1"

definition normalize_abstraction :: "string \<Rightarrow> string" where
  "normalize_abstraction s = clip MAX_ABSTRACTION_LEN (collapse_ws (strip s))"

definition normalize_value :: "string \<Rightarrow> string" where
  "normalize_value s = clip MAX_VALUE_LEN (strip s)"

fun cues_loop :: "(string \<Rightarrow> string) \<Rightarrow> string list \<Rightarrow> string list \<Rightarrow> string list" where
  "cues_loop cf [] out = out"
| "cues_loop cf (raw # rest) out =
     (let c0 = collapse_ws (strip raw) in
      if c0 = [] then cues_loop cf rest out
      else let c = clip MAX_CUE_LEN c0 in
        if cf c \<in> cf ` set out then cues_loop cf rest out
        else if length out + 1 \<ge> MAX_CUES then out @ [c]
        else cues_loop cf rest (out @ [c]))"

definition normalize_cues :: "(string \<Rightarrow> string) \<Rightarrow> string list \<Rightarrow> string list" where
  "normalize_cues cf cues = cues_loop cf cues []"

definition union_cues :: "(string \<Rightarrow> string) \<Rightarrow> string list \<Rightarrow> string list \<Rightarrow> string list" where
  "union_cues cf existing new = normalize_cues cf (existing @ new)"

definition cues_to_json :: "(json \<Rightarrow> string) \<Rightarrow> string list \<Rightarrow> string" where
  "cues_to_json dumps cues = dumps (JArr (map JStr cues))"

definition cues_from_json ::
    "(string \<Rightarrow> string) \<Rightarrow> (string \<Rightarrow> json option) \<Rightarrow> (json \<Rightarrow> string) \<Rightarrow> string \<Rightarrow> string list" where
  "cues_from_json cf loads str_of raw =
     (if raw = [] then []
      else case loads raw of Some (JArr xs) \<Rightarrow> normalize_cues cf (map (py_str str_of) xs) | _ \<Rightarrow> [])"

definition cues_fts_text :: "string list \<Rightarrow> string" where
  "cues_fts_text cues = join '' '' cues"

section \<open>The tables\<close>

record memory_entry =
  me_id :: int
  me_user :: string
  me_abstraction :: string
  me_value :: string
  me_cues :: string
  me_updated :: int

record search_row =
  sr_id :: int
  sr_user :: string
  sr_abstraction :: string
  sr_cues :: string

text \<open>\<open>mm_fts_ok\<close> is the flag of the object; \<open>mm_legacy\<close> are the names of the legacy tables that exist, \<open>mm_marker\<close> the
  row that says that they have been dropped once.\<close>

record memory_store =
  mm_entries :: "memory_entry list"
  mm_next :: int
  mm_search :: "search_row list"
  mm_fts_ok :: bool
  mm_marker :: bool
  mm_legacy :: "string list"

definition memory_empty :: memory_store where
  "memory_empty = \<lparr>mm_entries = [], mm_next = 1, mm_search = [], mm_fts_ok = True, mm_marker = True, mm_legacy = []\<rparr>"

text \<open>The codec of the cues.\<close>

record cue_codec =
  cc_fold :: "string \<Rightarrow> string"
  cc_dumps :: "json \<Rightarrow> string"
  cc_loads :: "string \<Rightarrow> json option"
  cc_str :: "json \<Rightarrow> string"

definition entry_cues :: "cue_codec \<Rightarrow> memory_entry \<Rightarrow> string list" where
  "entry_cues c e = cues_from_json (cc_fold c) (cc_loads c) (cc_str c) (me_cues e)"

definition indexed_row :: "cue_codec \<Rightarrow> memory_entry \<Rightarrow> search_row" where
  "indexed_row c e =
     \<lparr>sr_id = me_id e, sr_user = me_user e, sr_abstraction = me_abstraction e, sr_cues = cues_fts_text (entry_cues c e)\<rparr>"

datatype fts_outcome = FtsFine | FtsDeleteFails | FtsInsertFails

definition fts_upsert :: "fts_outcome \<Rightarrow> search_row \<Rightarrow> memory_store \<Rightarrow> memory_store" where
  "fts_upsert fo r m =
     (if \<not> mm_fts_ok m then m
      else case fo of
        FtsDeleteFails \<Rightarrow> m\<lparr>mm_fts_ok := False\<rparr>
      | FtsInsertFails \<Rightarrow> m\<lparr>mm_search := filter (\<lambda>x. sr_id x \<noteq> sr_id r) (mm_search m), mm_fts_ok := False\<rparr>
      | FtsFine \<Rightarrow> m\<lparr>mm_search := filter (\<lambda>x. sr_id x \<noteq> sr_id r) (mm_search m) @ [r]\<rparr>)"

definition fts_delete_user :: "bool \<Rightarrow> string \<Rightarrow> memory_store \<Rightarrow> memory_store" where
  "fts_delete_user works user m =
     (if \<not> mm_fts_ok m then m
      else if \<not> works then m\<lparr>mm_fts_ok := False\<rparr>
      else m\<lparr>mm_search := filter (\<lambda>x. sr_user x \<noteq> user) (mm_search m)\<rparr>)"

text \<open>\<open>Some n\<close>: the rebuild fails after \<open>n\<close> rows.\<close>

definition fts_rebuild :: "cue_codec \<Rightarrow> nat option \<Rightarrow> memory_store \<Rightarrow> memory_store" where
  "fts_rebuild c fails m =
     (if \<not> mm_fts_ok m then m
      else case fails of
        None \<Rightarrow> m\<lparr>mm_search := map (indexed_row c) (mm_entries m)\<rparr>
      | Some n \<Rightarrow> m\<lparr>mm_search := map (indexed_row c) (take n (mm_entries m)), mm_fts_ok := False\<rparr>)"

definition fts_heal_if_needed :: "cue_codec \<Rightarrow> nat option \<Rightarrow> memory_store \<Rightarrow> memory_store" where
  "fts_heal_if_needed c fails m =
     (if \<not> mm_fts_ok m then m
      else if length (mm_entries m) = 0 \<and> length (mm_search m) = 0 then m
      else if length (mm_entries m) \<noteq> length (mm_search m) then fts_rebuild c fails m
      else m)"

text \<open>\<open>_init_db\<close> on an existing file: the legacy tables are dropped once, then the index is checked. \<open>available\<close>: the
  SQLite library has FTS5.\<close>

definition open_memory :: "cue_codec \<Rightarrow> bool \<Rightarrow> nat option \<Rightarrow> memory_store \<Rightarrow> memory_store" where
  "open_memory c available fails m =
     (let m1 = (if mm_marker m then m
                else m\<lparr>mm_legacy := filter (\<lambda>t. t \<noteq> ''messages'' \<and> t \<noteq> ''memory_facts'') (mm_legacy m), mm_marker := True\<rparr>)
      in if \<not> available then m1\<lparr>mm_fts_ok := False\<rparr>
         else fts_heal_if_needed c fails (m1\<lparr>mm_fts_ok := True\<rparr>))"

section \<open>Writing\<close>

datatype memory_error = AbstractionRequired | ValueRequired

definition find_entry :: "string \<Rightarrow> string \<Rightarrow> memory_store \<Rightarrow> memory_entry option" where
  "find_entry user abstraction m = find (\<lambda>e. me_user e = user \<and> me_abstraction e = abstraction) (mm_entries m)"

definition store_entry ::
    "cue_codec \<Rightarrow> int \<Rightarrow> fts_outcome \<Rightarrow> string \<Rightarrow> string \<Rightarrow> string \<Rightarrow> string list \<Rightarrow> memory_store \<Rightarrow>
     memory_error + memory_store" where
  "store_entry c now fo user abstraction_raw value_raw cues m =
     (let abstraction = normalize_abstraction abstraction_raw; val = normalize_value value_raw;
          new_cues = normalize_cues (cc_fold c) cues
      in if abstraction = [] then Inl AbstractionRequired
         else if val = [] then Inl ValueRequired
         else case find_entry user abstraction m of
           Some e \<Rightarrow>
             let merged = union_cues (cc_fold c) (entry_cues c e) new_cues in
             Inr (fts_upsert fo \<lparr>sr_id = me_id e, sr_user = user, sr_abstraction = abstraction, sr_cues = cues_fts_text merged\<rparr>
               (m\<lparr>mm_entries := map (\<lambda>x. if me_id x = me_id e
                   then x\<lparr>me_value := val, me_cues := cues_to_json (cc_dumps c) merged, me_updated := now\<rparr> else x) (mm_entries m)\<rparr>))
         | None \<Rightarrow>
             Inr (fts_upsert fo \<lparr>sr_id = mm_next m, sr_user = user, sr_abstraction = abstraction,
                   sr_cues = cues_fts_text new_cues\<rparr>
               (m\<lparr>mm_entries := mm_entries m @ [\<lparr>me_id = mm_next m, me_user = user, me_abstraction = abstraction,
                    me_value = val, me_cues = cues_to_json (cc_dumps c) new_cues, me_updated = now\<rparr>],
                  mm_next := mm_next m + 1\<rparr>)))"

definition store_fact ::
    "cue_codec \<Rightarrow> int \<Rightarrow> fts_outcome \<Rightarrow> string \<Rightarrow> string \<Rightarrow> string \<Rightarrow> memory_store \<Rightarrow> memory_error + memory_store" where
  "store_fact c now fo user k v m = store_entry c now fo user k v [] m"

definition clear_facts :: "bool \<Rightarrow> string \<Rightarrow> memory_store \<Rightarrow> memory_store" where
  "clear_facts works user m =
     (let m1 = fts_delete_user works user m in m1\<lparr>mm_entries := filter (\<lambda>e. me_user e \<noteq> user) (mm_entries m1)\<rparr>)"

section \<open>Recall\<close>

record recalled =
  rc_id :: int
  rc_abstraction :: string
  rc_value :: string
  rc_cues :: "string list"
  rc_score :: rat

definition row_to_entry :: "cue_codec \<Rightarrow> rat \<Rightarrow> memory_entry \<Rightarrow> recalled" where
  "row_to_entry c score e =
     \<lparr>rc_id = me_id e, rc_abstraction = me_abstraction e, rc_value = me_value e, rc_cues = entry_cues c e, rc_score = score\<rparr>"

definition by_user :: "string \<Rightarrow> memory_store \<Rightarrow> memory_entry list" where
  "by_user user m = filter (\<lambda>e. me_user e = user) (mm_entries m)"

definition recent_entries :: "cue_codec \<Rightarrow> string \<Rightarrow> nat \<Rightarrow> memory_store \<Rightarrow> recalled list" where
  "recent_entries c user limit m = map (row_to_entry c 0) (take limit (sort_key (\<lambda>e. - me_updated e) (by_user user m)))"

text \<open>\<open>LIKE\<close> folds the case of the ASCII letters; the query is escaped, so it is searched literally.\<close>

definition ascii_lower :: "char \<Rightarrow> char" where
  "ascii_lower ch = (if 65 \<le> cp ch \<and> cp ch \<le> 90 then char_of (cp ch + 32) else ch)"

definition sql_like :: "string \<Rightarrow> string \<Rightarrow> bool" where
  "sql_like q s = contains (map ascii_lower s) (map ascii_lower q)"

definition ranked :: "recalled list \<Rightarrow> recalled list" where
  "ranked rs = sort_key (\<lambda>r. (- rc_score r, rc_abstraction r)) rs"

definition like_score :: "cue_codec \<Rightarrow> string \<Rightarrow> memory_entry \<Rightarrow> rat" where
  "like_score c q e =
     (let cf = cc_fold c; qf = cf q; cues = entry_cues c e in
      (if contains (cf (me_abstraction e)) qf then FTS_WEIGHT else 0)
      + (if contains (cf (me_value e)) qf then 1/2 else 0)
      + (if \<exists>x\<in>set cues. cf x = qf then CUE_EXACT_WEIGHT
         else if \<exists>x\<in>set cues. contains (cf x) qf then CUE_EXACT_WEIGHT * (1/2) else 0))"

definition recall_like :: "cue_codec \<Rightarrow> string \<Rightarrow> string \<Rightarrow> nat \<Rightarrow> memory_store \<Rightarrow> recalled list" where
  "recall_like c user q limit m =
     (let rows = take (max (limit * 3) 30) (sort_key (\<lambda>e. - me_updated e)
                   (filter (\<lambda>e. sql_like q (me_abstraction e) \<or> sql_like q (me_value e) \<or> sql_like q (me_cues e)) (by_user user m)))
      in take limit (ranked (map (\<lambda>e. row_to_entry c (like_score c q e) e) rows)))"

text \<open>What the search index answers for a list of words: the rank of a row, if it matches. \<open>fa_fails\<close>: the query raises;
  \<open>fa_scan\<close>: the second query works.\<close>

record fts_answers =
  fa_rank :: "string list \<Rightarrow> search_row \<Rightarrow> rat option"
  fa_fails :: bool
  fa_scan :: bool

text \<open>\<open>s.split()\<close>.\<close>

fun split_words :: "string \<Rightarrow> string \<Rightarrow> string list" where
  "split_words w [] = (if w = [] then [] else [w])"
| "split_words w (c # s) =
     (if is_space c then (if w = [] then split_words [] s else w # split_words [] s) else split_words (w @ [c]) s)"

definition query_words :: "string \<Rightarrow> string list" where
  "query_words q = split_words [] (map (\<lambda>c. if c = CHR 0x22 then CHR '' '' else c) q)"

definition fts_hits :: "fts_answers \<Rightarrow> string \<Rightarrow> string list \<Rightarrow> nat \<Rightarrow> memory_store \<Rightarrow> (rat \<times> memory_entry) list" where
  "fts_hits fa user ws limit m =
     take (max (limit * 3) 30) (sort_key fst
       (concat (map (\<lambda>r. case fa_rank fa ws r of
            None \<Rightarrow> []
          | Some q \<Rightarrow> map (\<lambda>e. (q, e)) (filter (\<lambda>e. me_id e = sr_id r) (mm_entries m)))
        (filter (\<lambda>r. sr_user r = user) (mm_search m)))))"

definition exact_cue :: "cue_codec \<Rightarrow> string \<Rightarrow> memory_entry \<Rightarrow> bool" where
  "exact_cue c q e \<longleftrightarrow> (\<exists>x\<in>set (entry_cues c e). cc_fold c x = cc_fold c q)"

definition fts_score :: "cue_codec \<Rightarrow> string \<Rightarrow> rat \<Rightarrow> memory_entry \<Rightarrow> rat" where
  "fts_score c q rank e = max 0 (10 - rank) * (FTS_WEIGHT / 2) + (if exact_cue c q e then CUE_EXACT_WEIGHT else 0)"

definition add_exact :: "cue_codec \<Rightarrow> string \<Rightarrow> memory_entry \<Rightarrow> (int, recalled) pydict \<Rightarrow> (int, recalled) pydict" where
  "add_exact c q e d =
     (if exact_cue c q e \<and> me_id e \<notin> set (dkeys d) then dput (me_id e) (row_to_entry c CUE_EXACT_WEIGHT e) d else d)"

definition recall_fts :: "cue_codec \<Rightarrow> fts_answers \<Rightarrow> string \<Rightarrow> string \<Rightarrow> nat \<Rightarrow> memory_store \<Rightarrow> recalled list option" where
  "recall_fts c fa user q limit m =
     (let ws = query_words q in
      if \<not> mm_fts_ok m \<or> ws = [] \<or> fa_fails fa then None
      else
        let scored = map (\<lambda>(rank, e). row_to_entry c (fts_score c q rank e) e) (fts_hits fa user ws limit m);
            by_id = fold (\<lambda>r d. dput (rc_id r) r d) scored [];
            rows = (if fa_scan fa then take FALLBACK_RECALL_LIMIT (by_user user m) else [])
        in Some (take limit (ranked (map snd (fold (add_exact c q) rows by_id)))))"

definition recall_entries ::
    "cue_codec \<Rightarrow> fts_answers \<Rightarrow> string \<Rightarrow> string option \<Rightarrow> int \<Rightarrow> memory_store \<Rightarrow> recalled list" where
  "recall_entries c fa user query limit m =
     (let safe_limit = nat (max 1 (min 100 limit));
          q = (case query of None \<Rightarrow> [] | Some s \<Rightarrow> strip s)
      in if q = [] then recent_entries c user safe_limit m
         else case recall_fts c fa user q safe_limit m of
           Some hits \<Rightarrow> if hits \<noteq> [] then hits else recall_like c user q safe_limit m
         | None \<Rightarrow> recall_like c user q safe_limit m)"

definition recall_facts ::
    "cue_codec \<Rightarrow> fts_answers \<Rightarrow> string \<Rightarrow> string option \<Rightarrow> int \<Rightarrow> memory_store \<Rightarrow> (string \<times> string) list" where
  "recall_facts c fa user query limit m =
     map (\<lambda>r. (rc_abstraction r, rc_value r)) (recall_entries c fa user query limit m)"

section \<open>The normal forms are stable\<close>

lemma rstrip_prefix: "\<exists>n. rstrip s = take n s"
proof -
  obtain k where k: "dropWhile is_space (rev s) = drop k (rev s)"
    by (metis dropWhile_eq_drop)
  then have "rstrip s = take (length s - k) s"
    by (simp add: rstrip_def rev_drop)
  then show ?thesis ..
qed

lemma clip_prefix: "\<exists>n. clip k s = take n s"
proof (cases "length s > k")
  case True
  obtain n where "rstrip (take k s) = take n (take k s)" using rstrip_prefix by blast
  then show ?thesis using True by (auto simp: clip_def min_def)
next
  case False
  then show ?thesis by (intro exI [of _ "length s"]) (simp add: clip_def)
qed

lemma clip_length: "length (clip k s) \<le> k"
proof -
  obtain n where "rstrip (take k s) = take n (take k s)" using rstrip_prefix by blast
  then show ?thesis by (simp add: clip_def)
qed

lemma squeeze_length: "length (squeeze b s) \<le> length s"
  by (induction b s rule: squeeze.induct) auto

lemma squeeze_idem: "squeeze b (squeeze b s) = squeeze b s"
proof (induction b s rule: squeeze.induct)
  case (2 b c s)
  have "is_space (CHR '' '')" by (simp add: is_space_def is_space_cp_def)
  with 2 show ?case by auto
qed simp

lemma squeeze_take: "squeeze b s = s \<Longrightarrow> squeeze b (take n s) = take n s"
proof (induction b s arbitrary: n rule: squeeze.induct)
  case (2 b c s)
  have "squeeze True s \<noteq> c # s" for c using squeeze_length [of True s] by (metis Suc_n_not_le_n length_Cons)
  then show ?case
    using 2 by (cases n) (auto split: if_splits)
qed simp

text \<open>No blank at the edges.\<close>

definition edge_free :: "string \<Rightarrow> bool" where
  "edge_free s \<longleftrightarrow> (s \<noteq> [] \<longrightarrow> \<not> is_space (hd s) \<and> \<not> is_space (List.last s))"

lemma strip_edge_free: "edge_free (strip s)"
proof (cases "strip s = []")
  case False
  let ?t = "dropWhile is_space s"
  have r: "strip s = rev (dropWhile is_space (rev ?t))" by (simp add: strip_def strip_by_def)
  have "\<not> is_space (List.last (strip s))"
    unfolding r last_rev by (rule hd_dropWhile) (use False r in auto)
  moreover have "hd (strip s) = hd ?t"
  proof -
    obtain n where n: "rstrip ?t = take n ?t" using rstrip_prefix by blast
    then show ?thesis using False by (cases n) (auto simp: r rstrip_def hd_conv_nth)
  qed
  moreover have "\<not> is_space (hd ?t)"
    by (rule hd_dropWhile) (use False r in \<open>auto simp del: dropWhile_eq_Nil_conv\<close>)
  ultimately show ?thesis by (simp add: edge_free_def)
qed (simp add: edge_free_def)

lemma edge_free_strip: "edge_free s \<Longrightarrow> strip s = s"
proof (cases "s = []")
  case False
  assume "edge_free s"
  then have "dropWhile is_space s = s" "dropWhile is_space (rev s) = rev s"
    using False by (simp_all add: edge_free_def dropWhile_eq_self_iff hd_rev)
  then show ?thesis by (simp add: strip_def strip_by_def)
qed (simp add: strip_def strip_by_def)

lemma squeeze_hd: "s \<noteq> [] \<Longrightarrow> \<not> is_space (hd s) \<Longrightarrow> squeeze b s \<noteq> [] \<and> hd (squeeze b s) = hd s"
  by (cases s) auto

lemma squeeze_last: "s \<noteq> [] \<Longrightarrow> \<not> is_space (List.last s) \<Longrightarrow> squeeze b s \<noteq> [] \<and> List.last (squeeze b s) = List.last s"
  by (induction b s rule: squeeze.induct) (auto split: if_splits)

lemma collapse_edge_free: "edge_free s \<Longrightarrow> edge_free (collapse_ws s)"
  using squeeze_hd [of s False] squeeze_last [of s False] by (cases "s = []") (auto simp: edge_free_def collapse_ws_def)

lemma clip_edge_free:
  assumes "edge_free s"
  shows "edge_free (clip k s)"
proof (cases "length s > k \<and> clip k s \<noteq> []")
  case True
  obtain n where n: "clip k s = take n s" using clip_prefix by blast
  have "hd (clip k s) = hd s" using n True by (cases n) auto
  moreover have "\<not> is_space (List.last (clip k s))"
  proof -
    have "clip k s = rev (dropWhile is_space (rev (take k s)))" using True by (simp add: clip_def rstrip_def)
    moreover have "dropWhile is_space (rev (take k s)) \<noteq> []" using calculation True by (metis rev_is_Nil_conv)
    ultimately show ?thesis by (metis hd_dropWhile last_rev)
  qed
  ultimately show ?thesis using assms True by (auto simp: edge_free_def)
qed (use assms in \<open>auto simp: clip_def edge_free_def\<close>)

lemma clip_nonempty: "edge_free s \<Longrightarrow> s \<noteq> [] \<Longrightarrow> 0 < k \<Longrightarrow> clip k s \<noteq> []"
proof -
  assume "edge_free s" "s \<noteq> []" "0 < k"
  then have "\<exists>c\<in>set (take k s). \<not> is_space c"
    by (cases s; cases k) (auto simp: edge_free_def)
  then show "clip k s \<noteq> []"
    using \<open>s \<noteq> []\<close> by (auto simp: clip_def rstrip_def)
qed

text \<open>A text in normal form of at most \<open>k\<close> characters.\<close>

definition normal_text :: "nat \<Rightarrow> string \<Rightarrow> bool" where
  "normal_text k s \<longleftrightarrow> edge_free s \<and> collapse_ws s = s \<and> length s \<le> k"

definition tidy_text :: "nat \<Rightarrow> string \<Rightarrow> string" where
  "tidy_text k s = clip k (collapse_ws (strip s))"

lemma tidy_text_normal: "normal_text k (tidy_text k s)"
proof -
  have e: "edge_free (tidy_text k s)"
    unfolding tidy_text_def by (intro clip_edge_free collapse_edge_free strip_edge_free)
  obtain n where n: "tidy_text k s = take n (collapse_ws (strip s))"
    unfolding tidy_text_def using clip_prefix by blast
  have "collapse_ws (tidy_text k s) = tidy_text k s"
    unfolding n collapse_ws_def by (rule squeeze_take) (rule squeeze_idem)
  then show ?thesis using e by (simp add: normal_text_def tidy_text_def clip_length)
qed

lemma tidy_text_id: "normal_text k s \<Longrightarrow> tidy_text k s = s"
  by (simp add: normal_text_def tidy_text_def edge_free_strip clip_def)

lemma tidy_text_nonempty: "collapse_ws (strip s) \<noteq> [] \<Longrightarrow> 0 < k \<Longrightarrow> tidy_text k s \<noteq> []"
  unfolding tidy_text_def by (intro clip_nonempty collapse_edge_free strip_edge_free)

lemma normalize_abstraction_tidy: "normalize_abstraction s = tidy_text MAX_ABSTRACTION_LEN s"
  by (simp add: normalize_abstraction_def tidy_text_def)

lemma collapse_nonempty: "collapse_ws s = [] \<longleftrightarrow> s = []"
  by (cases s) (auto simp: collapse_ws_def)

text \<open>Cues in normal form: nothing is left to drop, to clip or to merge.\<close>

definition cues_ok :: "(string \<Rightarrow> string) \<Rightarrow> string list \<Rightarrow> bool" where
  "cues_ok cf cs \<longleftrightarrow> distinct (map cf cs) \<and> length cs \<le> MAX_CUES \<and> (\<forall>c\<in>set cs. c \<noteq> [] \<and> normal_text MAX_CUE_LEN c)"

lemma cues_loop_ok: "cues_ok cf out \<Longrightarrow> length out < MAX_CUES \<Longrightarrow> cues_ok cf (cues_loop cf cs out)"
proof (induction cf cs out rule: cues_loop.induct)
  case (2 cf raw rest out)
  let ?c = "clip MAX_CUE_LEN (collapse_ws (strip raw))"
  have c: "normal_text MAX_CUE_LEN ?c" "collapse_ws (strip raw) \<noteq> [] \<Longrightarrow> ?c \<noteq> []"
    using tidy_text_normal [of MAX_CUE_LEN raw] tidy_text_nonempty [of raw MAX_CUE_LEN]
    by (simp_all add: tidy_text_def MAX_CUE_LEN_def)
  then have ok: "cues_ok cf (out @ [?c])" if "collapse_ws (strip raw) \<noteq> []" "cf ?c \<notin> cf ` set out"
    using 2(4,5) that by (auto simp: cues_ok_def)
  then show ?case
    using 2 by (auto simp: Let_def)
qed simp

lemma normalize_cues_ok: "cues_ok cf (normalize_cues cf cs)"
  unfolding normalize_cues_def by (rule cues_loop_ok) (simp_all add: cues_ok_def MAX_CUES_def)

lemma cues_loop_id: "cues_ok cf (out @ cs) \<Longrightarrow> length out < MAX_CUES \<Longrightarrow> cues_loop cf cs out = out @ cs"
proof (induction cs arbitrary: out)
  case (Cons c cs)
  then have c: "normal_text MAX_CUE_LEN c" "c \<noteq> []" "cf c \<notin> cf ` set out"
    by (auto simp: cues_ok_def)
  then have "clip MAX_CUE_LEN (collapse_ws (strip c)) = c" "collapse_ws (strip c) \<noteq> []"
    using tidy_text_id [OF c(1)] by (auto simp: tidy_text_def normal_text_def edge_free_strip)
  moreover have "cs = []" if "length out + 1 \<ge> MAX_CUES"
  proof -
    have "length out + 1 + length cs \<le> MAX_CUES" using Cons.prems(1) by (simp add: cues_ok_def)
    then have "length cs = 0" using that by linarith
    then show ?thesis by simp
  qed
  ultimately show ?case
    using Cons c(3) by (auto simp: Let_def)
qed simp

lemma normalize_cues_id: "cues_ok cf cs \<Longrightarrow> normalize_cues cf cs = cs"
  unfolding normalize_cues_def using cues_loop_id [of cf "[]" cs] by (simp add: MAX_CUES_def)

text \<open>Merging keeps the cues that are there.\<close>

lemma cues_loop_append:
  "cues_ok cf (out @ cs) \<Longrightarrow> length (out @ cs) < MAX_CUES \<Longrightarrow> cues_loop cf (cs @ ds) out = cues_loop cf ds (out @ cs)"
proof (induction cs arbitrary: out)
  case (Cons c cs)
  then have c: "normal_text MAX_CUE_LEN c" "c \<noteq> []" "cf c \<notin> cf ` set out"
    by (auto simp: cues_ok_def)
  then have "clip MAX_CUE_LEN (collapse_ws (strip c)) = c" "collapse_ws (strip c) \<noteq> []"
    using tidy_text_id [OF c(1)] by (auto simp: tidy_text_def normal_text_def edge_free_strip)
  then show ?case
    using Cons c(3) by (simp add: Let_def)
qed simp

lemma cues_loop_prefix: "\<exists>rest. cues_loop cf cs out = out @ rest"
proof (induction cs arbitrary: out)
  case (Cons c cs)
  show ?case
    using Cons.IH [of out] Cons.IH [of "out @ [clip MAX_CUE_LEN (collapse_ws (strip c))]"] by (auto simp: Let_def)
qed simp

lemma union_cues_keeps: "cues_ok cf old \<Longrightarrow> \<exists>new'. union_cues cf old new = old @ new'"
proof (cases "length old < MAX_CUES")
  case True
  assume "cues_ok cf old"
  then have "union_cues cf old new = cues_loop cf new old"
    using cues_loop_append [of cf "[]" old new] True by (simp add: union_cues_def normalize_cues_def)
  then show ?thesis using cues_loop_prefix by metis
next
  case False
  assume ok: "cues_ok cf old"
  then obtain cs c where old: "old = cs @ [c]" "length cs + 1 = MAX_CUES"
    using False by (cases old rule: rev_cases) (auto simp: cues_ok_def MAX_CUES_def)
  then have c: "normal_text MAX_CUE_LEN c" "c \<noteq> []" "cf c \<notin> cf ` set cs" "cues_ok cf cs"
    using ok by (auto simp: cues_ok_def)
  then have "clip MAX_CUE_LEN (collapse_ws (strip c)) = c" "collapse_ws (strip c) \<noteq> []"
    using tidy_text_id [OF c(1)] by (auto simp: tidy_text_def normal_text_def edge_free_strip)
  then have "union_cues cf old new = old"
    using cues_loop_append [of cf "[]" cs "c # new"] c old by (simp add: union_cues_def normalize_cues_def Let_def)
  then show ?thesis by simp
qed

text \<open>Merging adds what is new: a cue is missing from the result only when the result is full.\<close>

lemma tidy_cue_empty: "tidy_text k raw \<noteq> [] \<Longrightarrow> collapse_ws (strip raw) \<noteq> []"
  by (auto simp: tidy_text_def clip_def)

lemma cues_loop_complete:
  "raw \<in> set cs \<Longrightarrow> tidy_text MAX_CUE_LEN raw \<noteq> [] \<Longrightarrow>
   cf (tidy_text MAX_CUE_LEN raw) \<in> cf ` set (cues_loop cf cs out) \<or> MAX_CUES \<le> length (cues_loop cf cs out)"
proof (induction cs arbitrary: out)
  case (Cons c cs)
  let ?c = "clip MAX_CUE_LEN (collapse_ws (strip c))"
  show ?case
  proof (cases "raw = c")
    case True
    then have c: "collapse_ws (strip c) \<noteq> []" "tidy_text MAX_CUE_LEN raw = ?c"
      using tidy_cue_empty [OF Cons.prems(2)] by (simp_all add: tidy_text_def)
    have "cf x \<in> cf ` set (cues_loop cf cs os)" if "cf x \<in> cf ` set os" for x os
      using cues_loop_prefix [of cf cs os] that by auto
    then show ?thesis using c by (auto simp: Let_def)
  next
    case False
    then show ?thesis using Cons by (auto simp: Let_def)
  qed
qed simp

lemma cues_loop_source: "set (cues_loop cf cs out) \<subseteq> set out \<union> tidy_text MAX_CUE_LEN ` set cs"
proof (induction cs arbitrary: out)
  case (Cons c cs)
  show ?case
    using Cons.IH [of out] Cons.IH [of "out @ [clip MAX_CUE_LEN (collapse_ws (strip c))]"]
    by (auto simp: Let_def tidy_text_def)
qed simp

lemma normalize_cues_complete:
  assumes "raw \<in> set cs" and "tidy_text MAX_CUE_LEN raw \<noteq> []"
  shows "cf (tidy_text MAX_CUE_LEN raw) \<in> cf ` set (normalize_cues cf cs) \<or> length (normalize_cues cf cs) = MAX_CUES"
  using cues_loop_complete [OF assms, of cf "[]"] normalize_cues_ok [of cf cs]
  by (auto simp: normalize_cues_def cues_ok_def)

lemma normalize_cues_source: "set (normalize_cues cf cs) \<subseteq> tidy_text MAX_CUE_LEN ` set cs"
  using cues_loop_source [of cf cs "[]"] by (simp add: normalize_cues_def)

lemma union_cues_complete:
  assumes "raw \<in> set cs" and "tidy_text MAX_CUE_LEN raw \<noteq> []"
  shows "cf (tidy_text MAX_CUE_LEN raw) \<in> cf ` set (union_cues cf old (normalize_cues cf cs)) \<or>
    length (union_cues cf old (normalize_cues cf cs)) = MAX_CUES"
proof (cases "length (union_cues cf old (normalize_cues cf cs)) = MAX_CUES")
  case False
  let ?n = "normalize_cues cf cs" and ?u = "union_cues cf old (normalize_cues cf cs)"
  have ok: "cues_ok cf ?n" "cues_ok cf ?u" by (simp_all add: normalize_cues_ok union_cues_def)
  have sub: "cf ` set ?n \<subseteq> cf ` set ?u"
  proof
    fix y assume "y \<in> cf ` set ?n"
    then obtain x where x: "x \<in> set ?n" "y = cf x" by blast
    then have "tidy_text MAX_CUE_LEN x = x" "x \<noteq> []" using ok(1) tidy_text_id by (auto simp: cues_ok_def)
    then show "y \<in> cf ` set ?u"
      using normalize_cues_complete [of x "old @ ?n" cf] x False by (auto simp: union_cues_def)
  qed
  have "card (cf ` set ?n) = length ?n" "card (cf ` set ?u) = length ?u"
    using ok distinct_card [of "map cf ?n"] distinct_card [of "map cf ?u"] by (simp_all add: cues_ok_def)
  then have "length ?n \<le> length ?u" using card_mono [OF _ sub] by simp
  then have "length ?n \<noteq> MAX_CUES" using ok(2) False by (auto simp: cues_ok_def)
  then show ?thesis using normalize_cues_complete [OF assms, of cf] sub by blast
qed simp

lemma union_cues_source:
  assumes "cues_ok cf old"
  shows "set (union_cues cf old (normalize_cues cf cs)) \<subseteq> set old \<union> tidy_text MAX_CUE_LEN ` set cs"
proof -
  have "tidy_text MAX_CUE_LEN x = x" if "x \<in> set old \<or> x \<in> set (normalize_cues cf cs)" for x
    using that assms normalize_cues_ok [of cf cs] tidy_text_id by (auto simp: cues_ok_def)
  then show ?thesis
    using normalize_cues_source [of cf "old @ normalize_cues cf cs"] normalize_cues_source [of cf cs]
    by (fastforce simp: union_cues_def)
qed

section \<open>The invariant of the two tables\<close>

text \<open>What \<open>json.dumps\<close> and \<open>json.loads\<close> promise for a list of strings.\<close>

definition codec_ok :: "cue_codec \<Rightarrow> bool" where
  "codec_ok c \<longleftrightarrow> (\<forall>cs. cc_dumps c (JArr (map JStr cs)) \<noteq> [] \<and>
     cc_loads c (cc_dumps c (JArr (map JStr cs))) = Some (JArr (map JStr cs)))"

lemma stored_cues:
  assumes "codec_ok c" "cues_ok (cc_fold c) cs"
  shows "cues_from_json (cc_fold c) (cc_loads c) (cc_str c) (cues_to_json (cc_dumps c) cs) = cs"
proof -
  have "map (py_str (cc_str c)) (map JStr cs) = cs" by (induction cs) (simp_all add: py_str_def)
  then show ?thesis
    using assms normalize_cues_id by (simp add: cues_from_json_def cues_to_json_def codec_ok_def)
qed

definition entry_ok :: "memory_entry \<Rightarrow> bool" where
  "entry_ok e \<longleftrightarrow> me_abstraction e \<noteq> [] \<and> normal_text MAX_ABSTRACTION_LEN (me_abstraction e) \<and>
     me_value e \<noteq> [] \<and> length (me_value e) \<le> MAX_VALUE_LEN"

definition memory_ok :: "memory_store \<Rightarrow> bool" where
  "memory_ok m \<longleftrightarrow>
     distinct (map me_id (mm_entries m)) \<and> distinct (map (\<lambda>e. (me_user e, me_abstraction e)) (mm_entries m)) \<and>
     (\<forall>e\<in>set (mm_entries m). entry_ok e \<and> me_id e < mm_next m) \<and>
     distinct (map sr_id (mm_search m)) \<and>
     (\<forall>r\<in>set (mm_search m). sr_id r < mm_next m \<and>
        (\<forall>e\<in>set (mm_entries m). me_id e = sr_id r \<longrightarrow> me_user e = sr_user r))"

definition mirrored :: "cue_codec \<Rightarrow> memory_store \<Rightarrow> bool" where
  "mirrored c m \<longleftrightarrow> mset (mm_search m) = mset (map (indexed_row c) (mm_entries m))"

text \<open>\<open>sound\<close>: the search index never fails.\<close>

inductive memory_step :: "cue_codec \<Rightarrow> bool \<Rightarrow> memory_store \<Rightarrow> memory_store \<Rightarrow> bool" for c sound where
  ms_store: "store_entry c now fo user a v cs m = Inr m' \<Longrightarrow> sound \<longrightarrow> fo = FtsFine \<Longrightarrow> memory_step c sound m m'"
| ms_clear: "sound \<longrightarrow> works \<Longrightarrow> memory_step c sound m (clear_facts works user m)"
| ms_open: "sound \<longrightarrow> available \<and> fails = None \<Longrightarrow> memory_step c sound m (open_memory c available fails m)"

lemma store_entry_cases:
  assumes "store_entry c now fo user a v cs m = Inr m'"
  obtains (update) e where "find_entry user (normalize_abstraction a) m = Some e"
    "m' = fts_upsert fo \<lparr>sr_id = me_id e, sr_user = user, sr_abstraction = normalize_abstraction a,
        sr_cues = cues_fts_text (union_cues (cc_fold c) (entry_cues c e) (normalize_cues (cc_fold c) cs))\<rparr>
      (m\<lparr>mm_entries := map (\<lambda>x. if me_id x = me_id e
         then x\<lparr>me_value := normalize_value v, me_cues := cues_to_json (cc_dumps c)
           (union_cues (cc_fold c) (entry_cues c e) (normalize_cues (cc_fold c) cs)), me_updated := now\<rparr> else x) (mm_entries m)\<rparr>)"
    "normalize_abstraction a \<noteq> []" "normalize_value v \<noteq> []"
  | (insert) "find_entry user (normalize_abstraction a) m = None"
    "m' = fts_upsert fo \<lparr>sr_id = mm_next m, sr_user = user, sr_abstraction = normalize_abstraction a,
        sr_cues = cues_fts_text (normalize_cues (cc_fold c) cs)\<rparr>
      (m\<lparr>mm_entries := mm_entries m @ [\<lparr>me_id = mm_next m, me_user = user, me_abstraction = normalize_abstraction a,
           me_value = normalize_value v, me_cues = cues_to_json (cc_dumps c) (normalize_cues (cc_fold c) cs), me_updated = now\<rparr>],
         mm_next := mm_next m + 1\<rparr>)"
    "normalize_abstraction a \<noteq> []" "normalize_value v \<noteq> []"
  using assms unfolding store_entry_def Let_def
  by (cases "find_entry user (normalize_abstraction a) m") (auto split: if_split_asm)

lemma upsert_parts [simp]:
  "mm_entries (fts_upsert fo r m) = mm_entries m" "mm_next (fts_upsert fo r m) = mm_next m"
  by (simp_all add: fts_upsert_def split: fts_outcome.split)

lemma upsert_search:
  "set (mm_search (fts_upsert fo r m)) \<subseteq> insert r (set (mm_search m))"
  "distinct (map sr_id (mm_search m)) \<Longrightarrow> distinct (map sr_id (mm_search (fts_upsert fo r m)))"
  by (auto simp: fts_upsert_def distinct_map inj_on_def split: fts_outcome.split)

lemma find_entry_some: "find_entry user a m = Some e \<Longrightarrow> e \<in> set (mm_entries m) \<and> me_user e = user \<and> me_abstraction e = a"
  by (auto simp: find_entry_def find_Some_iff)

lemma find_entry_none: "find_entry user a m = None \<Longrightarrow> e \<in> set (mm_entries m) \<Longrightarrow> me_user e = user \<Longrightarrow> me_abstraction e \<noteq> a"
  by (auto simp: find_entry_def find_None_iff)

lemma normalized_ok: "normalize_abstraction a \<noteq> [] \<Longrightarrow> normalize_value v \<noteq> [] \<Longrightarrow>
    me_abstraction e = normalize_abstraction a \<Longrightarrow> me_value e = normalize_value v \<Longrightarrow> entry_ok e"
  by (simp add: entry_ok_def normalize_abstraction_tidy tidy_text_normal normalize_value_def clip_length)

lemma upsert_memory_ok:
  assumes "memory_ok m" "sr_id r < mm_next m" "\<And>e. e \<in> set (mm_entries m) \<Longrightarrow> me_id e = sr_id r \<Longrightarrow> me_user e = sr_user r"
  shows "memory_ok (fts_upsert fo r m)"
  using assms upsert_search [where fo = fo and r = r and m = m] unfolding memory_ok_def upsert_parts by blast

lemma memory_ok_entries:
  assumes "memory_ok m" "\<And>x. me_id (f x) = me_id x" "\<And>x. me_user (f x) = me_user x" "\<And>x. me_abstraction (f x) = me_abstraction x"
    "\<forall>e\<in>set (mm_entries m). entry_ok (f e)"
  shows "memory_ok (m\<lparr>mm_entries := map f (mm_entries m)\<rparr>)"
  using assms unfolding memory_ok_def by (simp add: comp_def)

lemma store_memory_ok:
  assumes "store_entry c now fo user a v cs m = Inr m'" "memory_ok m"
  shows "memory_ok m'"
  using assms(1)
proof (cases rule: store_entry_cases)
  case (update e)
  note e = find_entry_some [OF update(1)]
  let ?f = "\<lambda>x. if me_id x = me_id e then x\<lparr>me_value := normalize_value v, me_cues := cues_to_json (cc_dumps c)
           (union_cues (cc_fold c) (entry_cues c e) (normalize_cues (cc_fold c) cs)), me_updated := now\<rparr> else x"
  have "entry_ok (?f x)" if "x \<in> set (mm_entries m)" for x
    using that assms(2) update(4) by (auto simp: memory_ok_def entry_ok_def normalize_value_def clip_length)
  then have "memory_ok (m\<lparr>mm_entries := map ?f (mm_entries m)\<rparr>)"
    by (intro memory_ok_entries [OF assms(2)] ballI) simp_all
  moreover have "me_user x = user" if "x \<in> set (mm_entries m)" "me_id x = me_id e" for x
    using that assms(2) e by (auto simp: memory_ok_def distinct_map inj_on_def)
  moreover have "me_id e < mm_next m" using assms(2) e by (auto simp: memory_ok_def)
  ultimately show ?thesis
    unfolding update(2) by (intro upsert_memory_ok) (auto split: if_split_asm)
next
  case insert
  note new = find_entry_none [OF insert(1)]
  let ?e = "\<lparr>me_id = mm_next m, me_user = user, me_abstraction = normalize_abstraction a,
           me_value = normalize_value v, me_cues = cues_to_json (cc_dumps c) (normalize_cues (cc_fold c) cs), me_updated = now\<rparr>"
  have fresh: "me_id x < mm_next m" if "x \<in> set (mm_entries m)" for x
    using that assms(2) by (simp add: memory_ok_def)
  have "entry_ok ?e" by (rule normalized_ok [OF insert(3,4)]) simp_all
  then have "memory_ok (m\<lparr>mm_entries := mm_entries m @ [?e], mm_next := mm_next m + 1\<rparr>)"
    using assms(2) new fresh unfolding memory_ok_def by fastforce
  then show ?thesis
    unfolding insert(2) by (rule upsert_memory_ok) (use fresh in fastforce)+
qed

lemma clear_memory_ok: "memory_ok m \<Longrightarrow> memory_ok (clear_facts works user m)"
  unfolding memory_ok_def clear_facts_def fts_delete_user_def by (auto simp: Let_def distinct_map inj_on_def)

lemma heal_memory_ok:
  assumes "memory_ok m"
  shows "memory_ok (fts_heal_if_needed c fails m)"
proof -
  have "memory_ok (m\<lparr>mm_search := map (indexed_row c) es, mm_fts_ok := b\<rparr>)"
    if es: "es = mm_entries m \<or> es = take n (mm_entries m)" for es n b
  proof -
    have d: "distinct (map me_id (mm_entries m))" using assms by (simp add: memory_ok_def)
    have sub: "set es \<subseteq> set (mm_entries m)" using es set_take_subset by (metis order_refl)
    have "distinct (map me_id es)" using es d by (auto simp flip: take_map)
    moreover have "me_user e = me_user x" if "e \<in> set (mm_entries m)" "x \<in> set es" "me_id e = me_id x" for e x
      using d that sub by (auto simp: distinct_map inj_on_def)
    ultimately show ?thesis
      using assms sub unfolding memory_ok_def by (auto simp: comp_def indexed_row_def)
  qed
  note r = this
  show ?thesis
    using assms r [of "mm_entries m" 0 True] r [of "take n (mm_entries m)" n False for n]
    by (cases fails) (auto simp: fts_heal_if_needed_def fts_rebuild_def memory_ok_def)
qed

lemma open_memory_ok: "memory_ok m \<Longrightarrow> memory_ok (open_memory c available fails m)"
  unfolding open_memory_def Let_def
  using heal_memory_ok [of "m\<lparr>mm_fts_ok := True\<rparr>"] heal_memory_ok [of "m\<lparr>mm_legacy := l, mm_marker := True, mm_fts_ok := True\<rparr>" for l]
  by (auto simp: memory_ok_def)

interpretation memory: invariant_system "\<lambda>m. m = memory_empty" "memory_step c sound" memory_ok for c sound
proof
  show "memory_ok m" if "m = memory_empty" for m using that by (simp add: memory_ok_def memory_empty_def)
  show "memory_ok n" if "memory_ok m" "memory_step c sound m n" for m n
    using that(2,1) by cases (auto intro: store_memory_ok clear_memory_ok open_memory_ok)
qed

section \<open>The index mirrors the table\<close>

lemma mset_filter_row:
  assumes "distinct (map me_id es)" "mset rows = mset (map (indexed_row c) es)"
  shows "mset (filter (\<lambda>r. sr_id r \<noteq> i) rows) = mset (map (indexed_row c) (filter (\<lambda>e. me_id e \<noteq> i) es))"
proof -
  have "mset (filter (\<lambda>r. sr_id r \<noteq> i) rows) = filter_mset (\<lambda>r. sr_id r \<noteq> i) (mset (map (indexed_row c) es))"
    using assms(2) by (metis mset_filter)
  also have "\<dots> = mset (map (indexed_row c) (filter (\<lambda>e. me_id e \<noteq> i) es))"
    by (induction es) (auto simp: indexed_row_def)
  finally show ?thesis .
qed

lemma mset_one_changed:
  assumes "distinct (map me_id es)" "e \<in> set es" "\<And>x. me_id (f x) = me_id x"
  shows "mset (map (\<lambda>x. if me_id x = me_id e then f x else x) es) = add_mset (f e) (mset (filter (\<lambda>x. me_id x \<noteq> me_id e) es))"
  using assms(1,2)
proof (induction es)
  case (Cons x es)
  show ?case
  proof (cases "x = e")
    case True
    then have n: "\<forall>y\<in>set es. me_id y \<noteq> me_id e" using Cons.prems(1) by (force simp: image_iff)
    then have "map (\<lambda>x. if me_id x = me_id e then f x else x) es = es" "filter (\<lambda>x. me_id x \<noteq> me_id e) es = es"
      by (auto intro: map_idI)
    then show ?thesis using True by simp
  next
    case False
    then have "e \<in> set es" "me_id x \<noteq> me_id e" using Cons.prems by (auto simp: image_iff)
    then show ?thesis using Cons by simp
  qed
qed simp

lemma indexed_row_stored:
  assumes "codec_ok c" "cues_ok (cc_fold c) cs" "me_cues e = cues_to_json (cc_dumps c) cs"
  shows "indexed_row c e = \<lparr>sr_id = me_id e, sr_user = me_user e, sr_abstraction = me_abstraction e, sr_cues = cues_fts_text cs\<rparr>"
  using stored_cues [OF assms(1,2)] assms(3) by (simp add: indexed_row_def entry_cues_def)

lemma store_mirrored:
  assumes c: "codec_ok c" and run: "store_entry c now FtsFine user a v cs m = Inr m'"
    and m: "memory_ok m" "mm_fts_ok m" "mirrored c m"
  shows "mm_fts_ok m' \<and> mirrored c m'"
  using run
proof (cases rule: store_entry_cases)
  case (update e)
  note e = find_entry_some [OF update(1)]
  let ?cues = "union_cues (cc_fold c) (entry_cues c e) (normalize_cues (cc_fold c) cs)"
  let ?g = "\<lambda>x. x\<lparr>me_value := normalize_value v, me_cues := cues_to_json (cc_dumps c) ?cues, me_updated := now\<rparr>"
  have d: "distinct (map me_id (mm_entries m))" using m(1) by (simp add: memory_ok_def)
  have row: "indexed_row c (?g e) = \<lparr>sr_id = me_id e, sr_user = user, sr_abstraction = normalize_abstraction a, sr_cues = cues_fts_text ?cues\<rparr>"
    by (subst indexed_row_stored [OF c, where cs = ?cues]) (simp_all add: e union_cues_def normalize_cues_ok)
  have "mset (map (indexed_row c) (map (\<lambda>x. if me_id x = me_id e then ?g x else x) (mm_entries m))) =
      add_mset (indexed_row c (?g e)) (mset (map (indexed_row c) (filter (\<lambda>x. me_id x \<noteq> me_id e) (mm_entries m))))"
    unfolding mset_map [of "indexed_row c"] by (subst mset_one_changed [OF d conjunct1 [OF e]]) simp_all
  then show ?thesis
    using mset_filter_row [OF d m(3) [unfolded mirrored_def], of "me_id e"] m(2)
    by (simp add: update(2) mirrored_def fts_upsert_def row)
next
  case insert
  let ?e = "\<lparr>me_id = mm_next m, me_user = user, me_abstraction = normalize_abstraction a,
           me_value = normalize_value v, me_cues = cues_to_json (cc_dumps c) (normalize_cues (cc_fold c) cs), me_updated = now\<rparr>"
  have row: "indexed_row c ?e = \<lparr>sr_id = mm_next m, sr_user = user, sr_abstraction = normalize_abstraction a,
        sr_cues = cues_fts_text (normalize_cues (cc_fold c) cs)\<rparr>"
    by (subst indexed_row_stored [OF c normalize_cues_ok]) simp_all
  have d: "distinct (map me_id (mm_entries m))" and "\<forall>x\<in>set (mm_entries m). me_id x \<noteq> mm_next m"
    using m(1) by (auto simp: memory_ok_def)
  then have "filter (\<lambda>x. me_id x \<noteq> mm_next m) (mm_entries m) = mm_entries m" by simp
  then show ?thesis
    using mset_filter_row [OF d m(3) [unfolded mirrored_def], of "mm_next m"] m(2)
    by (simp add: insert(2) mirrored_def fts_upsert_def row)
qed

lemma memory_step_mirrored:
  assumes c: "codec_ok c" and step: "memory_step c True m n" and m: "memory_ok m" "mm_fts_ok m" "mirrored c m"
  shows "mm_fts_ok n \<and> mirrored c n"
  using step
proof cases
  case (ms_store now fo user a v cs)
  then show ?thesis using store_mirrored [OF c _ m] by simp
next
  case (ms_clear works user)
  have "filter_mset (\<lambda>x. sr_user x \<noteq> user) (mset (map (indexed_row c) es)) =
      mset (map (indexed_row c) (filter (\<lambda>e. me_user e \<noteq> user) es))" for es
    by (induction es) (auto simp: indexed_row_def)
  moreover have "mset (filter (\<lambda>x. sr_user x \<noteq> user) (mm_search m)) =
      filter_mset (\<lambda>x. sr_user x \<noteq> user) (mset (map (indexed_row c) (mm_entries m)))"
    using m(3) by (metis mirrored_def mset_filter)
  ultimately show ?thesis
    using ms_clear m by (simp add: clear_facts_def fts_delete_user_def mirrored_def Let_def)
next
  case (ms_open available fails)
  have "length (mm_search m) = length (mm_entries m)"
    using m(3) by (metis length_map mirrored_def size_mset)
  then show ?thesis
    using ms_open m by (simp add: open_memory_def fts_heal_if_needed_def mirrored_def Let_def)
qed

lemma mirrored_reach:
  assumes "codec_ok c" "reach (\<lambda>m. m = memory_empty) (memory_step c True) m"
  shows "memory_ok m \<and> mm_fts_ok m \<and> mirrored c m"
  using assms(2)
proof induction
  case (reach_start s)
  then show ?case by (simp add: memory_ok_def memory_empty_def mirrored_def)
next
  case (reach_step s t)
  then show ?case using memory.inv_step memory_step_mirrored [OF assms(1)] by blast
qed

text \<open>C33: As long as the search index never fails, it holds exactly one row for every entry, with the entry's owner,
  abstraction and cues, through every sequence of stores, deletions and restarts.
\<close>

theorem search_index_mirrors:
  assumes "codec_ok c" "reach (\<lambda>m. m = memory_empty) (memory_step c True) m"
  shows "mm_fts_ok m \<and> mset (mm_search m) = mset (map (indexed_row c) (mm_entries m))"
  using mirrored_reach [OF assms] by (simp add: mirrored_def)

section \<open>Recall\<close>

definition recalls :: "cue_codec \<Rightarrow> string \<Rightarrow> memory_store \<Rightarrow> recalled list \<Rightarrow> bool" where
  "recalls c user m rs \<longleftrightarrow> distinct (map rc_id rs) \<and>
     (\<forall>r\<in>set rs. \<exists>e\<in>set (by_user user m). \<exists>score. r = row_to_entry c score e)"

lemma recalls_take: "recalls c user m rs \<Longrightarrow> recalls c user m (take n rs)"
  unfolding recalls_def by (metis in_set_takeD distinct_take take_map)

lemma recalls_ranked: "recalls c user m rs \<Longrightarrow> recalls c user m (ranked rs)"
proof -
  assume r: "recalls c user m rs"
  have "mset (map rc_id (ranked rs)) = mset (map rc_id rs)" by (simp add: ranked_def)
  then have "distinct (map rc_id (ranked rs))"
    using r unfolding recalls_def by (metis distinct_count_atmost_1 mset_eq_setD)
  then show ?thesis using r by (simp add: recalls_def ranked_def)
qed

lemma by_user_distinct: "memory_ok m \<Longrightarrow> distinct (map me_id (by_user user m))"
  unfolding by_user_def memory_ok_def by (simp add: distinct_map_filter)

lemma recalls_rows:
  assumes "memory_ok m" "set es \<subseteq> set (by_user user m)" "distinct (map me_id es)"
  shows "recalls c user m (map (\<lambda>e. row_to_entry c (f e) e) es)"
  using assms by (auto simp: recalls_def row_to_entry_def comp_def)

lemma distinct_map_sort: "distinct (map f es) \<Longrightarrow> distinct (map f (sort_key g es))"
proof -
  assume d: "distinct (map f es)"
  have "mset (map f (sort_key g es)) = mset (map f es)" by simp
  then show ?thesis using d by (metis distinct_count_atmost_1 mset_eq_setD)
qed

lemma recent_entries_recalls: "memory_ok m \<Longrightarrow> recalls c user m (recent_entries c user limit m)"
  unfolding recent_entries_def
  by (rule recalls_rows) (auto dest: in_set_takeD simp: distinct_map_sort by_user_distinct simp flip: take_map)

lemma recall_like_recalls: "memory_ok m \<Longrightarrow> recalls c user m (recall_like c user q limit m)"
  unfolding recall_like_def Let_def
  by (intro recalls_take recalls_ranked recalls_rows)
    (auto dest: in_set_takeD simp: distinct_map_sort by_user_distinct distinct_map_filter simp flip: take_map)

text \<open>The dictionary by id.\<close>

definition keyed :: "cue_codec \<Rightarrow> string \<Rightarrow> memory_store \<Rightarrow> (int, recalled) pydict \<Rightarrow> bool" where
  "keyed c user m d \<longleftrightarrow> distinct (dkeys d) \<and>
     (\<forall>(k, r)\<in>set d. \<exists>e\<in>set (by_user user m). \<exists>score. k = me_id e \<and> r = row_to_entry c score e)"

lemma dkeys_distinct_dput: "distinct (dkeys d) \<Longrightarrow> distinct (dkeys (dput k v d))"
  using dkeys_dput_present [of k d v] dput_fresh [of k d v] by (cases "k \<in> set (dkeys d)") (auto simp: dkeys_def)

lemma keyed_dput: "keyed c user m d \<Longrightarrow> e \<in> set (by_user user m) \<Longrightarrow> keyed c user m (dput (me_id e) (row_to_entry c score e) d)"
  unfolding keyed_def by (auto simp: dkeys_distinct_dput dest!: dput_member)

lemma keyed_recalls: "keyed c user m d \<Longrightarrow> recalls c user m (map snd d)"
proof -
  assume k: "keyed c user m d"
  then have "map rc_id (map snd d) = dkeys d"
    by (auto simp: keyed_def dkeys_def row_to_entry_def)
  then show ?thesis using k by (fastforce simp: keyed_def recalls_def)
qed

lemma fts_hits_own: "memory_ok m \<Longrightarrow> x \<in> set (fts_hits fa user ws limit m) \<Longrightarrow> snd x \<in> set (by_user user m)"
  unfolding fts_hits_def by (drule in_set_takeD) (auto simp: by_user_def memory_ok_def split: option.splits)

lemma keyed_scored:
  "keyed c user m d \<Longrightarrow> \<forall>x\<in>set hits. snd x \<in> set (by_user user m) \<Longrightarrow>
   keyed c user m (fold (\<lambda>r d. dput (rc_id r) r d) (map (\<lambda>(rank, e). row_to_entry c (fts_score c q rank e) e) hits) d)"
proof (induction hits arbitrary: d)
  case (Cons x hits)
  obtain rank e where x: "x = (rank, e)" by (cases x)
  have "rc_id (row_to_entry c s e) = me_id e" for s by (simp add: row_to_entry_def)
  then show ?case using Cons keyed_dput by (simp add: x)
qed simp

lemma keyed_add_exact:
  "keyed c user m d \<Longrightarrow> set es \<subseteq> set (by_user user m) \<Longrightarrow> keyed c user m (fold (add_exact c q) es d)"
proof (induction es arbitrary: d)
  case (Cons e es)
  then show ?case using keyed_dput by (simp add: add_exact_def)
qed simp

lemma recall_fts_recalls:
  assumes "memory_ok m" "recall_fts c fa user q limit m = Some rs"
  shows "recalls c user m rs"
proof -
  let ?hits = "fts_hits fa user (query_words q) limit m"
  let ?d = "fold (\<lambda>r d. dput (rc_id r) r d) (map (\<lambda>(rank, e). row_to_entry c (fts_score c q rank e) e) ?hits) []"
  have "keyed c user m ?d"
    using fts_hits_own [OF assms(1)] by (intro keyed_scored) (simp_all add: keyed_def)
  then have "keyed c user m (fold (add_exact c q) (if fa_scan fa then take FALLBACK_RECALL_LIMIT (by_user user m) else []) ?d)"
    by (rule keyed_add_exact) (auto dest: in_set_takeD)
  from recalls_take [OF recalls_ranked [OF keyed_recalls [OF this]]] assms(2)
  show ?thesis by (auto simp: recall_fts_def Let_def split: if_split_asm)
qed

lemma recall_entries_recalls: "memory_ok m \<Longrightarrow> recalls c user m (recall_entries c fa user query limit m)"
  unfolding recall_entries_def Let_def
  using recent_entries_recalls recall_like_recalls recall_fts_recalls by (auto split: option.split)

text \<open>C34: Through every sequence of stores, deletions and restarts, with the search index failing at any point: what a
  recall returns are entries of the asking user, as they are stored, each at most once, and no more than the limit,
  which is between 1 and 100 whatever the caller asks.
\<close>

theorem recall_own_and_bounded:
  assumes "reach (\<lambda>m. m = memory_empty) (memory_step c sound) m"
  shows "(\<forall>r\<in>set (recall_entries c fa user query limit m). \<exists>e\<in>set (mm_entries m).
      me_user e = user \<and> rc_id r = me_id e \<and> rc_abstraction r = me_abstraction e \<and> rc_value r = me_value e) \<and>
    distinct (map rc_id (recall_entries c fa user query limit m)) \<and>
    length (recall_entries c fa user query limit m) \<le> nat (max 1 (min 100 limit))"
proof -
  have "memory_ok m" by (rule memory.reach_inv [OF assms(1)])
  note r = recall_entries_recalls [OF this, of c user fa query limit]
  have l: "length hits \<le> n" if "recall_fts c fa user q n m = Some hits" for q n hits
    using that by (auto simp: recall_fts_def Let_def split: if_split_asm)
  have "length (recall_entries c fa user query limit m) \<le> nat (max 1 (min 100 limit))"
    unfolding recall_entries_def Let_def
    by (auto simp: recent_entries_def recall_like_def Let_def split: option.split dest: l)
  then show ?thesis
    using r by (fastforce simp: recalls_def by_user_def row_to_entry_def)
qed

lemma dkeys_scored: "set (dkeys d) \<subseteq> set (dkeys (fold (add_exact c q) es d))"
proof (induction es arbitrary: d)
  case (Cons e es)
  have "set (dkeys d) \<subseteq> set (dkeys (add_exact c q e d))"
    by (auto simp: add_exact_def dput_fresh dkeys_def)
  then show ?case using Cons [of "add_exact c q e d"] by auto
qed simp

lemma add_exact_covers: "e \<in> set es \<Longrightarrow> exact_cue c q e \<Longrightarrow> me_id e \<in> set (dkeys (fold (add_exact c q) es d))"
proof (induction es arbitrary: d)
  case (Cons x es)
  show ?case
  proof (cases "x = e")
    case True
    then have "me_id e \<in> set (dkeys (add_exact c q x d))"
      using Cons.prems by (auto simp: add_exact_def dput_fresh dkeys_def)
    then show ?thesis using dkeys_scored [of "add_exact c q x d" c q es] by auto
  next
    case False
    then show ?thesis using Cons by simp
  qed
qed simp

text \<open>
  An entry with a cue that equals the query is found, whatever the search index answers, when the user has no more
  entries than the limit and the index is in use.
\<close>

theorem exact_cue_recalled:
  assumes reach: "reach (\<lambda>m. m = memory_empty) (memory_step c sound) m"
    and index: "mm_fts_ok m" "\<not> fa_fails fa" "fa_scan fa" "query_words (strip q) \<noteq> []"
    and e: "e \<in> set (mm_entries m)" "me_user e = user" "exact_cue c (strip q) e"
    and few: "length (by_user user m) \<le> nat (max 1 (min 100 limit))"
  shows "\<exists>r\<in>set (recall_entries c fa user (Some q) limit m). rc_id r = me_id e \<and> rc_value r = me_value e"
proof -
  let ?n = "nat (max 1 (min 100 limit))" and ?q = "strip q"
  have m: "memory_ok m" by (rule memory.reach_inv [OF reach])
  let ?hits = "fts_hits fa user (query_words ?q) ?n m"
  define d0 where "d0 = fold (\<lambda>r d. dput (rc_id r) r d) (map (\<lambda>(rank, e). row_to_entry c (fts_score c ?q rank e) e) ?hits) []"
  define d where "d = fold (add_exact c ?q) (by_user user m) d0"
  have own: "e \<in> set (by_user user m)" using e by (simp add: by_user_def)
  have "keyed c user m d0"
    unfolding d0_def using fts_hits_own [OF m] by (intro keyed_scored) (simp_all add: keyed_def)
  then have k: "keyed c user m d" unfolding d_def by (rule keyed_add_exact) simp
  have "me_id e \<in> set (dkeys d)" unfolding d_def by (rule add_exact_covers [OF own e(3)])
  then obtain r where r: "(me_id e, r) \<in> set d" by (auto simp: dkeys_def)
  obtain x score where x: "x \<in> set (by_user user m)" "me_id e = me_id x" "r = row_to_entry c score x"
    using k r by (auto simp: keyed_def)
  have "x = e"
    using by_user_distinct [OF m, of user] own x(1,2) by (auto simp: distinct_map inj_on_def)
  have "set (dkeys d) \<subseteq> set (map me_id (by_user user m))" using k by (auto simp: keyed_def dkeys_def)
  then have "card (set (dkeys d)) \<le> card (set (map me_id (by_user user m)))" by (intro card_mono) auto
  then have "length d \<le> length (by_user user m)"
    using k by_user_distinct [OF m, of user] by (simp add: keyed_def dkeys_def distinct_card flip: set_map)
  then have all: "take ?n (ranked (map snd d)) = ranked (map snd d)" using few by (simp add: ranked_def)
  have "take FALLBACK_RECALL_LIMIT (by_user user m) = by_user user m"
    using few by (simp add: FALLBACK_RECALL_LIMIT_def)
  then have "recall_fts c fa user ?q ?n m = Some (ranked (map snd d))"
    using index all by (simp add: recall_fts_def Let_def d_def d0_def)
  moreover have "r \<in> set (ranked (map snd d))" using r by (force simp: ranked_def)
  moreover have "?q \<noteq> []" using index(4) by (auto simp: query_words_def)
  ultimately have "r \<in> set (recall_entries c fa user (Some q) limit m)"
    by (auto simp: recall_entries_def Let_def)
  moreover have "rc_id r = me_id e \<and> rc_value r = me_value e" using x(3) \<open>x = e\<close> by (simp add: row_to_entry_def)
  ultimately show ?thesis by blast
qed

section \<open>One store\<close>

lemma find_last: "find P xs = None \<Longrightarrow> P x \<Longrightarrow> find P (xs @ [x]) = Some x"
  by (induction xs) (auto split: if_split_asm)

lemma stored_entry:
  assumes c: "codec_ok c" and m: "memory_ok m" and run: "store_entry c now fo user a v cs m = Inr m'"
  shows "\<exists>e'. find_entry user (normalize_abstraction a) m' = Some e' \<and> me_value e' = normalize_value v \<and>
    (case find_entry user (normalize_abstraction a) m of
       None \<Rightarrow> entry_cues c e' = normalize_cues (cc_fold c) cs
     | Some e \<Rightarrow> me_id e' = me_id e \<and>
         entry_cues c e' = union_cues (cc_fold c) (entry_cues c e) (normalize_cues (cc_fold c) cs) \<and>
         length (mm_entries m') = length (mm_entries m)) \<and>
    (mm_fts_ok m \<longrightarrow> fo = FtsDeleteFails \<longrightarrow> mm_search m' = mm_search m) \<and>
    filter (\<lambda>x. (me_user x, me_abstraction x) \<noteq> (user, normalize_abstraction a)) (mm_entries m') =
    filter (\<lambda>x. (me_user x, me_abstraction x) \<noteq> (user, normalize_abstraction a)) (mm_entries m)"
  using run
proof (cases rule: store_entry_cases)
  case (update e)
  note e = find_entry_some [OF update(1)]
  let ?key = "\<lambda>x. me_user x = user \<and> me_abstraction x = normalize_abstraction a"
  let ?cues = "union_cues (cc_fold c) (entry_cues c e) (normalize_cues (cc_fold c) cs)"
  let ?g = "\<lambda>x. x\<lparr>me_value := normalize_value v, me_cues := cues_to_json (cc_dumps c) ?cues, me_updated := now\<rparr>"
  have same: "me_id x = me_id e \<longleftrightarrow> ?key x" if "x \<in> set (mm_entries m)" for x
    using m that e by (auto simp: memory_ok_def distinct_map inj_on_def)
  have entries: "mm_entries m' = map (\<lambda>x. if ?key x then ?g x else x) (mm_entries m)"
    using same by (simp add: update(2))
  have fm: "find ?key (map (\<lambda>x. if ?key x then ?g x else x) es) = map_option ?g (find ?key es)" for es
    by (induction es) auto
  have f: "find_entry user (normalize_abstraction a) m' = Some (?g e)"
    unfolding find_entry_def entries fm using update(1) by (simp add: find_entry_def)
  have "entry_cues c (?g e) = ?cues"
    using stored_cues [OF c, of ?cues] by (simp add: entry_cues_def union_cues_def normalize_cues_ok)
  moreover have "filter (\<lambda>x. \<not> ?key x) (map (\<lambda>x. if ?key x then ?g x else x) es) = filter (\<lambda>x. \<not> ?key x) es" for es
    by (induction es) auto
  ultimately show ?thesis
    using update(1) f by (simp add: entries) (simp add: update(2) fts_upsert_def)
next
  case insert
  let ?e = "\<lparr>me_id = mm_next m, me_user = user, me_abstraction = normalize_abstraction a,
           me_value = normalize_value v, me_cues = cues_to_json (cc_dumps c) (normalize_cues (cc_fold c) cs), me_updated = now\<rparr>"
  have "find_entry user (normalize_abstraction a) m' = Some ?e"
    using insert(1) by (simp add: insert(2) find_entry_def find_last)
  then show ?thesis
    using stored_cues [OF c normalize_cues_ok, of cs] insert(1)
    by (simp add: insert(2) entry_cues_def) (simp add: fts_upsert_def)
qed

lemma entry_cues_ok: "cues_ok (cc_fold c) (entry_cues c e)"
  by (auto simp: entry_cues_def cues_from_json_def normalize_cues_ok cues_ok_def [of _ "[]"] split: option.split json.split)

text \<open>C35: A successful store sets the value of the one entry with the user and the normalized abstraction, keeps its id and
  all its cues in front, and adds the new ones: every given cue, trimmed and clipped, is among the cues of the entry up to
  case folding, unless the entry has reached the maximum of 16 cues, and no other cue appears. Every other entry, of this
  user or another, stays as it is. The store is well formed (as every reachable one), and the JSON text of a list of cues
  reads back.
\<close>

theorem store_merges_one_entry:
  assumes c: "codec_ok c" and m: "memory_ok m" and run: "store_entry c now fo user a v cs m = Inr m'"
  shows "\<exists>e'. find_entry user (normalize_abstraction a) m' = Some e' \<and> me_value e' = normalize_value v \<and>
    (case find_entry user (normalize_abstraction a) m of
       None \<Rightarrow> entry_cues c e' = normalize_cues (cc_fold c) cs \<and>
         set (entry_cues c e') \<subseteq> tidy_text MAX_CUE_LEN ` set cs
     | Some e \<Rightarrow> me_id e' = me_id e \<and> (\<exists>new. entry_cues c e' = entry_cues c e @ new) \<and>
         set (entry_cues c e') \<subseteq> set (entry_cues c e) \<union> tidy_text MAX_CUE_LEN ` set cs) \<and>
    (\<forall>raw\<in>set cs. tidy_text MAX_CUE_LEN raw \<noteq> [] \<longrightarrow>
       cc_fold c (tidy_text MAX_CUE_LEN raw) \<in> cc_fold c ` set (entry_cues c e') \<or> length (entry_cues c e') = MAX_CUES) \<and>
    filter (\<lambda>x. (me_user x, me_abstraction x) \<noteq> (user, normalize_abstraction a)) (mm_entries m') =
    filter (\<lambda>x. (me_user x, me_abstraction x) \<noteq> (user, normalize_abstraction a)) (mm_entries m)"
proof (cases "find_entry user (normalize_abstraction a) m")
  case None
  obtain e' where e': "find_entry user (normalize_abstraction a) m' = Some e'" "me_value e' = normalize_value v"
      "entry_cues c e' = normalize_cues (cc_fold c) cs"
    and rest: "filter (\<lambda>x. (me_user x, me_abstraction x) \<noteq> (user, normalize_abstraction a)) (mm_entries m') =
      filter (\<lambda>x. (me_user x, me_abstraction x) \<noteq> (user, normalize_abstraction a)) (mm_entries m)"
    using stored_entry [OF c m run] None by auto
  have added: "\<forall>raw\<in>set cs. tidy_text MAX_CUE_LEN raw \<noteq> [] \<longrightarrow>
      cc_fold c (tidy_text MAX_CUE_LEN raw) \<in> cc_fold c ` set (entry_cues c e') \<or> length (entry_cues c e') = MAX_CUES"
    unfolding e'(3) using normalize_cues_complete by blast
  have "set (entry_cues c e') \<subseteq> tidy_text MAX_CUE_LEN ` set cs"
    unfolding e'(3) by (rule normalize_cues_source)
  then show ?thesis unfolding None option.case using e' rest added by blast
next
  case (Some e)
  obtain new where new: "union_cues (cc_fold c) (entry_cues c e) (normalize_cues (cc_fold c) cs) = entry_cues c e @ new"
    using union_cues_keeps [OF entry_cues_ok] by blast
  obtain e' where e': "find_entry user (normalize_abstraction a) m' = Some e'" "me_value e' = normalize_value v"
      "me_id e' = me_id e" "entry_cues c e' = union_cues (cc_fold c) (entry_cues c e) (normalize_cues (cc_fold c) cs)"
    and rest: "filter (\<lambda>x. (me_user x, me_abstraction x) \<noteq> (user, normalize_abstraction a)) (mm_entries m') =
      filter (\<lambda>x. (me_user x, me_abstraction x) \<noteq> (user, normalize_abstraction a)) (mm_entries m)"
    using stored_entry [OF c m run] Some by auto
  have added: "\<forall>raw\<in>set cs. tidy_text MAX_CUE_LEN raw \<noteq> [] \<longrightarrow>
      cc_fold c (tidy_text MAX_CUE_LEN raw) \<in> cc_fold c ` set (entry_cues c e') \<or> length (entry_cues c e') = MAX_CUES"
    unfolding e'(4) using union_cues_complete by blast
  have source: "set (entry_cues c e') \<subseteq> set (entry_cues c e) \<union> tidy_text MAX_CUE_LEN ` set cs"
    unfolding e'(4) by (rule union_cues_source [OF entry_cues_ok])
  have "entry_cues c e' = entry_cues c e @ new" using e'(4) new by simp
  then show ?thesis unfolding Some option.case using e'(1-3) rest added source by blast
qed

lemma missing_row_is_repaired:
  assumes c: "codec_ok c" and reach: "reach (\<lambda>m. m = memory_empty) (memory_step c True) m"
    and old: "find_entry user (normalize_abstraction a) m = Some e"
    and run: "store_entry c now FtsInsertFails user a v cs m = Inr m'"
  shows "mm_search (open_memory c True None m') = map (indexed_row c) (mm_entries (open_memory c True None m'))"
  using run
proof (cases rule: store_entry_cases)
  case (update e')
  have on: "mm_fts_ok m" and mi: "mset (mm_search m) = mset (map (indexed_row c) (mm_entries m))"
    using mirrored_reach [OF c reach] by (simp_all add: mirrored_def)
  have e: "e' = e" "e \<in> set (mm_entries m)" using update(1) old find_entry_some by auto
  have "indexed_row c e \<in> set (mm_search m)" using mi e(2) by (metis image_eqI image_set mset_eq_setD)
  then have "length (filter (\<lambda>x. sr_id x \<noteq> me_id e) (mm_search m)) < length (mm_search m)"
    by (rule length_filter_less) (simp add: indexed_row_def)
  moreover have "length (mm_search m) = length (mm_entries m)" using mi by (metis length_map size_mset)
  ultimately have "length (mm_search m') < length (mm_entries m')"
    unfolding update(2) using on by (simp add: e(1) fts_upsert_def)
  then have "length (mm_entries m') \<noteq> length (mm_search m')" "length (mm_entries m') \<noteq> 0" by linarith+
  then show ?thesis
    by (simp add: open_memory_def fts_heal_if_needed_def fts_rebuild_def Let_def)
qed (use old in simp)

text \<open>C36: When the search index, which had worked so far, fails to delete the old row while an entry is updated (so that the
  old row stays), a restart that finds FTS5 does not repair it: the check after a restart compares the numbers of rows only, and they are equal. The index is in use
  again, and the row of the entry is the one from before, without the cues that were added. (When the delete succeeds and
  the insert fails, a row is missing, and the restart rebuilds the index: \<open>missing_row_is_repaired\<close>.)
\<close>

theorem stale_index_survives_restart:
  assumes c: "codec_ok c" and reach: "reach (\<lambda>m. m = memory_empty) (memory_step c True) m"
    and old: "find_entry user (normalize_abstraction a) m = Some e"
    and run: "store_entry c now FtsDeleteFails user a v cs m = Inr m'"
  shows "mm_fts_ok (open_memory c True fails m') \<and> mm_search (open_memory c True fails m') = mm_search m \<and>
    indexed_row c e \<in> set (mm_search (open_memory c True fails m')) \<and>
    (\<exists>e'. find_entry user (normalize_abstraction a) (open_memory c True fails m') = Some e' \<and>
       entry_cues c e' = union_cues (cc_fold c) (entry_cues c e) (normalize_cues (cc_fold c) cs))"
proof -
  have mi: "memory_ok m" "mset (mm_search m) = mset (map (indexed_row c) (mm_entries m))"
    using mirrored_reach [OF c reach] by (simp_all add: mirrored_def)
  have on: "mm_fts_ok m" using mirrored_reach [OF c reach] by simp
  note e = find_entry_some [OF old]
  obtain e' where e': "find_entry user (normalize_abstraction a) m' = Some e'"
      "entry_cues c e' = union_cues (cc_fold c) (entry_cues c e) (normalize_cues (cc_fold c) cs)"
    and m': "mm_search m' = mm_search m" "length (mm_entries m') = length (mm_entries m)"
    using stored_entry [OF c mi(1) run] old on by auto
  have l: "length (mm_search m) = length (mm_entries m)" using mi(2) by (metis length_map size_mset)
  have "mm_entries m \<noteq> []" using e by auto
  then have o: "mm_search (open_memory c True fails m') = mm_search m" "mm_fts_ok (open_memory c True fails m')"
      "mm_entries (open_memory c True fails m') = mm_entries m'"
    using l m' by (simp_all add: open_memory_def fts_heal_if_needed_def Let_def)
  have "indexed_row c e \<in> set (mm_search m)"
    using mi(2) e by (metis image_eqI image_set mset_eq_setD)
  then show ?thesis using o e' by (simp add: find_entry_def)
qed

section \<open>The theorems at a concrete store\<close>

definition sample_codec :: cue_codec where
  "sample_codec = \<lparr>cc_fold = map ascii_lower, cc_dumps = json_text, cc_loads = json_read, cc_str = (\<lambda>_. [])\<rparr>"

definition sample_answers :: fts_answers where
  "sample_answers = \<lparr>fa_rank = (\<lambda>_ _. None), fa_fails = False, fa_scan = True\<rparr>"

definition sample_memory_row :: memory_entry where
  "sample_memory_row = \<lparr>me_id = 1, me_user = ''u'', me_abstraction = ''tea'', me_value = ''green'',
     me_cues = cues_to_json json_text [''Cup''], me_updated = 5\<rparr>"

definition stored_sample :: memory_store where
  "stored_sample = memory_empty\<lparr>mm_entries := [sample_memory_row], mm_next := 2,
     mm_search := [\<lparr>sr_id = 1, sr_user = ''u'', sr_abstraction = ''tea'', sr_cues = ''Cup''\<rparr>]\<rparr>"

lemma sample_codec_ok: "codec_ok sample_codec"
  by (simp add: codec_ok_def sample_codec_def json_text_roundtrip json_text_nonempty)

lemmas sample_eval = normalize_abstraction_def normalize_value_def normalize_cues_def clip_def collapse_ws_def strip_def strip_by_def
  is_space_def is_space_cp_def ascii_lower_def Let_def MAX_ABSTRACTION_LEN_def MAX_VALUE_LEN_def MAX_CUE_LEN_def MAX_CUES_def
  of_char_def char_of_def bit_0

lemma sample_norm:
  "normalize_abstraction ''  tea '' = ''tea''" "normalize_value ''green '' = ''green''"
  "normalize_cues (map ascii_lower) ['' Cup'', ''cUP'', '' ''] = [''Cup'']"
  "normalize_cues (map ascii_lower) [''Mug''] = [''Mug'']"
  by (simp_all add: sample_eval)

lemma stored_sample_run: "store_entry sample_codec 5 FtsFine ''u'' ''  tea '' ''green '' ['' Cup'', ''cUP'', '' ''] memory_empty = Inr stored_sample"
  by (simp add: store_entry_def sample_norm sample_codec_def find_entry_def memory_empty_def fts_upsert_def stored_sample_def
      sample_memory_row_def cues_fts_text_def Let_def)

lemma sample_reach: "reach (\<lambda>m. m = memory_empty) (memory_step sample_codec sound) stored_sample"
  using stored_sample_run by (blast intro: reach.intros memory_step.ms_store)

lemma sample_cues: "entry_cues sample_codec sample_memory_row = [''Cup'']"
  using stored_cues [OF sample_codec_ok, of "[''Cup'']"] normalize_cues_ok [of "map ascii_lower" "['' Cup'', ''cUP'', '' '']"]
  by (simp add: sample_norm entry_cues_def sample_memory_row_def sample_codec_def)

lemma sample_exact: "exact_cue sample_codec (strip ''cup'') sample_memory_row"
  unfolding exact_cue_def sample_cues by (simp add: sample_codec_def sample_eval)

lemma search_index_mirrors_witness:
  "mset (mm_search stored_sample) = mset (map (indexed_row sample_codec) (mm_entries stored_sample))"
  using search_index_mirrors [OF sample_codec_ok sample_reach] by simp

lemma recall_own_and_bounded_witness:
  "length (recall_entries sample_codec sample_answers ''u'' (Some ''cup'') 0 stored_sample) \<le> 1"
  using recall_own_and_bounded [OF sample_reach [of False], of sample_answers "''u''" "Some ''cup''" 0] by simp

lemma exact_cue_recalled_witness:
  "\<exists>r\<in>set (recall_entries sample_codec sample_answers ''u'' (Some ''cup'') 10 stored_sample). rc_id r = 1 \<and> rc_value r = ''green''"
proof -
  have "query_words (strip ''cup'') \<noteq> []" by (simp add: query_words_def sample_eval)
  then show ?thesis
    using exact_cue_recalled [OF sample_reach [of False], of sample_answers "''cup''" sample_memory_row "''u''" 10] sample_exact
    by (simp add: stored_sample_def memory_empty_def sample_answers_def sample_memory_row_def by_user_def)
qed

lemma sample_update:
  "\<exists>m'. store_entry sample_codec 6 FtsDeleteFails ''u'' ''  tea '' ''green '' [''Mug''] stored_sample = Inr m'"
  by (simp add: store_entry_def sample_norm find_entry_def stored_sample_def sample_memory_row_def Let_def)

lemma sample_find: "find_entry ''u'' (normalize_abstraction ''  tea '') stored_sample = Some sample_memory_row"
  by (simp add: find_entry_def sample_norm stored_sample_def sample_memory_row_def)

lemma sample_union: "union_cues (map ascii_lower) [''Cup''] [''Mug''] = [''Cup'', ''Mug'']"
  by (simp add: union_cues_def sample_eval)

lemma store_merges_one_entry_witness:
  "\<exists>m' e' new. find_entry ''u'' ''tea'' m' = Some e' \<and> me_id e' = 1 \<and> entry_cues sample_codec e' = ''Cup'' # new \<and>
     (''mug'' \<in> map ascii_lower ` set (entry_cues sample_codec e') \<or> length (entry_cues sample_codec e') = 16)"
proof -
  obtain m' where run: "store_entry sample_codec 6 FtsDeleteFails ''u'' ''  tea '' ''green '' [''Mug''] stored_sample = Inr m'"
    using sample_update by blast
  have ok: "memory_ok stored_sample" by (rule memory.reach_inv [OF sample_reach])
  have mug: "tidy_text MAX_CUE_LEN ''Mug'' = ''Mug''" "cc_fold sample_codec = map ascii_lower"
      "map ascii_lower ''Mug'' = ''mug''"
    by (simp_all add: tidy_text_def sample_eval sample_codec_def)
  have id: "me_id sample_memory_row = 1" by (simp add: sample_memory_row_def)
  have find: "find_entry ''u'' ''tea'' stored_sample = Some sample_memory_row" using sample_find by (simp add: sample_norm)
  have raw: "''Mug'' \<in> set [''Mug'']" by simp
  obtain e' where e': "find_entry ''u'' ''tea'' m' = Some e'"
      "me_id e' = 1" "\<exists>new. entry_cues sample_codec e' = [''Cup''] @ new"
    and added: "\<forall>raw\<in>set [''Mug'']. tidy_text MAX_CUE_LEN raw \<noteq> [] \<longrightarrow>
       cc_fold sample_codec (tidy_text MAX_CUE_LEN raw) \<in> cc_fold sample_codec ` set (entry_cues sample_codec e') \<or>
       length (entry_cues sample_codec e') = MAX_CUES"
    using store_merges_one_entry [OF sample_codec_ok ok run]
    unfolding sample_norm(1) find option.case sample_cues id by blast
  from bspec [OF added raw] have "''mug'' \<in> map ascii_lower ` set (entry_cues sample_codec e') \<or>
      length (entry_cues sample_codec e') = MAX_CUES"
    unfolding mug by simp
  moreover obtain new where "entry_cues sample_codec e' = ''Cup'' # new" using e'(3) by auto
  ultimately show ?thesis
    using e'(1,2) unfolding MAX_CUES_def by (intro exI [of _ m'] exI [of _ e'] exI [of _ new] conjI)
qed

lemma stale_index_survives_restart_witness:
  "\<exists>m. mm_fts_ok m \<and> indexed_row sample_codec sample_memory_row \<in> set (mm_search m) \<and>
     (\<exists>e. find_entry ''u'' ''tea'' m = Some e \<and> entry_cues sample_codec e = [''Cup'', ''Mug''])"
proof -
  obtain m' where run: "store_entry sample_codec 6 FtsDeleteFails ''u'' ''  tea '' ''green '' [''Mug''] stored_sample = Inr m'"
    using sample_update by blast
  have "cc_fold sample_codec = map ascii_lower" by (simp add: sample_codec_def)
  then show ?thesis
    using stale_index_survives_restart [OF sample_codec_ok sample_reach sample_find run, of None] sample_union
    unfolding sample_cues sample_norm by (auto simp: sample_norm)
qed

end
