(* ===== verification/UserMerge.thy ===== *)
theory UserMerge
  imports Users ChatStore ContextStore MemoryStore "HOL-Library.Multiset"
begin

text \<open>
  The merge of two users and the migration to canonical ids (\<open>merge_web_user\<close>, \<open>migrate_canonical_ids\<close> and their
  helpers in \<open>users/manager.py\<close>), over the accounts of Users, the workspace directories, and the tables of
  \<open>memory.db\<close>: the memory entries with their search index, the chat tables of ChatStore and the context table of
  ContextStore.

  A directory of workspaces is a dictionary from directory names to directories, a directory a dictionary from names
  to contents of any type. What the operating system answers is a record \<open>disk\<close>: \<open>exists()\<close> follows symbolic links,
  so it may deny a name that is there, and a directory cannot be made, an item not moved, an empty directory not removed.
  Moving renames within one file system: it replaces a link of the new name, and when it fails, nothing has changed.
  A table that may be missing is an option. \<open>cues_text\<close> is the search text of stored cues.
\<close>

section \<open>Workspace directories\<close>

datatype merge_error = AccountError user_error | NoConflictPath | MoveFailed | NoSuchTable | ConstraintViolated

text \<open>\<open>dk_exists\<close>: \<open>exists()\<close> of a name that is in the target, given what is left in the source and what is in the
  target (the links may point there); \<open>dk_moves\<close>: whether the move with the given number works.\<close>

record 'c disk =
  dk_exists :: "(string, 'c) pydict \<Rightarrow> (string, 'c) pydict \<Rightarrow> string \<Rightarrow> bool"
  dk_mkdir :: bool
  dk_moves :: "nat \<Rightarrow> bool"
  dk_rmdir :: bool

definition existing :: "'c disk \<Rightarrow> (string, 'c) pydict \<Rightarrow> (string, 'c) pydict \<Rightarrow> string set" where
  "existing dk items target = set (filter (dk_exists dk items target) (dkeys target))"

definition conflict_candidates :: "string \<Rightarrow> string list" where
  "conflict_candidates name = map (\<lambda>i. name @ ''.'' @ nat_str i) [2..<10000]"

definition conflict_name :: "string set \<Rightarrow> string \<Rightarrow> string option" where
  "conflict_name used name =
     (if name \<notin> used then Some name else find (\<lambda>n. n \<notin> used) (conflict_candidates name))"

text \<open>The items move one after the other; on an error those moved so far stay moved.\<close>

fun move_items ::
    "'c disk \<Rightarrow> string \<Rightarrow> (string, 'c) pydict \<Rightarrow> (string, 'c) pydict \<Rightarrow> nat \<Rightarrow>
     (string, 'c) pydict \<times> (string, 'c) pydict \<times> nat \<times> merge_error option" where
  "move_items dk source_id [] target moved = ([], target, moved, None)"
| "move_items dk source_id ((name, content) # items) target moved =
     (let used = existing dk ((name, content) # items) target in
      case (if name \<notin> used then Some name else conflict_name used (name @ ''.from_user_'' @ source_id)) of
        None \<Rightarrow> ((name, content) # items, target, moved, Some NoConflictPath)
      | Some destination \<Rightarrow>
          if \<not> dk_moves dk moved then ((name, content) # items, target, moved, Some MoveFailed)
          else move_items dk source_id items (dput destination content target) (Suc moved))"

definition workspace_dir :: "string \<Rightarrow> string" where
  "workspace_dir key = ''user_'' @ key"

type_synonym 'c workspaces = "(string, (string, 'c) pydict) pydict"

definition merge_workspace ::
    "'c disk \<Rightarrow> string \<Rightarrow> string \<Rightarrow> int \<Rightarrow> 'c workspaces \<Rightarrow> 'c workspaces \<times> (merge_error + nat)" where
  "merge_workspace dk source_key target_key source_id ws =
     (let source = workspace_dir source_key; target = workspace_dir target_key in
      if source = target then (ws, Inr 0)
      else case dget ws source of
        None \<Rightarrow> (ws, Inr 0)
      | Some items \<Rightarrow>
          if \<not> dk_mkdir dk then (ws, Inl MoveFailed)
          else
            (case move_items dk (int_str source_id) items (case dget ws target of None \<Rightarrow> [] | Some d \<Rightarrow> d) 0 of
               (rest, target', moved, None) \<Rightarrow>
                 (if dk_rmdir dk then dpop source (dput target target' ws)
                  else dput source rest (dput target target' ws), Inr moved)
             | (rest, target', moved, Some e) \<Rightarrow> (dput source rest (dput target target' ws), Inl e)))"

section \<open>The tables of memory.db\<close>

text \<open>The legacy tables \<open>messages\<close> (the owners of its rows) and \<open>memory_facts\<close> (owner and key).\<close>

record memory_db =
  md_messages :: "string list option"
  md_facts :: "(string \<times> string) list option"
  md_entries :: "memory_entry list option"
  md_search :: "search_row list option"
  md_chat :: "chat_store option"
  md_context :: context_table

definition move_facts :: "string \<Rightarrow> string \<Rightarrow> (string \<times> string) list \<Rightarrow> (string \<times> string) list \<times> nat" where
  "move_facts source target fs =
     (let moves = (\<lambda>f. fst f = source \<and> (target, snd f) \<notin> set fs) in
      (filter (\<lambda>f. fst f \<noteq> source) (map (\<lambda>f. if moves f then (target, snd f) else f) fs), length (filter moves fs)))"

definition entry_moves :: "string \<Rightarrow> string \<Rightarrow> memory_entry list \<Rightarrow> memory_entry \<Rightarrow> bool" where
  "entry_moves source target es e \<longleftrightarrow>
     me_user e = source \<and> (\<forall>x\<in>set es. me_user x = target \<longrightarrow> me_abstraction x \<noteq> me_abstraction e)"

definition move_entries :: "string \<Rightarrow> string \<Rightarrow> memory_entry list \<Rightarrow> memory_entry list \<times> nat" where
  "move_entries source target es =
     (filter (\<lambda>e. me_user e \<noteq> source)
        (map (\<lambda>e. if entry_moves source target es e then e\<lparr>me_user := target\<rparr> else e) es),
      length (filter (entry_moves source target es) es))"

definition search_row_of :: "(string \<Rightarrow> string) \<Rightarrow> memory_entry \<Rightarrow> search_row" where
  "search_row_of cues_text e =
     \<lparr>sr_id = me_id e, sr_user = me_user e, sr_abstraction = me_abstraction e, sr_cues = cues_text (me_cues e)\<rparr>"

definition reindex :: "(string \<Rightarrow> string) \<Rightarrow> string \<Rightarrow> string \<Rightarrow> memory_entry list \<Rightarrow> search_row list \<Rightarrow> search_row list" where
  "reindex cues_text source target es rows =
     fold (\<lambda>e rs. filter (\<lambda>r. sr_id r \<noteq> me_id e) rs @ [search_row_of cues_text e])
       (filter (\<lambda>e. me_user e = target) es) (filter (\<lambda>r. sr_user r \<noteq> source) rows)"

text \<open>The chat tables: the open sessions of the source are closed first when the target has one. The partial
  unique index on the open sessions is checked.\<close>

definition move_chat :: "int \<Rightarrow> string \<Rightarrow> string \<Rightarrow> chat_store \<Rightarrow> chat_store option" where
  "move_chat now source target c =
     (let c1 = (if \<exists>x\<in>set (sessions c). cs_user x = target \<and> is_open x
                then map_sessions (\<lambda>x. cs_user x = source \<and> is_open x)
                       (\<lambda>x. x\<lparr>cs_ended := Some now, cs_reset_reason := Some (''merged_into_user_'' @ target)\<rparr>) c
                else c);
          c2 = map_sessions (\<lambda>x. cs_user x = source) (\<lambda>x. x\<lparr>cs_user := target\<rparr>) c1
      in if one_open (sessions c2)
         then Some (c2\<lparr>messages := map (\<lambda>m. if cm_user m = source then m\<lparr>cm_user := target\<rparr> else m) (messages c2)\<rparr>)
         else None)"

text \<open>\<open>_merge_memory\<close>, one transaction: the numbers of moved legacy messages and facts. Neither the context table
  nor the pins are touched.\<close>

definition merge_memory ::
    "int \<Rightarrow> (string \<Rightarrow> string) \<Rightarrow> string \<Rightarrow> string \<Rightarrow> memory_db option \<Rightarrow>
     memory_db option \<times> (merge_error + nat \<times> nat)" where
  "merge_memory now cues_text source target file =
     (case file of
        None \<Rightarrow> (file, Inr (0, 0))
      | Some m \<Rightarrow>
          if source = target then (file, Inr (0, 0))
          else
            let moved_messages = (case md_messages m of None \<Rightarrow> 0 | Some os \<Rightarrow> count_list os source);
                m1 = m\<lparr>md_messages := map_option (map (\<lambda>u. if u = source then target else u)) (md_messages m)\<rparr>;
                facts =
                  (case md_entries m1 of
                     Some es \<Rightarrow>
                       let es' = fst (move_entries source target es) in
                       Some (m1\<lparr>md_entries := Some es',
                                md_search := map_option (reindex cues_text source target es') (md_search m1)\<rparr>,
                             snd (move_entries source target es))
                   | None \<Rightarrow>
                       (case md_facts m1 of
                          None \<Rightarrow> None
                        | Some fs \<Rightarrow> Some (m1\<lparr>md_facts := Some (fst (move_facts source target fs))\<rparr>,
                                          snd (move_facts source target fs))))
            in (case facts of
                  None \<Rightarrow> (file, Inl NoSuchTable)
                | Some (m2, moved_facts) \<Rightarrow>
                    (case md_chat m2 of
                       None \<Rightarrow> (Some m2, Inr (moved_messages, moved_facts))
                     | Some c \<Rightarrow>
                         (case move_chat now source target c of
                            None \<Rightarrow> (file, Inl ConstraintViolated)
                          | Some c' \<Rightarrow> (Some (m2\<lparr>md_chat := Some c'\<rparr>), Inr (moved_messages, moved_facts))))))"

section \<open>The merge\<close>

record 'c merge_state =
  ms_db :: users_db
  ms_workspaces :: "'c workspaces option"
  ms_memory :: "memory_db option option"

record merge_counts =
  mc_items :: nat
  mc_messages :: nat
  mc_facts :: nat

text \<open>\<open>None\<close> for the workspaces or the memory: the caller passed no path. Each component of the state is
  committed when its step is done; an error ends the merge there.\<close>

definition merge_files :: "'c disk \<Rightarrow> user \<Rightarrow> user \<Rightarrow> 'c merge_state \<Rightarrow> 'c merge_state \<times> (merge_error + nat)" where
  "merge_files dk source target s =
     (case ms_workspaces s of
        None \<Rightarrow> (s, Inr 0)
      | Some ws \<Rightarrow>
          (case merge_workspace dk (workspace_key source) (workspace_key target) (u_id source) ws of
             (ws', r) \<Rightarrow> (s\<lparr>ms_workspaces := Some ws'\<rparr>, r)))"

definition merge_records ::
    "int \<Rightarrow> (string \<Rightarrow> string) \<Rightarrow> user \<Rightarrow> user \<Rightarrow> 'c merge_state \<Rightarrow> 'c merge_state \<times> (merge_error + nat \<times> nat)" where
  "merge_records now cues_text source target s =
     (case ms_memory s of
        None \<Rightarrow> (s, Inr (0, 0))
      | Some file \<Rightarrow>
          (case merge_memory now cues_text (memory_key source) (memory_key target) file of
             (file', r) \<Rightarrow> (s\<lparr>ms_memory := Some file'\<rparr>, r)))"

definition merge_web_user ::
    "'c disk \<Rightarrow> int \<Rightarrow> (string \<Rightarrow> string) \<Rightarrow> int \<Rightarrow> int \<Rightarrow> 'c merge_state \<Rightarrow> 'c merge_state \<times> (merge_error + merge_counts)" where
  "merge_web_user dk now cues_text source target s =
     (case merge_credentials source target (ms_db s) of
        Inl e \<Rightarrow> (s, Inl (AccountError e))
      | Inr db \<Rightarrow>
          let s1 = s\<lparr>ms_db := db\<rparr> in
          (case (get_by_id source db, get_by_id target db) of
             (Some su, Some tu) \<Rightarrow>
               (case merge_files dk su tu s1 of
                  (s2, Inl e) \<Rightarrow> (s2, Inl e)
                | (s2, Inr items) \<Rightarrow>
                    (case merge_records now cues_text su tu s2 of
                       (s3, Inl e) \<Rightarrow> (s3, Inl e)
                     | (s3, Inr (ms, fs)) \<Rightarrow>
                         (s3\<lparr>ms_db := merge_disable source (ms_db s3)\<rparr>,
                          Inr \<lparr>mc_items = items, mc_messages = ms, mc_facts = fs\<rparr>)))
           | _ \<Rightarrow> (s1, Inl (AccountError ReloadFailed))))"

section \<open>The migration to canonical ids\<close>

text \<open>\<open>onboarding\<close> is the table of onboarding states by user id (\<open>None\<close>: no such table), \<open>bootstrap\<close> the directory
  of the users' files.\<close>

definition migrate_onboarding :: "int \<Rightarrow> int \<Rightarrow> (int, 'v) pydict option \<Rightarrow> (int, 'v) pydict option \<times> nat" where
  "migrate_onboarding legacy canonical t =
     (if legacy = canonical then (t, 0)
      else case t of
        None \<Rightarrow> (t, 0)
      | Some d \<Rightarrow>
          (case dget d legacy of
             None \<Rightarrow> (t, 0)
           | Some v \<Rightarrow>
               (Some (if dget d canonical = None
                      then map (\<lambda>(k, x). (if k = legacy then canonical else k, x)) d
                      else dpop legacy d), 1)))"

definition migrate_bootstrap ::
    "'c disk \<Rightarrow> string \<Rightarrow> string \<Rightarrow> (string, 'c) pydict \<Rightarrow> (string, 'c) pydict \<times> (merge_error + nat)" where
  "migrate_bootstrap dk legacy canonical dir =
     (if legacy = canonical then (dir, Inr 0)
      else case dget dir (legacy @ ''.md'') of
        None \<Rightarrow> (dir, Inr 0)
      | Some content \<Rightarrow>
          let used = existing dk [] dir in
          if legacy @ ''.md'' \<notin> used then (dir, Inr 0)
          else
            (case (if canonical @ ''.md'' \<notin> used then Some (canonical @ ''.md'')
                   else conflict_name used (canonical @ ''.from_telegram_'' @ legacy @ ''.md'')) of
               None \<Rightarrow> (dir, Inl NoConflictPath)
             | Some destination \<Rightarrow>
                 if \<not> dk_moves dk 0 then (dir, Inl MoveFailed)
                 else (dput destination content (dpop (legacy @ ''.md'') dir), Inr 1)))"

record ('c, 'v) migration =
  mg_workspaces :: "'c workspaces option"
  mg_memory :: "memory_db option option"
  mg_onboarding :: "(int, 'v) pydict option"
  mg_bootstrap :: "(string, 'c) pydict option"

record migration_counts =
  gc_workspaces :: nat
  gc_messages :: nat
  gc_facts :: nat
  gc_onboarding :: nat
  gc_bootstrap :: nat

text \<open>\<open>wd\<close> and \<open>bd\<close> are the disk of the workspaces and of the users' files, for each user.\<close>

definition migrate_user ::
    "(int \<Rightarrow> 'c disk) \<Rightarrow> (int \<Rightarrow> 'c disk) \<Rightarrow> int \<Rightarrow> (string \<Rightarrow> string) \<Rightarrow> user \<Rightarrow> ('c, 'v) migration \<times> migration_counts \<Rightarrow>
     ('c, 'v) migration \<times> (merge_error + migration_counts)" where
  "migrate_user wd bd now cues_text u st =
     (let (g, n) = st; tg = (case u_telegram u of None \<Rightarrow> 0 | Some t \<Rightarrow> t); legacy = int_str tg; canonical = int_str (u_id u) in
      if legacy = canonical then (g, Inr n)
      else
        (case (case mg_workspaces g of
                 None \<Rightarrow> (g, Inr 0)
               | Some ws \<Rightarrow> (case merge_workspace (wd (u_id u)) legacy canonical tg ws of (ws', r) \<Rightarrow> (g\<lparr>mg_workspaces := Some ws'\<rparr>, r))) of
           (g1, Inl e) \<Rightarrow> (g1, Inl e)
         | (g1, Inr w) \<Rightarrow>
             (case (case mg_memory g1 of
                      None \<Rightarrow> (g1, Inr (0, 0))
                    | Some file \<Rightarrow>
                        (case merge_memory now cues_text legacy canonical file of
                           (file', r) \<Rightarrow> (g1\<lparr>mg_memory := Some file'\<rparr>, r))) of
                (g2, Inl e) \<Rightarrow> (g2, Inl e)
              | (g2, Inr (m, f)) \<Rightarrow>
                  let (t', k) = migrate_onboarding tg (u_id u) (mg_onboarding g2); g3 = g2\<lparr>mg_onboarding := t'\<rparr> in
                  (case (case mg_bootstrap g3 of
                           None \<Rightarrow> (g3, Inr 0)
                         | Some dir \<Rightarrow>
                             (case migrate_bootstrap (bd (u_id u)) legacy canonical dir of
                                (dir', r) \<Rightarrow> (g3\<lparr>mg_bootstrap := Some dir'\<rparr>, r))) of
                     (g4, Inl e) \<Rightarrow> (g4, Inl e)
                   | (g4, Inr b) \<Rightarrow>
                       (g4, Inr \<lparr>gc_workspaces = gc_workspaces n + w, gc_messages = gc_messages n + m,
                                 gc_facts = gc_facts n + f, gc_onboarding = gc_onboarding n + k,
                                 gc_bootstrap = gc_bootstrap n + b\<rparr>)))))"

fun migrate_users ::
    "(int \<Rightarrow> 'c disk) \<Rightarrow> (int \<Rightarrow> 'c disk) \<Rightarrow> int \<Rightarrow> (string \<Rightarrow> string) \<Rightarrow> user list \<Rightarrow> ('c, 'v) migration \<times> migration_counts \<Rightarrow>
     ('c, 'v) migration \<times> (merge_error + migration_counts)" where
  "migrate_users wd bd now cues_text [] (g, n) = (g, Inr n)"
| "migrate_users wd bd now cues_text (u # us) (g, n) =
     (case migrate_user wd bd now cues_text u (g, n) of
        (g', Inl e) \<Rightarrow> (g', Inl e)
      | (g', Inr n') \<Rightarrow> migrate_users wd bd now cues_text us (g', n'))"

text \<open>The number of users is part of the result.\<close>

definition migrate_canonical_ids ::
    "(int \<Rightarrow> 'c disk) \<Rightarrow> (int \<Rightarrow> 'c disk) \<Rightarrow> int \<Rightarrow> (string \<Rightarrow> string) \<Rightarrow> users_db \<Rightarrow> ('c, 'v) migration \<Rightarrow>
     ('c, 'v) migration \<times> (merge_error + nat \<times> migration_counts)" where
  "migrate_canonical_ids wd bd now cues_text db g =
     (let us = filter (\<lambda>u. u_telegram u \<noteq> None) (list_users db) in
      case migrate_users wd bd now cues_text us
             (g, \<lparr>gc_workspaces = 0, gc_messages = 0, gc_facts = 0, gc_onboarding = 0, gc_bootstrap = 0\<rparr>) of
        (g', Inl e) \<Rightarrow> (g', Inl e)
      | (g', Inr n) \<Rightarrow> (g', Inr (length us, n)))"

section \<open>Files are not lost\<close>

lemma conflict_name_unused: "conflict_name used name = Some n \<Longrightarrow> n \<notin> used"
  by (auto simp: conflict_name_def split: if_splits dest: find_some)

text \<open>A name that \<open>exists()\<close> denies although it is there belongs to a link that leads nowhere.\<close>

definition only_links_vanish :: "('c \<Rightarrow> bool) \<Rightarrow> 'c disk \<Rightarrow> bool" where
  "only_links_vanish link dk \<longleftrightarrow>
     (\<forall>items target name c. dget target name = Some c \<longrightarrow> \<not> dk_exists dk items target name \<longrightarrow> link c)"

lemma mset_dput:
  "mset (map snd (dput k v d)) + (case dget d k of None \<Rightarrow> {#} | Some c \<Rightarrow> {#c#}) = add_mset v (mset (map snd d))"
  by (induction d) (auto simp: dict_rec)

lemma free_destination:
  assumes "n \<notin> existing dk items target" "only_links_vanish link dk" "dget target n = Some c"
  shows "link c"
proof -
  have "n \<in> set (dkeys target)" using assms(3) dget_iff_keys [of target n] by simp
  then have "\<not> dk_exists dk items target n" using assms(1) by (simp add: existing_def)
  then show ?thesis using assms(2,3) unfolding only_links_vanish_def by blast
qed

lemma move_items_spec:
  assumes "move_items dk sid items target k = (rest, target', moved, e)" and links: "only_links_vanish link dk"
  shows "filter_mset (\<lambda>c. \<not> link c) (mset (map snd rest) + mset (map snd target')) =
      filter_mset (\<lambda>c. \<not> link c) (mset (map snd items) + mset (map snd target))"
    and "mset (map snd rest) + mset (map snd target') \<subseteq># mset (map snd items) + mset (map snd target)"
    and "dget target name = Some c \<Longrightarrow> \<not> link c \<Longrightarrow> dget target' name = Some c"
    and "e = None \<Longrightarrow> rest = [] \<and> moved = k + length items"
    and "e \<in> {None, Some NoConflictPath, Some MoveFailed}"
proof -
  let ?n = "filter_mset (\<lambda>c. \<not> link c)"
  have "?n (mset (map snd rest) + mset (map snd target')) = ?n (mset (map snd items) + mset (map snd target)) \<and>
    mset (map snd rest) + mset (map snd target') \<subseteq># mset (map snd items) + mset (map snd target) \<and>
    (\<forall>name c. dget target name = Some c \<longrightarrow> \<not> link c \<longrightarrow> dget target' name = Some c) \<and>
    (e = None \<longrightarrow> rest = [] \<and> moved = k + length items) \<and> e \<in> {None, Some NoConflictPath, Some MoveFailed}"
    using assms(1)
  proof (induction items arbitrary: target k)
    case (Cons item items)
    obtain name content where item: "item = (name, content)" by (cases item)
    define used where "used = existing dk ((name, content) # items) target"
    define d where "d = (if name \<notin> used then Some name else conflict_name used (name @ ''.from_user_'' @ sid))"
    note run = Cons(2) [unfolded item move_items.simps Let_def, folded used_def, folded d_def]
    show ?case
    proof (cases "d = None \<or> \<not> dk_moves dk k")
      case True
      then show ?thesis using run by (auto simp: item split: option.splits)
    next
      case False
      then obtain n where n: "d = Some n" and m: "dk_moves dk k" by auto
      have "n \<notin> used" using n conflict_name_unused by (auto simp: d_def split: if_splits)
      then have free: "link c" if "dget target n = Some c" for c
        using free_destination [OF _ links that] by (simp add: used_def)
      define t1 where "t1 = dput n content target"
      have run1: "move_items dk sid items t1 (Suc k) = (rest, target', moved, e)"
        using run n m by (simp add: t1_def)
      note ih = Cons.IH [OF run1]
      have m1: "mset (map snd t1) + (case dget target n of None \<Rightarrow> {#} | Some c \<Rightarrow> {#c#}) = add_mset content (mset (map snd target))"
        unfolding t1_def by (rule mset_dput)
      have n1: "?n (mset (map snd t1)) = ?n (add_mset content (mset (map snd target)))"
        unfolding m1 [symmetric] using free by (auto split: option.split)
      have s1: "mset (map snd t1) \<subseteq># add_mset content (mset (map snd target))"
        unfolding m1 [symmetric] by simp
      have keep: "dget t1 nm = Some c" if "dget target nm = Some c" "\<not> link c" for nm c
        using that free by (auto simp: t1_def dget_dput)
      have "?n (mset (map snd rest) + mset (map snd target')) = ?n (mset (map snd items)) + ?n (mset (map snd t1))"
        using ih by simp
      also have "\<dots> = ?n (mset (map snd (item # items)) + mset (map snd target))"
        unfolding n1 item by simp
      finally have 1: "?n (mset (map snd rest) + mset (map snd target')) = ?n (mset (map snd (item # items)) + mset (map snd target))" .
      have "mset (map snd items) + mset (map snd t1) \<subseteq># mset (map snd items) + add_mset content (mset (map snd target))"
        using s1 by simp
      then have 2: "mset (map snd rest) + mset (map snd target') \<subseteq># mset (map snd (item # items)) + mset (map snd target)"
        using subset_mset.trans [OF conjunct1 [OF conjunct2 [OF ih]]] by (simp add: item)
      show ?thesis using 1 2 ih keep by auto
    qed
  qed simp
  then show "?n (mset (map snd rest) + mset (map snd target')) = ?n (mset (map snd items) + mset (map snd target))"
    and "mset (map snd rest) + mset (map snd target') \<subseteq># mset (map snd items) + mset (map snd target)"
    and "dget target name = Some c \<Longrightarrow> \<not> link c \<Longrightarrow> dget target' name = Some c"
    and "e = None \<Longrightarrow> rest = [] \<and> moved = k + length items"
    and "e \<in> {None, Some NoConflictPath, Some MoveFailed}" by blast+
qed

text \<open>All contents of a directory of workspaces.\<close>

definition all_contents :: "'c workspaces \<Rightarrow> 'c multiset" where
  "all_contents ws = mset (concat (map (\<lambda>d. map snd (snd d)) ws))"

lemma all_contents_dput:
  "all_contents (dput k d ws) + mset (case dget ws k of None \<Rightarrow> [] | Some old \<Rightarrow> map snd old) =
   all_contents ws + mset (map snd d)"
  by (induction ws) (auto simp: all_contents_def dict_rec)

lemma all_contents_dpop:
  "distinct (dkeys ws) \<Longrightarrow>
   all_contents (dpop k ws) + mset (case dget ws k of None \<Rightarrow> [] | Some old \<Rightarrow> map snd old) = all_contents ws"
  by (induction ws) (auto simp: all_contents_def dict_rec dpop_notin)


section \<open>Chats move as a whole\<close>

definition new_owner :: "string \<Rightarrow> string \<Rightarrow> string \<Rightarrow> string" where
  "new_owner source target u = (if u = source then target else u)"

definition moved_session :: "string \<Rightarrow> string \<Rightarrow> chat_session \<Rightarrow> chat_session" where
  "moved_session source target x = (if cs_user x = source then x\<lparr>cs_user := target\<rparr> else x)"

definition moved_message :: "string \<Rightarrow> string \<Rightarrow> chat_message \<Rightarrow> chat_message" where
  "moved_message source target m = (if cm_user m = source then m\<lparr>cm_user := target\<rparr> else m)"

definition closed_for :: "int \<Rightarrow> string \<Rightarrow> string \<Rightarrow> chat_store \<Rightarrow> chat_store" where
  "closed_for now source target c =
     (if \<exists>x\<in>set (sessions c). cs_user x = target \<and> is_open x
      then map_sessions (\<lambda>x. cs_user x = source \<and> is_open x)
             (\<lambda>x. x\<lparr>cs_ended := Some now, cs_reset_reason := Some (''merged_into_user_'' @ target)\<rparr>) c
      else c)"

lemma moved_session_simps [simp]:
  "cs_id (moved_session s t x) = cs_id x" "cs_user (moved_session s t x) = new_owner s t (cs_user x)"
  "cs_channel (moved_session s t x) = cs_channel x" "is_open (moved_session s t x) = is_open x"
  by (simp_all add: moved_session_def new_owner_def is_open_def)

lemma moved_message_simps [simp]:
  "cm_id (moved_message s t m) = cm_id m" "cm_user (moved_message s t m) = new_owner s t (cm_user m)"
  "cm_session (moved_message s t m) = cm_session m" "cm_content (moved_message s t m) = cm_content m"
  by (simp_all add: moved_message_def new_owner_def)

lemma closed_for_inv: "chat_inv c \<Longrightarrow> chat_inv (closed_for now source target c)"
  by (auto simp: closed_for_def is_open_def intro!: chat_inv_shrink)

lemma closed_for_messages [simp]:
  "messages (closed_for now source target c) = messages c" "next_message (closed_for now source target c) = next_message c"
  "next_session (closed_for now source target c) = next_session c"
  by (simp_all add: closed_for_def)

lemma not_both_open:
  assumes "x \<in> set (sessions (closed_for now source target c))" "y \<in> set (sessions (closed_for now source target c))"
    and "source \<noteq> target" "cs_user x = source" "is_open x" "cs_user y = target" "is_open y"
  shows False
proof (cases "\<exists>x\<in>set (sessions c). cs_user x = target \<and> is_open x")
  case True
  then obtain z where z: "z \<in> set (sessions c)"
      "x = (if cs_user z = source \<and> is_open z
            then z\<lparr>cs_ended := Some now, cs_reset_reason := Some (''merged_into_user_'' @ target)\<rparr> else z)"
    using assms(1) by (auto simp: closed_for_def)
  with assms(4,5) show ?thesis by (auto simp: is_open_def split: if_splits)
next
  case False
  with assms(2,6,7) show ?thesis by (auto simp: closed_for_def)
qed

lemma one_open_moved:
  assumes inv: "chat_inv c" and ne: "source \<noteq> target"
  shows "one_open (map (moved_session source target) (sessions (closed_for now source target c)))"
  unfolding one_open_def set_map
proof (intro ballI impI, elim imageE)
  let ?d = "closed_for now source target c"
  fix x' y' x y
  assume a: "is_open x'" "is_open y'" "cs_user x' = cs_user y'" "cs_channel x' = cs_channel y'"
    "x' = moved_session source target x" "y' = moved_session source target y"
    and xy: "x \<in> set (sessions ?d)" "y \<in> set (sessions ?d)"
  have o: "is_open x" "is_open y" "cs_channel x = cs_channel y"
    and u: "new_owner source target (cs_user x) = new_owner source target (cs_user y)"
    using a by simp_all
  have "cs_user x = cs_user y"
  proof (rule ccontr)
    assume "cs_user x \<noteq> cs_user y"
    with u consider "cs_user x = source" "cs_user y = target" | "cs_user x = target" "cs_user y = source"
      by (auto simp: new_owner_def split: if_splits)
    then show False
      using not_both_open [OF xy ne] not_both_open [OF xy(2,1) ne] o by cases blast+
  qed
  then have "x = y"
    using one_openD [OF chat_invD(2) [OF closed_for_inv [OF inv]] xy] o by blast
  then show "x' = y'" using a by simp
qed

text \<open>The move never violates the index of the open sessions, and keeps the invariant of the chat store.\<close>

lemma move_chat_spec:
  assumes inv: "chat_inv c" and ne: "source \<noteq> target"
  shows "\<exists>c'. move_chat now source target c = Some c' \<and> chat_inv c' \<and>
    messages c' = map (moved_message source target) (messages c) \<and>
    sessions c' = map (moved_session source target) (sessions (closed_for now source target c))"
proof -
  define d where "d = closed_for now source target c"
  have d: "chat_inv d" unfolding d_def by (rule closed_for_inv [OF inv])
  define c2 where "c2 = map_sessions (\<lambda>x. cs_user x = source) (\<lambda>x. x\<lparr>cs_user := target\<rparr>) d"
  have ss: "sessions c2 = map (moved_session source target) (sessions d)"
    by (simp add: c2_def moved_session_def [abs_def])
  have open2: "one_open (sessions c2)"
    unfolding ss d_def by (rule one_open_moved [OF inv ne])
  define c' where "c' = c2\<lparr>messages := map (moved_message source target) (messages c)\<rparr>"
  have "move_chat now source target c =
      (if one_open (sessions c2)
       then Some (c2\<lparr>messages := map (\<lambda>m. if cm_user m = source then m\<lparr>cm_user := target\<rparr> else m) (messages c2)\<rparr>)
       else None)"
    by (simp add: move_chat_def Let_def c2_def d_def closed_for_def)
  moreover have "messages c2 = messages c" by (simp add: c2_def d_def)
  ultimately have res: "move_chat now source target c = Some c'"
    using open2 by (simp add: c'_def moved_message_def [abs_def])
  have "ids_ok (map (moved_session source target) (sessions d)) (next_session d)"
    using chat_invD(1) [OF d] by (simp add: ids_ok_def comp_def)
  moreover have "msgs_ok (map (moved_message source target) (messages c)) (next_message c)"
    using chat_invD(3) [OF inv] by (simp add: msgs_ok_def comp_def)
  moreover have "owned_ok (map (moved_session source target) (sessions d)) (map (moved_message source target) (messages c))"
    using chat_invD(4) [OF d] by (force simp: owned_ok_def d_def)
  ultimately have "chat_inv c'"
    using open2 by (simp add: chat_inv_def c'_def ss) (simp add: c2_def d_def)
  with res show ?thesis by (auto simp: c'_def ss d_def)
qed

section \<open>Memory entries move without duplicates\<close>

definition entries_ok :: "memory_entry list \<Rightarrow> bool" where
  "entries_ok es \<longleftrightarrow> distinct (map me_id es) \<and>
     (\<forall>e\<in>set es. \<forall>x\<in>set es. me_user e = me_user x \<and> me_abstraction e = me_abstraction x \<longrightarrow> e = x)"

text \<open>What an entry becomes: it stays, moves to the target, or is dropped because the target has its own.\<close>

definition entry_after :: "string \<Rightarrow> string \<Rightarrow> memory_entry list \<Rightarrow> memory_entry \<Rightarrow> memory_entry option" where
  "entry_after source target es e =
     (if me_user e \<noteq> source then Some e
      else if entry_moves source target es e then Some (e\<lparr>me_user := target\<rparr>) else None)"

lemma moves_only_source: "entry_moves source target es e \<Longrightarrow> me_user e = source"
  by (simp add: entry_moves_def)

lemma move_entries_filter:
  assumes "source \<noteq> target"
  shows "filter (\<lambda>e. me_user e \<noteq> source) (map (\<lambda>e. if entry_moves source target E e then e\<lparr>me_user := target\<rparr> else e) es) =
    List.map_filter (entry_after source target E) es"
  using assms
  by (induction es) (auto simp: entry_after_def List.map_filter_simps moves_only_source)

lemma set_map_filter_iff: "y \<in> set (List.map_filter g xs) \<longleftrightarrow> (\<exists>x\<in>set xs. g x = Some y)"
  by (induction xs) (auto simp: List.map_filter_simps split: option.splits)

lemma mem_move_entries:
  assumes "source \<noteq> target"
  shows "x \<in> set (fst (move_entries source target es)) \<longleftrightarrow> (\<exists>e\<in>set es. entry_after source target es e = Some x)"
  unfolding move_entries_def fst_conv move_entries_filter [OF assms] by (rule set_map_filter_iff)

lemma distinct_move_entries:
  assumes "distinct (map me_id es)"
  shows "distinct (map me_id (fst (move_entries source target es)))"
proof -
  have "map me_id (map (\<lambda>e. if entry_moves source target es e then e\<lparr>me_user := target\<rparr> else e) es) = map me_id es"
    by simp
  with assms have "distinct (map me_id (map (\<lambda>e. if entry_moves source target es e then e\<lparr>me_user := target\<rparr> else e) es))"
    by (simp only:)
  then show ?thesis
    unfolding move_entries_def fst_conv by (rule distinct_map_filter)
qed

lemma entry_after_cases:
  assumes "entry_after source target es e = Some x"
  obtains "x = e" "me_user e \<noteq> source"
  | "x = e\<lparr>me_user := target\<rparr>" "me_user e = source" "\<forall>y\<in>set es. me_user y = target \<longrightarrow> me_abstraction y \<noteq> me_abstraction e"
  using assms by (auto simp: entry_after_def entry_moves_def split: if_splits)

lemma entries_okD:
  "entries_ok es \<Longrightarrow> e \<in> set es \<Longrightarrow> x \<in> set es \<Longrightarrow> me_user e = me_user x \<Longrightarrow> me_abstraction e = me_abstraction x \<Longrightarrow> e = x"
  unfolding entries_ok_def by blast

lemma entries_ok_move:
  assumes ok: "entries_ok es" and ne: "source \<noteq> target"
  shows "entries_ok (fst (move_entries source target es))"
proof -
  have "e = x" if m: "e \<in> set (fst (move_entries source target es))" "x \<in> set (fst (move_entries source target es))"
      and same: "me_user e = me_user x" "me_abstraction e = me_abstraction x" for e x
  proof -
    obtain e0 x0 where b: "e0 \<in> set es" "entry_after source target es e0 = Some e"
        "x0 \<in> set es" "entry_after source target es x0 = Some x"
      using m ne by (auto simp: mem_move_entries)
    from b(2) show "e = x"
    proof (cases rule: entry_after_cases)
      case 1
      note stays = 1
      from b(4) show ?thesis
      proof (cases rule: entry_after_cases)
        case 1
        show ?thesis unfolding stays(1) 1(1)
          by (rule entries_okD [OF ok b(1,3)]) (use stays 1 same in simp_all)
      next
        case 2
        with stays same b(1) show ?thesis by auto
      qed
    next
      case 2
      note moves = 2
      from b(4) show ?thesis
      proof (cases rule: entry_after_cases)
        case 1
        with moves same b(3) show ?thesis by auto
      next
        case 2
        have "e0 = x0" by (rule entries_okD [OF ok b(1,3)]) (use moves 2 same in simp_all)
        with moves 2 show ?thesis by simp
      qed
    qed
  qed
  then show ?thesis
    using distinct_move_entries ok unfolding entries_ok_def by blast
qed

text \<open>The search index after the re-indexing.\<close>

lemma fold_reindex:
  assumes "distinct (map me_id es)"
  shows "set (fold (\<lambda>e rs. filter (\<lambda>r. sr_id r \<noteq> me_id e) rs @ [search_row_of ct e]) es rows) =
    {r\<in>set rows. sr_id r \<notin> me_id ` set es} \<union> search_row_of ct ` set es"
  using assms
proof (induction es arbitrary: rows)
  case (Cons e es)
  have "sr_id (search_row_of ct e) \<notin> me_id ` set es"
    using Cons.prems by (simp add: search_row_of_def)
  then show ?case
    using Cons.IH [of "filter (\<lambda>r. sr_id r \<noteq> me_id e) rows @ [search_row_of ct e]"] Cons.prems by auto
qed simp

lemma fold_reindex_other:
  assumes "me_id ` set es \<subseteq> S"
  shows "filter (\<lambda>r. sr_id r \<notin> S) (fold (\<lambda>e rs. filter (\<lambda>r. sr_id r \<noteq> me_id e) rs @ [search_row_of ct e]) es rows) =
    filter (\<lambda>r. sr_id r \<notin> S) rows"
  using assms
proof (induction es arbitrary: rows)
  case (Cons e es)
  have "filter (\<lambda>r. sr_id r \<notin> S) (filter (\<lambda>r. sr_id r \<noteq> me_id e) rows @ [search_row_of ct e]) = filter (\<lambda>r. sr_id r \<notin> S) rows"
    using Cons.prems by (auto simp: search_row_of_def intro!: filter_cong)
  then show ?case using Cons by simp
qed simp

lemma fold_reindex_one:
  assumes "distinct (map me_id es)" "e \<in> set es"
  shows "filter (\<lambda>r. sr_id r = me_id e) (fold (\<lambda>e rs. filter (\<lambda>r. sr_id r \<noteq> me_id e) rs @ [search_row_of ct e]) es rows) =
    [search_row_of ct e]"
  using assms
proof (induction es arbitrary: rows)
  case (Cons x es)
  show ?case
  proof (cases "e \<in> set es")
    case False
    then have x: "e = x" "me_id x \<notin> me_id ` set es" using Cons.prems by auto
    have "filter (\<lambda>r. sr_id r \<notin> - {me_id x})
        (fold (\<lambda>e rs. filter (\<lambda>r. sr_id r \<noteq> me_id e) rs @ [search_row_of ct e]) es
          (filter (\<lambda>r. sr_id r \<noteq> me_id x) rows @ [search_row_of ct x])) =
      filter (\<lambda>r. sr_id r \<notin> - {me_id x}) (filter (\<lambda>r. sr_id r \<noteq> me_id x) rows @ [search_row_of ct x])"
      by (rule fold_reindex_other) (use x in auto)
    then show ?thesis using x(1) by (simp add: search_row_of_def)
  qed (use Cons in simp)
qed simp

lemma reindex_exact:
  assumes "distinct (map me_id es)"
  shows "e \<in> set es \<Longrightarrow> me_user e = target \<Longrightarrow>
      filter (\<lambda>r. sr_id r = me_id e) (reindex ct source target es rows) = [search_row_of ct e]"
    and "filter (\<lambda>r. \<forall>e\<in>set es. me_user e = target \<longrightarrow> sr_id r \<noteq> me_id e) (reindex ct source target es rows) =
      filter (\<lambda>r. \<forall>e\<in>set es. me_user e = target \<longrightarrow> sr_id r \<noteq> me_id e) (filter (\<lambda>r. sr_user r \<noteq> source) rows)"
proof -
  have d: "distinct (map me_id (filter (\<lambda>e. me_user e = target) es))" by (rule distinct_map_filter [OF assms])
  show "filter (\<lambda>r. sr_id r = me_id e) (reindex ct source target es rows) = [search_row_of ct e]"
    if "e \<in> set es" "me_user e = target"
    unfolding reindex_def by (rule fold_reindex_one [OF d]) (use that in simp)
  have cond: "(\<forall>e\<in>set es. me_user e = target \<longrightarrow> sr_id r \<noteq> me_id e) \<longleftrightarrow>
      sr_id r \<notin> me_id ` set (filter (\<lambda>e. me_user e = target) es)" for r by auto
  show "filter (\<lambda>r. \<forall>e\<in>set es. me_user e = target \<longrightarrow> sr_id r \<noteq> me_id e) (reindex ct source target es rows) =
      filter (\<lambda>r. \<forall>e\<in>set es. me_user e = target \<longrightarrow> sr_id r \<noteq> me_id e) (filter (\<lambda>r. sr_user r \<noteq> source) rows)"
    unfolding reindex_def cond by (rule fold_reindex_other [OF order.refl])
qed

lemma other_entries_stay:
  assumes "source \<noteq> target"
  shows "filter (\<lambda>e. me_user e \<notin> {source, target}) (fst (move_entries source target es)) =
    filter (\<lambda>e. me_user e \<notin> {source, target}) es"
proof -
  have "filter (\<lambda>e. me_user e \<notin> {source, target}) (filter (\<lambda>e. me_user e \<noteq> source)
      (map (\<lambda>e. if entry_moves source target E e then e\<lparr>me_user := target\<rparr> else e) es)) =
    filter (\<lambda>e. me_user e \<notin> {source, target}) es" for E
    using assms by (induction es) (auto simp: entry_moves_def)
  then show ?thesis by (simp only: move_entries_def fst_conv)
qed

lemma reindex_rows:
  assumes "distinct (map me_id es)" "source \<noteq> target"
  shows "set (reindex ct source target es rows) =
    {r\<in>set rows. sr_user r \<noteq> source \<and> (\<forall>e\<in>set es. me_user e = target \<longrightarrow> sr_id r \<noteq> me_id e)} \<union>
    search_row_of ct ` {e\<in>set es. me_user e = target}"
  using fold_reindex [of "filter (\<lambda>e. me_user e = target) es" ct "filter (\<lambda>r. sr_user r \<noteq> source) rows"]
    distinct_map_filter [OF assms(1)]
  by (auto simp: reindex_def)

section \<open>The memory of the source becomes the memory of the target\<close>

text \<open>What a session becomes: one of the source gets the new owner, and is closed if the target has an open one.\<close>

definition session_after :: "int \<Rightarrow> string \<Rightarrow> string \<Rightarrow> chat_store \<Rightarrow> chat_session \<Rightarrow> chat_session" where
  "session_after now source target c x =
     (if cs_user x \<noteq> source then x
      else if is_open x \<and> (\<exists>y\<in>set (sessions c). cs_user y = target \<and> is_open y)
      then x\<lparr>cs_user := target, cs_ended := Some now, cs_reset_reason := Some (''merged_into_user_'' @ target)\<rparr>
      else x\<lparr>cs_user := target\<rparr>)"

lemma sessions_after:
  assumes "source \<noteq> target"
  shows "map (moved_session source target) (sessions (closed_for now source target c)) =
    map (session_after now source target c) (sessions c)"
  by (auto simp: closed_for_def moved_session_def session_after_def comp_def)


text \<open>The messages the model saw do not move with the session they belong to. After the merge the target owns
  the session, but reading its context gives nothing, and replacing its context (what the compressor does after every
  compression) fails on the rows that still carry the source's key, and changes nothing.\<close>

theorem merge_orphans_context:
  assumes ne: "source \<noteq> target" and chat: "md_chat m = Some c" "chat_inv c"
    and owner: "x \<in> set (sessions c)" "cs_id x = sid" "cs_user x = source"
    and saved: "\<forall>r\<in>set (md_context m). cr_session r = sid \<longrightarrow> cr_user r = source"
      "\<exists>r\<in>set (md_context m). cr_session r = sid \<and> cr_seq r = 1"
    and run: "merge_memory now cues_text source target (Some m) = (Some m', Inr counts)"
  shows "\<exists>c'. md_chat m' = Some c' \<and> owned_session target sid c' \<noteq> None \<and>
    list_context loads sid target (md_context m') = [] \<and>
    replace_context dumps str_of ids sid target (msg # msgs) (md_context m') = (md_context m', False)"
proof -
  obtain c' where c': "move_chat now source target c = Some c'"
      "sessions c' = map (moved_session source target) (sessions (closed_for now source target c))"
    using move_chat_spec [OF chat(2) ne] by blast
  have m': "md_chat m' = Some c'" "md_context m' = md_context m"
    using run ne chat(1) c'(1) by (auto simp: merge_memory_def Let_def split: option.splits)
  have "map (\<lambda>x. (cs_id x, cs_user x)) (sessions c') = map (\<lambda>x. (cs_id x, new_owner source target (cs_user x))) (sessions c)"
    by (simp add: c'(2) closed_for_def comp_def)
  moreover have "(sid, target) \<in> set (map (\<lambda>x. (cs_id x, new_owner source target (cs_user x))) (sessions c))"
    using owner by (auto simp: new_owner_def intro!: image_eqI [of _ _ x])
  ultimately have "(sid, target) \<in> set (map (\<lambda>x. (cs_id x, cs_user x)) (sessions c'))"
    by (simp only:)
  then obtain y where "y \<in> set (sessions c')" "cs_id y = sid" "cs_user y = target" by auto
  then have own: "owned_session target sid c' \<noteq> None"
    by (auto simp: owned_session_def find_None_iff)
  have foreign: "filter (owned sid target) (md_context m) = []"
    using saved(1) ne by (auto simp: owned_def filter_empty_conv)
  moreover have "filter (\<lambda>r. \<not> owned sid target r) (md_context m) = md_context m"
    using foreign by (auto simp: filter_empty_conv intro!: filter_True)
  moreover have "insert_messages dumps str_of ids sid target 1 (msg # msgs) (md_context m) = None"
    using saved(2)
    by (auto simp: insert_context_row_def row_of_message_def split: option.splits sum.splits)
  ultimately show ?thesis
    using m' own by (simp add: list_context_def replace_context_def)
qed

section \<open>The outcome of a merge\<close>

lemma merge_steps_keep_db:
  "merge_files dk su tu s = (s', r) \<Longrightarrow> ms_db s' = ms_db s"
  "merge_records now ct su tu s' = (s'', q) \<Longrightarrow> ms_db s'' = ms_db s'"
  by (auto simp: merge_files_def merge_records_def split: option.splits prod.splits)

lemma step_errors:
  "merge_files dk su tu s = (s', Inl e) \<Longrightarrow> e \<in> {NoConflictPath, MoveFailed}"
  "merge_records now ct su tu s = (s', Inl e) \<Longrightarrow> e = NoSuchTable \<or> e = ConstraintViolated"
proof -
  have any_link: "only_links_vanish (\<lambda>_. True) dk" by (simp add: only_links_vanish_def)
  have move: "x \<in> {NoConflictPath, MoveFailed}" if "move_items dk i items target k = (rest, target', moved, Some x)"
    for i items target k rest target' moved x
    using move_items_spec(5) [OF that any_link] by simp
  show "merge_files dk su tu s = (s', Inl e) \<Longrightarrow> e \<in> {NoConflictPath, MoveFailed}"
    by (auto simp: merge_files_def merge_workspace_def Let_def split: option.splits prod.splits if_splits dest: move)
  show "merge_records now ct su tu s = (s', Inl e) \<Longrightarrow> e = NoSuchTable \<or> e = ConstraintViolated"
    by (auto simp: merge_records_def merge_memory_def Let_def split: option.splits prod.splits if_splits)
qed

text \<open>The accounts after the first transaction.\<close>

definition login_moved :: "int \<Rightarrow> int \<Rightarrow> users_db \<Rightarrow> users_db \<Rightarrow> bool" where
  "login_moved source target db db' \<longleftrightarrow>
     web_sessions db' = map (\<lambda>w. if ws_user w = source then w\<lparr>ws_user := target\<rparr> else w) (web_sessions db) \<and>
     (\<exists>f s t. s \<in> set (users db) \<and> u_id s = source \<and> t \<in> set (users db) \<and> u_id t = target \<and>
        users db' = map f (users db) \<and> (\<forall>r\<in>set (users db). u_id r \<noteq> source \<longrightarrow> u_id r \<noteq> target \<longrightarrow> f r = r) \<and>
        u_username (f s) = None \<and> u_hash (f s) = None \<and>
        u_username (f t) = or_text (u_username t) (u_username s) \<and> u_hash (f t) = or_text (u_hash t) (u_hash s) \<and>
        (\<forall>r\<in>set (users db). u_id (f r) = u_id r \<and> u_disabled (f r) = u_disabled r))"

lemma login_movedE:
  assumes "login_moved source target db db'"
  obtains f s t where "s \<in> set (users db)" "u_id s = source" "t \<in> set (users db)" "u_id t = target"
    "users db' = map f (users db)" "u_username (f s) = None" "u_id (f s) = u_id s" "u_id (f t) = u_id t"
  using assms unfolding login_moved_def by blast

lemma merge_credentials_effect:
  assumes "merge_credentials source target db = Inr db'"
  shows "login_moved source target db db'"
proof -
  obtain s t where m: "source \<noteq> target" "find_user (\<lambda>r. u_id r = source) db = Some s"
    "find_user (\<lambda>r. u_id r = target) db = Some t"
    "db' = map_users (\<lambda>r. u_id r = target)
       (\<lambda>r. r\<lparr>u_username := or_text (u_username t) (u_username s), u_admin := u_admin t \<or> u_admin s,
             u_hash := or_text (u_hash t) (u_hash s)\<rparr>)
       (map_users (\<lambda>r. u_id r = source) (\<lambda>r. r\<lparr>u_username := None, u_hash := None\<rparr>)
         (db\<lparr>web_sessions := map (\<lambda>w. if ws_user w = source then w\<lparr>ws_user := target\<rparr> else w) (web_sessions db)\<rparr>))"
    using assms by (rule merge_credentials_cases)
  have st: "s \<in> set (users db)" "u_id s = source" "t \<in> set (users db)" "u_id t = target"
    using find_some [OF m(2) [unfolded find_user_def]] find_some [OF m(3) [unfolded find_user_def]] by simp_all
  define f where "f = (\<lambda>r :: user_row. if u_id r = target
      then r\<lparr>u_username := or_text (u_username t) (u_username s), u_admin := u_admin t \<or> u_admin s,
             u_hash := or_text (u_hash t) (u_hash s)\<rparr>
      else if u_id r = source then r\<lparr>u_username := None, u_hash := None\<rparr> else r)"
  have "users db' = map f (users db)"
    using m(1) by (auto simp: m(4) map_users_def f_def)
  moreover have "web_sessions db' = map (\<lambda>w. if ws_user w = source then w\<lparr>ws_user := target\<rparr> else w) (web_sessions db)"
    by (simp add: m(4) map_users_def)
  moreover have "f r = r" if "u_id r \<noteq> source" "u_id r \<noteq> target" for r
    using that by (simp add: f_def)
  moreover have "u_id (f r) = u_id r" "u_disabled (f r) = u_disabled r" for r
    by (simp_all add: f_def)
  moreover have "u_username (f s) = None" "u_hash (f s) = None"
    "u_username (f t) = or_text (u_username t) (u_username s)" "u_hash (f t) = or_text (u_hash t) (u_hash s)"
    using st m(1) by (simp_all add: f_def)
  ultimately show ?thesis
    unfolding login_moved_def using st by (intro conjI exI [of _ f] exI [of _ s] exI [of _ t]) simp_all
qed

lemma merge_credentials_again:
  assumes moved: "login_moved source target db db'" and ok: "users_ok db'" and ne: "source \<noteq> target"
  shows "\<exists>db2. merge_credentials source target db' = Inr db2"
proof -
  obtain f s t where f: "s \<in> set (users db)" "u_id s = source" "t \<in> set (users db)" "u_id t = target"
      "users db' = map f (users db)" "u_username (f s) = None" "u_id (f s) = u_id s" "u_id (f t) = u_id t"
    using moved by (rule login_movedE)
  have "find_user (\<lambda>r. u_id r = source) db' = Some (f s)"
    using find_by_id [OF users_okD(1) [OF ok], of "f s"] f by simp
  moreover have "find_user (\<lambda>r. u_id r = target) db' = Some (f t)"
    using find_by_id [OF users_okD(1) [OF ok], of "f t"] f by simp
  ultimately show ?thesis
    using ne f(6) by (simp add: merge_credentials_def Let_def)
qed

lemma disable_disables:
  assumes "r \<in> set (users db)" "u_id r = i"
  shows "disabled_in i (merge_disable i db)"
proof -
  have "r\<lparr>u_username := None, u_disabled := True, u_hash := None\<rparr> \<in> set (users (merge_disable i db))"
    using assms by (auto simp: merge_disable_def map_users_def)
  then show ?thesis
    using assms(2) unfolding disabled_in_def by (intro bexI) simp_all
qed

text \<open>C28: The outcome of a merge. When the accounts cannot be merged, nothing changes. When the files or the memory
  fail, the login has moved, but no account is disabled and the merge can be run again. When it succeeds, the source is
  disabled and has neither a login nor a session, its sessions and, if the target had none, its login are the
  target's. The accounts stay consistent in every case.\<close>

theorem merge_outcome:
  assumes ok: "users_ok (ms_db s)" and run: "merge_web_user dk now cues_text source target s = (s', r)"
  shows "users_ok (ms_db s') \<and>
    (case r of
       Inl (AccountError e) \<Rightarrow> s' = s
     | Inl e \<Rightarrow> login_moved source target (ms_db s) (ms_db s') \<and>
         (\<exists>db. merge_credentials source target (ms_db s') = Inr db)
     | Inr n \<Rightarrow> disabled_in source (ms_db s') \<and> (\<forall>w\<in>set (web_sessions (ms_db s')). ws_user w \<noteq> source) \<and>
         (\<exists>db. login_moved source target (ms_db s) db \<and> ms_db s' = merge_disable source db))"
proof (cases "merge_credentials source target (ms_db s)")
  case (Inl e)
  with run ok show ?thesis by (auto simp: merge_web_user_def)
next
  case (Inr db)
  have ok1: "users_ok db" by (rule merge_credentials_ok [OF ok Inr])
  have moved: "login_moved source target (ms_db s) db" by (rule merge_credentials_effect [OF Inr])
  have ne: "source \<noteq> target" using Inr by (rule merge_credentials_cases)
  obtain f sr tr where f: "sr \<in> set (users (ms_db s))" "u_id sr = source" "tr \<in> set (users (ms_db s))" "u_id tr = target"
      "users db = map f (users (ms_db s))" "u_username (f sr) = None" "u_id (f sr) = u_id sr" "u_id (f tr) = u_id tr"
    using moved by (rule login_movedE)
  have in_db: "f sr \<in> set (users db)" "f tr \<in> set (users db)" using f by simp_all
  have "get_by_id source db = Some (row_to_user (f sr))" "get_by_id target db = Some (row_to_user (f tr))"
    using find_by_id [OF users_okD(1) [OF ok1] in_db(1)] find_by_id [OF users_okD(1) [OF ok1] in_db(2)] f
    by (simp_all add: get_by_id_def)
  then obtain su tu where u: "get_by_id source db = Some su" "get_by_id target db = Some tu" by blast
  obtain s2 r2 where files: "merge_files dk su tu (s\<lparr>ms_db := db\<rparr>) = (s2, r2)" by fastforce
  have db2: "ms_db s2 = db" using merge_steps_keep_db(1) [OF files] by simp
  show ?thesis
  proof (cases r2)
    case (Inl e)
    then have "e \<in> {NoConflictPath, MoveFailed}" "s' = s2" "r = Inl e"
      using run Inr u files step_errors(1) [of dk su tu "s\<lparr>ms_db := db\<rparr>" s2 e] by (auto simp: merge_web_user_def)
    then show ?thesis
      using db2 ok1 moved merge_credentials_again [OF moved ok1 ne] by auto
  next
    case (Inr items)
    obtain s3 r3 where records: "merge_records now cues_text su tu s2 = (s3, r3)" by fastforce
    have db3: "ms_db s3 = db" using merge_steps_keep_db(2) [OF records] db2 by simp
    show ?thesis
    proof (cases r3)
      case (Inl e)
      then have "e = NoSuchTable \<or> e = ConstraintViolated" "s' = s3" "r = Inl e"
        using run \<open>merge_credentials source target (ms_db s) = Inr db\<close> u files Inr records
          step_errors(2) [of now cues_text su tu s2 s3 e] by (auto simp: merge_web_user_def)
      then show ?thesis
        using db3 ok1 moved merge_credentials_again [OF moved ok1 ne] by auto
    next
      case r3: (Inr counts)
      then have s': "s' = s3\<lparr>ms_db := merge_disable source db\<rparr>" "\<exists>n. r = Inr n"
        using run \<open>merge_credentials source target (ms_db s) = Inr db\<close> u files Inr records db3
        by (auto simp: merge_web_user_def split: prod.splits)
      have "users_ok (merge_disable source db)"
        unfolding merge_disable_def by (rule users_map_name [OF ok1, where v = None]) simp_all
      moreover have "disabled_in source (merge_disable source db)"
        using in_db(1) f(2,7) by (intro disable_disables [of "f sr"]) simp_all
      moreover have "\<forall>w\<in>set (web_sessions (merge_disable source db)). ws_user w \<noteq> source"
        using moved ne by (auto simp: login_moved_def merge_disable_def map_users_def)
      ultimately show ?thesis
        using s' moved by auto
    qed
  qed
qed

section \<open>Witnesses\<close>

text \<open>A disk on which everything works, and contents of which the negative ones are links that lead nowhere.\<close>

definition sample_disk :: "int disk" where
  "sample_disk = \<lparr>dk_exists = (\<lambda>items target name. \<forall>c\<in>set_option (dget target name). 0 \<le> c), dk_mkdir = True,
     dk_moves = (\<lambda>_. True), dk_rmdir = True\<rparr>"

lemma int_str_one: "int_str 1 = ''1''"
  by (simp add: int_str_def nat_str.simps digit_char_def char_of_eq_iff)

lemmas merge_eval = merge_workspace_def workspace_dir_def dict_rec conflict_name_def existing_def sample_disk_def Let_def int_str_one


text \<open>A link of the target that leads nowhere is replaced by the source's file of the same name.\<close>

lemma dangling_link_is_overwritten:
  "merge_workspace sample_disk ''1'' ''2'' 1 [(''user_1'', [(''a'', 2)]), (''user_2'', [(''a'', - 1)])] =
     ([(''user_2'', [(''a'', 2)])], Inr 1)"
  by (simp add: merge_eval)

definition sample_chat_session :: chat_session where
  "sample_chat_session = \<lparr>cs_id = 1, cs_user = ''1'', cs_channel = ''web'', cs_section = ''chat'', cs_title = None, cs_created = 0,
     cs_updated = None, cs_ended = None, cs_reset_reason = None, cs_folder = None\<rparr>"

definition merge_sample_chat :: chat_store where
  "merge_sample_chat = \<lparr>sessions = [sample_chat_session], messages = [], next_session = 2, next_message = 1\<rparr>"

definition merge_sample_entry :: "int \<Rightarrow> string \<Rightarrow> memory_entry" where
  "merge_sample_entry i u = \<lparr>me_id = i, me_user = u, me_abstraction = ''tea'', me_value = ''yes'', me_cues = [], me_updated = 0\<rparr>"

definition sample_context_row :: context_row where
  "sample_context_row = \<lparr>cr_session = 1, cr_user = ''1'', cr_role = ''user'', cr_content = ''hi'', cr_calls = None,
     cr_call_id = None, cr_name = None, cr_reasoning = None, cr_seq = 1\<rparr>"

definition sample_memory :: memory_db where
  "sample_memory = \<lparr>md_messages = None, md_facts = None, md_entries = Some [merge_sample_entry 1 ''1'', merge_sample_entry 2 ''2''],
     md_search = Some [], md_chat = Some merge_sample_chat, md_context = [sample_context_row]\<rparr>"

lemma sample_chat_inv: "chat_inv merge_sample_chat"
  by (simp add: chat_inv_def merge_sample_chat_def sample_chat_session_def ids_ok_def one_open_def msgs_ok_def owned_ok_def)

lemma sample_entries: "entries_ok [merge_sample_entry 1 ''1'', merge_sample_entry 2 ''2'']"
  by (simp add: entries_ok_def merge_sample_entry_def)


theorem merge_orphans_context_witness:
  "\<exists>m' counts c'. merge_memory 0 (\<lambda>s. s) ''1'' ''2'' (Some sample_memory) = (Some m', Inr counts) \<and>
    md_chat m' = Some c' \<and> owned_session ''2'' 1 c' \<noteq> None \<and>
    list_context (\<lambda>_. None) 1 ''2'' (md_context m') = [] \<and>
    replace_context (\<lambda>_. []) (\<lambda>_. []) {1} 1 ''2'' [[]] (md_context m') = (md_context m', False)"
proof -
  obtain c' where "move_chat 0 ''1'' ''2'' merge_sample_chat = Some c'"
    using move_chat_spec [OF sample_chat_inv, of "''1''" "''2''" 0] by auto
  then obtain m' counts where run: "merge_memory 0 (\<lambda>s. s) ''1'' ''2'' (Some sample_memory) = (Some m', Inr counts)"
    by (simp add: merge_memory_def sample_memory_def Let_def)
  have "\<exists>c'. md_chat m' = Some c' \<and> owned_session ''2'' 1 c' \<noteq> None \<and>
    list_context (\<lambda>_. None) 1 ''2'' (md_context m') = [] \<and>
    replace_context (\<lambda>_. []) (\<lambda>_. []) {1} 1 ''2'' [[]] (md_context m') = (md_context m', False)"
    by (rule merge_orphans_context [OF _ _ sample_chat_inv _ _ _ _ _ run, where x = sample_chat_session])
      (simp_all add: sample_memory_def merge_sample_chat_def sample_chat_session_def sample_context_row_def)
  with run show ?thesis by blast
qed

definition nat_disk :: "nat disk" where
  "nat_disk = \<lparr>dk_exists = (\<lambda>_ _ _. True), dk_mkdir = True, dk_moves = (\<lambda>_. True), dk_rmdir = True\<rparr>"

theorem merge_outcome_witness:
  "\<exists>s'. merge_web_user nat_disk 0 (\<lambda>s. s) 1 1 \<lparr>ms_db = sample_db, ms_workspaces = (None :: nat workspaces option), ms_memory = None\<rparr> =
      (s', Inl (AccountError SameUser)) \<and> users_ok (ms_db s')"
proof -
  define s where "s = \<lparr>ms_db = sample_db, ms_workspaces = (None :: nat workspaces option), ms_memory = None\<rparr>"
  have run: "merge_web_user nat_disk 0 (\<lambda>s. s) 1 1 s = (s, Inl (AccountError SameUser))"
    by (simp add: merge_web_user_def merge_credentials_def)
  have "users_ok (ms_db s)" by (simp add: s_def sample_ok)
  from merge_outcome [OF this run] run show ?thesis by (auto simp: s_def)
qed

end
