(* ===== verification/AccessGates.thy ===== *)
theory AccessGates
  imports Prelude
begin

text \<open>
  Three gates in front of a run: one run per user (\<open>runtime/user_run_gate.py\<close>), the rate limit of the Telegram
  channel (\<open>channels/telegram/rate_limit.py\<close>), and the check that an attachment fits into the context
  (\<open>agent/budget_gate.py\<close>); and the callback data of the inline buttons (\<open>channels/telegram/callback_data.py\<close>).
  The methods hold a lock, so each is one atomic step.
\<close>

section \<open>One run per user\<close>

record running_info =
  ri_session :: "int option"
  ri_title :: "string option"

type_synonym run_gate = "(int, running_info) pydict"

definition try_start :: "int \<Rightarrow> running_info \<Rightarrow> run_gate \<Rightarrow> run_gate \<times> bool" where
  "try_start u i g = (if u \<in> set (dkeys g) then (g, False) else (dput u i g, True))"

definition gate_finish :: "int \<Rightarrow> run_gate \<Rightarrow> run_gate \<times> running_info option" where
  "gate_finish u g = (dpop u g, dget g u)"

definition update_run :: "int \<Rightarrow> running_info \<Rightarrow> run_gate \<Rightarrow> run_gate \<times> bool" where
  "update_run u i g = (if u \<notin> set (dkeys g) then (g, False) else (dput u i g, True))"

definition get_run :: "int \<Rightarrow> run_gate \<Rightarrow> running_info option" where
  "get_run u g = dget g u"

definition gate_active_count :: "run_gate \<Rightarrow> nat" where
  "gate_active_count g = length g"

text \<open>The operations as events, with what each reports.\<close>

datatype gate_op = TryStart int running_info | Finish int | UpdateRun int running_info

fun gate_step :: "gate_op \<Rightarrow> run_gate \<Rightarrow> run_gate \<times> bool" where
  "gate_step (TryStart u i) g = try_start u i g"
| "gate_step (Finish u) g = (fst (gate_finish u g), snd (gate_finish u g) \<noteq> None)"
| "gate_step (UpdateRun u i) g = update_run u i g"

fun gate_run :: "gate_op list \<Rightarrow> run_gate \<Rightarrow> run_gate \<times> (gate_op \<times> bool) list" where
  "gate_run [] g = (g, [])"
| "gate_run (x # xs) g =
     (let r = gate_step x g; q = gate_run xs (fst r) in (fst q, (x, snd r) # snd q))"

text \<open>The runs of a user that are in flight according to the reports: granted starts minus successful ends.\<close>

fun in_flight :: "int \<Rightarrow> (gate_op \<times> bool) list \<Rightarrow> int" where
  "in_flight u [] = 0"
| "in_flight u ((TryStart v i, granted) # es) = of_bool (v = u \<and> granted) + in_flight u es"
| "in_flight u ((Finish v, ended) # es) = in_flight u es - of_bool (v = u \<and> ended)"
| "in_flight u ((UpdateRun v i, done) # es) = in_flight u es"

lemma gate_step_active:
  "of_bool (u \<in> set (dkeys (fst (gate_step x g)))) = of_bool (u \<in> set (dkeys g)) + in_flight u [(x, snd (gate_step x g))]"
  using dget_iff_keys [of g u]
  by (cases x) (auto simp: try_start_def gate_finish_def update_run_def set_dkeys_dput set_dkeys_dpop)

lemma in_flight_Cons: "in_flight u (e # es) = in_flight u [e] + in_flight u es"
  by (cases e, cases "fst e") auto

lemma in_flight_active:
  "of_bool (u \<in> set (dkeys (fst (gate_run xs g)))) = of_bool (u \<in> set (dkeys g)) + in_flight u (snd (gate_run xs g))"
proof (induction xs arbitrary: g)
  case (Cons x xs)
  have "in_flight u (snd (gate_run (x # xs) g)) =
      in_flight u [(x, snd (gate_step x g))] + in_flight u (snd (gate_run xs (fst (gate_step x g))))"
    unfolding gate_run.simps Let_def snd_conv by (rule in_flight_Cons)
  then show ?case
    using gate_step_active [of u x g] Cons.IH [of "fst (gate_step x g)"] by (simp add: Let_def)
qed simp

lemma gate_run_append:
  "gate_run (xs @ ys) g =
     (fst (gate_run ys (fst (gate_run xs g))), snd (gate_run xs g) @ snd (gate_run ys (fst (gate_run xs g))))"
  by (induction xs arbitrary: g) (simp_all add: Let_def)

text \<open>At no point of any sequence of starts, ends and updates of any users does a user have more than one run in
  flight, and a start is granted exactly when the user has none: the gate neither runs two requests of a user at once
  nor keeps a user out whose request has ended.\<close>

theorem one_run_per_user:
  "in_flight u (snd (gate_run xs [])) \<in> {0, 1} \<and>
   (snd (gate_step (TryStart u i) (fst (gate_run xs []))) \<longleftrightarrow> in_flight u (snd (gate_run xs [])) = 0)"
  using in_flight_active [of u xs "[]"] by (auto simp: try_start_def split: if_splits)

text \<open>The keys stay distinct, so \<open>gate_active_count\<close> counts users.\<close>

lemma gate_distinct: "distinct (dkeys g) \<Longrightarrow> distinct (dkeys (fst (gate_run xs g)))"
proof (induction xs arbitrary: g)
  case (Cons x xs)
  have "distinct (dkeys (fst (gate_step x g)))"
    using Cons.prems by (cases x) (auto simp: try_start_def gate_finish_def update_run_def)
  with Cons.IH show ?case by (simp add: Let_def)
qed simp

section \<open>The rate limit\<close>

record rate_limiter =
  rl_max :: int
  rl_times :: "(int, rat list) pydict"

definition window :: rat where
  "window = 60"

definition recent_times :: "rat \<Rightarrow> rat list \<Rightarrow> rat list" where
  "recent_times now ts = filter (\<lambda>t. t > now - window) ts"

text \<open>\<open>self._timestamps\<close> is a \<open>defaultdict(list)\<close>: reading a missing key gives the empty list.\<close>

definition times_of :: "int \<Rightarrow> rate_limiter \<Rightarrow> rat list" where
  "times_of u r = (case dget (rl_times r) u of None \<Rightarrow> [] | Some ts \<Rightarrow> ts)"

definition rate_check :: "rat \<Rightarrow> int \<Rightarrow> rate_limiter \<Rightarrow> rate_limiter \<times> bool" where
  "rate_check now u r =
     (let recent = recent_times now (times_of u r); r1 = r\<lparr>rl_times := dput u recent (rl_times r)\<rparr> in
      if int (length recent) \<ge> rl_max r then (r1, False)
      else (r1\<lparr>rl_times := dput u (recent @ [now]) (rl_times r1)\<rparr>, True))"

definition rate_cleanup :: "rat \<Rightarrow> rate_limiter \<Rightarrow> rate_limiter" where
  "rate_cleanup now r =
     (let inactive = map fst (filter (\<lambda>(u, ts). recent_times now ts = []) (rl_times r));
          kept = map (\<lambda>(u, ts). (u, if recent_times now ts = [] then ts else recent_times now ts)) (rl_times r)
      in r\<lparr>rl_times := fold dpop inactive kept\<rparr>)"

datatype rate_op = Check rat int | Cleanup rat

fun op_time :: "rate_op \<Rightarrow> rat" where
  "op_time (Check t u) = t"
| "op_time (Cleanup t) = t"

fun rate_step :: "rate_op \<Rightarrow> rate_limiter \<Rightarrow> rate_limiter \<times> bool option" where
  "rate_step (Check t u) r = (fst (rate_check t u r), Some (snd (rate_check t u r)))"
| "rate_step (Cleanup t) r = (rate_cleanup t r, None)"

fun rate_run :: "rate_op list \<Rightarrow> rate_limiter \<Rightarrow> rate_limiter \<times> (rate_op \<times> bool option) list" where
  "rate_run [] r = (r, [])"
| "rate_run (x # xs) r = (let p = rate_step x r; q = rate_run xs (fst p) in (fst q, (x, snd p) # snd q))"

text \<open>The times at which messages of a user were accepted.\<close>

fun accepted :: "int \<Rightarrow> (rate_op \<times> bool option) list \<Rightarrow> rat list" where
  "accepted u [] = []"
| "accepted u ((Check t v, Some True) # es) = (if v = u then t # accepted u es else accepted u es)"
| "accepted u (e # es) = accepted u es"

lemma recent_recent: "t \<le> now \<Longrightarrow> recent_times now (recent_times t ts) = recent_times now ts"
  by (auto simp: recent_times_def intro!: filter_cong)

lemma recent_Nil [simp]: "recent_times now [] = []"
  by (simp add: recent_times_def)

lemma recent_append: "recent_times now (xs @ ys) = recent_times now xs @ recent_times now ys"
  by (simp add: recent_times_def)

lemma recent_empty: "t \<le> now \<Longrightarrow> recent_times t ts = [] \<Longrightarrow> recent_times now ts = []"
  using recent_recent [of t now ts] by (simp add: recent_times_def)

lemma times_of_cleanup:
  assumes "distinct (dkeys (rl_times r))" "t \<le> now"
  shows "recent_times now (times_of u (rate_cleanup t r)) = recent_times now (times_of u r)"
proof -
  define kept where
    "kept = map (\<lambda>(u, ts). (u, if recent_times t ts = [] then ts else recent_times t ts)) (rl_times r)"
  have k: "dget kept u = map_option (\<lambda>ts. if recent_times t ts = [] then ts else recent_times t ts) (dget (rl_times r) u)"
    unfolding kept_def dget_def by (simp add: map_of_map)
  show ?thesis
  proof (cases "dget (rl_times r) u")
    case None
    with k show ?thesis
      by (simp add: times_of_def rate_cleanup_def Let_def kept_def [symmetric] dget_fold_dpop)
  next
    case (Some ts)
    then have "(u, ts) \<in> set (rl_times r)" using dget_in_set [OF assms(1)] by blast
    moreover have "ts' = ts" if "(u, ts') \<in> set (rl_times r)" for ts'
      using that Some dget_in_set [OF assms(1)] by (metis option.inject)
    moreover have "u \<in> set (map fst (filter (\<lambda>(u, ts). recent_times t ts = []) (rl_times r))) \<longleftrightarrow>
        (\<exists>ts'. (u, ts') \<in> set (rl_times r) \<and> recent_times t ts' = [])"
      by (auto simp: image_iff)
    ultimately have i: "u \<in> set (map fst (filter (\<lambda>(u, ts). recent_times t ts = []) (rl_times r))) \<longleftrightarrow> recent_times t ts = []"
      by blast
    show ?thesis
    proof (cases "recent_times t ts = []")
      case True
      then show ?thesis
        using i Some recent_empty [OF assms(2) True]
        by (simp add: times_of_def rate_cleanup_def Let_def kept_def [symmetric] dget_fold_dpop recent_times_def)
    next
      case False
      then show ?thesis
        using i Some k recent_recent [OF assms(2)]
        by (simp add: times_of_def rate_cleanup_def Let_def kept_def [symmetric] dget_fold_dpop)
    qed
  qed
qed

lemma distinct_fold_dpop: "distinct (dkeys d) \<Longrightarrow> distinct (dkeys (fold dpop ks d))"
  by (induction ks arbitrary: d) (auto intro: distinct_dpop)

lemma rate_step_distinct:
  "distinct (dkeys (rl_times r)) \<Longrightarrow> distinct (dkeys (rl_times (fst (rate_step x r))))"
proof (cases x)
  case (Cleanup t)
  have "dkeys (map (\<lambda>(u, ts). (u, if recent_times t ts = [] then ts else recent_times t ts)) d) = dkeys d" for d :: "(int, rat list) pydict"
    by (simp add: dkeys_def case_prod_beta comp_def)
  then show "distinct (dkeys (rl_times r)) \<Longrightarrow> ?thesis"
    unfolding Cleanup by (simp add: rate_cleanup_def Let_def distinct_fold_dpop)
qed (auto simp: rate_check_def Let_def intro!: distinct_dput)

lemma rate_step_max: "rl_max (fst (rate_step x r)) = rl_max r"
  by (cases x) (simp_all add: rate_check_def rate_cleanup_def Let_def)

lemma rate_step_times:
  assumes "distinct (dkeys (rl_times r))" "op_time x \<le> now"
  shows "recent_times now (times_of u (fst (rate_step x r))) =
    recent_times now (times_of u r @ accepted u [(x, snd (rate_step x r))])"
proof (cases x)
  case (Check t v)
  have "t \<le> now" using assms(2) Check by simp
  then show ?thesis
    using Check recent_recent
    by (cases "v = u") (auto simp: rate_check_def Let_def times_of_def dget_dput recent_append)
next
  case (Cleanup t)
  with assms times_of_cleanup show ?thesis by simp
qed

lemma accepted_append: "accepted u (xs @ ys) = accepted u xs @ accepted u ys"
  by (induction u xs rule: accepted.induct) simp_all

lemma rate_run_spec:
  assumes "distinct (dkeys (rl_times r))" "\<forall>x\<in>set xs. op_time x \<le> now"
  shows "recent_times now (times_of u (fst (rate_run xs r))) =
      recent_times now (times_of u r @ accepted u (snd (rate_run xs r))) \<and> rl_max (fst (rate_run xs r)) = rl_max r"
  using assms
proof (induction xs arbitrary: r)
  case (Cons x xs)
  have a: "accepted u ((x, snd (rate_step x r)) # snd (rate_run xs (fst (rate_step x r)))) =
      accepted u [(x, snd (rate_step x r))] @ accepted u (snd (rate_run xs (fst (rate_step x r))))"
    by (rule accepted_append [of u "[(x, snd (rate_step x r))]", unfolded append_Cons append_Nil])
  let ?r = "fst (rate_step x r)"
  have ih: "recent_times now (times_of u (fst (rate_run xs ?r))) =
      recent_times now (times_of u ?r @ accepted u (snd (rate_run xs ?r))) \<and> rl_max (fst (rate_run xs ?r)) = rl_max ?r"
    using Cons.prems(2) by (intro Cons.IH rate_step_distinct Cons.prems(1)) simp
  have first: "recent_times now (times_of u ?r) =
      recent_times now (times_of u r @ accepted u [(x, snd (rate_step x r))])"
    using Cons.prems(2) by (intro rate_step_times Cons.prems(1)) simp
  have "recent_times now (times_of u (fst (rate_run (x # xs) r))) =
      recent_times now (times_of u ?r @ accepted u (snd (rate_run xs ?r)))"
    unfolding rate_run.simps Let_def fst_conv by (rule conjunct1 [OF ih])
  also have "\<dots> = recent_times now (times_of u r @ accepted u (snd (rate_run (x # xs) r)))"
    unfolding rate_run.simps Let_def snd_conv a recent_append first by simp
  finally have times: "recent_times now (times_of u (fst (rate_run (x # xs) r))) =
      recent_times now (times_of u r @ accepted u (snd (rate_run (x # xs) r)))" .
  have "rl_max (fst (rate_run (x # xs) r)) = rl_max r"
    unfolding rate_run.simps Let_def fst_conv using conjunct2 [OF ih] by (simp only: rate_step_max)
  with times show ?case by (rule conjI)
qed simp

lemma rate_run_append:
  "rate_run (xs @ ys) r =
     (fst (rate_run ys (fst (rate_run xs r))), snd (rate_run xs r) @ snd (rate_run ys (fst (rate_run xs r))))"
  by (induction xs arbitrary: r) (simp_all add: Let_def)

definition limiter :: "int \<Rightarrow> rate_limiter" where
  "limiter m = \<lparr>rl_max = m, rl_times = []\<rparr>"

lemma rate_check_exact:
  assumes "\<forall>x\<in>set xs. op_time x \<le> now"
  shows "snd (rate_check now u (fst (rate_run xs (limiter m)))) \<longleftrightarrow>
    int (length (recent_times now (accepted u (snd (rate_run xs (limiter m)))))) < m"
  using rate_run_spec [of "limiter m" xs now u] assms
  by (auto simp: rate_check_def Let_def limiter_def times_of_def)

text \<open>The limit is exact. For any sequence of messages of any users and of clean-ups, with a clock that does not
  go back, a message is accepted exactly when fewer than the limit were accepted from this user in the last 60
  seconds; so no window of 60 seconds ever holds more than the limit, and clean-ups change no answer.\<close>

theorem rate_limit_exact:
  assumes clock: "sorted (map op_time xs)" and limit: "0 \<le> m"
  shows "(\<forall>now. (\<forall>x\<in>set xs. op_time x \<le> now) \<longrightarrow>
      (snd (rate_check now u (fst (rate_run xs (limiter m)))) \<longleftrightarrow>
       int (length (filter (\<lambda>t. t > now - 60) (accepted u (snd (rate_run xs (limiter m)))))) < m)) \<and>
    int (length (filter (\<lambda>t. w - 60 < t \<and> t \<le> w) (accepted u (snd (rate_run xs (limiter m)))))) \<le> m"
proof (intro conjI allI impI)
  fix now
  assume "\<forall>x\<in>set xs. op_time x \<le> now"
  then show "snd (rate_check now u (fst (rate_run xs (limiter m)))) \<longleftrightarrow>
      int (length (filter (\<lambda>t. t > now - 60) (accepted u (snd (rate_run xs (limiter m)))))) < m"
    using rate_check_exact by (simp add: recent_times_def window_def)
next
  show "int (length (filter (\<lambda>t. w - 60 < t \<and> t \<le> w) (accepted u (snd (rate_run xs (limiter m)))))) \<le> m"
    using clock
  proof (induction xs rule: rev_induct)
    case Nil
    then show ?case using limit by simp
  next
    case (snoc x xs)
    define before where "before = accepted u (snd (rate_run xs (limiter m)))"
    have ih: "int (length (filter (\<lambda>t. w - 60 < t \<and> t \<le> w) before)) \<le> m"
      using snoc by (simp add: before_def sorted_append)
    have all: "accepted u (snd (rate_run (xs @ [x]) (limiter m))) =
        before @ accepted u [(x, snd (rate_step x (fst (rate_run xs (limiter m)))))]"
      by (simp add: rate_run_append accepted_append Let_def before_def del: accepted.simps)
    show ?case
    proof (cases "\<exists>t. x = Check t u \<and> snd (rate_check t u (fst (rate_run xs (limiter m)))) \<and> w - 60 < t \<and> t \<le> w")
      case True
      then obtain t where t: "x = Check t u" "snd (rate_check t u (fst (rate_run xs (limiter m))))" "t \<le> w"
        by blast
      have "\<forall>y\<in>set xs. op_time y \<le> t"
        using snoc.prems t(1) by (auto simp: sorted_append)
      then have few: "int (length (filter (\<lambda>s. t - 60 < s) before)) < m"
        using t(2) rate_check_exact by (simp add: recent_times_def window_def before_def)
      have "length (filter (\<lambda>s. w - 60 < s \<and> s \<le> w) before) \<le> length (filter (\<lambda>s. t - 60 < s) before)"
        using t(3) by (induction before) auto
      with few show ?thesis
        unfolding all by (simp add: t(1,2))
    next
      case False
      then have "filter (\<lambda>t. w - 60 < t \<and> t \<le> w) (accepted u [(x, snd (rate_step x (fst (rate_run xs (limiter m)))))]) = []"
      proof (cases x)
        case (Check t v)
        with False show ?thesis
          by (cases "snd (rate_check t v (fst (rate_run xs (limiter m))))") auto
      qed simp
      then show ?thesis unfolding all using ih by simp
    qed
  qed
qed

section \<open>The budget of an attachment\<close>

datatype budget_decision = Allow | Warn | Block

text \<open>The reason is a fixed text (in Russian in the code).\<close>

datatype budget_reason = ReasonAllow | ReasonAllowChunked | ReasonWarn | ReasonWarnChunked | ReasonBlock

record gate_result =
  gr_decision :: budget_decision
  gr_chunked :: bool
  gr_baseline :: int
  gr_file :: int
  gr_projected :: int
  gr_limit :: int
  gr_ratio :: rat
  gr_reason :: budget_reason

definition reason_for :: "budget_decision \<Rightarrow> bool \<Rightarrow> budget_reason" where
  "reason_for decision chunked =
     (case decision of
        Block \<Rightarrow> ReasonBlock
      | Warn \<Rightarrow> if chunked then ReasonWarnChunked else ReasonWarn
      | Allow \<Rightarrow> if chunked then ReasonAllowChunked else ReasonAllow)"

definition evaluate_budget :: "int \<Rightarrow> int \<Rightarrow> int \<Rightarrow> rat \<Rightarrow> rat \<Rightarrow> rat \<Rightarrow> gate_result" where
  "evaluate_budget baseline file_cost limit warn_ratio block_ratio chunked_ratio =
     (let safe_limit = max 1 limit; safe_baseline = max 0 baseline; safe_file = max 0 file_cost;
          projected = safe_baseline + safe_file;
          decision = (if of_int projected > of_int safe_limit * block_ratio then Block
                      else if of_int projected > of_int safe_limit * warn_ratio then Warn else Allow);
          chunked = (decision \<noteq> Block \<and> of_int safe_file > of_int safe_limit * chunked_ratio)
      in \<lparr>gr_decision = decision, gr_chunked = chunked, gr_baseline = safe_baseline, gr_file = safe_file,
          gr_projected = projected, gr_limit = safe_limit, gr_ratio = of_int projected / of_int safe_limit,
          gr_reason = reason_for decision chunked\<rparr>)"

text \<open>With the ratios in order and at most one, an attachment that is not blocked fits, and adding less never gives a
  worse answer.\<close>

lemma allowed_fits:
  assumes "block_ratio \<le> 1" "gr_decision (evaluate_budget b f l w block_ratio c) \<noteq> Block"
  shows "gr_projected (evaluate_budget b f l w block_ratio c) \<le> gr_limit (evaluate_budget b f l w block_ratio c)"
proof -
  define p q where "p = (of_int (max 0 b + max 0 f) :: rat)" and "q = (of_int (max 1 l) :: rat)"
  have "\<not> p > q * block_ratio"
    using assms(2) by (simp add: evaluate_budget_def Let_def p_def q_def split: if_splits)
  moreover have "q * block_ratio \<le> q"
    using assms(1) mult_left_mono [of block_ratio 1 q] by (simp add: q_def)
  ultimately have "p \<le> q" by simp
  then show ?thesis
    by (simp add: evaluate_budget_def Let_def p_def q_def)
qed

section \<open>Callback data of buttons\<close>

definition CB_SCHED_ACCEPT :: string where "CB_SCHED_ACCEPT = ''sc:a:''"
definition CB_SCHED_DISMISS :: string where "CB_SCHED_DISMISS = ''sc:d:''"
definition CB_FB_UP :: string where "CB_FB_UP = ''fb:up:''"
definition CB_FB_DOWN :: string where "CB_FB_DOWN = ''fb:down:''"

definition schedule_accept_data :: "string \<Rightarrow> string" where "schedule_accept_data t = CB_SCHED_ACCEPT @ t"
definition schedule_dismiss_data :: "string \<Rightarrow> string" where "schedule_dismiss_data t = CB_SCHED_DISMISS @ t"
definition feedback_up_data :: "string \<Rightarrow> string" where "feedback_up_data t = CB_FB_UP @ t"
definition feedback_down_data :: "string \<Rightarrow> string" where "feedback_down_data t = CB_FB_DOWN @ t"

text \<open>One prefix with its action; the first that matches and leaves an id wins.\<close>

definition parse_prefix :: "string \<Rightarrow> string \<Rightarrow> string \<Rightarrow> (string \<times> string) option" where
  "parse_prefix prefix action data =
     (if starts_with data prefix \<and> strip (drop (length prefix) data) \<noteq> []
      then Some (action, strip (drop (length prefix) data)) else None)"

definition parse_schedule_callback :: "string \<Rightarrow> (string \<times> string) option" where
  "parse_schedule_callback data =
     (case parse_prefix CB_SCHED_ACCEPT ''accept'' data of
        Some r \<Rightarrow> Some r | None \<Rightarrow> parse_prefix CB_SCHED_DISMISS ''dismiss'' data)"

definition parse_feedback_callback :: "string \<Rightarrow> (string \<times> string) option" where
  "parse_feedback_callback data =
     (case parse_prefix CB_FB_UP ''up'' data of
        Some r \<Rightarrow> Some r | None \<Rightarrow> parse_prefix CB_FB_DOWN ''down'' data)"

definition is_hex_id :: "string \<Rightarrow> bool" where
  "is_hex_id t \<longleftrightarrow> length t = 32 \<and> (\<forall>c\<in>set t. is_digit c \<or> c \<in> set ''abcdef'')"

lemma hex_id_strip: "is_hex_id t \<Longrightarrow> strip t = t \<and> t \<noteq> []"
  unfolding strip_def
  by (auto simp: is_hex_id_def is_digit_def is_space_def is_space_cp_def intro!: strip_by_id)

text \<open>The data of a button gives back its action and id, no other parser takes it, and it fits into the 64 bytes of
  Telegram.\<close>

lemma callback_roundtrip:
  assumes "is_hex_id t"
  shows "parse_schedule_callback (schedule_accept_data t) = Some (''accept'', t)"
    "parse_schedule_callback (schedule_dismiss_data t) = Some (''dismiss'', t)"
    "parse_feedback_callback (feedback_up_data t) = Some (''up'', t)"
    "parse_feedback_callback (feedback_down_data t) = Some (''down'', t)"
    "parse_feedback_callback (schedule_accept_data t) = None" "parse_schedule_callback (feedback_up_data t) = None"
    "max (length (schedule_accept_data t)) (length (feedback_down_data t)) \<le> 64"
  using hex_id_strip [OF assms] assms
  by (simp_all add: parse_schedule_callback_def parse_feedback_callback_def parse_prefix_def schedule_accept_data_def
      schedule_dismiss_data_def feedback_up_data_def feedback_down_data_def CB_SCHED_ACCEPT_def CB_SCHED_DISMISS_def
      CB_FB_UP_def CB_FB_DOWN_def is_hex_id_def)

section \<open>Witness\<close>

theorem rate_limit_exact_witness:
  "snd (rate_check 62 7 (fst (rate_run [Check 0 7, Check 1 7, Cleanup 61] (limiter 1)))) \<longleftrightarrow>
     int (length (filter (\<lambda>t. t > 62 - 60) (accepted 7 (snd (rate_run [Check 0 7, Check 1 7, Cleanup 61] (limiter 1)))))) < 1"
proof -
  have "sorted (map op_time [Check 0 7, Check 1 7, Cleanup 61])" "(0::int) \<le> 1" by simp_all
  note r = conjunct1 [OF rate_limit_exact [OF this, of 7]]
  have "\<forall>x\<in>set [Check 0 7, Check 1 7, Cleanup 61]. op_time x \<le> 62" by simp
  then show ?thesis by (rule mp [OF spec [OF r]])
qed

end
