(* ===== verification/LLMCache.thy ===== *)
theory LLMCache
  imports LLMQueue "HOL-Library.Multiset"
begin

text \<open>
  \<open>llm/cache.py\<close>: the persistent cache of llama.cpp slots, and the call of a provider under it
  (\<open>_execute_with_queue\<close> in \<open>llm/router.py\<close>, after the slot is acquired).

  The manager tracks which scope (user, agent, model, prompt) the content of a slot belongs to, and keeps an index of
  the files that hold saved contents. The llama.cpp server is outside: its answers are arguments, and the ghost state
  \<open>server\<close> records whose content a slot and a file really hold. The hash in the key of a scope is a parameter, and most
  lemmas hold of any function \<open>key\<close>. Times are rationals. An operation of the manager is one step; logging and counters are left out.
\<close>

section \<open>Configuration, scopes and metadata\<close>

datatype save_policy = Hybrid | EveryResponse | EvictionOnly

record cache_config =
  cc_enabled :: bool
  cc_slot_api :: "string option"
  cc_max_bytes :: int
  cc_max_age_days :: int
  cc_policy :: save_policy
  cc_min_tokens :: int
  cc_dirty_seconds :: rat
  cc_reuse :: rat
  cc_large_tokens :: int
  cc_large_reuse :: rat
  cc_max_recompute :: rat
  cc_strict_retry :: bool
  cc_prune_interval :: rat
  cc_providers :: "(string, string) pydict"
  cc_client_override :: bool
  cc_cleanup :: bool

record cache_scope =
  sc_user :: string
  sc_conversation :: string
  sc_agent :: string
  sc_provider :: string
  sc_model :: string
  sc_preset :: "string option"
  sc_system :: string
  sc_tools :: string

definition build_scope ::
    "(string \<Rightarrow> string) \<Rightarrow> (string \<Rightarrow> string) \<Rightarrow> string \<Rightarrow> string \<Rightarrow> string \<Rightarrow> string \<Rightarrow> string \<Rightarrow> string option \<Rightarrow>
     string option \<Rightarrow> string \<Rightarrow> cache_scope" where
  "build_scope hash_text hash_payload user conversation agent provider model preset system tools =
     \<lparr>sc_user = (if user = [] then ''anonymous'' else user),
      sc_conversation = (if conversation = [] then ''default'' else conversation),
      sc_agent = (if agent = [] then ''main'' else agent),
      sc_provider = (if provider = [] then ''unknown'' else provider),
      sc_model = model, sc_preset = preset,
      sc_system = hash_text (case system of None \<Rightarrow> [] | Some s \<Rightarrow> s), sc_tools = hash_payload tools\<rparr>"

text \<open>The key of a scope: a hash of its fields, where a missing preset counts as an empty one.\<close>

type_synonym scope_key = "cache_scope \<Rightarrow> string"

definition scope_fields :: "cache_scope \<Rightarrow> string list" where
  "scope_fields s = [sc_agent s, sc_conversation s, sc_model s, (case sc_preset s of None \<Rightarrow> [] | Some p \<Rightarrow> p),
     sc_provider s, sc_system s, sc_tools s, sc_user s]"

definition hashed_key :: "(string list \<Rightarrow> string) \<Rightarrow> scope_key" where
  "hashed_key hash s = hash (scope_fields s)"

definition MANAGED_PREFIX :: string where
  "MANAGED_PREFIX = ''corpclaw_''"

definition scope_filename :: "scope_key \<Rightarrow> cache_scope \<Rightarrow> string" where
  "scope_filename key s = MANAGED_PREFIX @ key s @ ''.bin''"

record cache_metadata =
  ce_scope :: cache_scope
  ce_filename :: string
  ce_tokens :: int
  ce_bytes :: int
  ce_prompt :: int
  ce_cached :: int
  ce_prompt_n :: int
  ce_created_at :: rat
  ce_used :: rat
  ce_saved :: rat
  ce_saves :: int
  ce_restores :: int

section \<open>The state\<close>

text \<open>The manager's fields, and the ghost state: whose content a slot and a file hold (\<open>None\<close>: nothing, or nobody's).\<close>

record cache_world =
  lm_scopes :: "(int, cache_scope) pydict"
  lm_reset :: "string list"
  lm_last_prune :: rat
  lm_store :: "(string, cache_metadata) pydict"
  sv_slots :: "int \<Rightarrow> cache_scope option"
  sv_files :: "string \<Rightarrow> cache_scope option"

definition cache_empty :: cache_world where
  "cache_empty = \<lparr>lm_scopes = [], lm_reset = [], lm_last_prune = 0, lm_store = [],
     sv_slots = (\<lambda>_. None), sv_files = (\<lambda>_. None)\<rparr>"

text \<open>An answer of the server: what it reports, and whether it did what was asked (a request that timed out may have
  been carried out).\<close>

record slot_answer =
  an_ok :: bool
  an_done :: bool
  an_tokens :: int
  an_bytes :: int

definition honest :: "slot_answer \<Rightarrow> bool" where
  "honest a \<longleftrightarrow> (an_ok a \<longrightarrow> an_done a)"

definition server_save :: "slot_answer \<Rightarrow> int \<Rightarrow> string \<Rightarrow> cache_world \<Rightarrow> cache_world" where
  "server_save a slot fn w = (if an_done a then w\<lparr>sv_files := (sv_files w)(fn := sv_slots w slot)\<rparr> else w)"

definition server_restore :: "slot_answer \<Rightarrow> int \<Rightarrow> string \<Rightarrow> cache_world \<Rightarrow> cache_world" where
  "server_restore a slot fn w = (if an_done a then w\<lparr>sv_slots := (sv_slots w)(slot := sv_files w fn)\<rparr> else w)"

definition server_erase :: "slot_answer \<Rightarrow> int \<Rightarrow> cache_world \<Rightarrow> cache_world" where
  "server_erase a slot w = (if an_done a then w\<lparr>sv_slots := (sv_slots w)(slot := None)\<rparr> else w)"

section \<open>The index\<close>

definition store_get :: "string \<Rightarrow> cache_world \<Rightarrow> cache_metadata option" where
  "store_get k w = dget (lm_store w) k"

text \<open>A conflict keeps the columns of the scope and the creation time of the row that is there.\<close>

definition store_upsert :: "scope_key \<Rightarrow> cache_metadata \<Rightarrow> cache_world \<Rightarrow> cache_world" where
  "store_upsert key m w =
     w\<lparr>lm_store := dput (key (ce_scope m))
         (case dget (lm_store w) (key (ce_scope m)) of
            None \<Rightarrow> m | Some old \<Rightarrow> m\<lparr>ce_scope := ce_scope old, ce_created_at := ce_created_at old\<rparr>) (lm_store w)\<rparr>"

definition mark_used :: "scope_key \<Rightarrow> rat \<Rightarrow> cache_metadata \<Rightarrow> cache_world \<Rightarrow> cache_world" where
  "mark_used key now m w =
     w\<lparr>lm_store := map (\<lambda>(k, e). (k, if k = key (ce_scope m)
         then e\<lparr>ce_used := now, ce_restores := ce_restores m + 1\<rparr> else e)) (lm_store w)\<rparr>"

definition store_delete :: "string \<Rightarrow> cache_world \<Rightarrow> cache_world" where
  "store_delete k w = w\<lparr>lm_store := dpop k (lm_store w)\<rparr>"

definition store_list :: "cache_world \<Rightarrow> cache_metadata list" where
  "store_list w = sort_key ce_used (map snd (lm_store w))"

section \<open>Saving, erasing and deleting\<close>

definition client_for :: "cache_config \<Rightarrow> string \<Rightarrow> bool" where
  "client_for cfg provider \<longleftrightarrow>
     cc_client_override cfg \<or>
     (if cc_slot_api cfg \<noteq> None \<and> cc_slot_api cfg \<noteq> Some [] then True
      else dget (cc_providers cfg) provider \<noteq> None \<and> dget (cc_providers cfg) provider \<noteq> Some [])"

record llm_usage =
  us_input :: int
  us_cached :: int
  us_prompt_n :: int

definition nonzero_or :: "int \<Rightarrow> int \<Rightarrow> int" where
  "nonzero_or a b = (if a \<noteq> 0 then a else b)"

definition saved_metadata ::
    "scope_key \<Rightarrow> slot_answer \<Rightarrow> rat \<Rightarrow> cache_scope \<Rightarrow> llm_usage option \<Rightarrow> cache_metadata option \<Rightarrow> cache_metadata" where
  "saved_metadata key a now scope usage old =
     \<lparr>ce_scope = scope, ce_filename = scope_filename key scope,
      ce_tokens = nonzero_or (an_tokens a) (case usage of Some u \<Rightarrow> us_input u | None \<Rightarrow> 0),
      ce_bytes = nonzero_or (an_bytes a) (case old of Some x \<Rightarrow> ce_bytes x | None \<Rightarrow> 0),
      ce_prompt = (case usage of Some u \<Rightarrow> us_input u | None \<Rightarrow> (case old of Some x \<Rightarrow> ce_prompt x | None \<Rightarrow> 0)),
      ce_cached = (case usage of Some u \<Rightarrow> us_cached u | None \<Rightarrow> (case old of Some x \<Rightarrow> ce_cached x | None \<Rightarrow> 0)),
      ce_prompt_n = (case usage of Some u \<Rightarrow> us_prompt_n u | None \<Rightarrow> (case old of Some x \<Rightarrow> ce_prompt_n x | None \<Rightarrow> 0)),
      ce_created_at = (case old of Some x \<Rightarrow> ce_created_at x | None \<Rightarrow> now),
      ce_used = now, ce_saved = now,
      ce_saves = (case old of Some x \<Rightarrow> ce_saves x | None \<Rightarrow> 0) + 1,
      ce_restores = (case old of Some x \<Rightarrow> ce_restores x | None \<Rightarrow> 0)\<rparr>"

definition save_slot_for_scope ::
    "cache_config \<Rightarrow> scope_key \<Rightarrow> slot_answer \<Rightarrow> rat \<Rightarrow> int \<Rightarrow> cache_scope \<Rightarrow> llm_usage option \<Rightarrow> cache_world \<Rightarrow> cache_world" where
  "save_slot_for_scope cfg key a now slot scope usage w =
     (if \<not> client_for cfg (sc_provider scope) then w
      else let w1 = server_save a slot (scope_filename key scope) w in
        if \<not> an_ok a then w1
        else let w2 = store_upsert key (saved_metadata key a now scope usage (store_get (key scope) w1)) w1
             in w2\<lparr>lm_scopes := dput slot scope (lm_scopes w2)\<rparr>)"

definition erase_slot :: "cache_config \<Rightarrow> slot_answer \<Rightarrow> queue_entry \<Rightarrow> cache_world \<Rightarrow> cache_world" where
  "erase_slot cfg a e w =
     (case entry_slot_id e of
        None \<Rightarrow> w
      | Some slot \<Rightarrow>
          if \<not> client_for cfg (case entry_provider e of None \<Rightarrow> [] | Some p \<Rightarrow> p) then w
          else server_erase a slot w)"

text \<open>\<open>unlink_ok\<close>: removing the file raises no \<open>OSError\<close> (a file that does not exist is fine).\<close>

definition delete_cache_entry ::
    "cache_config \<Rightarrow> scope_key \<Rightarrow> (string \<Rightarrow> bool) \<Rightarrow> cache_metadata \<Rightarrow> cache_world \<Rightarrow> cache_world \<times> bool" where
  "delete_cache_entry cfg key unlink_ok m w =
     (if \<not> cc_cleanup cfg then (store_delete (key (ce_scope m)) w, True)
      else if \<not> starts_with (ce_filename m) MANAGED_PREFIX then (w, False)
      else if unlink_ok (ce_filename m)
      then (store_delete (key (ce_scope m)) (w\<lparr>sv_files := (sv_files w)(ce_filename m := None)\<rparr>), True)
      else (w, False))"

section \<open>Preparing a slot\<close>

definition should_use_cache :: "cache_config \<Rightarrow> queue_entry \<Rightarrow> bool" where
  "should_use_cache cfg e \<longleftrightarrow>
     cc_enabled cfg \<and> entry_slot_id e \<noteq> None \<and> entry_load_class e \<in> {Interactive, Subagent}"

datatype hit_kind = NoHit | L1 | L2

record cache_lease =
  le_enabled :: bool
  le_scope :: "cache_scope option"
  le_slot :: "int option"
  le_hit :: hit_kind
  le_restored :: bool
  le_metadata :: "cache_metadata option"
  le_expected :: int

definition no_lease :: cache_lease where
  "no_lease = \<lparr>le_enabled = False, le_scope = None, le_slot = None, le_hit = NoHit, le_restored = False,
     le_metadata = None, le_expected = 0\<rparr>"

definition lease_for :: "cache_scope \<Rightarrow> int \<Rightarrow> cache_lease" where
  "lease_for scope slot = no_lease\<lparr>le_enabled := True, le_scope := Some scope, le_slot := Some slot\<rparr>"

text \<open>The answers of the server and the clock during \<open>prepare\<close>.\<close>

record prepare_env =
  pe_save :: slot_answer
  pe_erase :: slot_answer
  pe_restore :: slot_answer
  pe_now :: rat

definition track :: "int \<Rightarrow> cache_scope \<Rightarrow> cache_world \<Rightarrow> cache_world" where
  "track slot scope w = w\<lparr>lm_scopes := dput slot scope (lm_scopes w)\<rparr>"

definition forget :: "int \<Rightarrow> cache_world \<Rightarrow> cache_world" where
  "forget slot w = w\<lparr>lm_scopes := dpop slot (lm_scopes w)\<rparr>"

text \<open>The eviction of another scope, then the restore of the own file.\<close>

definition evict ::
    "cache_config \<Rightarrow> scope_key \<Rightarrow> prepare_env \<Rightarrow> queue_entry \<Rightarrow> int \<Rightarrow> cache_scope \<Rightarrow> cache_world \<Rightarrow> cache_world" where
  "evict cfg key env e slot scope w =
     (case dget (lm_scopes w) slot of
        Some existing \<Rightarrow>
          if key existing \<noteq> key scope
          then erase_slot cfg (pe_erase env) e (save_slot_for_scope cfg key (pe_save env) (pe_now env) slot existing None w)
          else w
      | None \<Rightarrow> w)"

definition restore_scope ::
    "cache_config \<Rightarrow> scope_key \<Rightarrow> prepare_env \<Rightarrow> int \<Rightarrow> cache_scope \<Rightarrow> cache_world \<Rightarrow> cache_world \<times> cache_lease" where
  "restore_scope cfg key env slot scope w =
     (case store_get (key scope) w of
        None \<Rightarrow> (track slot scope w, lease_for scope slot)
      | Some m \<Rightarrow>
          if \<not> client_for cfg (sc_provider scope)
          then (track slot scope w, (lease_for scope slot)\<lparr>le_metadata := Some m\<rparr>)
          else
            let w1 = server_restore (pe_restore env) slot (ce_filename m) w in
            if \<not> an_ok (pe_restore env) then (track slot scope w1, (lease_for scope slot)\<lparr>le_metadata := Some m\<rparr>)
            else (track slot scope (mark_used key (pe_now env) m w1),
                  (lease_for scope slot)\<lparr>le_hit := L2, le_restored := True, le_metadata := Some m,
                    le_expected := ce_tokens m\<rparr>))"

definition prepare_cache ::
    "cache_config \<Rightarrow> scope_key \<Rightarrow> prepare_env \<Rightarrow> queue_entry \<Rightarrow> cache_scope \<Rightarrow> cache_world \<Rightarrow> cache_world \<times> cache_lease" where
  "prepare_cache cfg key env e scope w =
     (if \<not> should_use_cache cfg e then (w, no_lease)
      else case entry_slot_id e of
        None \<Rightarrow> (w, no_lease)
      | Some slot \<Rightarrow>
          if sc_user scope \<in> set (lm_reset w)
          then (track slot scope (erase_slot cfg (pe_erase env) e
                  (forget slot (w\<lparr>lm_reset := filter (\<lambda>u. u \<noteq> sc_user scope) (lm_reset w)\<rparr>))), lease_for scope slot)
          else if \<exists>existing. dget (lm_scopes w) slot = Some existing \<and> key existing = key scope
          then let m = store_get (key scope) w in
               (case m of None \<Rightarrow> w | Some x \<Rightarrow> mark_used key (pe_now env) x w,
                (lease_for scope slot)\<lparr>le_hit := L1, le_metadata := m,
                  le_expected := (case m of None \<Rightarrow> 0 | Some x \<Rightarrow> ce_tokens x)\<rparr>)
          else restore_scope cfg key env slot scope (evict cfg key env e slot scope w))"

section \<open>After the call\<close>

datatype mismatch = LowReuse | HighRecompute

definition validate_reuse :: "cache_config \<Rightarrow> cache_lease \<Rightarrow> llm_usage \<Rightarrow> mismatch option" where
  "validate_reuse cfg l u =
     (if le_hit l = NoHit then None
      else if us_input u \<le> 0 then None
      else
        let reuse = of_int (us_cached u) / of_int (us_input u) :: rat;
            recompute = (if us_prompt_n u \<noteq> 0 then of_int (us_prompt_n u) / of_int (us_input u) else 0) :: rat;
            threshold = (if us_input u \<ge> cc_large_tokens cfg then cc_large_reuse cfg else cc_reuse cfg)
        in if reuse < threshold then Some LowReuse
           else if recompute > cc_max_recompute cfg then Some HighRecompute else None)"

definition should_save :: "cache_config \<Rightarrow> rat \<Rightarrow> cache_lease \<Rightarrow> llm_usage \<Rightarrow> bool" where
  "should_save cfg now l u =
     (case cc_policy cfg of
        EvictionOnly \<Rightarrow> False
      | EveryResponse \<Rightarrow> True
      | Hybrid \<Rightarrow>
          if us_input u < cc_min_tokens cfg then False
          else (case le_metadata l of None \<Rightarrow> True | Some m \<Rightarrow> now - ce_saved m \<ge> cc_dirty_seconds cfg))"

text \<open>\<open>prune\<close>: the entries in the order of their last use, with the running total of their sizes.\<close>

definition active_keys :: "scope_key \<Rightarrow> cache_world \<Rightarrow> string set" where
  "active_keys key w = key ` set (map snd (lm_scopes w))"

fun prune_entries ::
    "cache_config \<Rightarrow> scope_key \<Rightarrow> (string \<Rightarrow> bool) \<Rightarrow> rat \<Rightarrow> cache_metadata list \<Rightarrow> int \<Rightarrow> cache_world \<Rightarrow> cache_world \<times> int" where
  "prune_entries cfg key unlink_ok now [] sz w = (w, sz)"
| "prune_entries cfg key unlink_ok now (m # ms) sz w =
     (let too_old = (now - ce_used m > of_int (cc_max_age_days cfg) * 24 * 3600);
          over_budget = (sz > cc_max_bytes cfg)
      in if key (ce_scope m) \<in> active_keys key w \<or> (\<not> too_old \<and> \<not> over_budget)
         then prune_entries cfg key unlink_ok now ms sz w
         else (case delete_cache_entry cfg key unlink_ok m w of
                 (w', True) \<Rightarrow> prune_entries cfg key unlink_ok now ms (sz - max 0 (ce_bytes m)) w'
               | (w', False) \<Rightarrow> prune_entries cfg key unlink_ok now ms sz w'))"

definition total_bytes :: "cache_metadata list \<Rightarrow> int" where
  "total_bytes ms = sum_list (map (\<lambda>m. max 0 (ce_bytes m)) ms)"

definition prune_cache :: "cache_config \<Rightarrow> scope_key \<Rightarrow> (string \<Rightarrow> bool) \<Rightarrow> rat \<Rightarrow> cache_world \<Rightarrow> cache_world" where
  "prune_cache cfg key unlink_ok now w =
     fst (prune_entries cfg key unlink_ok now (store_list w) (total_bytes (store_list w)) w)"

definition prune_if_due ::
    "cache_config \<Rightarrow> scope_key \<Rightarrow> (string \<Rightarrow> bool) \<Rightarrow> rat \<Rightarrow> rat \<Rightarrow> cache_world \<Rightarrow> cache_world" where
  "prune_if_due cfg key unlink_ok tick now w =
     (if \<not> cc_enabled cfg then w
      else if tick - lm_last_prune w < cc_prune_interval cfg then w
      else prune_cache cfg key unlink_ok now (w\<lparr>lm_last_prune := tick\<rparr>))"

record finalize_env =
  fe_save :: slot_answer
  fe_erase :: slot_answer
  fe_now :: rat
  fe_tick :: rat
  fe_unlink :: "string \<Rightarrow> bool"

text \<open>The result: whether to call again without the cache, and the reason.\<close>

definition finalize_cache ::
    "cache_config \<Rightarrow> scope_key \<Rightarrow> finalize_env \<Rightarrow> queue_entry \<Rightarrow> cache_lease \<Rightarrow> llm_usage \<Rightarrow> bool \<Rightarrow> cache_world \<Rightarrow>
     cache_world \<times> bool \<times> mismatch option" where
  "finalize_cache cfg key env e l u allow_retry w =
     (case (le_enabled l, le_scope l, le_slot l) of
        (True, Some scope, Some slot) \<Rightarrow>
          (case validate_reuse cfg l u of
             Some reason \<Rightarrow>
               (forget slot (erase_slot cfg (fe_erase env) e w), allow_retry \<and> cc_strict_retry cfg, Some reason)
           | None \<Rightarrow>
               (if should_save cfg (fe_now env) l u
                then prune_if_due cfg key (fe_unlink env) (fe_tick env) (fe_now env)
                       (save_slot_for_scope cfg key (fe_save env) (fe_now env) slot scope (Some u) w)
                else w, False, None))
      | _ \<Rightarrow> (w, False, None))"

definition abort_cache :: "cache_lease \<Rightarrow> cache_world \<Rightarrow> cache_world" where
  "abort_cache l w =
     (case (le_enabled l, le_slot l) of (True, Some slot) \<Rightarrow> forget slot w | _ \<Rightarrow> w)"

definition prepare_uncached_retry ::
    "cache_config \<Rightarrow> queue_entry \<Rightarrow> cache_scope \<Rightarrow> cache_world \<Rightarrow> cache_world \<times> cache_lease" where
  "prepare_uncached_retry cfg e scope w =
     (if \<not> should_use_cache cfg e then (w, no_lease)
      else case entry_slot_id e of None \<Rightarrow> (w, no_lease) | Some slot \<Rightarrow> (track slot scope w, lease_for scope slot))"

definition mark_user_reset :: "cache_config \<Rightarrow> scope_key \<Rightarrow> (string \<Rightarrow> bool) \<Rightarrow> string \<Rightarrow> cache_world \<Rightarrow> cache_world" where
  "mark_user_reset cfg key unlink_ok user w =
     (if \<not> cc_enabled cfg then w
      else
        let u = (if user = [] then ''anonymous'' else user);
            w1 = w\<lparr>lm_reset := List.insert u (lm_reset w),
                   lm_scopes := fold dpop (map fst (filter (\<lambda>(slot, s). sc_user s = u) (lm_scopes w))) (lm_scopes w)\<rparr>
        in fold (\<lambda>m w. fst (delete_cache_entry cfg key unlink_ok m w))
             (filter (\<lambda>m. sc_user (ce_scope m) = u) (store_list w1)) w1)"

section \<open>One request under the cache\<close>

text \<open>How a call of the provider ends, and what it leaves in the slot when it does not end with an answer. Python's
  \<open>CancelledError\<close> is not an \<open>Exception\<close>.\<close>

datatype call_end = Answered llm_usage | CallFailed | CallCancelled

definition provider_call :: "queue_entry \<Rightarrow> cache_scope \<Rightarrow> call_end \<Rightarrow> cache_scope option \<Rightarrow> cache_world \<Rightarrow> cache_world" where
  "provider_call e scope end_of left w =
     (case entry_slot_id e of
        None \<Rightarrow> w
      | Some slot \<Rightarrow>
          w\<lparr>sv_slots := (sv_slots w)(slot := (case end_of of Answered u \<Rightarrow> Some scope | _ \<Rightarrow> left))\<rparr>)"

datatype request_end = Responded llm_usage | RequestFailed | RequestCancelled

text \<open>\<open>_execute_with_queue\<close> from the end of \<open>prepare\<close> to the release of the slot: the first call, \<open>abort\<close> on an
  \<open>Exception\<close>, \<open>finalize\<close>, and the retry without the cache.\<close>

definition after_prepare ::
    "cache_config \<Rightarrow> scope_key \<Rightarrow> finalize_env \<Rightarrow> finalize_env \<Rightarrow> queue_entry \<Rightarrow> cache_scope \<Rightarrow> cache_lease \<Rightarrow>
     call_end \<times> cache_scope option \<Rightarrow> call_end \<times> cache_scope option \<Rightarrow> cache_world \<Rightarrow> cache_world \<times> request_end" where
  "after_prepare cfg key env1 env2 e scope lease call1 call2 w =
     (let w1 = provider_call e scope (fst call1) (snd call1) w in
      case fst call1 of
        CallFailed \<Rightarrow> (abort_cache lease w1, RequestFailed)
      | CallCancelled \<Rightarrow> (w1, RequestCancelled)
      | Answered u1 \<Rightarrow>
          (case finalize_cache cfg key env1 e lease u1 True w1 of
             (w2, retry, reason) \<Rightarrow>
               if \<not> retry then (w2, Responded u1)
               else (case prepare_uncached_retry cfg e scope w2 of
                 (w3, lease2) \<Rightarrow>
                   let w4 = provider_call e scope (fst call2) (snd call2) w3 in
                   (case fst call2 of
                      CallFailed \<Rightarrow> (w4, RequestFailed)
                    | CallCancelled \<Rightarrow> (w4, RequestCancelled)
                    | Answered u2 \<Rightarrow> (fst (finalize_cache cfg key env2 e lease2 u2 False w4), Responded u2)))))"

section \<open>The invariant: the manager never mistakes the owner of a content\<close>

text \<open>Every entry of the index names the file of its own scope; every file holds the content of the scope it is named
  after.\<close>

definition index_ok :: "scope_key \<Rightarrow> cache_world \<Rightarrow> bool" where
  "index_ok key w \<longleftrightarrow>
     (\<forall>(k, m)\<in>set (lm_store w). k = key (ce_scope m) \<and> ce_filename m = MANAGED_PREFIX @ k @ ''.bin'')"

definition files_ok :: "scope_key \<Rightarrow> cache_world \<Rightarrow> bool" where
  "files_ok key w \<longleftrightarrow> (\<forall>fn. \<forall>s\<in>set_option (sv_files w fn). fn = scope_filename key s)"

text \<open>A step on a slot leaves the other slots as they are.\<close>

definition frame :: "int set \<Rightarrow> cache_world \<Rightarrow> cache_world \<Rightarrow> bool" where
  "frame I w w' \<longleftrightarrow> (\<forall>i. i \<notin> I \<longrightarrow> dget (lm_scopes w') i = dget (lm_scopes w) i \<and> sv_slots w' i = sv_slots w i)"

lemma frame_refl [simp]: "frame I w w"
  by (simp add: frame_def)

lemma frame_trans: "frame I u v \<Longrightarrow> frame I v w \<Longrightarrow> frame I u w"
  by (simp add: frame_def)

named_theorems cache_simps \<open>what the operations of the cache do to the parts of the state\<close>

lemma server_parts [cache_simps]:
  "lm_scopes (server_save a slot fn w) = lm_scopes w"
  "lm_store (server_save a slot fn w) = lm_store w"
  "sv_slots (server_save a slot fn w) = sv_slots w"
  "lm_scopes (server_restore a slot fn w) = lm_scopes w"
  "lm_store (server_restore a slot fn w) = lm_store w"
  "sv_files (server_restore a slot fn w) = sv_files w"
  "lm_scopes (erase_slot cfg a e w) = lm_scopes w"
  "lm_store (erase_slot cfg a e w) = lm_store w"
  "sv_files (erase_slot cfg a e w) = sv_files w"
  "lm_reset (erase_slot cfg a e w) = lm_reset w"
  by (simp_all add: server_save_def server_restore_def server_erase_def erase_slot_def split: option.split)

lemma index_parts [cache_simps]:
  "lm_scopes (store_upsert key m w) = lm_scopes w" "sv_slots (store_upsert key m w) = sv_slots w"
  "sv_files (store_upsert key m w) = sv_files w"
  "lm_scopes (mark_used key now m w) = lm_scopes w" "sv_slots (mark_used key now m w) = sv_slots w"
  "sv_files (mark_used key now m w) = sv_files w"
  "lm_scopes (store_delete k w) = lm_scopes w" "sv_slots (store_delete k w) = sv_slots w"
  "sv_files (store_delete k w) = sv_files w"
  by (simp_all add: store_upsert_def mark_used_def store_delete_def)

lemma track_parts [cache_simps]:
  "lm_scopes (track slot s w) = dput slot s (lm_scopes w)" "lm_store (track slot s w) = lm_store w"
  "sv_slots (track slot s w) = sv_slots w" "sv_files (track slot s w) = sv_files w"
  "lm_scopes (forget slot w) = dpop slot (lm_scopes w)" "lm_store (forget slot w) = lm_store w"
  "sv_slots (forget slot w) = sv_slots w" "sv_files (forget slot w) = sv_files w"
  by (simp_all add: track_def forget_def)

lemma index_ok_cong: "lm_store w = lm_store w' \<Longrightarrow> index_ok key w = index_ok key w'"
  by (simp add: index_ok_def)

lemma files_ok_cong: "sv_files w = sv_files w' \<Longrightarrow> files_ok key w = files_ok key w'"
  by (simp add: files_ok_def)

lemma index_entry: "index_ok key w \<Longrightarrow> dget (lm_store w) k = Some m \<Longrightarrow> k = key (ce_scope m) \<and> ce_filename m = MANAGED_PREFIX @ k @ ''.bin''"
  by (drule dget_member) (auto simp: index_ok_def)

lemma index_ok_upsert:
  assumes "index_ok key w" "ce_filename m = scope_filename key (ce_scope m)"
  shows "index_ok key (store_upsert key m w)"
proof (cases "dget (lm_store w) (key (ce_scope m))")
  case None
  then show ?thesis
    using assms unfolding index_ok_def store_upsert_def scope_filename_def by (auto dest!: dput_member)
next
  case (Some old)
  then have "key (ce_scope old) = key (ce_scope m)"
    using index_entry [OF assms(1) Some] by simp
  then show ?thesis
    using assms Some unfolding index_ok_def store_upsert_def scope_filename_def by (auto dest!: dput_member)
qed

lemma index_ok_used: "index_ok key w \<Longrightarrow> index_ok key (mark_used key now m w)"
  unfolding index_ok_def mark_used_def by auto

lemma index_ok_delete: "index_ok key w \<Longrightarrow> index_ok key (store_delete k w)"
  unfolding index_ok_def store_delete_def by (auto dest!: dpop_member)

text \<open>The content of a slot, if there is any, belongs to a scope of this key.\<close>

definition holds :: "scope_key \<Rightarrow> cache_world \<Rightarrow> int \<Rightarrow> cache_scope \<Rightarrow> bool" where
  "holds key w slot s \<longleftrightarrow> (\<forall>c\<in>set_option (sv_slots w slot). key c = key s)"

lemma holds_some: "sv_slots w slot = Some s \<Longrightarrow> holds key w slot s"
  by (simp add: holds_def)

lemma holds_cong: "sv_slots w slot = sv_slots w' slot \<Longrightarrow> holds key w slot s = holds key w' slot s"
  by (simp add: holds_def)

lemma holds_key: "key s = key t \<Longrightarrow> holds key w slot s = holds key w slot t"
  by (simp add: holds_def)

lemma files_ok_save:
  "files_ok key w \<Longrightarrow> holds key w slot s \<Longrightarrow> files_ok key (server_save a slot (scope_filename key s) w)"
  by (auto simp: files_ok_def server_save_def holds_def scope_filename_def)

definition tidy :: "scope_key \<Rightarrow> cache_world \<Rightarrow> bool" where
  "tidy key w \<longleftrightarrow> index_ok key w \<and> files_ok key w"

lemma files_content:
  assumes "tidy key w"
  shows "\<forall>c\<in>set_option (sv_files w (scope_filename key s)). key c = key s"
proof
  fix c assume "c \<in> set_option (sv_files w (scope_filename key s))"
  then have "scope_filename key s = scope_filename key c"
    using assms unfolding tidy_def files_ok_def by blast
  then show "key c = key s" by (simp add: scope_filename_def)
qed

lemma tidy_cong: "lm_store w = lm_store w' \<Longrightarrow> sv_files w = sv_files w' \<Longrightarrow> tidy key w = tidy key w'"
  unfolding tidy_def using index_ok_cong files_ok_cong by blast

lemma tidy_parts [cache_simps]:
  "tidy key (track slot s w) = tidy key w" "tidy key (forget slot w) = tidy key w"
  "tidy key (server_restore a slot fn w) = tidy key w" "tidy key (erase_slot cfg a e w) = tidy key w"
  "tidy key (w\<lparr>lm_reset := us\<rparr>) = tidy key w" "tidy key (w\<lparr>lm_last_prune := t\<rparr>) = tidy key w"
  "tidy key (w\<lparr>lm_scopes := d\<rparr>) = tidy key w" "tidy key (w\<lparr>sv_slots := f\<rparr>) = tidy key w"
  by (rule tidy_cong; simp add: cache_simps)+

lemma tidy_used: "tidy key w \<Longrightarrow> tidy key (mark_used key now m w)"
  unfolding tidy_def by (metis index_ok_used files_ok_cong index_parts(6))

lemma erase_other: "entry_slot_id e = Some slot \<Longrightarrow> i \<noteq> slot \<Longrightarrow> sv_slots (erase_slot cfg a e w) i = sv_slots w i"
  by (simp add: erase_slot_def server_erase_def)

lemma restore_other: "i \<noteq> slot \<Longrightarrow> sv_slots (server_restore a slot fn w) i = sv_slots w i"
  by (simp add: server_restore_def)

lemma save_other:
  "i \<noteq> slot \<Longrightarrow> dget (lm_scopes (save_slot_for_scope cfg key a now slot s u w)) i = dget (lm_scopes w) i"
  "sv_slots (save_slot_for_scope cfg key a now slot s u w) = sv_slots w"
  by (simp_all add: save_slot_for_scope_def Let_def cache_simps dget_dput)

lemma save_tracks:
  "dget (lm_scopes (save_slot_for_scope cfg key a now slot s u w)) slot = dget (lm_scopes w) slot \<or>
   dget (lm_scopes (save_slot_for_scope cfg key a now slot s u w)) slot = Some s"
  by (simp add: save_slot_for_scope_def Let_def cache_simps dget_dput)

lemma save_tidy:
  assumes w: "tidy key w" and own: "holds key w slot s"
  shows "tidy key (save_slot_for_scope cfg key a now slot s u w)"
proof -
  let ?w1 = "server_save a slot (scope_filename key s) w"
  have w1: "tidy key ?w1"
    using w files_ok_save [OF _ own] index_ok_cong [of w ?w1] by (simp add: tidy_def cache_simps)
  have "tidy key (store_upsert key (saved_metadata key a now s u old) ?w1)" for old
    using w1 index_ok_upsert [of key ?w1 "saved_metadata key a now s u old"]
      files_ok_cong [of "store_upsert key (saved_metadata key a now s u old) ?w1" ?w1]
    by (simp add: tidy_def cache_simps saved_metadata_def)
  with w w1 show ?thesis
    by (simp add: save_slot_for_scope_def Let_def cache_simps)
qed

lemma delete_entry_parts:
  "lm_scopes (fst (delete_cache_entry cfg key ok m w)) = lm_scopes w"
  "sv_slots (fst (delete_cache_entry cfg key ok m w)) = sv_slots w"
  "tidy key w \<Longrightarrow> tidy key (fst (delete_cache_entry cfg key ok m w))"
proof -
  show "lm_scopes (fst (delete_cache_entry cfg key ok m w)) = lm_scopes w"
    "sv_slots (fst (delete_cache_entry cfg key ok m w)) = sv_slots w"
    by (simp_all add: delete_cache_entry_def cache_simps)
  assume "tidy key w"
  then show "tidy key (fst (delete_cache_entry cfg key ok m w))"
    using index_ok_delete [of key w "key (ce_scope m)"]
      index_ok_delete [of key "w\<lparr>sv_files := (sv_files w)(ce_filename m := None)\<rparr>" "key (ce_scope m)"]
    by (simp add: delete_cache_entry_def tidy_def files_ok_def index_ok_def cache_simps)
qed

lemma prune_entries_parts:
  "lm_scopes (fst (prune_entries cfg key ok now ms sz w)) = lm_scopes w \<and>
   sv_slots (fst (prune_entries cfg key ok now ms sz w)) = sv_slots w \<and>
   (tidy key w \<longrightarrow> tidy key (fst (prune_entries cfg key ok now ms sz w)))"
proof (induction ms arbitrary: sz w)
  case Nil
  then show ?case by simp
next
  case (Cons m ms)
  obtain w' b where d: "delete_cache_entry cfg key ok m w = (w', b)"
    by (cases "delete_cache_entry cfg key ok m w")
  then have "lm_scopes w' = lm_scopes w \<and> sv_slots w' = sv_slots w \<and> (tidy key w \<longrightarrow> tidy key w')"
    using delete_entry_parts(1,2) [of cfg key ok m w] delete_entry_parts(3) [of key w cfg ok m] by simp
  then show ?case
    using Cons.IH [of sz w] Cons.IH [of sz w'] Cons.IH [of "sz - max 0 (ce_bytes m)" w'] d
    by (cases b) (auto simp: Let_def)
qed

lemma prune_due_parts:
  "lm_scopes (prune_if_due cfg key ok tick now w) = lm_scopes w"
  "sv_slots (prune_if_due cfg key ok tick now w) = sv_slots w"
  "tidy key w \<Longrightarrow> tidy key (prune_if_due cfg key ok tick now w)"
  using prune_entries_parts [where cfg = cfg and key = key and ok = ok and now = now]
  by (simp_all add: prune_if_due_def prune_cache_def cache_simps)

text \<open>What \<open>prepare\<close> gives on a slot that holds what is tracked for it.\<close>

lemma prepare_spec:
  assumes w: "tidy key w" and use: "should_use_cache cfg e" and slot: "entry_slot_id e = Some slot"
    and own: "\<And>s. dget (lm_scopes w) slot = Some s \<Longrightarrow> holds key w slot s"
    and honest: "honest (pe_restore env)"
    and p: "prepare_cache cfg key env e scope w = (w', l)"
  shows "tidy key w'" "frame {slot} w w'" "\<exists>t. dget (lm_scopes w') slot = Some t \<and> key t = key scope"
    "le_enabled l \<and> le_scope l = Some scope \<and> le_slot l = Some slot"
    "le_hit l \<noteq> NoHit \<Longrightarrow> holds key w' slot scope"
proof -
  have *: "tidy key w' \<and> frame {slot} w w' \<and> (\<exists>t. dget (lm_scopes w') slot = Some t \<and> key t = key scope) \<and>
    (le_enabled l \<and> le_scope l = Some scope \<and> le_slot l = Some slot) \<and>
    (le_hit l \<noteq> NoHit \<longrightarrow> holds key w' slot scope)"
  proof (cases "sc_user scope \<in> set (lm_reset w)")
    case True
    then show ?thesis
      using p use slot w
      by (auto simp: prepare_cache_def cache_simps frame_def dget_dput dget_dpop erase_other lease_for_def no_lease_def)
  next
    case reset: False
    show ?thesis
    proof (cases "\<exists>existing. dget (lm_scopes w) slot = Some existing \<and> key existing = key scope")
      case True
      then obtain t where t: "dget (lm_scopes w) slot = Some t" "key t = key scope" by blast
      have h: "holds key w slot scope" using own [OF t(1)] holds_key [OF t(2)] by blast
      have "w' = (case store_get (key scope) w of None \<Rightarrow> w | Some x \<Rightarrow> mark_used key (pe_now env) x w)"
        "le_enabled l \<and> le_scope l = Some scope \<and> le_slot l = Some slot"
        using p use slot reset True by (auto simp: prepare_cache_def Let_def lease_for_def no_lease_def)
      then show ?thesis
        using t h w tidy_used by (auto simp: cache_simps frame_def holds_def split: option.split)
    next
      case False
      define v where "v = evict cfg key env e slot scope w"
      have v: "tidy key v" "frame {slot} w v"
        using w own slot
        by (auto simp: v_def evict_def frame_def cache_simps save_other erase_other intro: save_tidy split: option.split)
      have r: "restore_scope cfg key env slot scope v = (w', l)"
        using p use slot reset False by (auto simp: prepare_cache_def v_def)
      show ?thesis
      proof (cases "store_get (key scope) v")
        case None
        then show ?thesis
          using r v by (auto simp: restore_scope_def cache_simps frame_def dget_dput lease_for_def no_lease_def)
      next
        case (Some m)
        have fn: "ce_filename m = scope_filename key scope"
          using index_entry [of key v "key scope" m] v(1) Some by (simp add: tidy_def store_get_def scope_filename_def)
        have content: "\<forall>c\<in>set_option (sv_files v (scope_filename key scope)). key c = key scope"
          by (rule files_content [OF v(1)])
        have used: "tidy key (mark_used key (pe_now env) m (server_restore (pe_restore env) slot fn v))" for fn
          using v(1) by (intro tidy_used) (simp add: cache_simps)
        have here: "an_ok (pe_restore env) \<Longrightarrow>
            sv_slots (server_restore (pe_restore env) slot (scope_filename key scope) v) slot = sv_files v (scope_filename key scope)"
          using honest by (simp add: honest_def server_restore_def)
        show ?thesis
          using r Some v used content here
          by (auto simp: restore_scope_def Let_def fn cache_simps frame_def dget_dput lease_for_def no_lease_def
                restore_other holds_def split: if_splits)
      qed
    qed
  qed
  then show "tidy key w'" "frame {slot} w w'" "\<exists>t. dget (lm_scopes w') slot = Some t \<and> key t = key scope"
    "le_enabled l \<and> le_scope l = Some scope \<and> le_slot l = Some slot"
    "le_hit l \<noteq> NoHit \<Longrightarrow> holds key w' slot scope"
    by blast+
qed

text \<open>What may be tracked for a slot whose request has the scope \<open>s\<close>: nothing, or a scope of the same key.\<close>

definition tracked_for :: "scope_key \<Rightarrow> cache_world \<Rightarrow> int \<Rightarrow> cache_scope \<Rightarrow> bool" where
  "tracked_for key w slot s \<longleftrightarrow> (\<forall>t\<in>set_option (dget (lm_scopes w) slot). key t = key s)"

text \<open>What \<open>finalize\<close> leaves, when the slot holds the content of the scope of the lease.\<close>

lemma finalize_spec:
  assumes w: "tidy key w" and slot: "entry_slot_id e = Some slot" and own: "sv_slots w slot = Some scope"
    and t: "tracked_for key w slot scope"
    and l: "le_enabled l" "le_scope l = Some scope" "le_slot l = Some slot"
    and f: "finalize_cache cfg key env e l u r w = (w', again, reason)"
  shows "tidy key w' \<and> frame {slot} w w' \<and> tracked_for key w' slot scope \<and>
    (dget (lm_scopes w') slot = None \<or> sv_slots w' slot = Some scope)"
proof (cases "validate_reuse cfg l u")
  case (Some x)
  then show ?thesis
    using f l w slot by (auto simp: finalize_cache_def cache_simps frame_def dget_dpop erase_other tracked_for_def)
next
  case None
  let ?s = "save_slot_for_scope cfg key (fe_save env) (fe_now env) slot scope (Some u) w"
  have "tidy key ?s" by (rule save_tidy [OF w holds_some [OF own]])
  moreover have "w' = (if should_save cfg (fe_now env) l u
      then prune_if_due cfg key (fe_unlink env) (fe_tick env) (fe_now env) ?s else w)"
    using f l None by (simp add: finalize_cache_def)
  ultimately show ?thesis
    using w own t save_tracks [of cfg key "fe_save env" "fe_now env" slot scope "Some u" w]
    by (auto simp: prune_due_parts frame_def save_other tracked_for_def)
qed

text \<open>
  Requests on different slots overlap: each slot carries at most the request that holds it. A request of a cached load
  class prepares its slot, later ends; between the two, other slots move, users reset their conversations, and the
  cache is pruned. The guards of \<open>cs_end\<close> leave out what \<open>cancelled_call_keeps_tracking\<close> below shows to be unsafe: the
  first call is not cancelled, and the second one, if it is made, answers.
\<close>

type_synonym running_request = "queue_entry \<times> cache_scope \<times> cache_lease"
type_synonym cache_system = "cache_world \<times> (int \<Rightarrow> running_request option)"

inductive cache_step :: "cache_config \<Rightarrow> scope_key \<Rightarrow> cache_system \<Rightarrow> cache_system \<Rightarrow> bool"
  for cfg :: cache_config and key :: scope_key where
  cs_prepare: "should_use_cache cfg e \<Longrightarrow> entry_slot_id e = Some i \<Longrightarrow> b i = None \<Longrightarrow> honest (pe_restore env) \<Longrightarrow>
    prepare_cache cfg key env e scope w = (w', l) \<Longrightarrow> cache_step cfg key (w, b) (w', b(i := Some (e, scope, l)))"
| cs_end: "b i = Some (e, scope, l) \<Longrightarrow> fst call1 \<noteq> CallCancelled \<Longrightarrow> fst call2 = Answered u2 \<Longrightarrow>
    after_prepare cfg key env1 env2 e scope l call1 call2 w = (w', r) \<Longrightarrow> cache_step cfg key (w, b) (w', b(i := None))"
| cs_reset: "cache_step cfg key (w, b) (mark_user_reset cfg key ok user w, b)"
| cs_prune: "cache_step cfg key (w, b) (prune_if_due cfg key ok tick now w, b)"

inductive_cases cache_step_cases: "cache_step cfg key s t"

definition cache_start :: "cache_system \<Rightarrow> bool" where
  "cache_start s \<longleftrightarrow> s = (cache_empty, \<lambda>_. None)"

definition slot_ok :: "scope_key \<Rightarrow> cache_world \<Rightarrow> running_request option \<Rightarrow> int \<Rightarrow> bool" where
  "slot_ok key w r i \<longleftrightarrow>
     (case r of
        None \<Rightarrow> (\<forall>s\<in>set_option (dget (lm_scopes w) i). holds key w i s)
      | Some (e, scope, l) \<Rightarrow>
          tracked_for key w i scope \<and> entry_slot_id e = Some i \<and>
          le_enabled l \<and> le_scope l = Some scope \<and> le_slot l = Some i)"

definition cache_inv :: "scope_key \<Rightarrow> cache_system \<Rightarrow> bool" where
  "cache_inv key s \<longleftrightarrow> tidy key (fst s) \<and> (\<forall>i. slot_ok key (fst s) (snd s i) i)"

lemma slot_ok_frame: "frame I w w' \<Longrightarrow> i \<notin> I \<Longrightarrow> slot_ok key w' r i = slot_ok key w r i"
  by (simp add: slot_ok_def frame_def holds_def tracked_for_def split: option.split)

lemma call_parts:
  assumes "entry_slot_id e = Some slot"
  shows "tidy key (provider_call e scope c left w) = tidy key w" "frame {slot} w (provider_call e scope c left w)"
    "lm_scopes (provider_call e scope c left w) = lm_scopes w"
    "sv_slots (provider_call e scope (Answered u) left w) slot = Some scope"
    "tracked_for key (provider_call e scope c left w) slot s = tracked_for key w slot s"
  using assms by (simp_all add: provider_call_def cache_simps frame_def tracked_for_def)

lemma finalize_slot_ok:
  assumes "tracked_for key w slot scope" "dget (lm_scopes w) slot = None \<or> sv_slots w slot = Some scope"
  shows "slot_ok key w None slot"
  using assms by (auto simp: slot_ok_def tracked_for_def holds_def)

lemma retry_spec:
  assumes w: "tidy key w" and slot: "entry_slot_id e = Some slot" and t: "tracked_for key w slot scope"
    and p: "prepare_uncached_retry cfg e scope w = (w3, l2)"
    and g: "finalize_cache cfg key env e l2 u2 False (provider_call e scope (Answered u2) left w3) = (w5, again, reason)"
  shows "tidy key w5 \<and> frame {slot} w w5 \<and> slot_ok key w5 None slot"
proof -
  let ?w4 = "provider_call e scope (Answered u2) left w3"
  consider "w3 = w" "l2 = no_lease" | "w3 = track slot scope w" "l2 = lease_for scope slot"
    using p slot by (simp add: prepare_uncached_retry_def split: if_split_asm)
  then show ?thesis
  proof cases
    case 1
    then have "w5 = ?w4" using g by (simp add: finalize_cache_def no_lease_def)
    then show ?thesis
      using 1 w t finalize_slot_ok [of key ?w4 slot scope] by (simp add: call_parts [OF slot])
  next
    case 2
    have f: "frame {slot} w w3" by (simp add: 2 frame_def cache_simps dget_dput)
    have l2: "le_enabled l2" "le_scope l2 = Some scope" "le_slot l2 = Some slot"
      by (simp_all add: 2 lease_for_def no_lease_def)
    have "tidy key ?w4" "tracked_for key ?w4 slot scope" "frame {slot} w ?w4"
      using w frame_trans [OF f call_parts(2) [OF slot]]
      by (simp_all add: call_parts [OF slot]) (simp_all add: 2 cache_simps dget_dput tracked_for_def)
    then show ?thesis
      using finalize_spec [OF _ slot call_parts(4) [OF slot] _ l2 g] finalize_slot_ok frame_trans by blast
  qed
qed

lemma after_prepare_spec:
  assumes w: "tidy key w" and slot: "entry_slot_id e = Some slot" and t: "tracked_for key w slot scope"
    and l: "le_enabled l" "le_scope l = Some scope" "le_slot l = Some slot"
    and c: "fst call1 \<noteq> CallCancelled" "fst call2 = Answered u2"
    and a: "after_prepare cfg key env1 env2 e scope l call1 call2 w = (w', r)"
  shows "tidy key w' \<and> frame {slot} w w' \<and> slot_ok key w' None slot"
proof (cases "fst call1")
  case CallFailed
  then show ?thesis
    using a l w call_parts(2) [OF slot, of w scope CallFailed "snd call1"]
    by (auto simp: after_prepare_def Let_def abort_cache_def cache_simps call_parts(1,3) [OF slot] frame_def dget_dpop slot_ok_def)
next
  case CallCancelled
  then show ?thesis using c by simp
next
  case (Answered u1)
  let ?w1 = "provider_call e scope (Answered u1) (snd call1) w"
  obtain w2 again reason where f: "finalize_cache cfg key env1 e l u1 True ?w1 = (w2, again, reason)"
    by (metis surj_pair)
  have "tidy key w2 \<and> frame {slot} ?w1 w2 \<and> tracked_for key w2 slot scope \<and>
      (dget (lm_scopes w2) slot = None \<or> sv_slots w2 slot = Some scope)"
    using finalize_spec [OF _ slot call_parts(4) [OF slot] _ l f] w t by (simp add: call_parts(1,5) [OF slot])
  then have s2: "tidy key w2" "frame {slot} w w2" "slot_ok key w2 None slot" "tracked_for key w2 slot scope"
    using frame_trans [OF call_parts(2) [OF slot]] finalize_slot_ok by blast+
  obtain w3 l2 where p: "prepare_uncached_retry cfg e scope w2 = (w3, l2)"
    by (metis surj_pair)
  obtain w5 again5 reason5 where
    g: "finalize_cache cfg key env2 e l2 u2 False (provider_call e scope (Answered u2) (snd call2) w3) = (w5, again5, reason5)"
    by (metis surj_pair)
  have "w' = (if again then w5 else w2)"
    using a f p g Answered c(2) by (simp add: after_prepare_def Let_def split: if_split_asm)
  then show ?thesis
    using s2 retry_spec [OF s2(1) slot s2(4) p g] frame_trans [OF s2(2)] by (cases again) simp_all
qed

lemma fold_delete_parts:
  "lm_scopes (fold (\<lambda>m w. fst (delete_cache_entry cfg key ok m w)) ms w) = lm_scopes w \<and>
   sv_slots (fold (\<lambda>m w. fst (delete_cache_entry cfg key ok m w)) ms w) = sv_slots w \<and>
   (tidy key w \<longrightarrow> tidy key (fold (\<lambda>m w. fst (delete_cache_entry cfg key ok m w)) ms w))"
  by (induction ms arbitrary: w) (simp_all add: delete_entry_parts)


lemma reset_parts:
  "dget (lm_scopes (mark_user_reset cfg key ok user w)) i = Some s \<Longrightarrow> dget (lm_scopes w) i = Some s"
  "sv_slots (mark_user_reset cfg key ok user w) = sv_slots w"
  "tidy key w \<Longrightarrow> tidy key (mark_user_reset cfg key ok user w)"
  by (simp_all add: mark_user_reset_def Let_def fold_delete_parts dget_fold_dpop cache_simps tidy_cong [of "_\<lparr>lm_reset := _, lm_scopes := _\<rparr>" w] split: if_split_asm)

lemma slot_ok_weaken:
  assumes "slot_ok key w r i" "\<And>s. dget (lm_scopes w') i = Some s \<Longrightarrow> dget (lm_scopes w) i = Some s" "sv_slots w' = sv_slots w"
  shows "slot_ok key w' r i"
  using assms by (cases "dget (lm_scopes w') i") (auto simp: slot_ok_def tracked_for_def holds_def split: option.splits)

lemma cache_inv_step:
  assumes inv: "cache_inv key s" and step: "cache_step cfg key s t"
  shows "cache_inv key t"
  using step inv
proof (induction rule: cache_step.induct)
  case (cs_prepare e i b env scope w w' l)
  then have w: "tidy key w" "\<And>j. slot_ok key w (b j) j" by (simp_all add: cache_inv_def)
  have own: "holds key w i s" if "dget (lm_scopes w) i = Some s" for s
    using w(2) [of i] cs_prepare.hyps(3) that by (simp add: slot_ok_def)
  note p = prepare_spec [OF w(1) cs_prepare.hyps(1,2) own cs_prepare.hyps(4,5)]
  show ?case
    using p cs_prepare.hyps(2) w(2) slot_ok_frame [OF p(2)] by (auto simp: cache_inv_def slot_ok_def tracked_for_def)
next
  case (cs_end b i e scope l call1 call2 u2 env1 env2 w w' r)
  then have w: "tidy key w" "\<And>j. slot_ok key w (b j) j" by (simp_all add: cache_inv_def)
  then have s: "tracked_for key w i scope" "entry_slot_id e = Some i"
      "le_enabled l" "le_scope l = Some scope" "le_slot l = Some i"
    using w(2) [of i] cs_end.hyps(1) by (simp_all add: slot_ok_def)
  have a: "tidy key w' \<and> frame {i} w w' \<and> slot_ok key w' None i"
    by (rule after_prepare_spec [OF w(1) s(2,1,3,4,5) cs_end.hyps(2,3,4)])
  then show ?case
    using w(2) slot_ok_frame [of "{i}" w w'] by (simp add: cache_inv_def)
next
  case (cs_reset w b ok user)
  then show ?case
    using slot_ok_weaken [OF _ reset_parts(1,2)] reset_parts(3) by (simp add: cache_inv_def)
next
  case (cs_prune w b ok tick now)
  then show ?case
    using slot_ok_weaken [of key w _ _ "prune_if_due cfg key ok tick now w"] by (simp add: cache_inv_def prune_due_parts)
qed

interpretation slot_cache: invariant_system cache_start "cache_step cfg key" "cache_inv key" for cfg key
proof
  show "cache_inv key s" if "cache_start s" for s
    using that
    by (simp add: cache_start_def cache_inv_def cache_empty_def tidy_def index_ok_def files_ok_def slot_ok_def)
qed (rule cache_inv_step)

section \<open>Pruning\<close>

text \<open>The entries a pruning deletes, when every deletion succeeds.\<close>

definition too_old :: "cache_config \<Rightarrow> rat \<Rightarrow> cache_metadata \<Rightarrow> bool" where
  "too_old cfg now m \<longleftrightarrow> now - ce_used m > of_int (cc_max_age_days cfg) * 24 * 3600"

fun victims :: "cache_config \<Rightarrow> rat \<Rightarrow> (cache_metadata \<Rightarrow> bool) \<Rightarrow> cache_metadata list \<Rightarrow> int \<Rightarrow> cache_metadata list" where
  "victims cfg now live [] sz = []"
| "victims cfg now live (m # ms) sz =
     (if live m \<or> (\<not> too_old cfg now m \<and> \<not> sz > cc_max_bytes cfg) then victims cfg now live ms sz
      else m # victims cfg now live ms (sz - max 0 (ce_bytes m)))"

lemma victims_subset: "set (victims cfg now live ms sz) \<subseteq> {m \<in> set ms. \<not> live m}"
  by (induction ms arbitrary: sz) (auto split: if_splits)

lemma victims_filter: "distinct ms \<Longrightarrow> victims cfg now live ms sz = filter (\<lambda>m. m \<in> set (victims cfg now live ms sz)) ms"
proof (induction ms arbitrary: sz)
  case (Cons m ms)
  let ?v = "\<lambda>s. victims cfg now live ms s"
  have "m \<notin> set (?v s)" for s
    using victims_subset [of cfg now live ms s] Cons.prems by auto
  moreover have "filter (\<lambda>x. x = m \<or> x \<in> set (?v s)) ms = filter (\<lambda>x. x \<in> set (?v s)) ms" for s
    using Cons.prems by (intro filter_cong) auto
  ultimately show ?case
    using Cons.IH [of sz] Cons.IH [of "sz - max 0 (ce_bytes m)"] Cons.prems by simp
qed simp

lemma total_bytes_nonneg: "0 \<le> total_bytes ms"
  by (auto simp: total_bytes_def intro!: sum_list_nonneg)

lemma total_bytes_filter: "total_bytes (filter P ms) + total_bytes (filter (\<lambda>m. \<not> P m) ms) = total_bytes ms"
  by (induction ms) (auto simp: total_bytes_def)

lemma victims_all_old: "m \<in> set ms \<Longrightarrow> \<not> live m \<Longrightarrow> too_old cfg now m \<Longrightarrow> m \<in> set (victims cfg now live ms sz)"
  by (induction ms arbitrary: sz) auto

lemma victims_until_budget:
  "sz - total_bytes (victims cfg now live ms sz) > cc_max_bytes cfg \<Longrightarrow> m \<in> set ms \<Longrightarrow> \<not> live m \<Longrightarrow>
   m \<in> set (victims cfg now live ms sz)"
proof (induction ms arbitrary: sz)
  case (Cons x ms)
  have "total_bytes (x # ys) = max 0 (ce_bytes x) + total_bytes ys" for ys
    by (simp add: total_bytes_def)
  moreover have "sz > cc_max_bytes cfg"
    using Cons.prems(1) total_bytes_nonneg [of "victims cfg now live (x # ms) sz"] by linarith
  ultimately show ?case
    using Cons.IH [of sz] Cons.IH [of "sz - max 0 (ce_bytes x)"] Cons.prems
    by (auto simp: algebra_simps split: if_splits)
qed simp

lemma prune_entries_victims:
  assumes "cc_cleanup cfg" "\<And>fn. ok fn"
  shows "\<forall>m\<in>set ms. starts_with (ce_filename m) MANAGED_PREFIX \<Longrightarrow>
    let vs = victims cfg now (\<lambda>m. key (ce_scope m) \<in> active_keys key w) ms sz;
        w' = fst (prune_entries cfg key ok now ms sz w)
    in lm_store w' = filter (\<lambda>(k, e). k \<notin> (\<lambda>m. key (ce_scope m)) ` set vs) (lm_store w) \<and>
       sv_files w' = (\<lambda>fn. if fn \<in> ce_filename ` set vs then None else sv_files w fn)"
proof (induction ms arbitrary: sz w)
  case Nil
  then show ?case by simp
next
  case (Cons m ms)
  define w1 where "w1 = store_delete (key (ce_scope m)) (w\<lparr>sv_files := (sv_files w)(ce_filename m := None)\<rparr>)"
  have d: "delete_cache_entry cfg key ok m w = (w1, True)"
    using Cons.prems assms by (simp add: delete_cache_entry_def w1_def)
  have a: "active_keys key w1 = active_keys key w"
    by (simp add: active_keys_def w1_def cache_simps)
  have s: "lm_store w1 = filter (\<lambda>(k, e). k \<noteq> key (ce_scope m)) (lm_store w)"
    "sv_files w1 = (sv_files w)(ce_filename m := None)"
    by (auto simp: w1_def store_delete_def dpop_def AList.delete_eq intro!: filter_cong)
  show ?case
    using Cons.IH [of w sz] Cons.IH [of w1 "sz - max 0 (ce_bytes m)"] Cons.prems
    by (auto simp: Let_def too_old_def d a s fun_eq_iff intro!: filter_cong)
qed


text \<open>Pruning removes a list of victims, one entry and one file each.\<close>

lemma prune_outcome:
  assumes "cc_cleanup cfg" "\<And>fn. ok fn" and idx: "index_ok key w" and dist: "distinct (dkeys (lm_store w))"
    and w': "w' = prune_cache cfg key ok now w"
    and vs_def: "vs = victims cfg now (\<lambda>m. key (ce_scope m) \<in> active_keys key w) (store_list w) (total_bytes (store_list w))"
  shows "lm_store w' = filter (\<lambda>(k, m). m \<notin> set vs) (lm_store w)"
    "sv_files w' = (\<lambda>fn. if fn \<in> ce_filename ` set vs then None else sv_files w fn)"
    "total_bytes (map snd (lm_store w')) = total_bytes (store_list w) - total_bytes vs"
proof -
  let ?live = "\<lambda>m. key (ce_scope m) \<in> active_keys key w"
  let ?L = "store_list w"
  have entry: "k = key (ce_scope m) \<and> ce_filename m = MANAGED_PREFIX @ k @ ''.bin''" if "(k, m) \<in> set (lm_store w)" for k m
    using idx that by (auto simp: index_ok_def)
  have L: "set ?L = snd ` set (lm_store w)" by (simp add: store_list_def)
  have "distinct (map snd (lm_store w))"
  proof -
    have "inj_on snd (set (lm_store w))"
      using entry by (intro inj_onI) (metis prod.collapse)
    moreover have "distinct (lm_store w)" using dist by (simp add: dkeys_def distinct_map)
    ultimately show ?thesis by (simp add: distinct_map)
  qed
  then have dL: "distinct ?L" by (simp add: store_list_def)
  have same: "m \<in> set vs \<longleftrightarrow> k \<in> (\<lambda>m. key (ce_scope m)) ` set vs" if "(k, m) \<in> set (lm_store w)" for k m
  proof
    assume "k \<in> (\<lambda>m. key (ce_scope m)) ` set vs"
    then obtain v where v: "v \<in> set vs" "k = key (ce_scope v)" by blast
    then obtain k' where k': "(k', v) \<in> set (lm_store w)"
      using victims_subset [of cfg now ?live ?L "total_bytes ?L"] L by (auto simp: vs_def)
    then have "k' = k" using entry v(2) by blast
    then show "m \<in> set vs"
      using k' that dist v(1) by (metis dget_in_set option.inject)
  qed (use entry [OF that] in blast)
  have pre: "\<forall>m\<in>set ?L. starts_with (ce_filename m) MANAGED_PREFIX"
    using entry by (auto simp: L)
  note pe = prune_entries_victims [where cfg = cfg and ok = ok and key = key and w = w and now = now
      and sz = "total_bytes ?L", OF assms(1,2) pre, unfolded Let_def, folded vs_def]
  have "lm_store w' = filter (\<lambda>(k, e). k \<notin> (\<lambda>m. key (ce_scope m)) ` set vs) (lm_store w)"
    using pe by (simp add: w' prune_cache_def)
  also have "\<dots> = filter (\<lambda>(k, m). m \<notin> set vs) (lm_store w)"
    by (rule filter_cong) (use same in \<open>auto simp del: image_iff\<close>)
  finally show store: "lm_store w' = filter (\<lambda>(k, m). m \<notin> set vs) (lm_store w)" .
  show "sv_files w' = (\<lambda>fn. if fn \<in> ce_filename ` set vs then None else sv_files w fn)"
    using pe by (simp add: w' prune_cache_def)
  have "mset ?L = mset (map snd (lm_store w))" by (simp add: store_list_def)
  then have "sum_mset (image_mset (\<lambda>m. max 0 (ce_bytes m)) (mset (filter P ?L))) =
      sum_mset (image_mset (\<lambda>m. max 0 (ce_bytes m)) (mset (filter P (map snd (lm_store w)))))" for P
    by simp
  then have perm: "total_bytes (filter P ?L) = total_bytes (filter P (map snd (lm_store w)))" for P
    by (simp add: total_bytes_def flip: sum_mset_sum_list)
  have "map snd (lm_store w') = filter (\<lambda>m. m \<notin> set vs) (map snd (lm_store w))"
    by (simp add: store filter_map comp_def case_prod_unfold)
  then have "total_bytes (map snd (lm_store w')) = total_bytes (filter (\<lambda>m. m \<notin> set vs) ?L)"
    by (simp add: perm)
  also have "\<dots> = total_bytes ?L - total_bytes vs"
    using total_bytes_filter [of "\<lambda>m. m \<in> set vs" ?L] victims_filter [OF dL, of cfg now ?live "total_bytes ?L"]
    by (simp add: vs_def)
  finally show "total_bytes (map snd (lm_store w')) = total_bytes (store_list w) - total_bytes vs" .
qed

text \<open>A pruning keeps every entry, and the file of every entry, whose scope a slot is tracked for; what it leaves
  besides those is not older than the age limit; and afterwards the sizes fit the budget, or nothing but tracked entries
  is left.
\<close>

theorem prune_keeps_live_and_fits:
  assumes "cc_cleanup cfg" "\<And>fn. ok fn" and idx: "index_ok key w" and dist: "distinct (dkeys (lm_store w))"
    and w': "w' = prune_cache cfg key ok now w"
  shows "(\<forall>(k, m)\<in>set (lm_store w). k \<in> active_keys key w \<longrightarrow>
            (k, m) \<in> set (lm_store w') \<and> sv_files w' (ce_filename m) = sv_files w (ce_filename m)) \<and>
         (\<forall>(k, m)\<in>set (lm_store w'). k \<notin> active_keys key w \<longrightarrow> \<not> too_old cfg now m) \<and>
         (total_bytes (map snd (lm_store w')) \<le> cc_max_bytes cfg \<or> (\<forall>(k, m)\<in>set (lm_store w'). k \<in> active_keys key w))"
proof -
  let ?live = "\<lambda>m. key (ce_scope m) \<in> active_keys key w"
  define vs where "vs = victims cfg now ?live (store_list w) (total_bytes (store_list w))"
  note out = prune_outcome [OF assms vs_def]
  have entry: "k = key (ce_scope m) \<and> ce_filename m = MANAGED_PREFIX @ k @ ''.bin''" if "(k, m) \<in> set (lm_store w)" for k m
    using idx that by (auto simp: index_ok_def)
  have listed: "m \<in> set (store_list w)" if "(k, m) \<in> set (lm_store w)" for k m
    using that by (force simp: store_list_def)
  have victim: "\<exists>k. (k, m) \<in> set (lm_store w) \<and> k \<notin> active_keys key w" if "m \<in> set vs" for m
  proof -
    have "m \<in> {m \<in> set (store_list w). \<not> ?live m}"
      using subsetD [OF victims_subset that [unfolded vs_def]] .
    then obtain k where "(k, m) \<in> set (lm_store w)" "\<not> ?live m"
      by (auto simp: store_list_def)
    then show ?thesis using entry [of k m] by auto
  qed
  have "(k, m) \<in> set (lm_store w') \<and> sv_files w' (ce_filename m) = sv_files w (ce_filename m)"
    if km: "(k, m) \<in> set (lm_store w)" "k \<in> active_keys key w" for k m
  proof -
    have "ce_filename v \<noteq> ce_filename m" if "v \<in> set vs" for v
    proof -
      obtain k' where "(k', v) \<in> set (lm_store w)" "k' \<notin> active_keys key w"
        using victim \<open>v \<in> set vs\<close> by blast
      then show ?thesis using entry [OF km(1)] entry [of k' v] km(2) by auto
    qed
    then have "ce_filename m \<notin> ce_filename ` set vs" by (metis imageE)
    moreover from this have "m \<notin> set vs" by blast
    ultimately show ?thesis using km(1) by (simp add: out(1,2))
  qed
  moreover have "\<not> too_old cfg now m" if "(k, m) \<in> set (lm_store w')" "k \<notin> active_keys key w" for k m
    using that listed entry victims_all_old [of m "store_list w" ?live cfg now] by (auto simp: out(1) vs_def)
  moreover have "k \<in> active_keys key w"
    if km: "(k, m) \<in> set (lm_store w')" and big: "\<not> total_bytes (map snd (lm_store w')) \<le> cc_max_bytes cfg" for k m
  proof -
    have "total_bytes (store_list w) - total_bytes vs > cc_max_bytes cfg" using big by (simp add: out(3))
    then have "m \<in> set vs" if "\<not> ?live m" "m \<in> set (store_list w)"
      unfolding vs_def using that victims_until_budget by blast
    moreover have "(k, m) \<in> set (lm_store w)" "m \<notin> set vs" using km by (simp_all add: out(1))
    ultimately show ?thesis using entry [of k m] listed by blast
  qed
  ultimately show ?thesis by blast
qed


section \<open>Whose content a hit offers\<close>

text \<open>C29: Consider any interleaving, from an empty manager, of requests on different slots, resets and prunings, in which
  every request on a slot is of a class the cache serves (interactive or subagent), no call is cancelled, no second call
  fails, and a restore that is reported as successful filled the slot from the file. When \<open>prepare\<close> then reports a hit on
  a free slot, what the slot holds was computed for the very user, conversation, agent, provider, model, preset, prompt and
  tools that ask, whatever file it was restored from; and so is what the scope's own file holds. (The hash in the key does
  not collide.) A request of another class on the slot breaks this (\<open>uncached_request_poisons_cache\<close>), and so do a
  cancelled call and a failed second call.
\<close>

theorem cache_hits_are_own:
  assumes "inj hash" and key: "key = hashed_key hash"
    and "reach cache_start (cache_step cfg key) (w, b)" "entry_slot_id e = Some i" "b i = None"
    "honest (pe_restore env)" "prepare_cache cfg key env e scope w = (w', l)" "le_hit l \<noteq> NoHit"
  shows "le_scope l = Some scope \<and> (\<forall>c\<in>set_option (sv_slots w' i). scope_fields c = scope_fields scope) \<and>
    (\<forall>c\<in>set_option (sv_files w' (scope_filename key scope)). scope_fields c = scope_fields scope)"
proof -
  have inv: "tidy key w" "slot_ok key w None i"
    using slot_cache.reach_inv [OF assms(3)] assms(5) by (auto simp: cache_inv_def dest: spec [of _ i])
  have use: "should_use_cache cfg e"
    using assms(7,8) by (auto simp: prepare_cache_def no_lease_def split: if_splits)
  have own: "holds key w i s" if "dget (lm_scopes w) i = Some s" for s
    using inv(2) that by (simp add: slot_ok_def)
  note p = prepare_spec [OF inv(1) use assms(4) own assms(6,7)]
  have fields: "scope_fields c = scope_fields scope" if "key c = key scope" for c
    using that assms(1) by (simp add: key hashed_key_def inj_eq)
  have "\<forall>c\<in>set_option (sv_files w' (scope_filename key scope)). key c = key scope"
    by (rule files_content [OF p(1)])
  moreover have "\<forall>c\<in>set_option (sv_slots w' i). key c = key scope"
    by (rule p(5) [OF _ assms(8), unfolded holds_def])
  moreover have "le_scope l = Some scope" using p(4) by blast
  ultimately show ?thesis using fields by blast
qed

text \<open>A request of a class the cache does not serve gets no lease, so nothing forgets what was tracked for its slot.\<close>

lemma no_lease_keeps_tracking:
  "after_prepare cfg key env1 env2 e v no_lease (Answered u, left) call2 w =
     (provider_call e v (Answered u) left w, Responded u)"
  by (simp add: after_prepare_def finalize_cache_def no_lease_def)

lemma cancelled_call_keeps_tracking:
  assumes "fst call1 = CallCancelled"
  shows "fst (after_prepare cfg key env1 env2 e scope l call1 call2 w) = provider_call e scope CallCancelled (snd call1) w"
    "lm_scopes (fst (after_prepare cfg key env1 env2 e scope l call1 call2 w)) = lm_scopes w"
  using assms by (simp_all add: after_prepare_def provider_call_def split: option.split)

lemma failed_retry_keeps_tracking:
  assumes "finalize_cache cfg key env1 e l u True (provider_call e scope (Answered u) left w) = (w2, True, reason)"
    and "should_use_cache cfg e" "entry_slot_id e = Some i"
  shows "dget (lm_scopes (fst (after_prepare cfg key env1 env2 e scope l (Answered u, left) (CallFailed, left2) w))) i = Some scope"
  using assms by (simp add: after_prepare_def prepare_uncached_retry_def provider_call_def cache_simps dget_dput)

text \<open>C30: The slots for overflow serve every load class, and a request of a class outside the cache (vision, compression,
  consolidation, ...) leaves the tracking of its slot alone. So when a slot is tracked for a scope \<open>s\<close> and such a request
  of \<open>v\<close> is answered on it, the next request of \<open>s\<close> there is told that its content is live, though the slot holds
  \<open>v\<close>'s; and a next request of a third scope saves \<open>v\<close>'s content in the file, and under the index entry, of \<open>s\<close>.
\<close>

theorem uncached_request_poisons_cache:
  assumes tracked: "dget (lm_scopes w) i = Some s"
    and e: "entry_slot_id e = Some i" "entry_load_class e \<notin> {Interactive, Subagent}"
    and e2: "entry_slot_id e2 = Some i" "should_use_cache cfg e2"
    and reset: "sc_user s \<notin> set (lm_reset w)" "sc_user t \<notin> set (lm_reset w)" and t: "key t \<noteq> key s"
    and client: "client_for cfg (sc_provider s)" "an_ok (pe_save env)" "an_done (pe_save env)"
  shows "\<exists>w1. prepare_cache cfg key env1 e v w = (w, no_lease) \<and>
    after_prepare cfg key f1 f2 e v no_lease (Answered u, left) call2 w = (w1, Responded u) \<and>
    le_hit (snd (prepare_cache cfg key env e2 s w1)) = L1 \<and>
    sv_slots (fst (prepare_cache cfg key env e2 s w1)) i = Some v \<and>
    sv_files (fst (prepare_cache cfg key env e2 t w1)) (scope_filename key s) = Some v \<and>
    dget (lm_store (fst (prepare_cache cfg key env e2 t w1))) (key s) \<noteq> None"
proof (intro exI conjI)
  let ?w1 = "provider_call e v (Answered u) left w"
  have w1: "lm_scopes ?w1 = lm_scopes w" "lm_reset ?w1 = lm_reset w" "sv_slots ?w1 i = Some v"
    using e by (simp_all add: provider_call_def)
  show "prepare_cache cfg key env1 e v w = (w, no_lease)"
    using e by (simp add: prepare_cache_def should_use_cache_def)
  show "after_prepare cfg key f1 f2 e v no_lease (Answered u, left) call2 w = (?w1, Responded u)"
    by (rule no_lease_keeps_tracking)
  have p: "prepare_cache cfg key env e2 s ?w1 =
      (case store_get (key s) ?w1 of None \<Rightarrow> ?w1 | Some x \<Rightarrow> mark_used key (pe_now env) x ?w1,
       snd (prepare_cache cfg key env e2 s ?w1))"
    "le_hit (snd (prepare_cache cfg key env e2 s ?w1)) = L1"
    using e2 reset tracked by (simp_all add: prepare_cache_def w1 Let_def)
  then show "le_hit (snd (prepare_cache cfg key env e2 s ?w1)) = L1" by simp
  show "sv_slots (fst (prepare_cache cfg key env e2 s ?w1)) i = Some v"
    by (subst p(1)) (simp add: w1 cache_simps split: option.split)
  let ?v = "evict cfg key env e2 i t ?w1"
  have v: "sv_files ?v (scope_filename key s) = Some v" "dget (lm_store ?v) (key s) \<noteq> None"
    using t client tracked e2
    by (simp_all add: evict_def w1 save_slot_for_scope_def Let_def cache_simps server_save_def)
      (simp add: store_upsert_def saved_metadata_def dget_dput)
  have q: "prepare_cache cfg key env e2 t ?w1 = restore_scope cfg key env i t ?v"
    using e2 reset tracked t by (simp add: prepare_cache_def w1)
  show "sv_files (fst (prepare_cache cfg key env e2 t ?w1)) (scope_filename key s) = Some v"
    using v unfolding q by (simp add: restore_scope_def Let_def cache_simps split: option.split)
  have "dkeys (lm_store (mark_used key now m x)) = dkeys (lm_store x)" for now m x
    by (simp add: mark_used_def dkeys_def case_prod_unfold comp_def)
  then have "(dget (lm_store (mark_used key now m x)) k \<noteq> None) = (dget (lm_store x) k \<noteq> None)" for now m x k
    by (simp only: dget_iff_keys)
  then show "dget (lm_store (fst (prepare_cache cfg key env e2 t ?w1))) (key s) \<noteq> None"
    using v unfolding q by (simp add: restore_scope_def Let_def cache_simps split: option.split)
qed


section \<open>Sample runs\<close>

text \<open>An injective key, to instantiate the parameter: the fields one after the other, each with an end mark.\<close>

fun esc :: "string \<Rightarrow> string" where
  "esc [] = [CHR 0x00]"
| "esc (c # cs) = CHR 0x01 # c # esc cs"

lemma esc_append: "esc a @ x = esc b @ y \<longleftrightarrow> a = b \<and> x = y"
  by (induction a arbitrary: b; case_tac b) auto

lemma esc_inject: "esc a = esc b \<longleftrightarrow> a = b"
  using esc_append [of a "[]" b "[]"] by simp

definition sample_hash :: "string list \<Rightarrow> string" where
  "sample_hash fs = concat (map (\<lambda>f. CHR 0x02 # esc f) fs)"

lemma sample_hash_inj: "inj sample_hash"
proof (rule injI)
  show "sample_hash xs = sample_hash ys \<Longrightarrow> xs = ys" for xs ys
    by (induction xs arbitrary: ys; case_tac ys) (auto simp: sample_hash_def esc_append)
qed

definition sample_key :: scope_key where
  "sample_key = hashed_key sample_hash"

definition sample_cache_config :: cache_config where
  "sample_cache_config = \<lparr>cc_enabled = True, cc_slot_api = Some ''http://localhost'', cc_max_bytes = 100, cc_max_age_days = 1,
     cc_policy = EveryResponse, cc_min_tokens = 0, cc_dirty_seconds = 0, cc_reuse = 1/2, cc_large_tokens = 1000,
     cc_large_reuse = 1/2, cc_max_recompute = 1, cc_strict_retry = True, cc_prune_interval = 10, cc_providers = [],
     cc_client_override = False, cc_cleanup = True\<rparr>"

definition sample_scope :: "string \<Rightarrow> cache_scope" where
  "sample_scope u = build_scope id id u [] [] ''local'' ''m'' None None []"

definition sample_cache_entry :: "load_class \<Rightarrow> queue_entry" where
  "sample_cache_entry c = \<lparr>entry_user = ''a'', entry_task_kind = [], entry_load_class = c, entry_provider = Some ''local'',
     enqueued_at = 0, acquired_at = Some 0, position_at_entry = 0, entry_slot_id = Some 0, entry_slot_kind = KOverflow,
     assignment_reused = False, backend_extra_body = None\<rparr>"

definition sample_answer :: slot_answer where
  "sample_answer = \<lparr>an_ok = True, an_done = True, an_tokens = 7, an_bytes = 60\<rparr>"

definition sample_prepare_env :: prepare_env where
  "sample_prepare_env = \<lparr>pe_save = sample_answer, pe_erase = sample_answer, pe_restore = sample_answer, pe_now = 5\<rparr>"

definition sample_finalize_env :: finalize_env where
  "sample_finalize_env = \<lparr>fe_save = sample_answer, fe_erase = sample_answer, fe_now = 6, fe_tick = 6, fe_unlink = (\<lambda>_. True)\<rparr>"

definition sample_usage :: llm_usage where
  "sample_usage = \<lparr>us_input = 7, us_cached = 7, us_prompt_n = 0\<rparr>"

lemmas sample_cache = sample_cache_config_def sample_cache_entry_def sample_answer_def
  sample_prepare_env_def sample_finalize_env_def sample_usage_def

lemma sample_scope_simps [simp]:
  "sample_scope u = sample_scope v \<longleftrightarrow> (u = v \<or> u \<in> {[], ''anonymous''} \<and> v \<in> {[], ''anonymous''})"
  "u \<noteq> [] \<Longrightarrow> sc_user (sample_scope u) = u" "sc_provider (sample_scope u) = ''local''"
  "sample_key (sample_scope u) = sample_key (sample_scope v) \<longleftrightarrow> sample_scope u = sample_scope v"
  "scope_filename sample_key (sample_scope u) = scope_filename sample_key (sample_scope v) \<longleftrightarrow> sample_scope u = sample_scope v"
  by (auto simp: sample_scope_def build_scope_def scope_filename_def sample_key_def hashed_key_def scope_fields_def
      inj_eq [OF sample_hash_inj])

lemmas cache_ops = prepare_cache_def should_use_cache_def restore_scope_def evict_def store_get_def track_def forget_def
  after_prepare_def finalize_cache_def validate_reuse_def should_save_def save_slot_for_scope_def store_upsert_def
  saved_metadata_def server_save_def server_restore_def server_erase_def erase_slot_def client_for_def provider_call_def
  prune_if_due_def lease_for_def no_lease_def cache_empty_def mark_used_def
  Let_def nonzero_or_def dget_dput dget_Cons dput_Cons


text \<open>A request of a user on slot 0, answered and saved.\<close>

definition sample_prepare :: "string \<Rightarrow> cache_world \<Rightarrow> cache_world \<times> cache_lease" where
  "sample_prepare u = prepare_cache sample_cache_config sample_key sample_prepare_env (sample_cache_entry Interactive) (sample_scope u)"

definition sample_serve :: "string \<Rightarrow> cache_world \<Rightarrow> cache_world" where
  "sample_serve u w = fst (after_prepare sample_cache_config sample_key sample_finalize_env sample_finalize_env
     (sample_cache_entry Interactive) (sample_scope u) (snd (sample_prepare u w))
     (Answered sample_usage, None) (Answered sample_usage, None) (fst (sample_prepare u w)))"

lemma sample_serve_reach:
  assumes "reach cache_start (cache_step sample_cache_config sample_key) (w, b)" "b 0 = None"
  shows "\<exists>b'. reach cache_start (cache_step sample_cache_config sample_key) (sample_serve u w, b') \<and> b' 0 = None"
proof -
  let ?S = "cache_step sample_cache_config sample_key"
  let ?b1 = "b(0 := Some (sample_cache_entry Interactive, sample_scope u, snd (sample_prepare u w)))"
  have "?S (w, b) (fst (sample_prepare u w), ?b1)"
    unfolding sample_prepare_def by (rule cs_prepare [where env = sample_prepare_env, OF _ _ _ _ prod.collapse [symmetric]])
      (simp_all add: assms sample_cache should_use_cache_def honest_def)
  moreover have "?S (fst (sample_prepare u w), ?b1) (sample_serve u w, ?b1(0 := None))"
    unfolding sample_serve_def by (rule cs_end [OF _ _ _ prod.collapse [symmetric]]) simp_all
  ultimately have "reach cache_start ?S (sample_serve u w, ?b1(0 := None))"
    using assms(1) by (meson reach_step)
  then show ?thesis by (intro exI [of _ "?b1(0 := None)"]) simp
qed

definition sample_metadata :: "string \<Rightarrow> rat \<Rightarrow> int \<Rightarrow> cache_metadata" where
  "sample_metadata u t n = \<lparr>ce_scope = sample_scope u, ce_filename = scope_filename sample_key (sample_scope u),
     ce_tokens = 7, ce_bytes = 60, ce_prompt = 7, ce_cached = 7, ce_prompt_n = 0, ce_created_at = 6, ce_used = t, ce_saved = t,
     ce_saves = n, ce_restores = 0\<rparr>"

lemma sample_serve_first: "sample_serve ''a'' cache_empty = \<lparr>lm_scopes = [(0, sample_scope ''a'')], lm_reset = [],
     lm_last_prune = 0, lm_store = [(sample_key (sample_scope ''a''), sample_metadata ''a'' 6 1)],
     sv_slots = [0 \<mapsto> sample_scope ''a''], sv_files = [scope_filename sample_key (sample_scope ''a'') \<mapsto> sample_scope ''a'']\<rparr>"
  by (simp add: sample_serve_def sample_prepare_def cache_ops sample_cache sample_metadata_def)

definition sample_world :: cache_world where
  "sample_world = sample_serve ''b'' (sample_serve ''a'' cache_empty)"

lemma sample_world_eval: "sample_world = \<lparr>lm_scopes = [(0, sample_scope ''b'')], lm_reset = [], lm_last_prune = 0,
     lm_store = [(sample_key (sample_scope ''a''), sample_metadata ''a'' 5 2), (sample_key (sample_scope ''b''), sample_metadata ''b'' 6 1)],
     sv_slots = [0 \<mapsto> sample_scope ''b''],
     sv_files = [scope_filename sample_key (sample_scope ''a'') \<mapsto> sample_scope ''a'',
                 scope_filename sample_key (sample_scope ''b'') \<mapsto> sample_scope ''b'']\<rparr>"
  unfolding sample_world_def sample_serve_first
  by (simp add: sample_serve_def sample_prepare_def cache_ops sample_cache sample_metadata_def)

lemma sample_world_reach: "\<exists>b. reach cache_start (cache_step sample_cache_config sample_key) (sample_world, b) \<and> b 0 = None"
proof -
  have "reach cache_start (cache_step sample_cache_config sample_key) (cache_empty, \<lambda>_. None)"
    by (rule reach_start) (simp add: cache_start_def)
  then have "\<exists>b. reach cache_start (cache_step sample_cache_config sample_key) (sample_serve ''a'' cache_empty, b) \<and> b 0 = None"
    by (rule sample_serve_reach) simp
  then show ?thesis
    unfolding sample_world_def using sample_serve_reach by blast
qed

lemma cache_hits_are_own_witness:
  "le_hit (snd (sample_prepare ''a'' sample_world)) = L2 \<and>
   (\<exists>c. sv_slots (fst (sample_prepare ''a'' sample_world)) 0 = Some c \<and> scope_fields c = scope_fields (sample_scope ''a''))"
proof -
  obtain b where b: "reach cache_start (cache_step sample_cache_config sample_key) (sample_world, b)" "b 0 = None"
    using sample_world_reach by blast
  have hit: "le_hit (snd (sample_prepare ''a'' sample_world)) = L2"
    "\<exists>c. sv_slots (fst (sample_prepare ''a'' sample_world)) 0 = Some c"
    unfolding sample_world_eval by (simp_all add: sample_prepare_def cache_ops sample_cache sample_metadata_def)
  have "entry_slot_id (sample_cache_entry Interactive) = Some 0" "honest (pe_restore sample_prepare_env)"
    by (simp_all add: sample_cache honest_def)
  from cache_hits_are_own [OF sample_hash_inj sample_key_def b(1) this(1) b(2) this(2),
      of "sample_scope ''a''" "fst (sample_prepare ''a'' sample_world)" "snd (sample_prepare ''a'' sample_world)"] hit
  show ?thesis by (auto simp: sample_prepare_def)
qed

lemma uncached_request_poisons_cache_witness:
  "sv_files (fst (sample_prepare ''b'' (fst (after_prepare sample_cache_config sample_key sample_finalize_env sample_finalize_env
      (sample_cache_entry Vision) (sample_scope ''v'') no_lease (Answered sample_usage, None) (CallFailed, None)
      (sample_serve ''a'' cache_empty))))) (scope_filename sample_key (sample_scope ''a'')) = Some (sample_scope ''v'')"
proof -
  let ?w = "sample_serve ''a'' cache_empty"
  have w: "dget (lm_scopes ?w) 0 = Some (sample_scope ''a'')" "lm_reset ?w = []"
    unfolding sample_serve_first by (simp_all add: dget_Cons)
  have e: "entry_slot_id (sample_cache_entry c) = Some 0" "entry_load_class (sample_cache_entry c) = c" for c
    by (simp_all add: sample_cache_entry_def)
  have c: "should_use_cache sample_cache_config (sample_cache_entry Interactive)" "client_for sample_cache_config ''local''"
    "an_ok (pe_save sample_prepare_env)" "an_done (pe_save sample_prepare_env)"
    by (simp_all add: sample_cache should_use_cache_def client_for_def)
  show ?thesis
    using uncached_request_poisons_cache [OF w(1) e(1), of Vision "sample_cache_entry Interactive" sample_cache_config
        "sample_scope ''b''" sample_key sample_prepare_env sample_prepare_env "sample_scope ''v''" sample_finalize_env
        sample_finalize_env sample_usage None "(CallFailed, None)"]
    by (auto simp: w e c sample_prepare_def)
qed

lemma prune_keeps_live_and_fits_witness:
  "(sample_key (sample_scope ''b''), sample_metadata ''b'' 6 1) \<in>
     set (lm_store (prune_cache sample_cache_config sample_key (\<lambda>_. True) 7 sample_world))"
proof -
  have "cc_cleanup sample_cache_config" "index_ok sample_key sample_world" "distinct (dkeys (lm_store sample_world))"
    by (simp_all add: sample_world_eval sample_cache_config_def index_ok_def sample_metadata_def scope_filename_def)
  from prune_keeps_live_and_fits [OF this(1) TrueI this(2,3) refl, of 7]
  show ?thesis by (simp add: sample_world_eval active_keys_def)
qed

end
