(* ===== verification/MemoryWorker.thy ===== *)
theory MemoryWorker
  imports Users AccessGates ChatStore ContextStore MemoryStore
begin

text \<open>
  \<open>memory/worker.py\<close> and \<open>memory/worker_merge.py\<close>: the background service that curates the memory of the users who
  opted in. One tick visits some users; a visit reads the profile (\<open>users/{id}.md\<close> of the bootstrap directories), the
  memory and the chats of the user, asks the model, writes the profile with a backup and stores the proposed entries.

  Parameters: the model (a function of the payload), \<open>json.dumps\<close> and \<open>json.loads\<close>, the hash, the end of the
  disclaimer (it has a character outside Latin-1), and which reads and writes fail. The file cache of the bootstrap
  loader is not modelled: reading gives the content of the file.
\<close>

section \<open>The reply of the model\<close>

definition MAX_WORKER_ABSTRACTION_LEN :: nat where "MAX_WORKER_ABSTRACTION_LEN = 120"
definition MAX_WORKER_VALUE_LEN :: nat where "MAX_WORKER_VALUE_LEN = 8000"
definition MAX_WORKER_CUES :: nat where "MAX_WORKER_CUES = 16"
definition MAX_WORKER_CUE_LEN :: nat where "MAX_WORKER_CUE_LEN = 64"

record worker_entry =
  we_abstraction :: string
  we_value :: string
  we_cues :: "string list"

record worker_update =
  wu_md :: string
  wu_entries :: "worker_entry list"
  wu_summary :: string

fun coerce_cues :: "json list \<Rightarrow> string list \<Rightarrow> string list" where
  "coerce_cues [] cues = cues"
| "coerce_cues (JStr s # rest) cues =
     (let c = take MAX_WORKER_CUE_LEN (strip s);
          cues' = (if c \<noteq> [] \<and> c \<notin> set cues then cues @ [c] else cues)
      in if length cues' \<ge> MAX_WORKER_CUES then cues' else coerce_cues rest cues')"
| "coerce_cues (v # rest) cues = coerce_cues rest cues"

definition coerce_entry :: "json \<Rightarrow> worker_entry option" where
  "coerce_entry raw =
     (case raw of
        JObj d \<Rightarrow>
          (case (jget d ''abstraction'', jget d ''value'') of
             (Some (JStr a), Some (JStr v)) \<Rightarrow>
               let abstraction = take MAX_WORKER_ABSTRACTION_LEN (strip a); val = take MAX_WORKER_VALUE_LEN (strip v)
               in if abstraction = [] \<or> val = [] then None
                  else Some \<lparr>we_abstraction = abstraction, we_value = val,
                    we_cues = coerce_cues (case jget d ''cues'' of Some (JArr xs) \<Rightarrow> xs | _ \<Rightarrow> []) []\<rparr>
           | _ \<Rightarrow> None)
      | _ \<Rightarrow> None)"

text \<open>\<open>str.splitlines()\<close> on Latin-1 text, and \<open>xs[:n]\<close>.\<close>

fun split_lines :: "string \<Rightarrow> string \<Rightarrow> string list" where
  "split_lines w [] = (if w = [] then [] else [w])"
| "split_lines w (c # s) =
     (if is_line_end c
      then w # split_lines [] (if c = CHR 0x0D \<and> s \<noteq> [] \<and> hd s = CHR 0x0A then tl s else s)
      else split_lines (w @ [c]) s)"

definition slice_to :: "int \<Rightarrow> 'a list \<Rightarrow> 'a list" where
  "slice_to n xs = (if n \<ge> 0 then take (nat n) xs else take (length xs - nat (- n)) xs)"

definition FENCE :: string where "FENCE = replicate 3 (CHR 0x60)"

definition unfence :: "string \<Rightarrow> string" where
  "unfence s =
     (if starts_with s FENCE
      then let ls = split_lines [] s;
               ls1 = (if ls \<noteq> [] \<and> starts_with (hd ls) FENCE then tl ls else ls);
               ls2 = (if ls1 \<noteq> [] \<and> strip (List.last ls1) = FENCE then butlast ls1 else ls1)
           in strip (join [CHR 0x0A] ls2)
      else s)"

text \<open>From the first \<open>{\<close> to the last \<open>}\<close>.\<close>

definition object_text :: "string \<Rightarrow> string option" where
  "object_text s =
     (if starts_with s ''{'' then Some s
      else let n = length s - length (dropWhile (\<lambda>c. c \<noteq> CHR ''{'') s);
               m = length (dropWhile (\<lambda>c. c \<noteq> CHR ''}'') (rev s))
           in if dropWhile (\<lambda>c. c \<noteq> CHR ''{'') s = [] \<or> m = 0 \<or> m - 1 \<le> n then None else Some (drop n (take m s)))"

definition parse_worker_response :: "(string \<Rightarrow> json option) \<Rightarrow> string \<Rightarrow> int \<Rightarrow> worker_update option" where
  "parse_worker_response loads raw max_entries =
     (case object_text (unfence (strip raw)) of
        None \<Rightarrow> None
      | Some t \<Rightarrow>
          (case loads t of
             Some (JObj d) \<Rightarrow>
               (case jget d ''md'' of
                  Some (JStr md) \<Rightarrow>
                    if strip md = [] then None
                    else Some \<lparr>wu_md = md,
                      wu_entries = List.map_filter coerce_entry
                        (slice_to max_entries (case jget d ''entries'' of Some (JArr xs) \<Rightarrow> xs | _ \<Rightarrow> [])),
                      wu_summary = (case jget d ''summary'' of Some (JStr x) \<Rightarrow> take 500 x | _ \<Rightarrow> [])\<rparr>
                | _ \<Rightarrow> None)
           | _ \<Rightarrow> None))"

section \<open>The transcript excerpt\<close>

text \<open>One session: the lines, how many messages they are, and the characters seen so far.\<close>

fun session_lines :: "int \<Rightarrow> int \<Rightarrow> message list \<Rightarrow> string list \<Rightarrow> nat \<Rightarrow> nat \<Rightarrow> string list \<times> nat \<times> nat" where
  "session_lines max_msgs max_chars [] ls n chars = (ls, n, chars)"
| "session_lines max_msgs max_chars (m # ms) ls n chars =
     (case (jget m ''role'', jget m ''content'') of
        (Some (JStr role), Some (JStr content)) \<Rightarrow>
          if role \<notin> {''user'', ''assistant''} \<or> strip content = [] then session_lines max_msgs max_chars ms ls n chars
          else let ls' = ls @ [role @ '': '' @ content] in
            if int (n + 1) \<ge> max_msgs then (ls', n + 1, chars)
            else if int (chars + length content) \<ge> max_chars then (ls', n + 1, chars + length content)
            else session_lines max_msgs max_chars ms ls' (n + 1) (chars + length content)
      | _ \<Rightarrow> session_lines max_msgs max_chars ms ls n chars)"

fun gather_parts ::
    "(int \<Rightarrow> message list option) \<Rightarrow> int \<Rightarrow> int \<Rightarrow> session_summary list \<Rightarrow> nat \<Rightarrow> string list" where
  "gather_parts read max_msgs max_chars [] chars = []"
| "gather_parts read max_msgs max_chars (s # ss) chars =
     (if int chars \<ge> max_chars then []
      else let i = cs_id (ss_session s);
               title = (case cs_title (ss_session s) of None \<Rightarrow> ''Chat #'' @ int_str i
                        | Some t \<Rightarrow> if t = [] then ''Chat #'' @ int_str i else t)
           in case read i of
                None \<Rightarrow> gather_parts read max_msgs max_chars ss chars
              | Some ms \<Rightarrow>
                  (case session_lines max_msgs max_chars ms [''[session: '' @ title @ '']''] 0 chars of
                     (ls, n, chars') \<Rightarrow>
                       (if n > 0 then [join [CHR 0x0A] ls] else []) @ gather_parts read max_msgs max_chars ss chars'))"

text \<open>\<open>fails i\<close>: reading the context of session \<open>i\<close> raises.\<close>

definition gather_transcript ::
    "chat_store \<Rightarrow> context_table \<Rightarrow> (string \<Rightarrow> json option) \<Rightarrow> (int \<Rightarrow> bool) \<Rightarrow> string \<Rightarrow> int \<Rightarrow> int \<Rightarrow> int \<Rightarrow> string" where
  "gather_transcript chat ctx loads fails user max_sessions max_msgs max_chars =
     (let candidates = slice_to max_sessions
            (filter (\<lambda>s. cs_section (ss_session s) \<noteq> ''system'') (list_sessions user None chat));
          read = (\<lambda>i. if fails i then None else Some (list_context loads i user ctx))
      in if candidates = [] then []
         else slice_to max_chars (join [CHR 0x0A, CHR 0x0A] (gather_parts read max_msgs max_chars candidates 0)))"

section \<open>The profile\<close>

text \<open>One bootstrap directory: whether its \<open>users\<close> directory exists, the profiles in it, their backups and the
  timestamped copies.\<close>

record profile_dir =
  pd_users :: bool
  pd_files :: "(int, string) pydict"
  pd_backups :: "(int, string) pydict"
  pd_history :: "(int \<times> int, string) pydict"

definition DISCLAIMER_MARKER :: string where "DISCLAIMER_MARKER = ''<!-- auto-managed: memory worker''"

definition ensure_disclaimer :: "string \<Rightarrow> string \<Rightarrow> string" where
  "ensure_disclaimer tail_text md =
     (if contains md DISCLAIMER_MARKER then md
      else DISCLAIMER_MARKER @ tail_text @ dropWhile (\<lambda>c. c = CHR 0x0A) md)"

fun get_user_prompt :: "int \<Rightarrow> profile_dir list \<Rightarrow> string option" where
  "get_user_prompt uid [] = None"
| "get_user_prompt uid (d # ds) =
     (case dget (pd_files d) uid of
        Some content \<Rightarrow> if strip content = [] then None else Some (strip content)
      | None \<Rightarrow> get_user_prompt uid ds)"

definition backup_user_md :: "bool \<Rightarrow> int \<Rightarrow> int \<Rightarrow> profile_dir \<Rightarrow> profile_dir" where
  "backup_user_md keep_history now uid d =
     (case dget (pd_files d) uid of
        None \<Rightarrow> d
      | Some content \<Rightarrow>
          d\<lparr>pd_backups := dput uid content (pd_backups d),
            pd_history := (if keep_history then dput (uid, now) content (pd_history d) else pd_history d)\<rparr>)"

datatype disk_outcome = DiskOk | BackupFails | WriteFails

text \<open>The directory that \<open>_resolve_user_md_path\<close> finds, searching the list from the highest priority, and the write in
  it; \<open>None\<close>: it raised. The list has the highest priority first.\<close>

fun write_md ::
    "(string \<Rightarrow> string) \<Rightarrow> string \<Rightarrow> bool \<Rightarrow> int \<Rightarrow> disk_outcome \<Rightarrow> int \<Rightarrow> string \<Rightarrow> profile_dir list \<Rightarrow>
     profile_dir list \<times> bool option" where
  "write_md sha tail_text keep_history now disk uid new_md [] = ([], Some False)"
| "write_md sha tail_text keep_history now disk uid new_md (d # ds) =
     (if \<not> pd_users d
      then (case write_md sha tail_text keep_history now disk uid new_md ds of (ds', r) \<Rightarrow> (d # ds', r))
      else let content = ensure_disclaimer tail_text new_md;
               old_hash = (case dget (pd_files d) uid of None \<Rightarrow> [] | Some old \<Rightarrow> sha old);
               d1 = backup_user_md keep_history now uid d
           in if disk = BackupFails \<and> dget (pd_files d) uid \<noteq> None then (d # ds, None)
              else if old_hash = sha content then (d1 # ds, Some False)
              else if disk = WriteFails then (d1 # ds, None)
              else (d1\<lparr>pd_files := dput uid content (pd_files d1)\<rparr> # ds, Some True))"

section \<open>The entries\<close>

datatype store_outcome = StoreRuns fts_outcome | StoreFails

fun apply_worker_entries ::
    "cue_codec \<Rightarrow> int \<Rightarrow> (nat \<Rightarrow> store_outcome) \<Rightarrow> string \<Rightarrow> worker_entry list \<Rightarrow> nat \<Rightarrow> memory_store \<Rightarrow>
     memory_store \<times> nat" where
  "apply_worker_entries c now outcome user [] n m = (m, 0)"
| "apply_worker_entries c now outcome user (e # es) n m =
     (let r = (case outcome n of
                 StoreFails \<Rightarrow> None
               | StoreRuns fo \<Rightarrow>
                   (case store_entry c now fo user (we_abstraction e) (we_value e) (we_cues e) m of
                      Inl _ \<Rightarrow> None | Inr m' \<Rightarrow> Some m'))
      in case r of
           None \<Rightarrow> apply_worker_entries c now outcome user es (n + 1) m
         | Some m' \<Rightarrow>
             (case apply_worker_entries c now outcome user es (n + 1) m' of (m'', k) \<Rightarrow> (m'', k + 1)))"

section \<open>One user\<close>

record worker_settings =
  mws_max_users :: int
  mws_max_sessions :: int
  mws_max_msgs :: int
  mws_max_chars :: int
  mws_max_entries :: int
  mws_keep_history :: bool
  mws_quiet_start :: string
  mws_quiet_end :: string

datatype llm_outcome = LlmTimeout | LlmRaises string | LlmReply "string option"

text \<open>What the visit of one user meets: the chats, the model and the failures.\<close>

record worker_env =
  en_now :: int
  en_codec :: cue_codec
  en_answers :: fts_answers
  en_chat :: chat_store
  en_context :: context_table
  en_loads :: "string \<Rightarrow> json option"
  en_ctx_fails :: "int \<Rightarrow> bool"
  en_gate :: "bool option"
  en_provider :: bool
  en_dumps :: "json \<Rightarrow> string"
  en_llm :: "string \<Rightarrow> llm_outcome"
  en_sha :: "string \<Rightarrow> string"
  en_tail :: string
  en_disk :: disk_outcome
  en_store :: "nat \<Rightarrow> store_outcome"

record worker_world =
  ww_users :: users_db
  ww_memory :: memory_store
  ww_dirs :: "profile_dir list"
  ww_gate :: run_gate

definition trimmed_entry :: "recalled \<Rightarrow> json" where
  "trimmed_entry r = JObj [(''abstraction'', JStr (rc_abstraction r)), (''value'', JStr (take 500 (rc_value r))),
     (''cues'', JArr (map JStr (rc_cues r)))]"

definition user_payload :: "(json \<Rightarrow> string) \<Rightarrow> string \<Rightarrow> recalled list \<Rightarrow> string \<Rightarrow> string" where
  "user_payload dumps md entries transcript =
     dumps (JObj [(''current_md'', JStr (take 8000 md)), (''current_entries'', JArr (map trimmed_entry (take 50 entries))),
       (''transcript_excerpt'', JStr transcript)])"

datatype visit_status = RunOk | RunSkipped | RunError

definition record_run :: "worker_env \<Rightarrow> int \<Rightarrow> string \<Rightarrow> string option \<Rightarrow> bool \<Rightarrow> worker_world \<Rightarrow> worker_world" where
  "record_run en uid status error advance w =
     w\<lparr>ww_users := update_memory_worker_run (en_now en) uid status error advance (ww_users w)\<rparr>"

text \<open>What the visit has to go on: the profile and the transcript.\<close>

definition visit_md :: "int \<Rightarrow> worker_world \<Rightarrow> string" where
  "visit_md uid w = (case get_user_prompt uid (ww_dirs w) of None \<Rightarrow> [] | Some s \<Rightarrow> s)"

definition visit_transcript :: "worker_settings \<Rightarrow> worker_env \<Rightarrow> string \<Rightarrow> string" where
  "visit_transcript st en key =
     gather_transcript (en_chat en) (en_context en) (en_loads en) (en_ctx_fails en) key
       (mws_max_sessions st) (mws_max_msgs st) (mws_max_chars st)"

definition process_user :: "worker_settings \<Rightarrow> worker_env \<Rightarrow> user \<Rightarrow> worker_world \<Rightarrow> worker_world \<times> visit_status option" where
  "process_user st en u w =
     (let uid = u_id u; key = memory_key u;
          md = visit_md uid w;
          entries = recall_entries (en_codec en) (en_answers en) key None 50 (ww_memory w);
          transcript = visit_transcript st en key
      in if transcript = [] \<and> md = [] then (record_run en uid ''skipped'' (Some ''cold_start'') False w, Some RunSkipped)
         else if \<not> en_provider en then (record_run en uid ''error'' (Some ''no provider configured'') False w, Some RunError)
         else case en_llm en (user_payload (en_dumps en) md entries transcript) of
             LlmTimeout \<Rightarrow> (record_run en uid ''error'' (Some ''llm_timeout'') False w, Some RunError)
           | LlmRaises msg \<Rightarrow> (record_run en uid ''error'' (Some (take 500 msg)) False w, Some RunError)
           | LlmReply content \<Rightarrow>
               (case parse_worker_response (cc_loads (en_codec en)) (case content of None \<Rightarrow> [] | Some s \<Rightarrow> s)
                       (mws_max_entries st) of
                  None \<Rightarrow> (record_run en uid ''error'' (Some ''bad_llm_json'') False w, Some RunError)
                | Some update \<Rightarrow>
                    (case write_md (en_sha en) (en_tail en) (mws_keep_history st) (en_now en) (en_disk en) uid
                            (wu_md update) (ww_dirs w) of
                       (dirs', None) \<Rightarrow> (w\<lparr>ww_dirs := dirs'\<rparr>, None)
                     | (dirs', Some changed) \<Rightarrow>
                         let m' = fst (apply_worker_entries (en_codec en) (en_now en) (en_store en) key (wu_entries update) 0
                                    (ww_memory w))
                         in (record_run en uid ''ok'' None True (w\<lparr>ww_dirs := dirs', ww_memory := m'\<rparr>), Some RunOk))))"

text \<open>\<open>_run_user\<close>: one run per user, shared with the chats of the user. \<open>en_gate\<close> is \<open>None\<close> when there is no agent service,
  \<open>Some False\<close> when asking it raises.\<close>

definition run_user :: "worker_settings \<Rightarrow> worker_env \<Rightarrow> user \<Rightarrow> worker_world \<Rightarrow> worker_world \<times> visit_status option" where
  "run_user st en u w =
     (let uid = u_id u;
          busy = (\<lambda>w. (record_run en uid ''skipped'' (Some ''user_busy'') False w, Some RunSkipped))
      in case en_gate en of
           None \<Rightarrow> process_user st en u w
         | Some False \<Rightarrow> busy w
         | Some True \<Rightarrow>
             (case try_start uid \<lparr>ri_session = None, ri_title = None\<rparr> (ww_gate w) of
                (g, False) \<Rightarrow> busy (w\<lparr>ww_gate := g\<rparr>)
              | (g, True) \<Rightarrow>
                  (case process_user st en u (w\<lparr>ww_gate := g\<rparr>) of
                     (w', r) \<Rightarrow> (w'\<lparr>ww_gate := fst (gate_finish uid (ww_gate w'))\<rparr>, r))))"

section \<open>A tick\<close>

definition last_run_key :: "users_db \<Rightarrow> int \<Rightarrow> (nat \<times> int) \<times> int" where
  "last_run_key db uid =
     ((case get_memory_worker_state uid db of
         None \<Rightarrow> (0, 0)
       | Some w \<Rightarrow> (case mw_last_run w of None \<Rightarrow> (0, 0) | Some t \<Rightarrow> (1, t))), uid)"

definition sort_users_by_last_run :: "users_db \<Rightarrow> int list \<Rightarrow> int list" where
  "sort_users_by_last_run db ids = sort_key (last_run_key db) ids"

definition visit :: "worker_settings \<Rightarrow> (int \<Rightarrow> worker_env) \<Rightarrow> int \<Rightarrow> worker_world \<Rightarrow> worker_world" where
  "visit st envs uid w = (case get_by_id uid (ww_users w) of None \<Rightarrow> w | Some u \<Rightarrow> fst (run_user st (envs uid) u w))"

definition tick_users :: "worker_settings \<Rightarrow> users_db \<Rightarrow> int list" where
  "tick_users st db =
     take (nat (max 1 (mws_max_users st))) (sort_users_by_last_run db (list_memory_worker_enabled_users db))"

definition worker_tick :: "worker_settings \<Rightarrow> (int \<Rightarrow> worker_env) \<Rightarrow> worker_world \<Rightarrow> worker_world" where
  "worker_tick st envs w = fold (visit st envs) (tick_users st (ww_users w)) w"

section \<open>Quiet hours\<close>

text \<open>Times of the day in microseconds.\<close>

definition MINUTE_US :: int where "MINUTE_US = 60000000"
definition DAY_US :: int where "DAY_US = 1440 * MINUTE_US"

definition parse_hhmm :: "string \<Rightarrow> int option" where
  "parse_hhmm raw =
     (case split_on (CHR '':'') (strip raw) of
        h # mi # _ \<Rightarrow>
          (case (py_int h, py_int mi) of
             (Some hh, Some mm) \<Rightarrow>
               if 0 \<le> hh \<and> hh \<le> 23 \<and> 0 \<le> mm \<and> mm \<le> 59 then Some ((60 * hh + mm) * MINUTE_US) else None
           | _ \<Rightarrow> None)
      | _ \<Rightarrow> None)"

definition is_quiet_hours :: "worker_settings \<Rightarrow> int \<Rightarrow> bool" where
  "is_quiet_hours st current =
     (case (parse_hhmm (mws_quiet_start st), parse_hhmm (mws_quiet_end st)) of
        (Some start, Some stop) \<Rightarrow>
          if start \<le> stop then start \<le> current \<and> current \<le> stop else current \<ge> start \<or> current \<le> stop
      | _ \<Rightarrow> True)"

definition poll_once :: "worker_settings \<Rightarrow> int \<Rightarrow> (int \<Rightarrow> worker_env) \<Rightarrow> worker_world \<Rightarrow> worker_world" where
  "poll_once st time_of_day envs w = (if is_quiet_hours st time_of_day then worker_tick st envs w else w)"

section \<open>Reading the reply\<close>

lemma split_lines_line: "\<forall>c\<in>set x. \<not> is_line_end c \<Longrightarrow> split_lines w (x @ CHR 0x0A # s) = (w @ x) # split_lines [] s"
  by (induction x arbitrary: w) (simp_all add: is_line_end_def)

lemma split_lines_body:
  "\<forall>c\<in>set t. is_line_end c \<longrightarrow> c = CHR 0x0A \<Longrightarrow>
   split_lines w (t @ CHR 0x0A # s) = (w @ hd (split_on (CHR 0x0A) t)) # tl (split_on (CHR 0x0A) t) @ split_lines [] s"
proof (induction t arbitrary: w)
  case Nil
  then show ?case by (simp add: is_line_end_def)
next
  case (Cons c t)
  obtain x xs where x: "split_on (CHR 0x0A) t = x # xs" using split_on_shape [of "CHR 0x0A" t] by auto
  have "\<forall>c\<in>set t. is_line_end c \<longrightarrow> c = CHR 0x0A" using Cons.prems by simp
  note IH = Cons.IH [OF this]
  show ?case
  proof (cases "c = CHR 0x0A")
    case True
    moreover have "is_line_end (CHR 0x0A)" by (simp add: is_line_end_def)
    ultimately show ?thesis using IH [of "[]"] x by simp
  next
    case False
    then have "\<not> is_line_end c" using Cons.prems by auto
    then show ?thesis using IH [of "w @ [c]"] x False by simp
  qed
qed

lemma strip_no_edges: "s \<noteq> [] \<Longrightarrow> \<not> is_space (hd s) \<Longrightarrow> \<not> is_space (List.last s) \<Longrightarrow> strip s = s"
  by (rule edge_free_strip) (simp add: edge_free_def)

lemma fence_chars: "\<not> is_space (CHR 0x60)" "\<not> is_line_end (CHR 0x60)"
  by (simp_all add: is_space_def is_space_cp_def is_line_end_def)

lemma fence_line: "split_lines [] FENCE = [FENCE]" "strip FENCE = FENCE" "starts_with (FENCE @ s) FENCE"
  using fence_chars by (simp_all add: FENCE_def numeral_3_eq_3 strip_no_edges)

lemma unfence_fenced:
  assumes lang: "\<forall>c\<in>set lang. \<not> is_line_end c" and t: "\<forall>c\<in>set t. is_line_end c \<longrightarrow> c = CHR 0x0A"
    and edges: "t \<noteq> []" "\<not> is_space (hd t)" "\<not> is_space (List.last t)"
  shows "unfence (strip (FENCE @ lang @ CHR 0x0A # t @ CHR 0x0A # FENCE)) = t"
proof -
  let ?s = "FENCE @ lang @ CHR 0x0A # t @ CHR 0x0A # FENCE"
  have s: "strip ?s = ?s"
    by (rule strip_no_edges) (simp_all add: FENCE_def numeral_3_eq_3 fence_chars)
  obtain x xs where x: "split_on (CHR 0x0A) t = x # xs" using split_on_shape [of "CHR 0x0A" t] by auto
  have "\<forall>c\<in>set (FENCE @ lang). \<not> is_line_end c" using lang fence_chars by (auto simp: FENCE_def)
  from split_lines_line [OF this, of "[]" "t @ CHR 0x0A # FENCE"] split_lines_body [OF t, of "[]" FENCE]
  have "split_lines [] ?s = (FENCE @ lang) # (x # xs) @ [FENCE]"
    by (simp add: x fence_line)
  then have "unfence ?s = strip (join [CHR 0x0A] (x # xs))"
    by (simp add: unfence_def fence_line Let_def butlast_append)
  also have "\<dots> = t" using join_split_on [of "CHR 0x0A" t] edges by (simp add: x strip_no_edges)
  finally show ?thesis by (simp only: s)
qed

lemma starts_with_brace: "starts_with t ''{'' \<longleftrightarrow> t \<noteq> [] \<and> hd t = CHR ''{''"
  by (cases t) auto

lemma object_text_wrapped:
  assumes t: "starts_with t ''{''" "List.last t = CHR ''}''"
    and around: "CHR ''{'' \<notin> set pre" "CHR ''}'' \<notin> set post"
  shows "object_text (pre @ t @ post) = (if pre = [] then Some (t @ post) else Some t)"
proof (cases "pre = []")
  case True
  then show ?thesis using t by (cases t) (auto simp: object_text_def)
next
  case False
  have t0: "t \<noteq> []" "hd t = CHR ''{''" using t by (auto simp: starts_with_brace)
  then have len: "length t > 1" using t(2) by (cases t) auto
  have a: "dropWhile (\<lambda>c. c \<noteq> CHR ''{'') (pre @ t @ post) = t @ post"
  proof -
    have "\<forall>c\<in>set pre. c \<noteq> CHR ''{''" using around by auto
    then show ?thesis using t0 by (cases t) (simp_all add: dropWhile_append2)
  qed
  have b: "dropWhile (\<lambda>c. c \<noteq> CHR ''}'') (rev (pre @ t @ post)) = rev (pre @ t)"
  proof -
    have "\<forall>c\<in>set (rev post). c \<noteq> CHR ''}''" using around by auto
    then have "dropWhile (\<lambda>c. c \<noteq> CHR ''}'') (rev post @ rev (pre @ t)) = dropWhile (\<lambda>c. c \<noteq> CHR ''}'') (rev (pre @ t))"
      by (intro dropWhile_append2) simp
    moreover obtain c r where "rev t = c # r" "c = CHR ''}''" using t0 t(2) by (cases t rule: rev_cases) auto
    ultimately show ?thesis by simp
  qed
  have "\<not> starts_with (pre @ t @ post) ''{''" using False around by (cases pre) auto
  then show ?thesis using False len t0 unfolding object_text_def Let_def a b by auto
qed

text \<open>What may be around the object: a code fence with any language tag, prose, or blanks.\<close>

inductive wraps :: "string \<Rightarrow> string \<Rightarrow> bool" for t where
  wraps_fence: "\<forall>c\<in>set lang. \<not> is_line_end c \<Longrightarrow> \<forall>c\<in>set t. is_line_end c \<longrightarrow> c = CHR 0x0A \<Longrightarrow>
    wraps t (FENCE @ lang @ CHR 0x0A # t @ CHR 0x0A # FENCE)"
| wraps_prose: "CHR ''{'' \<notin> set pre \<Longrightarrow> CHR 0x60 \<notin> set pre \<Longrightarrow> CHR ''}'' \<notin> set post \<Longrightarrow>
    (\<exists>c\<in>set pre. \<not> is_space c) \<or> (\<forall>c\<in>set post. is_space c) \<Longrightarrow> wraps t (pre @ t @ post)"

lemma strip_around:
  assumes "edge_free t" "t \<noteq> []"
  shows "strip (pre @ t @ post) = dropWhile is_space pre @ t @ rstrip post"
proof -
  have h: "\<not> is_space (hd t)" "\<not> is_space (List.last t)" using assms by (simp_all add: edge_free_def)
  have a: "dropWhile is_space (pre @ t @ post) = dropWhile is_space pre @ t @ post" for pre
  proof (induction pre)
    case Nil
    then show ?case using assms(2) h by (cases t) auto
  qed auto
  obtain r where r: "t = r @ [List.last t]" using assms(2) by (metis append_butlast_last_id)
  have "dropWhile is_space (rev post @ rev t @ s) = dropWhile is_space (rev post) @ rev t @ s" for s
  proof (induction post rule: rev_induct)
    case Nil
    then show ?case using assms(2) h by (cases t rule: rev_cases) auto
  qed auto
  then show ?thesis by (simp add: strip_def strip_by_def a rstrip_def)
qed

text \<open>
  The reply is read the same with and without wrapping: a JSON object in a code fence with any language tag, or
  with prose or blanks around it, gives exactly what the bare object gives.
\<close>

theorem reply_wrapping_is_ignored:
  assumes t: "starts_with t ''{''" "List.last t = CHR ''}''" and w: "wraps t raw"
  shows "parse_worker_response loads raw n = parse_worker_response loads t n"
proof -
  have t0: "t \<noteq> []" "hd t = CHR ''{''" using t by (auto simp: starts_with_brace)
  have e: "edge_free t" using t0 t(2) by (simp add: edge_free_def is_space_def is_space_cp_def)
  have plain: "object_text (unfence (strip t)) = Some t"
    using t t0 edge_free_strip [OF e] by (cases t) (auto simp: unfence_def object_text_def FENCE_def numeral_3_eq_3)
  have "object_text (unfence (strip raw)) = Some t"
    using w
  proof cases
    case (wraps_fence lang)
    then show ?thesis using unfence_fenced [of lang t] t t0 e by (auto simp: object_text_def edge_free_def)
  next
    case (wraps_prose pre post)
    let ?pre = "dropWhile is_space pre"
    have s: "strip raw = ?pre @ t @ rstrip post" unfolding wraps_prose(1) by (rule strip_around [OF e t0(1)])
    have sub: "set ?pre \<subseteq> set pre" "set (rstrip post) \<subseteq> set post"
      by (auto simp: rstrip_def dest: set_dropWhileD)
    have "\<not> starts_with (strip raw) FENCE"
    proof (cases ?pre)
      case Nil
      then show ?thesis using t0 unfolding s Nil by (cases t) (simp_all add: FENCE_def numeral_3_eq_3)
    next
      case (Cons c r)
      then have "c \<noteq> CHR 0x60" using sub(1) wraps_prose(3) by auto
      then show ?thesis unfolding s Cons by (simp add: FENCE_def numeral_3_eq_3)
    qed
    moreover have "?pre = [] \<Longrightarrow> rstrip post = []"
      using wraps_prose(5) by (auto simp: rstrip_def)
    moreover have "object_text (strip raw) = Some t"
    proof -
      have "CHR ''{'' \<notin> set ?pre" "CHR ''}'' \<notin> set (rstrip post)" using wraps_prose(2,4) sub by auto
      note o = object_text_wrapped [OF t this]
      show ?thesis
      proof (cases "?pre = []")
        case True
        then show ?thesis using o calculation(2) unfolding s by simp
      next
        case False
        then have "object_text (?pre @ t @ rstrip post) = Some t" using o by (simp only: if_False)
        then show ?thesis by (simp only: s)
      qed
    qed
    ultimately show ?thesis by (simp add: unfence_def)
  qed
  then show ?thesis by (simp add: parse_worker_response_def plain)
qed

section \<open>Entries are stored, and only merged\<close>

lemma strip_nonempty: "c \<in> set s \<Longrightarrow> \<not> is_space c \<Longrightarrow> strip s \<noteq> []"
proof -
  assume c: "c \<in> set s" "\<not> is_space c"
  then have "c \<in> set (dropWhile is_space s)" by (induction s) auto
  then show ?thesis using c(2) by (auto simp: strip_def strip_by_def)
qed

lemma trimmed_nonempty: "take n (strip s) \<noteq> [] \<Longrightarrow> strip (take n (strip s)) \<noteq> []"
proof -
  assume t: "take n (strip s) \<noteq> []"
  then have "\<not> is_space (hd (strip s))" using strip_edge_free [of s] by (auto simp: edge_free_def)
  moreover have "hd (take n (strip s)) = hd (strip s)" using t by (cases n; cases "strip s") auto
  ultimately show ?thesis using t by (metis hd_in_set strip_nonempty)
qed

definition storable :: "worker_entry \<Rightarrow> bool" where
  "storable e \<longleftrightarrow> normalize_abstraction (we_abstraction e) \<noteq> [] \<and> normalize_value (we_value e) \<noteq> []"

lemma coerce_entry_storable: "coerce_entry raw = Some e \<Longrightarrow> storable e"
proof -
  assume "coerce_entry raw = Some e"
  then obtain a v where e: "we_abstraction e = take MAX_WORKER_ABSTRACTION_LEN (strip a)" "we_abstraction e \<noteq> []"
      "we_value e = take MAX_WORKER_VALUE_LEN (strip v)" "we_value e \<noteq> []"
    by (auto simp: coerce_entry_def Let_def split: json.splits option.splits if_splits)
  then have "strip (we_abstraction e) \<noteq> []" "strip (we_value e) \<noteq> []" by (metis trimmed_nonempty)+
  then show ?thesis
    using tidy_text_nonempty [of "we_abstraction e" MAX_ABSTRACTION_LEN] clip_nonempty [OF strip_edge_free, of "we_value e" MAX_VALUE_LEN]
    by (simp add: storable_def normalize_abstraction_tidy normalize_value_def collapse_nonempty MAX_ABSTRACTION_LEN_def MAX_VALUE_LEN_def)
qed

lemma parsed_storable: "parse_worker_response loads raw n = Some u \<Longrightarrow> e \<in> set (wu_entries u) \<Longrightarrow> storable e"
proof -
  have "e \<in> set (List.map_filter coerce_entry xs) \<Longrightarrow> storable e" for xs
    by (induction xs) (auto simp: List.map_filter_simps split: option.split_asm intro: coerce_entry_storable)
  then show "parse_worker_response loads raw n = Some u \<Longrightarrow> e \<in> set (wu_entries u) \<Longrightarrow> storable e"
    by (auto simp: parse_worker_response_def split: option.splits json.splits if_splits)
qed

lemma store_entry_succeeds:
  "storable e \<Longrightarrow> \<exists>m'. store_entry c now fo user (we_abstraction e) (we_value e) (we_cues e) m = Inr m'"
  by (auto simp: storable_def store_entry_def Let_def split: option.split)

text \<open>What merging keeps: every entry with its cues, and the entries of the other users as they are.\<close>

definition keeps_entries :: "cue_codec \<Rightarrow> memory_store \<Rightarrow> memory_store \<Rightarrow> bool" where
  "keeps_entries c m m' \<longleftrightarrow>
     (\<forall>e\<in>set (mm_entries m). \<exists>e'\<in>set (mm_entries m').
        me_id e' = me_id e \<and> me_user e' = me_user e \<and> me_abstraction e' = me_abstraction e \<and>
        (\<exists>new. entry_cues c e' = entry_cues c e @ new))"

definition keeps_others :: "string set \<Rightarrow> memory_store \<Rightarrow> memory_store \<Rightarrow> bool" where
  "keeps_others us m m' \<longleftrightarrow> filter (\<lambda>e. me_user e \<notin> us) (mm_entries m') = filter (\<lambda>e. me_user e \<notin> us) (mm_entries m)"

lemma keeps_entries_refl [simp]: "keeps_entries c m m"
  by (auto simp: keeps_entries_def)

lemma keeps_entries_trans: "keeps_entries c m m' \<Longrightarrow> keeps_entries c m' m'' \<Longrightarrow> keeps_entries c m m''"
  unfolding keeps_entries_def by (metis append_assoc)

lemma keeps_others_refl [simp]: "keeps_others us m m"
  by (simp add: keeps_others_def)

lemma keeps_others_trans: "keeps_others us m m' \<Longrightarrow> keeps_others us m' m'' \<Longrightarrow> keeps_others us m m''"
  by (simp add: keeps_others_def)

lemma store_keeps:
  assumes c: "codec_ok c" and m: "memory_ok m" and run: "store_entry c now fo user a v cs m = Inr m'"
  shows "keeps_entries c m m' \<and> (user \<in> us \<longrightarrow> keeps_others us m m')"
proof -
  let ?a = "normalize_abstraction a"
  obtain e' where f': "find_entry user ?a m' = Some e'"
    and old: "case find_entry user ?a m of None \<Rightarrow> True
      | Some e \<Rightarrow> me_id e' = me_id e \<and> entry_cues c e' = union_cues (cc_fold c) (entry_cues c e) (normalize_cues (cc_fold c) cs)"
    and others: "filter (\<lambda>x. (me_user x, me_abstraction x) \<noteq> (user, ?a)) (mm_entries m') =
      filter (\<lambda>x. (me_user x, me_abstraction x) \<noteq> (user, ?a)) (mm_entries m)"
    using stored_entry [OF c m run] by (auto split: option.splits)
  have "\<exists>x'\<in>set (mm_entries m'). me_id x' = me_id x \<and> me_user x' = me_user x \<and> me_abstraction x' = me_abstraction x \<and>
      (\<exists>new. entry_cues c x' = entry_cues c x @ new)" if x: "x \<in> set (mm_entries m)" for x
  proof (cases "(me_user x, me_abstraction x) = (user, ?a)")
    case True
    then obtain e where e: "find_entry user ?a m = Some e"
      using find_entry_none [OF _ x] by (cases "find_entry user ?a m") auto
    have "e = x"
      using find_entry_some [OF e] True x m by (auto simp: memory_ok_def distinct_map inj_on_def)
    then show ?thesis
      using old e find_entry_some [OF f'] True union_cues_keeps [OF entry_cues_ok [of c x]] by (intro bexI [of _ e']) auto
  next
    case False
    then have "x \<in> set (filter (\<lambda>x. (me_user x, me_abstraction x) \<noteq> (user, ?a)) (mm_entries m'))"
      unfolding others using x by simp
    then show ?thesis by auto
  qed
  then have "keeps_entries c m m'" by (simp add: keeps_entries_def)
  moreover have "keeps_others us m m'" if "user \<in> us"
  proof -
    have p: "filter (\<lambda>e. me_user e \<notin> us) es =
        filter (\<lambda>e. me_user e \<notin> us) (filter (\<lambda>x. (me_user x, me_abstraction x) \<noteq> (user, ?a)) es)" for es
      using that by (induction es) auto
    show ?thesis unfolding keeps_others_def by (subst (1 2) p) (simp only: others)
  qed
  ultimately show ?thesis by simp
qed

lemma apply_entries_keeps:
  assumes c: "codec_ok c" and m: "memory_ok m"
  shows "memory_ok (fst (apply_worker_entries c now outcome user es n m)) \<and>
    keeps_entries c m (fst (apply_worker_entries c now outcome user es n m)) \<and>
    (user \<in> us \<longrightarrow> keeps_others us m (fst (apply_worker_entries c now outcome user es n m)))"
  using m
proof (induction es arbitrary: n m)
  case (Cons e es)
  show ?case
  proof (cases "case outcome n of StoreFails \<Rightarrow> None
      | StoreRuns fo \<Rightarrow> (case store_entry c now fo user (we_abstraction e) (we_value e) (we_cues e) m of
          Inl _ \<Rightarrow> None | Inr m' \<Rightarrow> Some m')")
    case None
    then show ?thesis using Cons by (simp add: Let_def)
  next
    case (Some m1)
    then obtain fo where run: "store_entry c now fo user (we_abstraction e) (we_value e) (we_cues e) m = Inr m1"
      by (auto split: store_outcome.splits sum.splits)
    note k = store_keeps [OF c Cons.prems run, of us] and ok = store_memory_ok [OF run Cons.prems]
    have "fst (apply_worker_entries c now outcome user (e # es) n m) = fst (apply_worker_entries c now outcome user es (n + 1) m1)"
      using Some by (simp add: Let_def split: prod.split)
    then show ?thesis
      using k Cons.IH [OF ok, of "n + 1"] keeps_entries_trans keeps_others_trans by metis
  qed
qed simp

lemma apply_entries_count:
  assumes "\<forall>e\<in>set es. storable e" "\<forall>k. \<exists>fo. outcome k = StoreRuns fo"
  shows "snd (apply_worker_entries c now outcome user es n m) = length es"
  using assms(1)
proof (induction es arbitrary: n m)
  case (Cons e es)
  obtain fo where fo: "outcome n = StoreRuns fo" using assms(2) by blast
  obtain m' where "store_entry c now fo user (we_abstraction e) (we_value e) (we_cues e) m = Inr m'"
    using store_entry_succeeds [of e c now fo user m] Cons.prems by auto
  then show ?case using Cons fo by (simp split: prod.split) (metis snd_conv)
qed simp

text \<open>Nothing that passes the parser is refused by the store.\<close>

lemma parsed_entries_all_stored:
  assumes "parse_worker_response loads raw n = Some u" "\<forall>k. \<exists>fo. outcome k = StoreRuns fo"
  shows "snd (apply_worker_entries c now outcome user (wu_entries u) 0 m) = length (wu_entries u)"
  using apply_entries_count parsed_storable [OF assms(1)] assms(2) by blast

section \<open>The profile is backed up\<close>

lemma contains_append: "contains s p \<Longrightarrow> contains (u @ s @ v) p"
  unfolding contains_iff by (metis append.assoc)

lemma disclaimer_marked: "contains (ensure_disclaimer tl_text md) DISCLAIMER_MARKER"
proof -
  have "contains (DISCLAIMER_MARKER @ tl_text @ r) DISCLAIMER_MARKER" for r
    unfolding contains_iff by (metis append_Nil)
  then show ?thesis by (simp add: ensure_disclaimer_def)
qed

lemma disclaimer_idem: "ensure_disclaimer tl_text (ensure_disclaimer tl_text md) = ensure_disclaimer tl_text md"
  using disclaimer_marked [of tl_text md] by (simp add: ensure_disclaimer_def [of _ "ensure_disclaimer tl_text md"])

lemma backup_parts [simp]:
  "pd_users (backup_user_md keep now uid d) = pd_users d" "pd_files (backup_user_md keep now uid d) = pd_files d"
  by (simp_all add: backup_user_md_def split: option.split)

lemma backup_content:
  "dget (pd_backups (backup_user_md keep now uid d)) k =
     (if k = uid \<and> dget (pd_files d) uid \<noteq> None then dget (pd_files d) uid else dget (pd_backups d) k)"
  by (simp add: backup_user_md_def dget_dput split: option.split)

text \<open>Writing a profile never loses the version before it. In the directory that counts, the profile afterwards is the
  new text with the disclaimer, the text from before is in the backup, and the result says whether anything changed;
  when a write fails the profile is still the old one.
\<close>

theorem profile_write_is_safe:
  assumes "find pd_users ds = Some d" "write_md sha tl_text keep now disk uid new ds = (ds', r)"
    and "inj sha" "\<forall>s. sha s \<noteq> []"
  shows "\<exists>d'. find pd_users ds' = Some d' \<and>
    (r = None \<longrightarrow> pd_files d' = pd_files d) \<and>
    (\<forall>changed. r = Some changed \<longrightarrow> dget (pd_files d') uid = Some (ensure_disclaimer tl_text new) \<and>
       (changed \<longleftrightarrow> dget (pd_files d) uid \<noteq> Some (ensure_disclaimer tl_text new)) \<and>
       (\<forall>old. dget (pd_files d) uid = Some old \<longrightarrow> dget (pd_backups d') uid = Some old)) \<and>
    contains (ensure_disclaimer tl_text new) DISCLAIMER_MARKER"
  using assms(1,2)
proof (induction ds arbitrary: ds')
  case (Cons x ds)
  show ?case
  proof (cases "pd_users x")
    case True
    let ?new = "ensure_disclaimer tl_text new"
    have same: "(case dget (pd_files d) uid of None \<Rightarrow> [] | Some old \<Rightarrow> sha old) = sha ?new \<longleftrightarrow> dget (pd_files d) uid = Some ?new"
      using assms(3,4) by (cases "dget (pd_files d) uid") (simp_all add: inj_eq, metis)
    have "x = d" using True Cons.prems(1) by simp
    with True Cons.prems(2) show ?thesis
      by (auto simp: Let_def same backup_content dget_dput disclaimer_marked split: if_splits)
  next
    case False
    obtain ds1 where "write_md sha tl_text keep now disk uid new ds = (ds1, r)" "ds' = x # ds1"
      using False Cons.prems(2) by (auto split: prod.splits)
    then show ?thesis using Cons False by auto
  qed
qed simp

text \<open>What a write leaves alone: the directories, and the files of the other users.\<close>

definition profiles_kept :: "int set \<Rightarrow> profile_dir list \<Rightarrow> profile_dir list \<Rightarrow> bool" where
  "profiles_kept us ds ds' \<longleftrightarrow> list_all2 (\<lambda>d d'. pd_users d' = pd_users d \<and>
     (\<forall>k. k \<notin> us \<longrightarrow> dget (pd_files d') k = dget (pd_files d) k \<and> dget (pd_backups d') k = dget (pd_backups d) k)) ds ds'"

lemma profiles_kept_refl [simp]: "profiles_kept us ds ds"
  by (simp add: profiles_kept_def list_all2_refl)

lemma profiles_kept_trans: "profiles_kept us ds ds' \<Longrightarrow> profiles_kept us ds' ds'' \<Longrightarrow> profiles_kept us ds ds''"
  unfolding profiles_kept_def list_all2_conv_all_nth by simp

lemma write_md_kept: "uid \<in> us \<Longrightarrow> profiles_kept us ds (fst (write_md sha tl_text keep now disk uid new ds))"
proof (induction ds)
  case (Cons d ds)
  have one: "pd_users d1 = pd_users d \<and>
      (\<forall>k. k \<notin> us \<longrightarrow> dget (pd_files d1) k = dget (pd_files d) k \<and> dget (pd_backups d1) k = dget (pd_backups d) k) \<Longrightarrow>
      profiles_kept us (d # ds) (d1 # ds)" for d1
    by (simp add: profiles_kept_def list_all2_refl)
  show ?case
  proof (cases "pd_users d")
    case True
    have "\<exists>d1. fst (write_md sha tl_text keep now disk uid new (d # ds)) = d1 # ds \<and> pd_users d1 = pd_users d \<and>
      (\<forall>k. k \<notin> us \<longrightarrow> dget (pd_files d1) k = dget (pd_files d) k \<and> dget (pd_backups d1) k = dget (pd_backups d) k)"
      using True Cons.prems by (auto simp: Let_def backup_content dget_dput)
    then show ?thesis using one by metis
  next
    case False
    moreover obtain ds1 r where "write_md sha tl_text keep now disk uid new ds = (ds1, r)" by fastforce
    ultimately show ?thesis using Cons by (simp add: profiles_kept_def)
  qed
qed simp

section \<open>What one visit does\<close>

lemma process_user_cases:
  assumes "process_user st en u w = (w', r)"
  obtains (nothing) status err where "w' = record_run en (u_id u) status err False w" "r = Some RunSkipped \<or> r = Some RunError"
  | (raised) new where "w' = w\<lparr>ww_dirs := fst (write_md (en_sha en) (en_tail en) (mws_keep_history st) (en_now en)
        (en_disk en) (u_id u) new (ww_dirs w))\<rparr>" "r = None"
  | (curated) new es where "w' = record_run en (u_id u) ''ok'' None True
      (w\<lparr>ww_dirs := fst (write_md (en_sha en) (en_tail en) (mws_keep_history st) (en_now en) (en_disk en) (u_id u) new (ww_dirs w)),
         ww_memory := fst (apply_worker_entries (en_codec en) (en_now en) (en_store en) (memory_key u) es 0 (ww_memory w))\<rparr>)"
      "r = Some RunOk"
  using assms unfolding process_user_def Let_def
  by (auto split: if_splits llm_outcome.splits option.splits prod.splits) (metis fst_conv)+

definition ranks :: "users_db \<Rightarrow> (int \<times> bool \<times> int option) list" where
  "ranks db = map (\<lambda>(k, x). (k, mw_enabled x, mw_last_run x)) (workers db)"

definition accounts_kept :: "users_db \<Rightarrow> users_db \<Rightarrow> bool" where
  "accounts_kept db db' \<longleftrightarrow> db'\<lparr>workers := []\<rparr> = db\<lparr>workers := []\<rparr>"

lemma record_run_parts [simp]:
  "ww_memory (record_run en uid st err adv w) = ww_memory w" "ww_dirs (record_run en uid st err adv w) = ww_dirs w"
  "ww_gate (record_run en uid st err adv w) = ww_gate w"
  by (simp_all add: record_run_def)

lemma record_run_accounts: "accounts_kept (ww_users w) (ww_users (record_run en uid st err adv w))"
  by (simp add: record_run_def accounts_kept_def update_memory_worker_run_def Let_def)

lemma record_run_other: "k \<noteq> uid \<Longrightarrow>
    get_memory_worker_state k (ww_users (record_run en uid st err adv w)) = get_memory_worker_state k (ww_users w)"
  by (simp add: record_run_def get_memory_worker_state_def update_memory_worker_run_def Let_def dget_dput)

lemma record_run_last:
  "map_option mw_last_run (get_memory_worker_state uid (ww_users (record_run en uid st err True w))) = Some (Some (en_now en))"
  by (simp add: record_run_def get_memory_worker_state_def update_memory_worker_run_def Let_def dget_dput split: option.split)

lemma map_dput_same: "dget d k = Some v \<Longrightarrow> f (k, v') = f (k, v) \<Longrightarrow> map f (dput k v' d) = map f d"
  by (induction d) (auto simp: dict_rec split: if_splits)

lemma record_run_ranks:
  assumes "get_memory_worker_state uid (ww_users w) \<noteq> None"
  shows "ranks (ww_users (record_run en uid st err False w)) = ranks (ww_users w)"
proof -
  obtain x where x: "dget (workers (ww_users w)) uid = Some x" using assms by (auto simp: get_memory_worker_state_def)
  show ?thesis
    unfolding ranks_def record_run_def update_memory_worker_run_def Let_def
    by (simp add: x) (rule map_dput_same [OF x], simp)
qed

lemma finish_after_start: "try_start uid i g = (g', True) \<Longrightarrow> fst (gate_finish uid g') = g"
proof -
  assume "try_start uid i g = (g', True)"
  then have g: "g' = dput uid i g" "uid \<notin> set (dkeys g)" by (auto simp: try_start_def split: if_splits)
  have "dpop k (h @ [(k, v)]) = dpop k h" for k v and h :: run_gate
    by (induction h) (auto simp: dpop_Cons)
  then show ?thesis using g by (simp add: gate_finish_def dput_fresh dpop_notin)
qed

lemma process_user_gate: "process_user st en u w = (w', r) \<Longrightarrow> ww_gate w' = ww_gate w"
  by (erule process_user_cases) simp_all

lemma run_user_gate: "ww_gate (fst (run_user st en u w)) = ww_gate w"
proof -
  have a: "ww_gate (fst (process_user st en u w)) = ww_gate w" for w
    using process_user_gate by (metis prod.collapse)
  show ?thesis
    using finish_after_start [of "u_id u" "\<lparr>ri_session = None, ri_title = None\<rparr>" "ww_gate w"]
    by (auto simp: run_user_def Let_def a process_user_gate try_start_def split: option.split prod.split bool.split)
qed

text \<open>The visit is the processing between taking and releasing the gate, or the note that the user is busy.\<close>

lemma run_user_cases:
  assumes "run_user st en u w = (w', r)"
  obtains (busy) g where "w' = record_run en (u_id u) ''skipped'' (Some ''user_busy'') False (w\<lparr>ww_gate := g\<rparr>)" "r = Some RunSkipped"
  | (free) g g' w1 where "process_user st en u (w\<lparr>ww_gate := g\<rparr>) = (w1, r)" "w' = w1\<lparr>ww_gate := g'\<rparr>"
proof (cases "en_gate en")
  case None
  have "process_user st en u (w\<lparr>ww_gate := ww_gate w\<rparr>) = (w', r)" "w' = w'\<lparr>ww_gate := ww_gate w'\<rparr>"
    using assms None by (simp_all add: run_user_def)
  then show ?thesis by (rule free)
next
  case (Some works)
  obtain g ok where t: "try_start (u_id u) \<lparr>ri_session = None, ri_title = None\<rparr> (ww_gate w) = (g, ok)" by fastforce
  obtain w1 r1 where p: "process_user st en u (w\<lparr>ww_gate := g\<rparr>) = (w1, r1)" by fastforce
  show ?thesis
  proof (cases "works \<and> ok")
    case True
    then have "process_user st en u (w\<lparr>ww_gate := g\<rparr>) = (w1, r)" "w' = w1\<lparr>ww_gate := fst (gate_finish (u_id u) (ww_gate w1))\<rparr>"
      using assms Some t p by (simp_all add: run_user_def Let_def)
    then show ?thesis by (rule free)
  next
    case False
    then have "w' = record_run en (u_id u) ''skipped'' (Some ''user_busy'') False (w\<lparr>ww_gate := if works then g else ww_gate w\<rparr>)"
        "r = Some RunSkipped"
      using assms Some t by (auto simp: run_user_def Let_def split: bool.splits)
    then show ?thesis by (rule busy)
  qed
qed

lemma record_run_gate [simp]:
  "ww_users (record_run en uid st err adv (w\<lparr>ww_gate := g\<rparr>)) = ww_users (record_run en uid st err adv w)"
  "ww_users (record_run en uid st err adv (w\<lparr>ww_dirs := ds, ww_memory := m\<rparr>)) = ww_users (record_run en uid st err adv w)"
  by (simp_all add: record_run_def)

text \<open>Every outcome of a visit is accounted for. \<open>last_run_at\<close> of the user advances to now exactly when the visit
  ends with \<open>ok\<close>; a visit that skips or fails leaves the memory and the profiles as they were, and one that raises
  leaves the memory and all accounts as they were.
\<close>

theorem visit_outcome:
  assumes "run_user st en u w = (w', r)"
  shows "(r = Some RunOk \<longrightarrow> map_option mw_last_run (get_memory_worker_state (u_id u) (ww_users w')) = Some (Some (en_now en))) \<and>
    (r = Some RunSkipped \<or> r = Some RunError \<longrightarrow> ww_memory w' = ww_memory w \<and> ww_dirs w' = ww_dirs w \<and>
       (get_memory_worker_state (u_id u) (ww_users w) \<noteq> None \<longrightarrow> ranks (ww_users w') = ranks (ww_users w))) \<and>
    (r = None \<longrightarrow> ww_memory w' = ww_memory w \<and> ww_users w' = ww_users w)"
  using assms
proof (cases rule: run_user_cases)
  case (busy g)
  then show ?thesis by (simp add: record_run_ranks)
next
  case (free g g' w1)
  from free(1) show ?thesis
  proof (cases rule: process_user_cases)
    case (nothing status err)
    then show ?thesis using free(2) by (auto simp: record_run_ranks)
  next
    case (raised new)
    then show ?thesis using free(2) by simp
  next
    case (curated new es)
    have "ww_users w1 = ww_users (record_run en (u_id u) ''ok'' None True w)"
      using curated(1) by (simp add: record_run_def)
    then show ?thesis using free(2) curated(2) record_run_last by simp
  qed
qed

text \<open>One visit in one piece: what it keeps.\<close>

definition visit_keeps :: "cue_codec \<Rightarrow> int set \<Rightarrow> worker_world \<Rightarrow> worker_world \<Rightarrow> bool" where
  "visit_keeps c us w w' \<longleftrightarrow>
     memory_ok (ww_memory w') \<and> keeps_entries c (ww_memory w) (ww_memory w') \<and>
     keeps_others (int_str ` us) (ww_memory w) (ww_memory w') \<and> profiles_kept us (ww_dirs w) (ww_dirs w') \<and>
     ww_gate w' = ww_gate w \<and> accounts_kept (ww_users w) (ww_users w') \<and>
     (\<forall>k. k \<notin> us \<longrightarrow> get_memory_worker_state k (ww_users w') = get_memory_worker_state k (ww_users w))"

lemma visit_keeps_trans: "visit_keeps c us w w' \<Longrightarrow> visit_keeps c us w' w'' \<Longrightarrow> visit_keeps c us w w''"
  unfolding visit_keeps_def
  by (auto simp: accounts_kept_def intro: keeps_entries_trans keeps_others_trans profiles_kept_trans)

lemma visit_keeps_refl: "memory_ok (ww_memory w) \<Longrightarrow> visit_keeps c us w w"
  by (simp add: visit_keeps_def accounts_kept_def)

lemma run_user_users:
  assumes "run_user st en u w = (w', r)"
  shows "ww_users w' = ww_users w \<or> (\<exists>status err adv. ww_users w' = ww_users (record_run en (u_id u) status err adv w))"
  using assms
proof (cases rule: run_user_cases)
  case (busy g)
  then show ?thesis by auto
next
  case (free g g' w1)
  from free(1) show ?thesis
  proof (cases rule: process_user_cases)
    case (curated new es)
    then have "ww_users w1 = ww_users (record_run en (u_id u) ''ok'' None True w)" by (simp add: record_run_def)
    then show ?thesis using free(2) by auto
  qed (use free(2) in auto)
qed

lemma run_user_stores:
  assumes "run_user st en u w = (w', r)"
  shows "(ww_dirs w' = ww_dirs w \<or> (\<exists>new. ww_dirs w' = fst (write_md (en_sha en) (en_tail en) (mws_keep_history st)
        (en_now en) (en_disk en) (u_id u) new (ww_dirs w)))) \<and>
    (ww_memory w' = ww_memory w \<or>
      (\<exists>es. ww_memory w' = fst (apply_worker_entries (en_codec en) (en_now en) (en_store en) (memory_key u) es 0 (ww_memory w))))"
  using assms
proof (cases rule: run_user_cases)
  case (busy g)
  then show ?thesis by simp
next
  case (free g g' w1)
  from free(1) show ?thesis
    by (cases rule: process_user_cases) (use free(2) in auto)
qed

lemma run_user_keeps:
  assumes c: "codec_ok c" "en_codec en = c" and m: "memory_ok (ww_memory w)" and uid: "u_id u \<in> us"
  shows "visit_keeps c us w (fst (run_user st en u w))"
proof -
  obtain w' r where run: "run_user st en u w = (w', r)" by fastforce
  have key: "memory_key u \<in> int_str ` us" using uid by (simp add: memory_key_def)
  have "ww_gate w' = ww_gate w" using run_user_gate [of st en u w] run by simp
  moreover have "accounts_kept (ww_users w) (ww_users w')"
    using run_user_users [OF run] record_run_accounts by (auto simp: accounts_kept_def)
  moreover have "\<forall>k. k \<notin> us \<longrightarrow> get_memory_worker_state k (ww_users w') = get_memory_worker_state k (ww_users w)"
    using run_user_users [OF run] record_run_other uid by metis
  moreover have "profiles_kept us (ww_dirs w) (ww_dirs w')"
    using run_user_stores [OF run] write_md_kept [OF uid] by auto
  moreover have "memory_ok (ww_memory w') \<and> keeps_entries c (ww_memory w) (ww_memory w') \<and>
      keeps_others (int_str ` us) (ww_memory w) (ww_memory w')"
    using run_user_stores [OF run] m key apply_entries_keeps [OF c(1) m, where us = "int_str ` us"]
    by (elim conjE disjE) (auto simp: c(2))
  ultimately show ?thesis by (simp add: run visit_keeps_def)
qed

lemma get_by_id_id: "get_by_id i db = Some u \<Longrightarrow> u_id u = i"
  by (auto simp: get_by_id_def find_user_def row_to_user_def user.defs find_Some_iff)

lemma visit_keeps_one:
  assumes "codec_ok c" "\<forall>i. en_codec (envs i) = c" "memory_ok (ww_memory w)" "uid \<in> us"
  shows "visit_keeps c us w (visit st envs uid w)"
proof (cases "get_by_id uid (ww_users w)")
  case None
  then show ?thesis using visit_keeps_refl assms(3) by (simp add: visit_def)
next
  case (Some u)
  then show ?thesis using run_user_keeps [OF assms(1) _ assms(3)] assms(2,4) get_by_id_id by (simp add: visit_def)
qed

lemma visits_keep:
  assumes "codec_ok c" "\<forall>i. en_codec (envs i) = c" "memory_ok (ww_memory w)" "set ids \<subseteq> us"
  shows "visit_keeps c us w (fold (visit st envs) ids w)"
  using assms(3,4)
proof (induction ids arbitrary: w)
  case (Cons i ids)
  have v: "visit_keeps c us w (visit st envs i w)"
    using visit_keeps_one [OF assms(1,2)] Cons.prems by simp
  then have "memory_ok (ww_memory (visit st envs i w))" by (simp add: visit_keeps_def)
  then show ?case using Cons v visit_keeps_trans by simp
qed (simp add: visit_keeps_refl)

lemma tick_users_enabled: "set (tick_users st db) \<subseteq> set (list_memory_worker_enabled_users db)"
  by (auto simp: tick_users_def sort_users_by_last_run_def dest: in_set_takeD)

text \<open>C31: A tick, whatever the model answers and whatever fails, only merges. Every memory entry is still there with its id,
  owner, abstraction and all its cues; entries, profiles, backups and worker states of users who did not opt in are
  untouched; no account changes; and the gate is as before, so no user stays locked out of their chat.
\<close>

theorem tick_only_merges:
  assumes "codec_ok c" "\<forall>i. en_codec (envs i) = c" "reach (\<lambda>m. m = memory_empty) (memory_step c sound) (ww_memory w)"
    and "us = set (list_memory_worker_enabled_users (ww_users w))" "w' = poll_once st time_of_day envs w"
  shows "keeps_entries c (ww_memory w) (ww_memory w') \<and> keeps_others (int_str ` us) (ww_memory w) (ww_memory w') \<and>
    profiles_kept us (ww_dirs w) (ww_dirs w') \<and>
    (\<forall>k. k \<notin> us \<longrightarrow> get_memory_worker_state k (ww_users w') = get_memory_worker_state k (ww_users w)) \<and>
    accounts_kept (ww_users w) (ww_users w') \<and> ww_gate w' = ww_gate w"
proof -
  have m: "memory_ok (ww_memory w)" by (rule memory.reach_inv [OF assms(3)])
  have "visit_keeps c us w w'"
    using visits_keep [OF assms(1,2) m tick_users_enabled] visit_keeps_refl [OF m]
    by (simp add: assms(4,5) poll_once_def worker_tick_def)
  then show ?thesis by (simp add: visit_keeps_def)
qed

section \<open>Users who wait for ever\<close>

lemma process_cold:
  "visit_transcript st en (memory_key u) = [] \<Longrightarrow> visit_md (u_id u) w = [] \<Longrightarrow>
   process_user st en u w = (record_run en (u_id u) ''skipped'' (Some ''cold_start'') False w, Some RunSkipped)"
  by (simp add: process_user_def Let_def)

lemma run_cold:
  assumes "visit_transcript st en (memory_key u) = []" "visit_md (u_id u) w = []"
  shows "\<exists>err g. fst (run_user st en u w) = record_run en (u_id u) ''skipped'' err False (w\<lparr>ww_gate := g\<rparr>)"
proof -
  obtain w' r where run: "run_user st en u w = (w', r)" by fastforce
  then show ?thesis
  proof (cases rule: run_user_cases)
    case (busy g)
    then show ?thesis using run by auto
  next
    case (free g g' w1)
    have "visit_md (u_id u) (w\<lparr>ww_gate := g\<rparr>) = []" using assms(2) by (simp add: visit_md_def)
    from free(1) [unfolded process_cold [OF assms(1) this]] free(2)
    have "w' = record_run en (u_id u) ''skipped'' (Some ''cold_start'') False (w\<lparr>ww_gate := g'\<rparr>)"
      by (auto simp: record_run_def)
    then show ?thesis using run by auto
  qed
qed

text \<open>What a user who has nothing yet leaves as it is: all that the order of the next tick depends on.\<close>

definition idle_same :: "int set \<Rightarrow> worker_world \<Rightarrow> worker_world \<Rightarrow> bool" where
  "idle_same us w w' \<longleftrightarrow> ranks (ww_users w') = ranks (ww_users w) \<and> accounts_kept (ww_users w) (ww_users w') \<and>
     ww_memory w' = ww_memory w \<and> ww_dirs w' = ww_dirs w \<and>
     (\<forall>k. k \<notin> us \<longrightarrow> get_memory_worker_state k (ww_users w') = get_memory_worker_state k (ww_users w))"

lemma idle_same_refl [simp]: "idle_same us w w"
  by (simp add: idle_same_def accounts_kept_def)

lemma idle_same_trans: "idle_same us w w' \<Longrightarrow> idle_same us w' w'' \<Longrightarrow> idle_same us w w''"
  by (auto simp: idle_same_def accounts_kept_def)

lemma accounts_kept_user: "accounts_kept db db' \<Longrightarrow> get_by_id i db' = get_by_id i db"
proof -
  assume "accounts_kept db db'"
  then have "users (db'\<lparr>workers := []\<rparr>) = users (db\<lparr>workers := []\<rparr>)" by (simp add: accounts_kept_def)
  then show ?thesis by (simp add: get_by_id_def find_user_def)
qed

lemma ranks_enabled: "list_memory_worker_enabled_users db = map fst (filter (\<lambda>(k, b, l). b) (ranks db))"
  unfolding list_memory_worker_enabled_users_def ranks_def
  by (simp add: filter_map comp_def split_def)

lemma ranks_key: "last_run_key db k =
    ((case map_of (ranks db) k of None \<Rightarrow> (0, 0) | Some (b, l) \<Rightarrow> (case l of None \<Rightarrow> (0, 0) | Some t \<Rightarrow> (1, t))), k)"
proof -
  have "map_of (map (\<lambda>(k, x). (k, mw_enabled x, mw_last_run x)) d) k =
      map_option (\<lambda>x. (mw_enabled x, mw_last_run x)) (map_of d k)" for d :: "(int \<times> worker_state) list"
    by (induction d) auto
  then show ?thesis
    unfolding last_run_key_def get_memory_worker_state_def ranks_def dget_def by (cases "map_of (workers db) k") (simp_all split: option.split)
qed

lemma ranks_tick: "ranks db' = ranks db \<Longrightarrow> tick_users st db' = tick_users st db"
proof -
  assume r: "ranks db' = ranks db"
  have "last_run_key db' = last_run_key db" by (rule ext) (simp add: ranks_key r)
  then show ?thesis by (simp add: tick_users_def sort_users_by_last_run_def ranks_enabled r)
qed

lemma ranks_present: "i \<in> fst ` set (ranks db) \<longleftrightarrow> get_memory_worker_state i db \<noteq> None"
  by (force simp: ranks_def get_memory_worker_state_def dget_def map_of_eq_None_iff)

lemma visit_cold:
  assumes "get_by_id i (ww_users w) = Some u" "visit_transcript st (envs i) (memory_key u) = []" "visit_md i w = []"
    and "i \<in> us" "i \<in> fst ` set (ranks (ww_users w))"
  shows "idle_same us w (visit st envs i w)"
proof -
  have i: "u_id u = i" by (rule get_by_id_id [OF assms(1)])
  obtain err g where v: "visit st envs i w = record_run (envs i) i ''skipped'' err False (w\<lparr>ww_gate := g\<rparr>)"
    using run_cold [OF assms(2), of w] assms(1,3) i by (auto simp: visit_def)
  have "ranks (ww_users (record_run (envs i) i ''skipped'' err False w)) = ranks (ww_users w)"
    by (rule record_run_ranks) (use assms(5) in \<open>simp add: ranks_present\<close>)
  moreover have "k \<noteq> i" if "k \<notin> us" for k using that assms(4) by auto
  ultimately show ?thesis
    using record_run_accounts record_run_other unfolding idle_same_def v by simp
qed

definition all_cold :: "worker_settings \<Rightarrow> (int \<Rightarrow> worker_env) \<Rightarrow> worker_world \<Rightarrow> int list \<Rightarrow> bool" where
  "all_cold st envs w ids \<longleftrightarrow> (\<forall>i\<in>set ids. i \<in> fst ` set (ranks (ww_users w)) \<and> visit_md i w = [] \<and>
     (\<exists>u. get_by_id i (ww_users w) = Some u \<and> visit_transcript st (envs i) (memory_key u) = []))"

lemma all_cold_same: "idle_same us w w' \<Longrightarrow> all_cold st envs w ids \<Longrightarrow> all_cold st envs w' ids"
  by (auto simp: all_cold_def idle_same_def visit_md_def accounts_kept_user)

lemma visits_cold: "all_cold st envs w ids \<Longrightarrow> set ids \<subseteq> us \<Longrightarrow> idle_same us w (fold (visit st envs) ids w)"
proof (induction ids arbitrary: w)
  case (Cons i ids)
  have v: "idle_same us w (visit st envs i w)"
    using Cons.prems visit_cold [of i w _ st envs us] by (auto simp: all_cold_def)
  have "all_cold st envs w ids" using Cons.prems(1) by (simp add: all_cold_def)
  from all_cold_same [OF v this] Cons.IH Cons.prems(2) idle_same_trans [OF v]
  show ?case by simp
qed simp

text \<open>C32: Users can wait for ever. A visit that is skipped does not move \<open>last_run_at\<close>, so the user keeps the first place:
  when as many opted-in users as a tick visits have neither a profile nor a transcript, every later tick visits the same
  users again, and the memory, the profile and the worker state of everybody else stay as they are.
\<close>

theorem cold_users_starve_the_rest:
  assumes "first = tick_users st (ww_users w)"
    and "\<forall>envs\<in>set ticks. \<forall>i\<in>set first. \<exists>u. get_by_id i (ww_users w) = Some u \<and> visit_transcript st (envs i) (memory_key u) = []"
    and "\<forall>i\<in>set first. get_user_prompt i (ww_dirs w) = None"
    and "w' = fold (\<lambda>envs w. worker_tick st envs w) ticks w"
  shows "tick_users st (ww_users w') = first \<and> ww_memory w' = ww_memory w \<and> ww_dirs w' = ww_dirs w \<and>
    (\<forall>k. k \<notin> set first \<longrightarrow> get_memory_worker_state k (ww_users w') = get_memory_worker_state k (ww_users w))"
proof -
  have "set first \<subseteq> fst ` set (ranks (ww_users w))"
    using tick_users_enabled [of st "ww_users w"] assms(1) by (auto simp: ranks_enabled)
  then have cold: "all_cold st envs w first" if "envs \<in> set ticks" for envs
    using that assms(2,3) by (auto simp: all_cold_def visit_md_def)
  have "idle_same (set first) w (fold (\<lambda>envs w. worker_tick st envs w) ts v)"
    if "idle_same (set first) w v" "set ts \<subseteq> set ticks" for ts v
    using that
  proof (induction ts arbitrary: v)
    case (Cons envs ts)
    have "ranks (ww_users v) = ranks (ww_users w)" using Cons.prems(1) by (simp add: idle_same_def)
    from ranks_tick [OF this] have "tick_users st (ww_users v) = first" by (simp add: assms(1))
    then have "worker_tick st envs v = fold (visit st envs) first v" by (simp add: worker_tick_def)
    then have t: "idle_same (set first) v (worker_tick st envs v)"
      using visits_cold all_cold_same [OF Cons.prems(1) cold] Cons.prems(2) by simp
    show ?case using Cons.IH [OF idle_same_trans [OF Cons.prems(1) t]] Cons.prems(2) by simp
  qed simp
  from this [of w ticks] have "idle_same (set first) w w'" using assms(4) by simp
  then show ?thesis using ranks_tick [of "ww_users w'" "ww_users w" st] unfolding assms(1) by (simp add: idle_same_def)
qed

section \<open>Quiet hours\<close>

lemma parse_hhmm_range: "parse_hhmm raw = Some t \<Longrightarrow> 0 \<le> t \<and> t < DAY_US"
  by (auto simp: parse_hhmm_def DAY_US_def MINUTE_US_def split: list.splits option.splits if_splits)

text \<open>
  The quiet hours are one interval on the circle of the day: with both bounds readable, a time is quiet exactly when
  it lies no further after the start than the end does, also across midnight.
\<close>

theorem quiet_hours_are_an_arc:
  assumes "parse_hhmm (mws_quiet_start st) = Some a" "parse_hhmm (mws_quiet_end st) = Some b" "0 \<le> t" "t < DAY_US"
  shows "is_quiet_hours st t \<longleftrightarrow> (t - a) mod DAY_US \<le> (b - a) mod DAY_US"
proof -
  have m: "x mod DAY_US = (if 0 \<le> x then x else x + DAY_US)" if "- DAY_US < x" "x < DAY_US" for x
  proof (cases "0 \<le> x")
    case False
    then have "(x + DAY_US) mod DAY_US = x + DAY_US" using that by (intro mod_pos_pos_trivial) simp_all
    then show ?thesis using False by simp
  qed (use that in simp)
  have "is_quiet_hours st t \<longleftrightarrow> (if a \<le> b then a \<le> t \<and> t \<le> b else a \<le> t \<or> t \<le> b)"
    using assms(1,2) by (simp add: is_quiet_hours_def)
  moreover have "0 \<le> a" "a < DAY_US" "0 \<le> b" "b < DAY_US" using parse_hhmm_range assms(1,2) by auto
  ultimately show ?thesis using assms(3,4) m [of "t - a"] m [of "b - a"] by (auto split: if_splits)
qed

section \<open>The transcript\<close>

text \<open>Rows of other users, or of the scheduler, do not show.\<close>

lemma list_sessions_own:
  assumes "filter (\<lambda>c. cs_user c = user) (sessions s') = filter (\<lambda>c. cs_user c = user) (sessions s)"
  shows "map ss_session (list_sessions user None s') = map ss_session (list_sessions user None s)"
  using assms by (simp add: list_sessions_def comp_def summary_of_def)

lemma gather_parts_sessions:
  "map ss_session ss' = map ss_session ss \<Longrightarrow> gather_parts rd k n ss' chars = gather_parts rd k n ss chars"
proof (induction ss' arbitrary: ss chars)
  case (Cons x xs)
  then obtain y ys where "ss = y # ys" "ss_session x = ss_session y" "map ss_session xs = map ss_session ys"
    by (cases ss) auto
  then show ?case using Cons.IH by (simp add: Let_def split: option.split prod.split)
qed simp

lemma map_slice_to: "map f (slice_to n xs) = slice_to n (map f xs)"
  by (simp add: slice_to_def take_map)

lemma map_filter_sessions:
  "map ss_session (filter (\<lambda>s. p (ss_session s)) ss) = filter p (map ss_session ss)"
  by (induction ss) auto

text \<open>
  The excerpt that goes to the model is at most \<open>max_chars\<close> long, and it depends on the user's own rows only: two
  stores that agree on the sessions and the context rows of the user give the same excerpt.
\<close>

theorem transcript_is_own_and_bounded:
  assumes "filter (\<lambda>c. cs_user c = user) (sessions chat') = filter (\<lambda>c. cs_user c = user) (sessions chat)"
    and "filter (\<lambda>r. cr_user r = user) ctx' = filter (\<lambda>r. cr_user r = user) ctx"
  shows "gather_transcript chat' ctx' loads fails user k msgs n = gather_transcript chat ctx loads fails user k msgs n \<and>
    (0 \<le> n \<longrightarrow> int (length (gather_transcript chat ctx loads fails user k msgs n)) \<le> n)"
proof -
  have own: "filter (owned i user) t = filter (\<lambda>r. cr_session r = i) (filter (\<lambda>r. cr_user r = user) t)" for i t
    by (induction t) (auto simp: owned_def)
  have rows: "list_context loads i user ctx' = list_context loads i user ctx" for i
    by (simp only: list_context_def own assms(2))
  let ?own = "\<lambda>c. slice_to k (filter (\<lambda>s. cs_section (ss_session s) \<noteq> ''system'') (list_sessions user None c))"
  have s: "map ss_session (?own chat') = map ss_session (?own chat)"
    by (simp only: map_slice_to map_filter_sessions [where p = "\<lambda>c. cs_section c \<noteq> ''system''"] list_sessions_own [OF assms(1)])
  then have e: "?own chat' = [] \<longleftrightarrow> ?own chat = []" by (metis map_is_Nil_conv)
  show ?thesis
    unfolding gather_transcript_def Let_def e rows gather_parts_sessions [OF s] by (auto simp: slice_to_def)
qed

section \<open>The theorems at a concrete state\<close>

definition sample_account :: "int \<Rightarrow> user_row" where
  "sample_account i = \<lparr>u_id = i, u_name = ''A'', u_department = ''d'', u_telegram = None, u_username = None,
     u_admin = False, u_disabled = False, u_created = 0, u_hash = None\<rparr>"

definition sample_worker :: "int option \<Rightarrow> worker_state" where
  "sample_worker t = \<lparr>mw_enabled = True, mw_last_run = t, mw_status = None, mw_error = None, mw_updated = 0\<rparr>"

definition sample_worker_settings :: worker_settings where
  "sample_worker_settings = \<lparr>mws_max_users = 1, mws_max_sessions = 5, mws_max_msgs = 40, mws_max_chars = 24000, mws_max_entries = 20,
     mws_keep_history = False, mws_quiet_start = ''22:00'', mws_quiet_end = ''07:00''\<rparr>"

definition sample_worker_env :: "int \<Rightarrow> worker_env" where
  "sample_worker_env i = \<lparr>en_now = 9, en_codec = sample_codec, en_answers = sample_answers, en_chat = chat_empty, en_context = [],
     en_loads = json_read, en_ctx_fails = (\<lambda>_. False), en_gate = None, en_provider = True, en_dumps = json_text,
     en_llm = (\<lambda>_. LlmReply (Some (json_text (JObj [(''md'', JStr ''likes tea'')])))), en_sha = (#) (CHR ''h''),
     en_tail = '' -->'', en_disk = DiskOk, en_store = (\<lambda>_. StoreRuns FtsFine)\<rparr>"

definition sample_dir :: profile_dir where
  "sample_dir = \<lparr>pd_users = True, pd_files = [(1, ''old'')], pd_backups = [], pd_history = []\<rparr>"

definition sample_worker_world :: worker_world where
  "sample_worker_world = \<lparr>ww_users = users_empty\<lparr>users := [sample_account 1, sample_account 2],
       workers := [(1, sample_worker (Some 3)), (2, sample_worker None)]\<rparr>,
     ww_memory = stored_sample, ww_dirs = [sample_dir], ww_gate = []\<rparr>"

lemma sample_user: "get_by_id 2 (ww_users sample_worker_world) = Some (row_to_user (sample_account 2))"
  by (simp add: get_by_id_def find_user_def sample_worker_world_def sample_account_def)

text \<open>The user who never ran comes first; the other one waits.\<close>

lemma sample_tick_first: "tick_users sample_worker_settings (ww_users sample_worker_world) = [2]"
  by (simp add: tick_users_def sort_users_by_last_run_def sample_worker_world_def sample_worker_settings_def list_memory_worker_enabled_users_def
      sample_worker_def sort_key_def last_run_key_def get_memory_worker_state_def dget_def)

lemma no_chats_no_transcript: "gather_transcript chat_empty [] loads fails user k msgs n = []"
  by (simp add: gather_transcript_def list_sessions_def chat_empty_def slice_to_def)

lemma cold_users_starve_the_rest_witness:
  "get_memory_worker_state 1 (ww_users (fold (\<lambda>envs w. worker_tick sample_worker_settings envs w) (replicate 1000 sample_worker_env) sample_worker_world)) =
     Some (sample_worker (Some 3))"
proof -
  have "\<forall>envs\<in>set (replicate 1000 sample_worker_env). \<forall>i\<in>set [2]. \<exists>u. get_by_id i (ww_users sample_worker_world) = Some u \<and>
      visit_transcript sample_worker_settings (envs i) (memory_key u) = []"
    by (simp add: sample_user visit_transcript_def sample_worker_env_def no_chats_no_transcript)
  moreover have "\<forall>i\<in>set [2]. get_user_prompt i (ww_dirs sample_worker_world) = None"
    by (simp add: sample_worker_world_def sample_dir_def dget_def)
  ultimately show ?thesis
    using cold_users_starve_the_rest [OF sample_tick_first [symmetric] _ _ refl, of "replicate 1000 sample_worker_env"]
    by (simp add: sample_worker_world_def get_memory_worker_state_def dget_def)
qed

lemma tick_only_merges_witness:
  "keeps_entries sample_codec stored_sample (ww_memory (poll_once sample_worker_settings 0 sample_worker_env sample_worker_world))"
  using tick_only_merges [OF sample_codec_ok _ _ refl refl, of sample_worker_env False sample_worker_world sample_worker_settings 0] sample_reach
  by (simp add: sample_worker_env_def sample_worker_world_def)

lemma sample_write:
  "write_md ((#) (CHR ''h'')) '' -->'' False 9 DiskOk 1 ''new'' [sample_dir] =
     ([sample_dir\<lparr>pd_files := [(1, ensure_disclaimer '' -->'' ''new'')], pd_backups := [(1, ''old'')]\<rparr>], Some True)"
  by (simp add: sample_dir_def backup_user_md_def dict_rec ensure_disclaimer_def DISCLAIMER_MARKER_def Let_def)

lemma profile_write_is_safe_witness:
  "dget (pd_backups (hd (fst (write_md ((#) (CHR ''h'')) '' -->'' False 9 DiskOk 1 ''new'' [sample_dir])))) 1 = Some ''old''"
proof -
  have "find pd_users [sample_dir] = Some sample_dir" "dget (pd_files sample_dir) 1 = Some ''old''"
    by (simp_all add: sample_dir_def dget_def)
  then show ?thesis
    using profile_write_is_safe [OF _ sample_write, of sample_dir] unfolding sample_write by (auto simp: sample_dir_def dget_def)
qed

lemma visit_outcome_witness:
  "ww_memory (fst (run_user sample_worker_settings (sample_worker_env 2) (row_to_user (sample_account 2)) sample_worker_world)) = stored_sample \<and>
   ranks (ww_users (fst (run_user sample_worker_settings (sample_worker_env 2) (row_to_user (sample_account 2)) sample_worker_world))) =
     ranks (ww_users sample_worker_world)"
proof -
  let ?u = "row_to_user (sample_account 2)"
  have u: "u_id ?u = 2" by (simp add: row_to_user_def user.defs sample_account_def)
  have "process_user sample_worker_settings (sample_worker_env 2) ?u sample_worker_world =
      (record_run (sample_worker_env 2) 2 ''skipped'' (Some ''cold_start'') False sample_worker_world, Some RunSkipped)"
    by (subst process_cold) (simp_all add: u visit_transcript_def sample_worker_env_def no_chats_no_transcript visit_md_def
        sample_worker_world_def sample_dir_def dget_def)
  then have run: "run_user sample_worker_settings (sample_worker_env 2) ?u sample_worker_world =
      (record_run (sample_worker_env 2) 2 ''skipped'' (Some ''cold_start'') False sample_worker_world, Some RunSkipped)"
    by (simp add: run_user_def sample_worker_env_def)
  have "get_memory_worker_state 2 (ww_users sample_worker_world) \<noteq> None"
    by (simp add: sample_worker_world_def get_memory_worker_state_def dget_def)
  then show ?thesis using visit_outcome [OF run] unfolding run by (simp add: u) (simp add: sample_worker_world_def)
qed

lemma quiet_hours_are_an_arc_witness: "is_quiet_hours sample_worker_settings (60 * MINUTE_US)"
proof -
  have p: "parse_hhmm ''22:00'' = Some (22 * 60 * MINUTE_US)" "parse_hhmm ''07:00'' = Some (7 * 60 * MINUTE_US)"
    by (simp_all add: parse_hhmm_def py_int_def strip_def strip_by_def is_space_def is_space_cp_def is_digit_def Let_def MINUTE_US_def)
  have "is_quiet_hours sample_worker_settings (60 * MINUTE_US) \<longleftrightarrow>
      (60 * MINUTE_US - 22 * 60 * MINUTE_US) mod DAY_US \<le> (7 * 60 * MINUTE_US - 22 * 60 * MINUTE_US) mod DAY_US"
    by (rule quiet_hours_are_an_arc) (simp_all add: sample_worker_settings_def p MINUTE_US_def DAY_US_def)
  then show ?thesis by (simp add: MINUTE_US_def DAY_US_def)
qed

definition sample_other_row :: context_row where
  "sample_other_row = \<lparr>cr_session = 1, cr_user = ''v'', cr_role = ''user'', cr_content = ''hi'', cr_calls = None,
     cr_call_id = None, cr_name = None, cr_reasoning = None, cr_seq = 1\<rparr>"

lemma transcript_is_own_and_bounded_witness:
  "gather_transcript chat_empty [sample_other_row] json_read (\<lambda>_. False) ''u'' 5 40 100 =
     gather_transcript chat_empty [] json_read (\<lambda>_. False) ''u'' 5 40 100"
  using transcript_is_own_and_bounded [of "''u''" chat_empty chat_empty "[sample_other_row]" "[]"]
  by (simp add: sample_other_row_def)

lemma reply_wrapping_is_ignored_witness:
  "parse_worker_response json_read (''Here: '' @ ''{}'' @ '' ok'') 5 = parse_worker_response json_read ''{}'' 5"
proof -
  have "wraps ''{}'' (''Here: '' @ ''{}'' @ '' ok'')"
    by (rule wraps_prose) (simp_all add: is_space_def is_space_cp_def)
  then show ?thesis by (intro reply_wrapping_is_ignored) simp_all
qed

end
