(* ===== verification/PathGuard.thy ===== *)
theory PathGuard
  imports Prelude
begin

text \<open>
  \<open>security/path_validator.py\<close> on a model of the file system, and \<open>atomic_write_text\<close> of \<open>utils/fs.py\<close>.

  A path is the list of its components from the root. A name is a directory, a file (by inode) or a symbolic link.
  \<open>resolve\<close> is \<open>Path.resolve()\<close>, which also goes on through names that do not exist; \<open>kwalk\<close> is what the kernel does when it
  opens a path. Both count the links they follow and give up beyond a limit (the kernel at 40, \<open>Path.resolve()\<close> on a
  cycle, with the \<open>RuntimeError\<close> of Python 3.12); \<open>None\<close> or a failure is such a loop. A check and the use of a path may see
  different file systems: each step takes its own.
\<close>

section \<open>The file system\<close>

datatype node = Dir | Reg nat | Link bool "string list"

record fsys =
  fs_names :: "(string list, node) pydict"
  fs_data :: "(nat, string) pydict"
  fs_next :: nat

definition node_at :: "fsys \<Rightarrow> string list \<Rightarrow> node option" where
  "node_at fs p = (if p = [] then Some Dir else dget (fs_names fs) p)"

definition is_dot :: "string \<Rightarrow> bool" where
  "is_dot c \<longleftrightarrow> c = [] \<or> c = ''.''"

fun resolve :: "nat \<Rightarrow> fsys \<Rightarrow> string list \<Rightarrow> string list \<Rightarrow> string list option" where
  "resolve n fs cur [] = Some cur"
| "resolve n fs cur (c # rest) =
     (if is_dot c then resolve n fs cur rest
      else if c = ''..'' then resolve n fs (butlast cur) rest
      else case node_at fs (cur @ [c]) of
          Some (Link absolute target) \<Rightarrow>
            (case n of 0 \<Rightarrow> None | Suc k \<Rightarrow> resolve k fs (if absolute then [] else cur) (target @ rest))
        | _ \<Rightarrow> resolve n fs (cur @ [c]) rest)"

datatype walk_error = NoEntry | WalkFails

fun kwalk :: "nat \<Rightarrow> fsys \<Rightarrow> string list \<Rightarrow> string list \<Rightarrow> walk_error + string list" where
  "kwalk n fs cur [] = Inr cur"
| "kwalk n fs cur (c # rest) =
     (if is_dot c then kwalk n fs cur rest
      else if c = ''..'' then kwalk n fs (butlast cur) rest
      else case node_at fs (cur @ [c]) of
          Some (Link absolute target) \<Rightarrow>
            (case n of 0 \<Rightarrow> Inl WalkFails | Suc k \<Rightarrow> kwalk k fs (if absolute then [] else cur) (target @ rest))
        | Some Dir \<Rightarrow> kwalk n fs (cur @ [c]) rest
        | Some (Reg _) \<Rightarrow> if rest = [] then Inr (cur @ [c]) else Inl WalkFails
        | None \<Rightarrow> if rest = [] then Inr (cur @ [c]) else Inl NoEntry)"

text \<open>The directory part is followed, the last name is not.\<close>

datatype lstat_result = LFound node | LMissing | LFails

definition parent_dir :: "nat \<Rightarrow> fsys \<Rightarrow> string list \<Rightarrow> walk_error + string list" where
  "parent_dir n fs p =
     (case kwalk n fs [] (butlast p) of
        Inl e \<Rightarrow> Inl e
      | Inr d \<Rightarrow> (case node_at fs d of Some Dir \<Rightarrow> Inr d | None \<Rightarrow> Inl NoEntry | _ \<Rightarrow> Inl WalkFails))"

definition lstat :: "nat \<Rightarrow> fsys \<Rightarrow> string list \<Rightarrow> lstat_result" where
  "lstat n fs p =
     (if p = [] then LFound Dir
      else case parent_dir n fs p of
          Inl NoEntry \<Rightarrow> LMissing
        | Inl WalkFails \<Rightarrow> LFails
        | Inr d \<Rightarrow> (case node_at fs (d @ [List.last p]) of None \<Rightarrow> LMissing | Some x \<Rightarrow> LFound x))"

definition nlink :: "fsys \<Rightarrow> nat \<Rightarrow> nat" where
  "nlink fs i = length (filter (\<lambda>(p, x). x = Reg i) (fs_names fs))"

section \<open>Validation\<close>

datatype path_error =
    NullByte | SymlinkLoop | OutsideWorkspace | TooDeep | CannotInspect | LeavesWorkspace | HardLinked
  | SensitivePath | DeviceName

text \<open>\<open>Path(s)\<close>: absolute or not, and the components without \<open>.\<close> and empty ones.\<close>

definition parse_path :: "string \<Rightarrow> bool \<times> string list" where
  "parse_path s = (starts_with s ''/'', filter (\<lambda>c. \<not> is_dot c) (split_on (CHR ''/'') s))"

definition inside :: "string list \<Rightarrow> string list \<Rightarrow> bool" where
  "inside ws p \<longleftrightarrow> take (length ws) p = ws"

definition MAX_ANCESTOR_STEPS :: nat where "MAX_ANCESTOR_STEPS = 128"

fun ancestor_walk :: "nat \<Rightarrow> fsys \<Rightarrow> string list \<Rightarrow> string list \<Rightarrow> nat \<Rightarrow> string list \<Rightarrow> path_error option" where
  "ancestor_walk n fs ws cur steps [] = None"
| "ancestor_walk n fs ws cur steps (c # rest) =
     (if steps + 1 > MAX_ANCESTOR_STEPS then Some TooDeep
      else if c = [] then ancestor_walk n fs ws cur (steps + 1) rest
      else case lstat n fs (cur @ [c]) of
          LMissing \<Rightarrow> ancestor_walk n fs ws (cur @ [c]) (steps + 1) rest
        | LFails \<Rightarrow> Some CannotInspect
        | LFound (Link _ _) \<Rightarrow>
            (case resolve n fs [] (cur @ [c]) of
               None \<Rightarrow> Some SymlinkLoop
             | Some t \<Rightarrow> if inside ws t then ancestor_walk n fs ws (cur @ [c]) (steps + 1) rest else Some LeavesWorkspace)
        | LFound _ \<Rightarrow> ancestor_walk n fs ws (cur @ [c]) (steps + 1) rest)"

definition reject_symlink_ancestors :: "nat \<Rightarrow> fsys \<Rightarrow> string list \<Rightarrow> string list \<Rightarrow> path_error option" where
  "reject_symlink_ancestors n fs ws r =
     (if \<not> inside ws r then Some OutsideWorkspace else ancestor_walk n fs ws ws 0 (drop (length ws) r))"

definition validate_no_symlink_escape :: "nat \<Rightarrow> fsys \<Rightarrow> string list \<Rightarrow> string list \<Rightarrow> path_error option" where
  "validate_no_symlink_escape n fs ws r = reject_symlink_ancestors n fs ws r"

definition reject_hardlink :: "nat \<Rightarrow> fsys \<Rightarrow> string list \<Rightarrow> path_error option" where
  "reject_hardlink n fs r = (case lstat n fs r of LFound (Reg i) \<Rightarrow> if nlink fs i > 1 then Some HardLinked else None | _ \<Rightarrow> None)"

text \<open>The sensitive patterns, on the components. \<open>$\<close> also matches before a final line feed.\<close>

definition at_end :: "string \<Rightarrow> string \<Rightarrow> bool" where
  "at_end s x \<longleftrightarrow> s = x \<or> s = x @ [LF]"

definition secret_dir :: "string list \<Rightarrow> bool" where
  "secret_dir p \<longleftrightarrow>
     (\<exists>d\<in>{''.ssh'', ''.aws'', ''.kube'', ''.gnupg''}. d \<in> lower ` set p \<or> (p \<noteq> [] \<and> at_end (lower (List.last p)) d))"

definition env_file :: "string \<Rightarrow> bool" where
  "env_file s \<longleftrightarrow> (let t = lower s in
     starts_with t ''.env'' \<and> (at_end t ''.env'' \<or> starts_with (drop 4 t) ''.''))"

definition secret_file :: "string list \<Rightarrow> bool" where
  "secret_file p \<longleftrightarrow>
     (case rev p of
        f # ds \<Rightarrow>
          env_file f \<or> at_end (lower f) ''.netrc'' \<or>
          (case ds of
             d # ds' \<Rightarrow>
               (lower d = ''.docker'' \<and> at_end (lower f) ''config.json'') \<or>
               (case ds' of
                  e # g # _ \<Rightarrow>
                    (lower e = ''user data'' \<and> lower g = ''chrome'' \<and>
                       (at_end (lower f) ''login data'' \<or> at_end (lower f) ''cookies'')) \<or>
                    (lower e = ''profiles'' \<and> lower g = ''firefox'' \<and>
                       (at_end (lower f) ''logins.json'' \<or> at_end (lower f) ''cookies.sqlite''))
                | _ \<Rightarrow> False)
           | [] \<Rightarrow> False)
      | [] \<Rightarrow> False)"

text \<open>\<open>.*\<close> does not match a line feed, except that \<open>$\<close> allows one at the very end.\<close>

definition single_line :: "string list \<Rightarrow> bool" where
  "single_line rest \<longleftrightarrow> (let t = join ''/'' rest in LF \<notin> set (if t \<noteq> [] \<and> List.last t = LF then butlast t else t))"

definition system_file :: "string list \<Rightarrow> bool" where
  "system_file p \<longleftrightarrow>
     (case p of
        d # f # rest \<Rightarrow>
          d \<in> {''proc'', ''sys'', ''dev'', ''boot''} \<or>
          (d = ''etc'' \<and> (\<exists>x\<in>{''passwd'', ''shadow'', ''sudoers''}.
             (rest = [] \<and> at_end f x) \<or> (rest \<noteq> [] \<and> f = x @ ''.d'' \<and> single_line rest)))
      | _ \<Rightarrow> False)"

definition device_name :: "string \<Rightarrow> bool" where
  "device_name s \<longleftrightarrow>
     (let t = lower s;
          ends = (\<lambda>u. u = [] \<or> u = [LF] \<or> hd u = CHR ''.'') in
      (\<exists>x\<in>{''con'', ''prn'', ''aux'', ''nul''}. starts_with t x \<and> ends (drop 3 t)) \<or>
      (\<exists>x\<in>{''com'', ''lpt''}. starts_with t x \<and> length t > 3 \<and> 48 \<le> cp (t ! 3) \<and> cp (t ! 3) \<le> 57 \<and> ends (drop 4 t)))"

definition reject_sensitive_path :: "string list \<Rightarrow> path_error option" where
  "reject_sensitive_path r =
     (if secret_dir r \<or> secret_file r \<or> system_file r then Some SensitivePath
      else if r \<noteq> [] \<and> device_name (List.last r) then Some DeviceName
      else None)"

fun first_error :: "'e option list \<Rightarrow> 'e option" where
  "first_error [] = None"
| "first_error (Some e # xs) = Some e"
| "first_error (None # xs) = first_error xs"

text \<open>\<open>fs\<close> is what resolving sees, \<open>fs'\<close> what the later checks see. \<open>ws0\<close>: the workspace root or the current directory.\<close>

definition validate_path :: "nat \<Rightarrow> fsys \<Rightarrow> fsys \<Rightarrow> string list \<Rightarrow> string \<Rightarrow> path_error + string list" where
  "validate_path n fs fs' ws0 path_str =
     (if CHR 0x00 \<in> set path_str then Inl NullByte
      else case resolve n fs [] ws0 of
          None \<Rightarrow> Inl SymlinkLoop
        | Some ws \<Rightarrow>
            (case resolve n fs [] (if fst (parse_path path_str) then snd (parse_path path_str) else ws @ snd (parse_path path_str)) of
               None \<Rightarrow> Inl SymlinkLoop
             | Some r \<Rightarrow>
                 if \<not> inside ws r then Inl OutsideWorkspace
                 else case first_error [reject_symlink_ancestors n fs' ws r, reject_hardlink n fs' r, reject_sensitive_path r] of
                     Some e \<Rightarrow> Inl e
                   | None \<Rightarrow> Inr r))"

section \<open>Writing atomically\<close>

text \<open>The temporary file lies beside the target and gets its name; on a failure it is removed. \<open>io\<close>: writing and
  renaming work. The random temporary name is taken to be new, and its removal to succeed.\<close>

definition atomic_write :: "nat \<Rightarrow> bool \<Rightarrow> fsys \<Rightarrow> string list \<Rightarrow> string \<Rightarrow> fsys option" where
  "atomic_write n io fs p bytes =
     (case lstat n fs p of
        LFound (Link _ _) \<Rightarrow> None
      | LFails \<Rightarrow> None
      | _ \<Rightarrow>
          (case parent_dir n fs p of
             Inl _ \<Rightarrow> None
           | Inr d \<Rightarrow>
               if \<not> io \<or> p = [] \<or> node_at fs (d @ [List.last p]) = Some Dir then None
               else Some (fs\<lparr>fs_names := dput (d @ [List.last p]) (Reg (fs_next fs)) (fs_names fs),
                             fs_data := dput (fs_next fs) bytes (fs_data fs), fs_next := fs_next fs + 1\<rparr>)))"

text \<open>\<open>mkdir(parents=True, exist_ok=True)\<close>. It fails when something that is no directory is in the way; other failures
  of the operating system (permissions, over-long names), after which some parents may already exist, are left out.\<close>

fun make_dirs :: "nat \<Rightarrow> fsys \<Rightarrow> string list \<Rightarrow> string list \<Rightarrow> fsys option" where
  "make_dirs n fs cur [] = Some fs"
| "make_dirs n fs cur (c # rest) =
     (case node_at fs (cur @ [c]) of
        None \<Rightarrow> make_dirs n (fs\<lparr>fs_names := dput (cur @ [c]) Dir (fs_names fs)\<rparr>) (cur @ [c]) rest
      | Some Dir \<Rightarrow> make_dirs n fs (cur @ [c]) rest
      | Some (Reg _) \<Rightarrow> None
      | Some (Link _ _) \<Rightarrow>
          (case kwalk n fs [] (cur @ [c]) of
             Inr d \<Rightarrow> if node_at fs d = Some Dir then make_dirs n fs d rest else None
           | Inl _ \<Rightarrow> None))"

section \<open>Resolved paths have no links\<close>

definition plain :: "string \<Rightarrow> bool" where
  "plain c \<longleftrightarrow> \<not> is_dot c \<and> c \<noteq> ''..''"

definition is_link :: "node option \<Rightarrow> bool" where
  "is_link x \<longleftrightarrow> (case x of Some (Link _ _) \<Rightarrow> True | _ \<Rightarrow> False)"

definition canonical :: "fsys \<Rightarrow> string list \<Rightarrow> bool" where
  "canonical fs p \<longleftrightarrow> (\<forall>c\<in>set p. plain c) \<and> (\<forall>k\<le>length p. \<not> is_link (node_at fs (take k p)))"

lemma canonical_Nil [simp]: "canonical fs []"
  by (simp add: canonical_def node_at_def is_link_def)

lemma canonical_snoc: "canonical fs (p @ [c]) \<longleftrightarrow> canonical fs p \<and> plain c \<and> \<not> is_link (node_at fs (p @ [c]))"
proof -
  have "(\<forall>k\<le>Suc (length p). \<not> is_link (node_at fs (take k (p @ [c])))) \<longleftrightarrow>
      (\<forall>k\<le>length p. \<not> is_link (node_at fs (take k p))) \<and> \<not> is_link (node_at fs (p @ [c]))"
    by (auto simp: le_Suc_eq)
  then show ?thesis by (auto simp: canonical_def)
qed

lemma canonical_butlast: "canonical fs p \<Longrightarrow> canonical fs (butlast p)"
  by (cases p rule: rev_cases) (simp_all add: canonical_snoc)

lemma canonical_take: "canonical fs p \<Longrightarrow> canonical fs (take k p)"
  by (auto simp: canonical_def min_def dest: in_set_takeD)

lemma resolve_canonical: "canonical fs cur \<Longrightarrow> resolve n fs cur p = Some r \<Longrightarrow> canonical fs r"
proof (induction n fs cur p rule: resolve.induct)
  case (2 n fs cur c rest)
  show ?case
  proof (cases "is_dot c \<or> c = ''..''")
    case True
    then show ?thesis using 2 canonical_butlast by (auto split: if_splits)
  next
    case False
    show ?thesis
    proof (cases "is_link (node_at fs (cur @ [c]))")
      case True
      then obtain ab t where l: "node_at fs (cur @ [c]) = Some (Link ab t)" by (auto simp: is_link_def split: option.splits node.splits)
      then show ?thesis using 2 False by (cases n) (auto split: if_splits)
    next
      case nolink: False
      then have "canonical fs (cur @ [c])" using 2 False by (simp add: canonical_snoc plain_def)
      moreover have "resolve n fs (cur @ [c]) rest = Some r"
        using 2(8) False nolink by (auto simp: is_link_def split: option.splits node.splits)
      ultimately show ?thesis
        using "2.IH" False nolink by (cases "node_at fs (cur @ [c])") (auto simp: is_link_def split: node.splits)
    qed
  qed
qed simp

lemma canonical_resolve: "canonical fs (cur @ p) \<Longrightarrow> resolve n fs cur p = Some (cur @ p)"
proof (induction p arbitrary: cur)
  case (Cons c p)
  have "canonical fs (cur @ [c])" using canonical_take [OF Cons.prems, of "Suc (length cur)"] by simp
  then have "plain c" "\<not> is_link (node_at fs (cur @ [c]))" by (simp_all add: canonical_snoc)
  then show ?case
    using Cons.IH [of "cur @ [c]"] Cons.prems by (auto simp: plain_def is_link_def split: option.split node.split)
qed simp

lemma kwalk_resolve: "kwalk n fs cur p = Inr d \<Longrightarrow> resolve n fs cur p = Some d"
proof (induction n fs cur p rule: kwalk.induct)
  case (2 n fs cur c rest)
  then show ?case by (auto split: if_splits option.splits node.splits nat.splits)
qed simp

text \<open>Walking a path in two parts.\<close>

lemma node_at_root [simp]: "node_at fs [] = Some Dir"
  by (simp add: node_at_def)

definition tree :: "fsys \<Rightarrow> bool" where
  "tree fs \<longleftrightarrow> (\<forall>(p, x)\<in>set (fs_names fs). p \<noteq> [] \<longrightarrow> node_at fs (butlast p) = Some Dir)"

lemma tree_parent: "tree fs \<Longrightarrow> node_at fs p \<noteq> None \<Longrightarrow> node_at fs (butlast p) = Some Dir"
proof (cases "p = []")
  case False
  assume "tree fs" "node_at fs p \<noteq> None"
  then obtain x where "(p, x) \<in> set (fs_names fs)" using False by (auto simp: node_at_def dest: dget_member)
  then show ?thesis using \<open>tree fs\<close> False by (auto simp: tree_def)
qed (simp add: node_at_def)

lemma kwalk_append:
  "kwalk n fs cur (p @ q) = Inr d \<Longrightarrow> tree fs \<Longrightarrow> q \<noteq> [] \<Longrightarrow> node_at fs cur = Some Dir \<Longrightarrow>
    \<exists>x m. m \<le> n \<and> kwalk n fs cur p = Inr x \<and> node_at fs x = Some Dir \<and> kwalk m fs x q = Inr d"
proof (induction n fs cur p rule: kwalk.induct)
  case (1 n fs cur)
  then show ?case by auto
next
  case (2 n fs cur c rest)
  consider "is_dot c" | "\<not> is_dot c" "c = ''..''" | "\<not> is_dot c" "c \<noteq> ''..''" by blast
  then show ?case
  proof cases
    case 1
    then show ?thesis using 2 by simp
  next
    case dots: 2
    have "node_at fs (butlast cur) = Some Dir" using tree_parent "2.prems"(2,4) by simp
    then show ?thesis using "2.IH"(2) "2.prems" dots by simp
  next
    case name: 3
    show ?thesis
    proof (cases "node_at fs (cur @ [c])")
      case None
      then show ?thesis using "2.prems" name by simp
    next
      case (Some x)
      show ?thesis
      proof (cases x)
        case Dir
        then have "kwalk n fs (cur @ [c]) (rest @ q) = Inr d" using "2.prems"(1) name Some by simp
        then show ?thesis using "2.IH" "2.prems"(2,3) name Some Dir by simp
      next
        case (Reg i)
        then show ?thesis using "2.prems" name Some by simp
      next
        case (Link ab t)
        show ?thesis
        proof (cases n)
          case 0
          then show ?thesis using "2.prems" name Some Link by simp
        next
          case (Suc k)
          have "node_at fs (if ab then [] else cur) = Some Dir" using "2.prems"(4) by (cases ab) simp_all
          moreover have "kwalk k fs (if ab then [] else cur) ((t @ rest) @ q) = Inr d"
            using "2.prems"(1) name Some Link Suc by simp
          ultimately obtain y m where "m \<le> k" "kwalk k fs (if ab then [] else cur) (t @ rest) = Inr y"
              "node_at fs y = Some Dir" "kwalk m fs y q = Inr d"
            using "2.IH"(4) [OF name Some Link Suc] "2.prems"(2,3) by auto
          then show ?thesis using name Some Link Suc by (intro exI [of _ y] exI [of _ m]) simp
        qed
      qed
    qed
  qed
qed

section \<open>What validation guarantees\<close>

lemma inside_append [simp]: "inside ws (ws @ p)"
  by (simp add: inside_def)

lemma inside_split: "inside ws p \<Longrightarrow> p = ws @ drop (length ws) p"
  by (metis append_take_drop_id inside_def)

lemma inside_snoc: "inside ws p \<Longrightarrow> inside ws (p @ [c])"
  by (metis append_assoc inside_append inside_split)

lemma ancestor_walk_sound:
  assumes "ancestor_walk n fs ws cur steps p = None" "tree fs" "kwalk n fs [] (cur @ p) = Inr d"
    and "\<forall>c\<in>set p. plain c"
    and "\<And>x. kwalk n fs [] cur = Inr x \<Longrightarrow> inside ws x"
  shows "inside ws d"
  using assms
proof (induction p arbitrary: cur steps)
  case (Cons c p)
  have root: "node_at fs [] = Some Dir" by (simp add: node_at_def)
  have c: "plain c" using Cons.prems(4) by simp
  have "inside ws x" if x: "kwalk n fs [] (cur @ [c]) = Inr x" for x
  proof -
    obtain y m where y: "kwalk n fs [] cur = Inr y" "node_at fs y = Some Dir" "kwalk m fs y [c] = Inr x"
      using kwalk_append [OF x Cons.prems(2) _ root] by auto
    have iny: "inside ws y" by (rule Cons.prems(5) [OF y(1)])
    have l: "lstat n fs (cur @ [c]) = (case node_at fs (y @ [c]) of None \<Rightarrow> LMissing | Some z \<Rightarrow> LFound z)"
      using y(1,2) by (simp add: lstat_def parent_dir_def)
    show ?thesis
    proof (cases "is_link (node_at fs (y @ [c]))")
      case False
      then have "x = y @ [c]" using y(3) c by (auto simp: plain_def is_link_def split: option.splits node.splits)
      then show ?thesis using iny inside_snoc by simp
    next
      case True
      then obtain ab t where "node_at fs (y @ [c]) = Some (Link ab t)" by (auto simp: is_link_def split: option.splits node.splits)
      moreover have "resolve n fs [] (cur @ [c]) = Some x" by (rule kwalk_resolve [OF x])
      ultimately show ?thesis
        using Cons.prems(1) c l by (auto simp: plain_def is_dot_def split: if_splits)
    qed
  qed
  moreover have "\<exists>k. ancestor_walk n fs ws (cur @ [c]) k p = None"
    using Cons.prems(1) c by (auto simp: plain_def is_dot_def split: if_splits lstat_result.splits node.splits option.splits)
  ultimately show ?case
    using Cons.IH [of "cur @ [c]"] Cons.prems(2-4) by auto
qed auto

lemma canonical_kwalk: "canonical fs p \<Longrightarrow> kwalk n fs [] p = Inr d \<Longrightarrow> d = p"
  using kwalk_resolve [of n fs "[]" p d] canonical_resolve [of fs "[]" p n] by simp

lemma ancestor_walk_prefix: "ancestor_walk n fs ws cur steps (p @ q) = None \<Longrightarrow> ancestor_walk n fs ws cur steps p = None"
  by (induction n fs ws cur steps p rule: ancestor_walk.induct)
    (auto split: if_splits lstat_result.splits node.splits option.splits)

lemma first_error_none: "first_error xs = None \<longleftrightarrow> (\<forall>x\<in>set xs. x = None)"
  by (induction xs rule: first_error.induct) auto

lemma validate_path_cases:
  assumes "validate_path n fs fs' ws0 s = Inr r"
  obtains ws where "resolve n fs [] ws0 = Some ws" "canonical fs ws" "inside ws r" "canonical fs r"
    "ancestor_walk n fs' ws ws 0 (drop (length ws) r) = None" "reject_hardlink n fs' r = None" "reject_sensitive_path r = None"
proof -
  obtain ws where ws: "resolve n fs [] ws0 = Some ws"
    using assms by (auto simp: validate_path_def split: if_splits option.splits)
  let ?t = "if fst (parse_path s) then snd (parse_path s) else ws @ snd (parse_path s)"
  have r: "resolve n fs [] ?t = Some r" "inside ws r"
      "first_error [reject_symlink_ancestors n fs' ws r, reject_hardlink n fs' r, reject_sensitive_path r] = None"
    using assms ws by (auto simp: validate_path_def Let_def split: if_split_asm option.splits)
  have "canonical fs ws" by (rule resolve_canonical [OF canonical_Nil ws])
  moreover have "canonical fs r" by (rule resolve_canonical [OF canonical_Nil r(1)])
  ultimately show ?thesis
    using that [OF ws] r(2,3) by (auto simp: first_error_none reject_symlink_ancestors_def split: if_splits)
qed

lemma lstat_canonical:
  assumes "tree fs" "canonical fs p" "node_at fs p \<noteq> None"
  shows "lstat n fs p = LFound (the (node_at fs p))"
proof (cases p rule: rev_cases)
  case (snoc q c)
  have walk: "kwalk n fs cur p = Inr (cur @ p)"
    if "canonical fs (cur @ p)" "node_at fs (cur @ p) \<noteq> None" for cur p
    using that
  proof (induction p arbitrary: cur)
    case (Cons c p)
    have "canonical fs (cur @ [c])" using canonical_take [OF Cons.prems(1), of "Suc (length cur)"] by simp
    then have c: "plain c" "\<not> is_link (node_at fs (cur @ [c]))" by (simp_all add: canonical_snoc)
    have "node_at fs (cur @ [c]) = Some Dir \<or> p = []"
    proof -
      have "node_at fs (cur @ c # take k p) \<noteq> None" if "k \<le> length p" for k
        using that
      proof (induction "length p - k" arbitrary: k)
        case 0
        then show ?case using Cons.prems(2) by simp
      next
        case (Suc j)
        then have "node_at fs (cur @ c # take (Suc k) p) \<noteq> None" by simp
        moreover have "butlast (cur @ c # take (Suc k) p) = cur @ c # take k p"
          using Suc by (simp add: butlast_append take_Suc_conv_app_nth)
        ultimately show ?case using tree_parent [OF assms(1)] by (metis option.distinct(1))
      qed
      from this [of 1] show ?thesis
        using tree_parent [OF assms(1), of "cur @ [c, hd p]"] by (cases p) (auto simp: butlast_append)
    qed
    then show ?case
      using Cons.IH [of "cur @ [c]"] Cons.prems c
      by (auto simp: plain_def is_link_def split: option.splits node.splits)
  qed simp
  have "node_at fs q = Some Dir" using tree_parent [OF assms(1,3)] snoc by simp
  moreover have "kwalk n fs [] q = Inr q"
    using walk [of "[]" q] assms(2) snoc canonical_butlast [OF assms(2)] calculation by simp
  ultimately show ?thesis using assms(3) snoc by (auto simp: lstat_def parent_dir_def)
qed (simp add: lstat_def)

text \<open>The names that must never be reached, written down as what they are and not as what the patterns match.\<close>

definition credential_path :: "string list \<Rightarrow> bool" where
  "credential_path p \<longleftrightarrow>
     (\<exists>c\<in>set p. lower c \<in> {''.ssh'', ''.aws'', ''.kube'', ''.gnupg''}) \<or>
     (p \<noteq> [] \<and> (lower (List.last p) \<in> {''.env'', ''.netrc''} \<or> starts_with (lower (List.last p)) ''.env.'')) \<or>
     (case rev (map lower p) of
        f # d # rest \<Rightarrow>
          (d = ''.docker'' \<and> f = ''config.json'') \<or>
          (case rest of
             e # g # _ \<Rightarrow>
               (g = ''chrome'' \<and> e = ''user data'' \<and> f \<in> {''login data'', ''cookies''}) \<or>
               (g = ''firefox'' \<and> e = ''profiles'' \<and> f \<in> {''logins.json'', ''cookies.sqlite''})
           | _ \<Rightarrow> False)
      | _ \<Rightarrow> False)"

definition os_path :: "string list \<Rightarrow> bool" where
  "os_path p \<longleftrightarrow>
     p \<in> {[''etc'', ''passwd''], [''etc'', ''shadow''], [''etc'', ''sudoers'']} \<or>
     (\<exists>f. p = [''etc'', ''sudoers.d'', f] \<and> LF \<notin> set f) \<or>
     (2 \<le> length p \<and> hd p \<in> {''proc'', ''sys'', ''dev'', ''boot''})"

definition device_stem :: "string \<Rightarrow> bool" where
  "device_stem s \<longleftrightarrow>
     s \<in> {''con'', ''prn'', ''aux'', ''nul''} \<or> s \<in> (\<lambda>d. ''com'' @ [d]) ` set ''0123456789'' \<or> s \<in> (\<lambda>d. ''lpt'' @ [d]) ` set ''0123456789''"

definition device_path :: "string list \<Rightarrow> bool" where
  "device_path p \<longleftrightarrow> p \<noteq> [] \<and> device_stem (takeWhile (\<lambda>c. c \<noteq> CHR ''.'') (lower (List.last p)))"

lemma at_end_refl: "at_end s s"
  by (simp add: at_end_def)

lemma credential_rejected:
  assumes "credential_path p"
  shows "secret_dir p \<or> secret_file p"
proof (cases "\<exists>c\<in>set p. lower c \<in> {''.ssh'', ''.aws'', ''.kube'', ''.gnupg''}")
  case True
  then obtain c where "c \<in> set p" "lower c \<in> {''.ssh'', ''.aws'', ''.kube'', ''.gnupg''}" by blast
  moreover from this(1) have "lower c \<in> lower ` set p" by blast
  ultimately show ?thesis unfolding secret_dir_def by blast
next
  case False
  show ?thesis
  proof (cases "rev p")
    case Nil
    then show ?thesis using assms by (simp add: credential_path_def)
  next
    case (Cons f ds)
    then have p: "p \<noteq> []" "List.last p = f" by (auto simp: rev_eq_Cons_iff)
    have env_rejected: "secret_file p" if "lower f \<in> {''.env'', ''.netrc''} \<or> starts_with (lower f) ''.env.''"
      using that unfolding secret_file_def Cons
      by (auto simp: env_file_def at_end_def Let_def starts_with_iff)
    have low: "rev (map lower p) = lower f # map lower ds" by (simp add: rev_map Cons)
    consider (env) "lower f \<in> {''.env'', ''.netrc''} \<or> starts_with (lower f) ''.env.''"
      | (docker) d rest where "ds = d # rest" "lower d = ''.docker''" "lower f = ''config.json''"
      | (chrome) d e g rest where "ds = d # e # g # rest" "lower g = ''chrome''" "lower e = ''user data''"
          "lower f \<in> {''login data'', ''cookies''}"
      | (firefox) d e g rest where "ds = d # e # g # rest" "lower g = ''firefox''" "lower e = ''profiles''"
          "lower f \<in> {''logins.json'', ''cookies.sqlite''}"
    proof (cases ds)
      case Nil
      then show ?thesis using assms False that(1) unfolding credential_path_def p(2) low by (simp only: list.map list.case) blast
    next
      case ds: (Cons d ds')
      show ?thesis
      proof (cases "length ds' < 2")
        case True
        then have "ds' = [] \<or> (\<exists>e. ds' = [e])" by (cases ds'; cases "tl ds'") auto
        then show ?thesis
          using assms False that(1) that(2) [OF ds] unfolding credential_path_def p(2) low ds
          by (elim disjE exE) (simp_all only: list.map list.case, blast+)
      next
        case False2: False
        then obtain e g rest where "ds' = e # g # rest" by (cases ds'; cases "tl ds'") auto
        then show ?thesis
          using assms False that(1) that(2) [OF ds] that(3,4) [of d e g rest] unfolding credential_path_def p(2) low ds
          by (simp only: list.map list.case) blast
      qed
    qed
    then show ?thesis
    proof cases
      case env
      then show ?thesis using env_rejected by blast
    next
      case docker
      then show ?thesis by (simp add: secret_file_def Cons at_end_refl)
    next
      case chrome
      then show ?thesis by (auto simp: secret_file_def Cons at_end_def)
    next
      case firefox
      then show ?thesis by (auto simp: secret_file_def Cons at_end_def)
    qed
  qed
qed

lemma os_path_rejected: "os_path p \<Longrightarrow> system_file p"
proof -
  assume "os_path p"
  then consider (etc) x where "x \<in> {''passwd'', ''shadow'', ''sudoers''}" "p = [''etc'', x]"
    | (rules) f where "p = [''etc'', ''sudoers.d'', f]" "LF \<notin> set f"
    | (below) "2 \<le> length p" "hd p \<in> {''proc'', ''sys'', ''dev'', ''boot''}"
    unfolding os_path_def by blast
  then show ?thesis
  proof cases
    case etc
    show ?thesis
      unfolding system_file_def etc(2) list.case
      by (rule disjI2, rule conjI, rule refl, rule bexI [OF _ etc(1)], rule disjI1, rule conjI, rule refl, rule at_end_refl)
  next
    case rules
    have "single_line [f]" using rules(2) by (auto simp: single_line_def Let_def dest: in_set_butlastD)
    moreover have "''sudoers.d'' = ''sudoers'' @ ''.d''" by simp
    ultimately have rule: "''sudoers.d'' = ''sudoers'' @ ''.d'' \<and> single_line [f]" by simp
    show ?thesis
      unfolding system_file_def rules(1) list.case
      by (rule disjI2, rule conjI, rule refl, rule bexI [of _ "''sudoers''"], rule disjI2)
        (simp_all only: rule list.distinct, simp_all)
  next
    case below
    then obtain d f rest where "p = d # f # rest" by (cases p; cases "tl p") auto
    then show ?thesis using below(2) by (simp add: system_file_def)
  qed
qed

lemma device_stem_rejected:
  assumes "device_stem (takeWhile (\<lambda>c. c \<noteq> CHR ''.'') (lower s))"
  shows "device_name s"
proof -
  obtain t where t: "lower s = takeWhile (\<lambda>c. c \<noteq> CHR ''.'') (lower s) @ t" "t = [] \<or> hd t = CHR ''.''"
    using takeWhile_dropWhile_id [of "\<lambda>c. c \<noteq> CHR ''.''" "lower s"] hd_dropWhile [of "\<lambda>c. c \<noteq> CHR ''.''" "lower s"] by metis
  define u where "u = takeWhile (\<lambda>c. c \<noteq> CHR ''.'') (lower s)"
  have s: "lower s = u @ t" and u: "device_stem u" using t(1) assms by (simp_all add: u_def)
  define ends where "ends = (\<lambda>v. v = [] \<or> v = [LF] \<or> hd v = CHR ''.'')"
  have e: "ends t" using t(2) by (auto simp: ends_def)
  have digit: "48 \<le> cp d \<and> cp d \<le> 57" if "d \<in> set ''0123456789''" for d
    using that by auto
  have name: "device_name s \<longleftrightarrow>
      (\<exists>x\<in>{''con'', ''prn'', ''aux'', ''nul''}. starts_with (u @ t) x \<and> ends (drop 3 (u @ t))) \<or>
      (\<exists>x\<in>{''com'', ''lpt''}. starts_with (u @ t) x \<and> length (u @ t) > 3 \<and>
         48 \<le> cp ((u @ t) ! 3) \<and> cp ((u @ t) ! 3) \<le> 57 \<and> ends (drop 4 (u @ t)))"
    by (simp only: device_name_def Let_def s ends_def)
  from u consider (plain) "u \<in> {''con'', ''prn'', ''aux'', ''nul''}"
    | (port) x d where "x \<in> {''com'', ''lpt''}" "d \<in> set ''0123456789''" "u = x @ [d]"
    unfolding device_stem_def by blast
  then show ?thesis
  proof cases
    case plain
    then have "length u = 3" by auto
    then show ?thesis unfolding name using plain e by (intro disjI1 bexI [of _ u]) simp_all
  next
    case port
    then have "length x = 3" by auto
    then show ?thesis
      unfolding name using port(1,3) digit [OF port(2)] e
      by (intro disjI2 bexI [of _ x]) (simp_all add: nth_append starts_with_iff)
  qed
qed

lemma not_sensitive:
  assumes "reject_sensitive_path p = None"
  shows "\<not> credential_path p" "\<not> os_path p" "\<not> device_path p"
  using assms credential_rejected os_path_rejected device_stem_rejected
  by (auto simp: reject_sensitive_path_def device_path_def split: if_splits)

text \<open>C37: When nothing changes in between (and every name lies in a directory), a validated path is safe to use: it lies in the workspace, has no symbolic link on
  it, so that opening it reaches exactly that name; the file has no second name; and, whatever the case of its letters, it
  is no credential file (nothing in \<open>.ssh\<close>, \<open>.aws\<close>, \<open>.kube\<close> or \<open>.gnupg\<close>, no \<open>.env\<close>, \<open>.env.*\<close> or \<open>.netrc\<close>, no
  \<open>.docker/config.json\<close>, no password or cookie store of Chrome or Firefox) and no Windows device name (\<open>con\<close>, \<open>com1\<close>,
  \<open>nul.txt\<close>, ...); nor is it \<open>passwd\<close>, \<open>shadow\<close> or \<open>sudoers\<close> in \<open>/etc\<close> or anything below \<open>/proc\<close>, \<open>/sys\<close>, \<open>/dev\<close> or \<open>/boot\<close>.
\<close>

theorem validated_path_is_safe:
  assumes "validate_path n fs fs ws0 s = Inr r" "tree fs"
  shows "\<exists>ws. resolve n fs [] ws0 = Some ws \<and> inside ws r \<and> canonical fs r \<and>
    (\<forall>q. kwalk n fs [] r = Inr q \<longrightarrow> q = r) \<and>
    (\<forall>i. node_at fs r = Some (Reg i) \<longrightarrow> nlink fs i \<le> 1) \<and>
    \<not> credential_path r \<and> \<not> os_path r \<and> \<not> device_path r"
  using assms(1)
proof (cases rule: validate_path_cases)
  case (1 ws)
  have "nlink fs i \<le> 1" if "node_at fs r = Some (Reg i)" for i
    using 1(6) lstat_canonical [OF assms(2) 1(4)] that by (auto simp: reject_hardlink_def split: if_splits)
  then show ?thesis using 1 canonical_kwalk not_sensitive [OF 1(7)] by blast
qed

text \<open>The check of the ancestors closes the window between resolving and checking: whatever was swapped in that window,
  a path that passes leads into the workspace in the file system that the check saw, as long as the workspace itself
  was not replaced.
\<close>

theorem race_before_check_is_caught:
  assumes "validate_path n fs fs' ws0 s = Inr r" "tree fs'" "resolve n fs [] ws0 = Some ws" "canonical fs' ws"
    and "kwalk n fs' [] r = Inr q"
  shows "inside ws q"
  using assms(1)
proof (cases rule: validate_path_cases)
  case (1 ws1)
  have ws: "ws1 = ws" using 1(1) assms(3) by simp
  have r: "r = ws @ drop (length ws) r" using inside_split 1(3) ws by blast
  have "plain c" if "c \<in> set (drop (length ws) r)" for c
    using 1(4) in_set_dropD [OF that] by (simp add: canonical_def)
  moreover have "inside ws x" if "kwalk n fs' [] ws = Inr x" for x
    using canonical_kwalk [OF assms(4) that] inside_append [of ws "[]"] by simp
  ultimately show ?thesis
    using ancestor_walk_sound [of n fs' ws ws 0 "drop (length ws) r" q] 1(5) assms(2,5) r ws by auto
qed

section \<open>What a write touches\<close>

definition inodes_ok :: "fsys \<Rightarrow> bool" where
  "inodes_ok fs \<longleftrightarrow> (\<forall>(p, x)\<in>set (fs_names fs). \<forall>i. x = Reg i \<longrightarrow> i < fs_next fs)"

definition bytes_at :: "fsys \<Rightarrow> string list \<Rightarrow> string option" where
  "bytes_at fs p = (case node_at fs p of Some (Reg i) \<Rightarrow> dget (fs_data fs) i | _ \<Rightarrow> None)"

lemma node_at_inode: "inodes_ok fs \<Longrightarrow> node_at fs p = Some (Reg i) \<Longrightarrow> i < fs_next fs"
  by (fastforce simp: inodes_ok_def node_at_def split: if_splits dest: dget_member)

lemma atomic_write_cases:
  assumes "atomic_write n io fs p bytes = Some fs'"
  obtains d where "parent_dir n fs p = Inr d" "p \<noteq> []"
    "fs' = fs\<lparr>fs_names := dput (d @ [List.last p]) (Reg (fs_next fs)) (fs_names fs),
       fs_data := dput (fs_next fs) bytes (fs_data fs), fs_next := fs_next fs + 1\<rparr>"
  using assms that by (auto simp: atomic_write_def split: lstat_result.splits node.splits sum.splits if_splits)

lemma atomic_write_elsewhere:
  assumes "parent_dir n fs p = Inr d" "inodes_ok fs" "x \<noteq> d @ [List.last p]" "atomic_write n io fs p bytes = Some fs'"
  shows "node_at fs' x = node_at fs x \<and> bytes_at fs' x = bytes_at fs x"
  using assms(4)
proof (cases rule: atomic_write_cases)
  case (1 d')
  then have n: "node_at fs' x = node_at fs x" using assms(1,3) by (simp add: node_at_def dget_dput)
  then show ?thesis
    using 1(3) node_at_inode [OF assms(2), of x] by (auto simp: bytes_at_def dget_dput split: option.split node.split)
qed

text \<open>C38: On a well-formed file system (names lie in directories, inodes were handed out), writing to a validated path changes one name, in the workspace, and no byte of any other file, even when
  directories below the workspace were swapped for links between resolving the path and checking it. The path of the
  workspace itself must not have been replaced by a link (\<open>canonical fs' ws\<close>): the walk of the ancestors starts below
  it, so such a swap is not noticed and the write would land outside.
\<close>

theorem validated_write_stays_inside:
  assumes "validate_path n fs fs' ws0 s = Inr r" "tree fs'" "inodes_ok fs'" "resolve n fs [] ws0 = Some ws" "canonical fs' ws"
    and "atomic_write n io fs' r bytes = Some fs''"
  shows "\<exists>q. inside ws q \<and> bytes_at fs'' q = Some bytes \<and>
    (\<forall>x. x \<noteq> q \<longrightarrow> node_at fs'' x = node_at fs' x \<and> bytes_at fs'' x = bytes_at fs' x)"
  using assms(1)
proof (cases rule: validate_path_cases)
  case (1 ws1)
  have ws: "ws1 = ws" using 1(1) assms(4) by simp
  from assms(6) obtain d where d: "parent_dir n fs' r = Inr d" "r \<noteq> []"
      "fs'' = fs'\<lparr>fs_names := dput (d @ [List.last r]) (Reg (fs_next fs')) (fs_names fs'),
         fs_data := dput (fs_next fs') bytes (fs_data fs'), fs_next := fs_next fs' + 1\<rparr>"
    by (rule atomic_write_cases)
  have k: "kwalk n fs' [] (butlast r) = Inr d"
    using d(1) by (auto simp: parent_dir_def split: sum.splits option.splits node.splits)
  have "inside ws (d @ [List.last r])"
  proof (cases "drop (length ws) r = []")
    case True
    then have r: "r = ws" using inside_split [OF 1(3)] ws by simp
    then have "d = butlast ws" using canonical_kwalk canonical_butlast [OF assms(5)] k by metis
    then show ?thesis using r d(2) inside_append [of ws "[]"] by simp
  next
    case False
    then have r: "butlast r = ws @ butlast (drop (length ws) r)"
      using inside_split [OF 1(3)] ws by (metis butlast_append)
    have "ancestor_walk n fs' ws ws 0 (butlast (drop (length ws) r)) = None"
      using 1(5) ws False by (metis ancestor_walk_prefix append_butlast_last_id)
    moreover have "plain c" if "c \<in> set (butlast (drop (length ws) r))" for c
      using 1(4) in_set_dropD [OF in_set_butlastD [OF that]] by (simp add: canonical_def)
    moreover have "inside ws x" if "kwalk n fs' [] ws = Inr x" for x
      using canonical_kwalk [OF assms(5) that] inside_append [of ws "[]"] by simp
    ultimately have "inside ws d"
      using ancestor_walk_sound [of n fs' ws ws 0 _ d] assms(2) k r by metis
    then show ?thesis by (rule inside_snoc)
  qed
  moreover have "bytes_at fs'' (d @ [List.last r]) = Some bytes"
    using d(3) by (simp add: bytes_at_def node_at_def dget_dput)
  ultimately show ?thesis
    using atomic_write_elsewhere [OF d(1) assms(3) _ assms(6)] by blast
qed

section \<open>At a concrete file system\<close>

definition sample_fs :: fsys where
  "sample_fs = \<lparr>fs_names = [([''w''], Dir), ([''w'', ''d''], Dir), ([''x''], Dir)], fs_data = [], fs_next = 0\<rparr>"

text \<open>The same after somebody has replaced the directory \<open>/w/d\<close> by a link to \<open>/x\<close>.\<close>

definition swapped_fs :: fsys where
  "swapped_fs = sample_fs\<lparr>fs_names := [([''w''], Dir), ([''w'', ''d''], Link True [''x'']), ([''x''], Dir)]\<rparr>"

lemmas path_eval = validate_path_def parse_path_def is_dot_def node_at_def dget_def inside_def lstat_def parent_dir_def
  reject_symlink_ancestors_def reject_hardlink_def reject_sensitive_path_def MAX_ANCESTOR_STEPS_def at_end_def
  secret_dir_def secret_file_def env_file_def system_file_def device_name_def lower_def to_lower_def Let_def

lemma sample_valid: "validate_path 40 sample_fs sample_fs [''w''] ''d/f'' = Inr [''w'', ''d'', ''f'']"
  by (simp add: path_eval sample_fs_def)

lemma sample_ws: "resolve 40 sample_fs [] [''w''] = Some [''w'']"
  by (simp add: path_eval sample_fs_def)

lemma sample_tree: "tree sample_fs" "inodes_ok sample_fs" "canonical sample_fs [''w'']"
  by (auto simp: tree_def inodes_ok_def canonical_def sample_fs_def node_at_def dget_def plain_def is_dot_def is_link_def
      le_Suc_eq)

text \<open>A swap between the check and the write is not caught: only the last component is refused when it is a link.\<close>

text \<open>A directory that is swapped for a link after the validation redirects the write out of the workspace: the path
  passes every check, and the atomic write creates the file behind the link.
\<close>

theorem late_swap_escapes:
  "validate_path 40 sample_fs sample_fs [''w''] ''d/f'' = Inr [''w'', ''d'', ''f''] \<and>
   map_option (\<lambda>fs. bytes_at fs [''x'', ''f'']) (atomic_write 40 True swapped_fs [''w'', ''d'', ''f''] ''secret'') = Some (Some ''secret'') \<and>
   \<not> inside [''w''] [''x'', ''f'']"
  by (simp add: path_eval sample_fs_def swapped_fs_def atomic_write_def bytes_at_def dput_def)

lemma validated_path_is_safe_witness:
  "canonical sample_fs [''w'', ''d'', ''f''] \<and> \<not> credential_path [''w'', ''d'', ''f'']"
  using validated_path_is_safe [OF sample_valid sample_tree(1)] by auto

lemma race_before_check_is_caught_witness: "inside [''w''] [''w'', ''d'', ''f'']"
  by (rule race_before_check_is_caught [OF sample_valid sample_tree(1) sample_ws sample_tree(3), where q = "[''w'', ''d'', ''f'']"])
    (simp add: path_eval sample_fs_def)

lemma validated_write_stays_inside_witness:
  "\<exists>fs q. inside [''w''] q \<and> bytes_at fs q = Some ''hello''"
proof -
  obtain fs where "atomic_write 40 True sample_fs [''w'', ''d'', ''f''] ''hello'' = Some fs"
    by (simp add: path_eval sample_fs_def atomic_write_def)
  from validated_write_stays_inside [OF sample_valid sample_tree(1,2) sample_ws sample_tree(3) this]
  show ?thesis by blast
qed

text \<open>The walk of the ancestors has nothing to find when nothing changed: a resolved path has no links.\<close>

lemma canonical_parent: "canonical fs (p @ [c]) \<Longrightarrow> parent_dir n fs (p @ [c]) = Inr d \<Longrightarrow> d = p"
  by (auto simp: parent_dir_def canonical_snoc split: sum.splits option.splits node.splits dest: canonical_kwalk)

lemma quiet_walk_finds_no_link:
  assumes "tree fs" "canonical fs (cur @ p)"
  shows "ancestor_walk n fs ws cur steps p \<notin> {Some LeavesWorkspace, Some SymlinkLoop}"
  using assms(2)
proof (induction p arbitrary: cur steps)
  case (Cons c p)
  have c: "canonical fs (cur @ [c])" using canonical_take [OF Cons.prems, of "Suc (length cur)"] by simp
  then have "\<not> is_link (node_at fs (cur @ [c]))" "c \<noteq> []" by (simp_all add: canonical_snoc plain_def is_dot_def)
  then have "c \<noteq> []" "lstat n fs (cur @ [c]) \<noteq> LFound (Link a t)" for a t
    using canonical_parent [OF c, of n]
    by (auto simp: is_link_def lstat_def split: walk_error.splits sum.splits option.splits)
  then show ?case
    using Cons.IH [of "cur @ [c]" "Suc steps"] Cons.prems by (auto split: lstat_result.split node.split)
qed simp

end
