(* ===== verification/FileTools.thy ===== *)
theory FileTools
  imports PathGuard
begin

text \<open>
  \<open>extensions/tools/builtin/files.py\<close>: the tools that read, write, edit and search text files. A file holds bytes;
  \<open>read_text\<close> decodes them and translates the line ends. Parameters: UTF-8 (\<open>ft_dec\<close>, \<open>ft_enc\<close>, and the variant that
  drops what it cannot decode), the texts of exceptions, and the compiled regular expression. A call sees one file
  system; races are the subject of \<open>PathGuard\<close>.
\<close>

section \<open>Text\<close>

fun count_sub :: "string \<Rightarrow> string \<Rightarrow> nat" where
  "count_sub old [] = 0"
| "count_sub old (c # s) =
     (if starts_with (c # s) old then 1 + count_sub old (drop (length old - 1) s) else count_sub old s)"

text \<open>\<open>s.count(old)\<close> and \<open>s.replace(old, new, k)\<close>; an empty \<open>old\<close> matches before each character and at the end.\<close>

definition py_count :: "string \<Rightarrow> string \<Rightarrow> nat" where
  "py_count old s = (if old = [] then length s + 1 else count_sub old s)"

fun replace_sub :: "string \<Rightarrow> string \<Rightarrow> nat \<Rightarrow> string \<Rightarrow> string" where
  "replace_sub old new k [] = []"
| "replace_sub old new k (c # s) =
     (if k = 0 then c # s
      else if starts_with (c # s) old then new @ replace_sub old new (k - 1) (drop (length old - 1) s)
      else c # replace_sub old new k s)"

fun insert_between :: "string \<Rightarrow> nat \<Rightarrow> string \<Rightarrow> string" where
  "insert_between new 0 s = s"
| "insert_between new (Suc k) [] = new"
| "insert_between new (Suc k) (c # s) = new @ c # insert_between new k s"

definition py_replace :: "string \<Rightarrow> string \<Rightarrow> nat \<Rightarrow> string \<Rightarrow> string" where
  "py_replace old new k s = (if old = [] then insert_between new k s else replace_sub old new k s)"

section \<open>The tools\<close>

datatype tool_exc = PathExc path_error | DecodeExc | EncodeExc | OsExc | PatternExc | UnreadableExc

record file_env =
  ft_limit :: nat
  ft_root :: "string list"
  ft_dec :: "string \<Rightarrow> string option"
  ft_enc :: "string \<Rightarrow> string option"
  ft_lossy :: "string \<Rightarrow> string"
  ft_exc :: "tool_exc \<Rightarrow> string"
  ft_io :: bool

definition posix :: "string list \<Rightarrow> string" where
  "posix p = CHR ''/'' # join ''/'' p"

definition valid_path :: "file_env \<Rightarrow> fsys \<Rightarrow> string \<Rightarrow> path_error + string list" where
  "valid_path en fs s = validate_path (ft_limit en) fs fs (ft_root en) s"

text \<open>\<open>Path.suffix\<close>: from the last dot, if it is neither the first nor the last character of the name.\<close>

definition path_suffix :: "string \<Rightarrow> string" where
  "path_suffix name =
     (let after = takeWhile (\<lambda>c. c \<noteq> CHR ''.'') (rev name); before = drop (length after + 1) (rev name)
      in if CHR ''.'' \<in> set name \<and> after \<noteq> [] \<and> before \<noteq> [] then CHR ''.'' # rev after else [])"

definition IMAGE_EXTENSIONS :: "string list" where
  "IMAGE_EXTENSIONS = [''.png'', ''.jpg'', ''.jpeg'', ''.gif'', ''.webp'', ''.bmp'']"

definition is_image :: "string list \<Rightarrow> bool" where
  "is_image p \<longleftrightarrow> p \<noteq> [] \<and> lower (path_suffix (List.last p)) \<in> set IMAGE_EXTENSIONS"

definition MAX_FILE_SEARCH_BYTES :: nat where "MAX_FILE_SEARCH_BYTES = 1048576"

definition exc_text :: "file_env \<Rightarrow> string \<Rightarrow> string \<Rightarrow> tool_exc \<Rightarrow> string" where
  "exc_text en what path e = ''Error '' @ what @ '' '' @ quoted path @ '': '' @ ft_exc en e"

text \<open>\<open>read_text(encoding="utf-8")\<close> of a file.\<close>

definition read_text :: "file_env \<Rightarrow> fsys \<Rightarrow> string list \<Rightarrow> tool_exc + string" where
  "read_text en fs p =
     (case bytes_at fs p of
        None \<Rightarrow> Inl OsExc
      | Some b \<Rightarrow> (case ft_dec en b of None \<Rightarrow> Inl DecodeExc | Some t \<Rightarrow> Inr (universal_newlines t)))"

definition is_file :: "fsys \<Rightarrow> string list \<Rightarrow> bool" where
  "is_file fs p \<longleftrightarrow> (case node_at fs p of Some (Reg _) \<Rightarrow> True | _ \<Rightarrow> False)"

definition read_file :: "file_env \<Rightarrow> string option \<Rightarrow> fsys \<Rightarrow> string" where
  "read_file en path fs =
     (case path of
        None \<Rightarrow> ''Error: missing required parameter '' @ quoted ''path''
      | Some s \<Rightarrow>
          (case valid_path en fs s of
             Inl e \<Rightarrow> exc_text en ''reading file'' s (PathExc e)
           | Inr r \<Rightarrow>
               if node_at fs r = None then ''Error: File '' @ quoted (posix r) @ '' does not exist.''
               else if \<not> is_file fs r then ''Error: '' @ quoted (posix r) @ '' is not a file.''
               else if is_image r then ''Error: Use read_image tool for image files.''
               else case bytes_at fs r of
                   None \<Rightarrow> exc_text en ''reading file'' s OsExc
                 | Some b \<Rightarrow>
                     if length b > MAX_FILE_SEARCH_BYTES
                     then ''Error: File '' @ quoted (posix r) @ '' is too large to read directly ('' @ nat_str (length b) @ '' bytes, max ''
                       @ nat_str MAX_FILE_SEARCH_BYTES @ ''). Use search_files or a narrower file-specific tool instead.''
                     else (case read_text en fs r of Inl e \<Rightarrow> exc_text en ''reading file'' s e | Inr t \<Rightarrow> t)))"

definition write_text :: "file_env \<Rightarrow> fsys \<Rightarrow> string list \<Rightarrow> string \<Rightarrow> tool_exc + fsys" where
  "write_text en fs r t =
     (case lstat (ft_limit en) fs r of
        LFails \<Rightarrow> Inl OsExc
      | LFound (Link _ _) \<Rightarrow> Inl OsExc
      | _ \<Rightarrow>
          (case ft_enc en t of
             None \<Rightarrow> Inl EncodeExc
           | Some b \<Rightarrow> (case atomic_write (ft_limit en) (ft_io en) fs r b of None \<Rightarrow> Inl OsExc | Some fs' \<Rightarrow> Inr fs')))"

definition write_file :: "file_env \<Rightarrow> string option \<Rightarrow> string option \<Rightarrow> fsys \<Rightarrow> fsys \<times> string" where
  "write_file en path content fs =
     (case (path, content) of
        (Some s, Some t) \<Rightarrow>
          (case valid_path en fs s of
             Inl e \<Rightarrow> (fs, exc_text en ''writing file'' s (PathExc e))
           | Inr r \<Rightarrow>
               (case make_dirs (ft_limit en) fs [] (butlast r) of
                  None \<Rightarrow> (fs, exc_text en ''writing file'' s OsExc)
                | Some fs1 \<Rightarrow>
                    (case write_text en fs1 r t of
                       Inl e \<Rightarrow> (fs1, exc_text en ''writing file'' s e)
                     | Inr fs2 \<Rightarrow> (fs2, ''Successfully wrote '' @ nat_str (length t) @ '' chars to '' @ quoted (posix r)))))
      | _ \<Rightarrow> (fs, ''Error: missing required '' @ quoted ''path'' @ '' or '' @ quoted ''content''))"

definition edit_file ::
    "file_env \<Rightarrow> string option \<Rightarrow> string option \<Rightarrow> string option \<Rightarrow> int option \<Rightarrow> fsys \<Rightarrow> fsys \<times> string" where
  "edit_file en path old_text new_text max_replacements fs =
     (case (path, old_text, new_text) of
        (Some s, Some old, Some new) \<Rightarrow>
          let max_repl = (case max_replacements of None \<Rightarrow> 1 | Some k \<Rightarrow> k) in
          (case valid_path en fs s of
             Inl e \<Rightarrow> (fs, exc_text en ''editing file'' s (PathExc e))
           | Inr r \<Rightarrow>
               if node_at fs r = None then (fs, ''Error: File '' @ quoted (posix r) @ '' does not exist.'')
               else case read_text en fs r of
                   Inl e \<Rightarrow> (fs, exc_text en ''editing file'' s e)
                 | Inr content \<Rightarrow>
                     if \<not> contains content old then (fs, ''Error: '' @ quoted ''old_text'' @ '' exactly not found in file.'')
                     else
                       let total_n = py_count old content;
                           k = (if max_repl \<le> 0 then total_n else nat max_repl);
                           applied = (if max_repl = 0 then int total_n else min (int total_n) max_repl)
                       in (case write_text en fs r (py_replace old new k content) of
                             Inl e \<Rightarrow> (fs, exc_text en ''editing file'' s e)
                           | Inr fs' \<Rightarrow> (fs', ''Edited '' @ quoted (posix r) @ '' ('' @ int_str applied @ '' of '' @ nat_str total_n
                               @ '' occurrence(s) replaced).'')))
      | _ \<Rightarrow> (fs, ''Error: missing required params '' @ quoted ''path'' @ '', '' @ quoted ''old_text'' @ '', '' @ quoted ''new_text''))"

section \<open>Search\<close>

text \<open>\<open>os.walk\<close>: the files of a directory, then its subdirectories; links to directories are listed among the
  directories but not entered. The order is the order of the names.\<close>

definition entries_of :: "fsys \<Rightarrow> string list \<Rightarrow> string list" where
  "entries_of fs d = map List.last (filter (\<lambda>p. p \<noteq> [] \<and> butlast p = d) (dkeys (fs_names fs)))"

text \<open>What a name is after following links.\<close>

definition stat_node :: "nat \<Rightarrow> fsys \<Rightarrow> string list \<Rightarrow> (string list \<times> node) option" where
  "stat_node n fs p = (case kwalk n fs [] p of Inl _ \<Rightarrow> None | Inr q \<Rightarrow> map_option (\<lambda>x. (q, x)) (node_at fs q))"

definition is_dir_entry :: "nat \<Rightarrow> fsys \<Rightarrow> string list \<Rightarrow> bool" where
  "is_dir_entry n fs p \<longleftrightarrow> (\<exists>q. stat_node n fs p = Some (q, Dir))"

definition SKIP_DIRS :: "string list" where
  "SKIP_DIRS = [''.git'', ''__pycache__'', ''node_modules'', ''.venv'', ''venv'', ''.mypy_cache'', ''.ruff_cache'',
     ''.pytest_cache'', ''.tox'', ''dist'', ''build'', ''.eggs'']"

text \<open>The fuel bounds the depth.\<close>

fun walk_files :: "nat \<Rightarrow> nat \<Rightarrow> fsys \<Rightarrow> string list \<Rightarrow> string list list" where
  "walk_files 0 n fs d = []"
| "walk_files (Suc depth) n fs d =
     (let names = entries_of fs d;
          dirs = filter (\<lambda>x. is_dir_entry n fs (d @ [x])) names;
          files = filter (\<lambda>x. \<not> is_dir_entry n fs (d @ [x])) names;
          kept = filter (\<lambda>x. x \<notin> set SKIP_DIRS \<and> \<not> starts_with x ''.'') dirs
      in map (\<lambda>x. d @ [x]) files
         @ concat (map (\<lambda>x. if node_at fs (d @ [x]) = Some Dir then walk_files depth n fs (d @ [x]) else []) kept))"

definition searched :: "string list \<Rightarrow> bool" where
  "searched p \<longleftrightarrow> p \<noteq> [] \<and> \<not> starts_with (List.last p) ''.'' \<and> lower (path_suffix (List.last p)) \<notin> set IMAGE_EXTENSIONS"

text \<open>Iterating over a text file: the lines with their ends.\<close>

fun file_lines :: "string \<Rightarrow> string \<Rightarrow> string list" where
  "file_lines w [] = (if w = [] then [] else [w])"
| "file_lines w (c # s) = (if c = LF then (w @ [c]) # file_lines [] s else file_lines (w @ [c]) s)"

definition match_lines :: "(string \<Rightarrow> bool) \<Rightarrow> string \<Rightarrow> string list" where
  "match_lines p t =
     map (\<lambda>(i, l). nat_str i @ '': '' @ take 100 (strip l))
       (filter (\<lambda>(i, l). p l) (zip [1..<length (file_lines [] t) + 1] (file_lines [] t)))"

datatype searched_file = SkippedFile | UnreadableFile | MatchedLines "string list"

definition search_one :: "file_env \<Rightarrow> (string \<Rightarrow> bool) \<Rightarrow> fsys \<Rightarrow> string list \<Rightarrow> searched_file" where
  "search_one en p fs f =
     (if \<not> searched f then SkippedFile
      else case stat_node (ft_limit en) fs f of
          None \<Rightarrow> UnreadableFile
        | Some (q, _) \<Rightarrow>
            (case bytes_at fs q of
               None \<Rightarrow> UnreadableFile
             | Some b \<Rightarrow>
                 if length b > MAX_FILE_SEARCH_BYTES then SkippedFile
                 else MatchedLines (match_lines p (universal_newlines (ft_lossy en b)))))"

fun search_loop :: "nat \<Rightarrow> string \<Rightarrow> (string list \<Rightarrow> searched_file) \<Rightarrow> (string list \<Rightarrow> string) \<Rightarrow> string list list \<Rightarrow> string list \<Rightarrow> string list" where
  "search_loop limit note_text one rel [] results = results"
| "search_loop limit note_text one rel (f # fs) results =
     (case one f of
        SkippedFile \<Rightarrow> search_loop limit note_text one rel fs results
      | UnreadableFile \<Rightarrow>
          search_loop limit note_text one rel fs
            (if length results \<le> limit then results @ [''Skipped unreadable file '' @ rel f @ '': '' @ note_text] else results)
      | MatchedLines ms \<Rightarrow>
          if ms = [] then search_loop limit note_text one rel fs results
          else let results' = results @ (''--- '' @ rel f @ '' ---'') # ms
               in if length results' > limit then results' @ [''... search truncated.'']
                  else search_loop limit note_text one rel fs results')"

definition MAX_RESULTS :: nat where "MAX_RESULTS = 100"

text \<open>\<open>regex\<close>: \<open>None\<close> when the pattern does not compile.\<close>

definition search_files :: "file_env \<Rightarrow> (string \<Rightarrow> (string \<Rightarrow> bool) option) \<Rightarrow> string option \<Rightarrow> string option \<Rightarrow> fsys \<Rightarrow> string" where
  "search_files en regex path pattern fs =
     (let s = (case path of None \<Rightarrow> ''.'' | Some x \<Rightarrow> if x = [] then ''.'' else x) in
      case pattern of
        None \<Rightarrow> ''Error: '' @ quoted ''pattern'' @ '' and '' @ quoted ''path'' @ '' must be strings.''
      | Some pat \<Rightarrow>
          (case valid_path en fs s of
             Inl e \<Rightarrow> ''Error searching files in '' @ quoted s @ '': '' @ ft_exc en (PathExc e)
           | Inr r \<Rightarrow>
               if node_at fs r \<noteq> Some Dir then ''Error: '' @ quoted (posix r) @ '' is not a valid directory.''
               else
                 let results =
                   (if length pat > 200 then [''Error: pattern too long (max 200 chars).'']
                    else case regex pat of
                        None \<Rightarrow> [''Error: invalid regex pattern: '' @ ft_exc en PatternExc]
                      | Some p \<Rightarrow>
                          search_loop MAX_RESULTS (ft_exc en UnreadableExc) (search_one en p fs) (\<lambda>f. join ''/'' (drop (length r) f))
                            (walk_files (Suc (length (fs_names fs))) (ft_limit en) fs r) [])
                 in if results = [] then ''No matches found.'' else join [LF] results))"

section \<open>Names that are added\<close>

lemma node_put: "p \<noteq> [] \<Longrightarrow> node_at (fs\<lparr>fs_names := dput p x (fs_names fs)\<rparr>) q = (if q = p then Some x else node_at fs q)"
  by (simp add: node_at_def dget_dput)

lemma node_put_data [simp]: "node_at (fs\<lparr>fs_names := ns, fs_data := ds, fs_next := k\<rparr>) q = node_at (fs\<lparr>fs_names := ns\<rparr>) q"
  by (simp add: node_at_def)

lemma tree_put:
  assumes "tree fs" "p \<noteq> []" "node_at fs (butlast p) = Some Dir" "node_at fs p = Some Dir \<Longrightarrow> x = Dir"
  shows "tree (fs\<lparr>fs_names := dput p x (fs_names fs)\<rparr>)"
proof -
  have "node_at (fs\<lparr>fs_names := dput p x (fs_names fs)\<rparr>) (butlast q) = Some Dir"
    if "(q, y) \<in> set (dput p x (fs_names fs))" "q \<noteq> []" for q y
  proof -
    have "node_at fs (butlast q) = Some Dir"
      using dput_member [OF that(1)] that(2) assms(1,3) by (auto simp: tree_def)
    then show ?thesis using assms(2,4) by (auto simp: node_put)
  qed
  then show ?thesis by (auto simp: tree_def)
qed

lemma tree_cong: "fs_names fs = fs_names fs' \<Longrightarrow> tree fs = tree fs'"
proof -
  assume n: "fs_names fs = fs_names fs'"
  then have "node_at fs = node_at fs'" by (simp add: fun_eq_iff node_at_def)
  then show ?thesis by (simp only: tree_def n)
qed

lemma inodes_put: "inodes_ok fs \<Longrightarrow> (\<And>i. x = Reg i \<Longrightarrow> i < fs_next fs) \<Longrightarrow> inodes_ok (fs\<lparr>fs_names := dput p x (fs_names fs)\<rparr>)"
  unfolding inodes_ok_def by (auto dest!: dput_member)

text \<open>Two file systems with the same links resolve every path alike.\<close>

definition same_links :: "fsys \<Rightarrow> fsys \<Rightarrow> bool" where
  "same_links fs fs' \<longleftrightarrow> (\<forall>p a t. node_at fs p = Some (Link a t) \<longleftrightarrow> node_at fs' p = Some (Link a t))"

lemma resolve_links: "same_links fs fs' \<Longrightarrow> resolve n fs' cur p = resolve n fs cur p"
proof (induction n fs cur p rule: resolve.induct)
  case (2 n fs cur c rest)
  show ?case
  proof (cases "\<exists>a t. node_at fs (cur @ [c]) = Some (Link a t)")
    case True
    then obtain a t where l: "node_at fs (cur @ [c]) = Some (Link a t)" by blast
    then have "node_at fs' (cur @ [c]) = Some (Link a t)" using "2.prems" by (auto simp: same_links_def)
    then show ?thesis using 2 l by (cases n) auto
  next
    case False
    then have "\<not> is_link (node_at fs' (cur @ [c]))" "\<not> is_link (node_at fs (cur @ [c]))"
      using "2.prems" by (auto simp: same_links_def is_link_def split: option.splits node.splits)
    then have "resolve n fs' (cur @ [c]) rest = resolve n fs (cur @ [c]) rest \<or> is_dot c \<or> c = ''..''"
      using "2.IH" "2.prems" by (cases "node_at fs (cur @ [c])") (auto simp: is_link_def split: node.splits)
    then show ?thesis
      using "2.IH"(1,2) "2.prems" \<open>\<not> is_link (node_at fs' _)\<close> \<open>\<not> is_link (node_at fs _)\<close>
      by (auto simp: is_link_def split: option.splits node.splits)
  qed
qed simp

lemma canonical_links: "same_links fs fs' \<Longrightarrow> canonical fs' p \<longleftrightarrow> canonical fs p"
  by (simp add: canonical_def is_link_def same_links_def split: option.splits node.splits)

text \<open>Directories on the way to \<open>p\<close> are added, nothing else changes.\<close>

definition grows :: "fsys \<Rightarrow> fsys \<Rightarrow> string list \<Rightarrow> bool" where
  "grows fs fs' p \<longleftrightarrow> fs_data fs' = fs_data fs \<and> fs_next fs' = fs_next fs \<and> tree fs' \<and> inodes_ok fs' \<and>
     (\<forall>x. node_at fs' x = node_at fs x \<or> (node_at fs x = None \<and> node_at fs' x = Some Dir \<and> (\<exists>k. x = take k p)))"

lemma grows_refl: "tree fs \<Longrightarrow> inodes_ok fs \<Longrightarrow> grows fs fs p"
  by (simp add: grows_def)

lemma grows_trans: "grows fs fs' p \<Longrightarrow> grows fs' fs'' p \<Longrightarrow> grows fs fs'' p"
  unfolding grows_def by metis

lemma grows_links: "grows fs fs' p \<Longrightarrow> same_links fs fs'"
  unfolding grows_def same_links_def by (metis node.distinct(3) option.distinct(1) option.inject)

lemma make_dirs_grows:
  assumes "make_dirs n fs cur p = Some fs1" "canonical fs (cur @ p)" "node_at fs cur = Some Dir" "tree fs" "inodes_ok fs"
  shows "grows fs fs1 (cur @ p) \<and> node_at fs1 (cur @ p) = Some Dir"
  using assms
proof (induction p arbitrary: fs cur)
  case Nil
  then show ?case by (simp add: grows_refl)
next
  case (Cons c p)
  have "canonical fs (cur @ [c])" using canonical_take [OF Cons.prems(2), of "Suc (length cur)"] by simp
  then have nolink: "\<not> is_link (node_at fs (cur @ [c]))" by (simp add: canonical_snoc)
  let ?fs' = "if node_at fs (cur @ [c]) = None then fs\<lparr>fs_names := dput (cur @ [c]) Dir (fs_names fs)\<rparr> else fs"
  have run: "make_dirs n ?fs' (cur @ [c]) p = Some fs1" and old: "node_at fs (cur @ [c]) \<in> {None, Some Dir}"
    using Cons.prems(1) nolink by (auto simp: is_link_def split: option.splits node.splits)
  have dir: "node_at ?fs' (cur @ [c]) = Some Dir" using old by (auto simp: node_put)
  have "grows fs ?fs' (cur @ c # p)"
  proof (cases "node_at fs (cur @ [c]) = None")
    case True
    have "\<exists>k. cur @ [c] = take k (cur @ c # p)" by (rule exI [of _ "Suc (length cur)"]) simp
    then show ?thesis
      using True Cons.prems(3-5) tree_put [of fs "cur @ [c]" Dir] inodes_put [of fs Dir "cur @ [c]"]
      by (auto simp: grows_def node_put)
  next
    case False
    then show ?thesis using Cons.prems(4,5) by (auto simp: grows_refl)
  qed
  note g = this
  have "canonical ?fs' ((cur @ [c]) @ p)" using canonical_links [OF grows_links [OF g]] Cons.prems(2) by simp
  moreover have "tree ?fs'" "inodes_ok ?fs'" using g by (simp_all add: grows_def)
  ultimately show ?case using Cons.IH [OF run _ dir] grows_trans [OF g] by simp
qed

lemma tree_prefix: "tree fs \<Longrightarrow> node_at fs (p @ q) \<noteq> None \<Longrightarrow> node_at fs p \<noteq> None"
proof (induction q rule: rev_induct)
  case (snoc c q)
  then show ?case using tree_parent [of fs "p @ q @ [c]"] by (simp add: butlast_append)
qed simp

lemma walk_steps: "ancestor_walk n fs ws cur steps p = None \<Longrightarrow> p = [] \<or> steps + length p \<le> MAX_ANCESTOR_STEPS"
proof (induction p arbitrary: cur steps)
  case (Cons c p)
  then obtain cur' where "ancestor_walk n fs ws cur' (steps + 1) p = None" "steps + 1 \<le> MAX_ANCESTOR_STEPS"
    by (auto split: if_splits lstat_result.splits node.splits option.splits)
  then show ?case using Cons.IH [of cur' "steps + 1"] by auto
qed simp

lemma walk_existing:
  assumes "tree fs" "canonical fs (cur @ p)" "node_at fs (cur @ p) \<noteq> None" "p = [] \<or> steps + length p \<le> MAX_ANCESTOR_STEPS"
  shows "ancestor_walk n fs ws cur steps p = None"
  using assms(2-4)
proof (induction p arbitrary: cur steps)
  case (Cons c p)
  have c: "canonical fs (cur @ [c])" using canonical_take [OF Cons.prems(1), of "Suc (length cur)"] by simp
  have e: "node_at fs (cur @ [c]) \<noteq> None" using tree_prefix [OF assms(1), of "cur @ [c]" p] Cons.prems(2) by simp
  have "\<not> is_link (node_at fs (cur @ [c]))" "c \<noteq> []" using c by (simp_all add: canonical_snoc plain_def is_dot_def)
  then show ?case
    using lstat_canonical [OF assms(1) c e, of n] e Cons.IH [of "cur @ [c]" "Suc steps"] Cons.prems
    by (auto simp: is_link_def split: node.splits)
qed simp

lemma valid_after:
  assumes "valid_path en fs s = Inr r" "same_links fs fs'" "tree fs'" "node_at fs' r \<noteq> None"
    and "\<And>i. node_at fs' r = Some (Reg i) \<Longrightarrow> nlink fs' i \<le> 1"
  shows "valid_path en fs' s = Inr r"
proof -
  let ?n = "ft_limit en"
  obtain ws where ws: "resolve ?n fs [] (ft_root en) = Some ws" "canonical fs ws" "inside ws r" "canonical fs r"
      "ancestor_walk ?n fs ws ws 0 (drop (length ws) r) = None" "reject_sensitive_path r = None"
    using assms(1) unfolding valid_path_def by (rule validate_path_cases)
  have r: "resolve ?n fs [] (if fst (parse_path s) then snd (parse_path s) else ws @ snd (parse_path s)) = Some r"
      "CHR 0x00 \<notin> set s"
    using assms(1) ws(1) by (auto simp: valid_path_def validate_path_def Let_def split: if_split_asm option.splits)
  have can: "canonical fs' r" using canonical_links [OF assms(2)] ws(4) by simp
  have "ancestor_walk ?n fs' ws ws 0 (drop (length ws) r) = None"
    using walk_existing [OF assms(3), of ws "drop (length ws) r" 0] can assms(4) walk_steps [OF ws(5)] inside_split [OF ws(3)]
    by simp
  moreover have "reject_hardlink ?n fs' r = None"
    using lstat_canonical [OF assms(3) can assms(4), of ?n] assms(4,5) by (auto simp: reject_hardlink_def split: node.split)
  ultimately show ?thesis
    using ws r resolve_links [OF assms(2)]
    by (simp add: valid_path_def validate_path_def reject_symlink_ancestors_def Let_def)
qed

section \<open>Writing and reading back\<close>

text \<open>One write to a validated path.\<close>

lemma canonical_write:
  assumes "canonical fs r" "tree fs" "inodes_ok fs" "atomic_write n io fs r b = Some fs'"
  shows "same_links fs fs' \<and> tree fs' \<and> inodes_ok fs' \<and> node_at fs' r = Some (Reg (fs_next fs)) \<and> bytes_at fs' r = Some b \<and>
    nlink fs' (fs_next fs) = 1 \<and> (\<forall>x. x \<noteq> r \<longrightarrow> node_at fs' x = node_at fs x \<and> bytes_at fs' x = bytes_at fs x)"
  using assms(4)
proof (cases rule: atomic_write_cases)
  case (1 d)
  obtain q c where r: "r = q @ [c]" using 1(2) by (cases r rule: rev_cases) auto
  have d: "d = q" using canonical_parent assms(1) 1(1) r by simp
  have fs': "fs' = fs\<lparr>fs_names := dput r (Reg (fs_next fs)) (fs_names fs), fs_data := dput (fs_next fs) b (fs_data fs),
      fs_next := fs_next fs + 1\<rparr>"
    using 1(3) d r by simp
  have node: "node_at fs' x = (if x = r then Some (Reg (fs_next fs)) else node_at fs x)" for x
    using r by (simp add: fs' node_put)
  have nl: "\<not> is_link (node_at fs r)" using assms(1) by (simp add: r canonical_snoc)
  then have links: "same_links fs fs'" by (auto simp: same_links_def node is_link_def)
  have notdir: "node_at fs r \<noteq> Some Dir"
    using assms(4) 1(1,2) d r by (auto simp: atomic_write_def split: lstat_result.splits node.splits if_splits)
  have parent: "node_at fs q = Some Dir"
    using 1(1) d by (auto simp: parent_dir_def split: sum.splits option.splits node.splits)
  have "tree (fs\<lparr>fs_names := dput r (Reg (fs_next fs)) (fs_names fs)\<rparr>)"
    using tree_put [OF assms(2), of r "Reg (fs_next fs)"] parent notdir r by simp
  then have t: "tree fs'" by (subst tree_cong [of fs' "fs\<lparr>fs_names := dput r (Reg (fs_next fs)) (fs_names fs)\<rparr>"]) (simp_all add: fs')
  have i: "inodes_ok fs'"
    using assms(3) by (fastforce simp: inodes_ok_def fs' dest: dput_member)
  have none: "filter (\<lambda>(p, x). x = Reg (fs_next fs)) ns = []" if "set ns \<subseteq> set (fs_names fs)" for ns
    using that assms(3) by (induction ns) (auto simp: inodes_ok_def)
  have "length (filter (\<lambda>(p, x). x = Reg (fs_next fs)) (dput r (Reg (fs_next fs)) ns)) = 1" if "set ns \<subseteq> set (fs_names fs)" for ns
    using that
  proof (induction ns)
    case (Cons x ns)
    then have "snd x \<noteq> Reg (fs_next fs)" "filter (\<lambda>(p, x). x = Reg (fs_next fs)) ns = []"
      using assms(3) none by (auto simp: inodes_ok_def)
    then show ?case using Cons by (cases x) (simp add: dput_Cons)
  qed simp
  then have "nlink fs' (fs_next fs) = 1" by (simp add: nlink_def fs')
  moreover have "bytes_at fs' r = Some b" by (simp add: bytes_at_def node) (simp add: fs' dget_dput)
  ultimately show ?thesis
    using links t i node atomic_write_elsewhere [OF 1(1) assms(3) _ assms(4)] r d by auto
qed

lemma valid_canonical: "valid_path en fs s = Inr r \<Longrightarrow> canonical fs r"
  unfolding valid_path_def by (erule validate_path_cases)

lemma write_text_Inr:
  "write_text en fs r t = Inr fs' \<Longrightarrow> \<exists>b. ft_enc en t = Some b \<and> atomic_write (ft_limit en) (ft_io en) fs r b = Some fs'"
  by (auto simp: write_text_def split: lstat_result.splits node.splits option.splits)

lemma write_file_cases:
  assumes "write_file en (Some s) (Some t) fs = (fs', m)"
  obtains (failed) "fs' = fs" "\<not> starts_with m ''Successfully''"
  | (dirs) r where "valid_path en fs s = Inr r" "make_dirs (ft_limit en) fs [] (butlast r) = Some fs'" "\<not> starts_with m ''Successfully''"
  | (written) r fs1 b where "valid_path en fs s = Inr r" "make_dirs (ft_limit en) fs [] (butlast r) = Some fs1"
      "ft_enc en t = Some b" "atomic_write (ft_limit en) (ft_io en) fs1 r b = Some fs'"
  using assms unfolding write_file_def
  by (auto simp: exc_text_def split: sum.splits option.splits dest!: write_text_Inr)

text \<open>C39: What \<open>write_file\<close> writes, \<open>read_file\<close> reads back: when the write succeeds, reading the same path gives the text,
  also when it created the directories, for a text of at most a megabyte without carriage returns in a file that is not
  an image.
\<close>

theorem write_then_read:
  assumes "write_file en (Some s) (Some t) fs = (fs', m)" "starts_with m ''Successfully''" "valid_path en fs s = Inr r"
    and "tree fs" "inodes_ok fs" "ft_enc en t = Some b" "ft_dec en b = Some t" "CHR 0x0D \<notin> set t"
    and "length b \<le> MAX_FILE_SEARCH_BYTES" "\<not> is_image r"
  shows "read_file en (Some s) fs' = t"
  using assms(1)
proof (cases rule: write_file_cases)
  case (written r' fs1 b')
  have r: "r' = r" "b' = b" using written assms(3,6) by simp_all
  have can: "canonical fs r" by (rule valid_canonical [OF assms(3)])
  have g: "grows fs fs1 (butlast r)"
    using make_dirs_grows [of "ft_limit en" fs "[]" "butlast r" fs1] written(2) r canonical_butlast [OF can] assms(4,5) by simp
  then have g1: "same_links fs fs1" "tree fs1" "inodes_ok fs1" using grows_links by (auto simp: grows_def)
  have "canonical fs1 r" using canonical_links [OF g1(1)] can by simp
  note w = canonical_write [OF this g1(2,3) written(4) [unfolded r]]
  have "same_links fs fs'" using g1(1) w by (simp add: same_links_def)
  then have "valid_path en fs' s = Inr r"
    using valid_after [OF assms(3)] w by fastforce
  then show ?thesis
    using w assms(7-10) universal_newlines_id [OF assms(8)] by (simp add: read_file_def is_file_def read_text_def)
qed (use assms(2) in simp_all)

section \<open>Editing\<close>

lemma replace_first:
  assumes "old \<noteq> []" "\<forall>k<length u. \<not> starts_with (drop k (u @ old @ v)) old"
  shows "replace_sub old new 1 (u @ old @ v) = u @ new @ v"
  using assms(2)
proof (induction u)
  case Nil
  obtain c w where old: "old = c # w" using assms(1) by (cases old) auto
  have "starts_with (c # w @ v) old" by (simp add: starts_with_iff old)
  moreover have "replace_sub old new 0 s = s" for s by (cases s) simp_all
  ultimately show ?case by (simp add: old)
next
  case (Cons c u)
  have "\<not> starts_with (c # u @ old @ v) old" using Cons.prems by fastforce
  moreover have "\<forall>k<length u. \<not> starts_with (drop k (u @ old @ v)) old"
  proof (intro allI impI)
    fix k assume "k < length u"
    then show "\<not> starts_with (drop k (u @ old @ v)) old" using Cons.prems [rule_format, of "Suc k"] by simp
  qed
  ultimately show ?case using Cons.IH by simp
qed

lemma edit_file_cases:
  assumes "edit_file en (Some s) (Some old) (Some new) k fs = (fs', m)"
  obtains (failed) "fs' = fs" "starts_with m ''Error''"
  | (edited) r content b n where "valid_path en fs s = Inr r" "read_text en fs r = Inr content" "contains content old"
      "n = (if (case k of None \<Rightarrow> 1 | Some x \<Rightarrow> x) \<le> 0 then py_count old content else nat (case k of None \<Rightarrow> 1 | Some x \<Rightarrow> x))"
      "ft_enc en (py_replace old new n content) = Some b" "atomic_write (ft_limit en) (ft_io en) fs r b = Some fs'"
      "\<not> starts_with m ''Error''"
  using assms unfolding edit_file_def Let_def
  by (auto simp: exc_text_def split: sum.splits option.splits if_split_asm dest!: write_text_Inr)

lemma first_occurrence:
  "contains content old \<Longrightarrow> \<exists>u v. content = u @ old @ v \<and> (\<forall>k<length u. \<not> starts_with (drop k content) old)"
proof (induction content)
  case Nil
  then show ?case by (intro exI [of _ "[]"]) simp
next
  case (Cons c cs)
  show ?case
  proof (cases "starts_with (c # cs) old")
    case True
    then obtain v where "c # cs = old @ v" by (auto simp: starts_with_iff)
    then show ?thesis by (intro exI [of _ "[]"] exI [of _ v]) simp
  next
    case False
    then obtain u v where "cs = u @ old @ v" "\<forall>k<length u. \<not> starts_with (drop k cs) old"
      using Cons by auto
    then show ?thesis
      using False by (intro exI [of _ "c # u"] exI [of _ v]) (auto simp: less_Suc_eq_0_disj)
  qed
qed

lemma py_replace_first:
  assumes "content = u @ old @ v" "\<forall>k<length u. \<not> starts_with (drop k content) old"
  shows "py_replace old new 1 content = u @ new @ v"
proof (cases "old = []")
  case True
  moreover have "u = []" using assms(2) True by (cases u) auto
  moreover have "insert_between new 0 w = w" for w by (cases w) simp_all
  ultimately show ?thesis using assms(1) by (cases v) (simp_all add: py_replace_def)
next
  case False
  then show ?thesis using replace_first [OF False] assms by (simp add: py_replace_def)
qed

lemma edit_error_cause:
  assumes "edit_file en (Some s) (Some old) (Some new) None fs = (fs', m)" "starts_with m ''Error''"
    and "valid_path en fs s = Inr r" "read_text en fs r = Inr content" "contains content old"
  shows "\<exists>e. write_text en fs r (py_replace old new 1 content) = Inl e"
proof (rule ccontr)
  assume "\<not> ?thesis"
  then obtain w where w: "write_text en fs r (py_replace old new 1 content) = Inr w"
    by (cases "write_text en fs r (py_replace old new 1 content)") auto
  have "node_at fs r \<noteq> None" using assms(4) by (auto simp: read_text_def bytes_at_def split: option.splits)
  then show False using assms w by (auto simp: edit_file_def Let_def)
qed

text \<open>C40: On a well-formed file system, \<open>edit_file\<close> without a number replaces the first occurrence and does nothing else. Whatever its parameters: when it
  reports an error, the file system is as it was, and if the path was valid, the file readable and the text in it, then it
  is writing that failed; otherwise the path is valid, the text read from the file (with its line ends translated to line
  feeds, also outside the replaced part: \<open>edit_normalizes_line_ends\<close>) contains the old text, the file now holds the
  encoded text with the first occurrence replaced by the new one, and no other name or byte has changed.
\<close>

theorem edit_replaces_first:
  assumes "edit_file en path old_text new_text None fs = (fs', m)" "tree fs" "inodes_ok fs"
  shows "if starts_with m ''Error''
    then fs' = fs \<and>
      (\<forall>s old new r content. path = Some s \<and> old_text = Some old \<and> new_text = Some new \<and> valid_path en fs s = Inr r \<and>
         read_text en fs r = Inr content \<and> contains content old \<longrightarrow>
         (\<exists>u v e. content = u @ old @ v \<and> (\<forall>k<length u. \<not> starts_with (drop k content) old) \<and>
            write_text en fs r (u @ new @ v) = Inl e))
    else \<exists>s old new r content u v b. path = Some s \<and> old_text = Some old \<and> new_text = Some new \<and>
      valid_path en fs s = Inr r \<and> read_text en fs r = Inr content \<and>
      content = u @ old @ v \<and> (\<forall>k<length u. \<not> starts_with (drop k content) old) \<and>
      ft_enc en (u @ new @ v) = Some b \<and> bytes_at fs' r = Some b \<and>
      (\<forall>x. x \<noteq> r \<longrightarrow> node_at fs' x = node_at fs x \<and> bytes_at fs' x = bytes_at fs x)"
proof (cases "\<exists>s old new. path = Some s \<and> old_text = Some old \<and> new_text = Some new")
  case False
  then have "fs' = fs" "starts_with m ''Error''"
    using assms(1) by (auto simp: edit_file_def split: option.splits)
  then show ?thesis using False by auto
next
  case True
  then obtain s old new where given: "path = Some s" "old_text = Some old" "new_text = Some new" by blast
  note run = assms(1) [unfolded given]
  from run show ?thesis
  proof (cases rule: edit_file_cases)
    case failed
    have "\<exists>u v e. content = u @ old @ v \<and> (\<forall>k<length u. \<not> starts_with (drop k content) old) \<and>
        write_text en fs r (u @ new @ v) = Inl e"
      if "valid_path en fs s = Inr r" "read_text en fs r = Inr content" "contains content old" for r content
      using first_occurrence [OF that(3)] edit_error_cause [OF run failed(2) that] py_replace_first by metis
    then show ?thesis using failed unfolding given by simp
  next
    case (edited r content b n)
    obtain u v where uv: "content = u @ old @ v" "\<forall>k<length u. \<not> starts_with (drop k content) old"
      using first_occurrence [OF edited(3)] by blast
    have "n = 1" using edited(4) by simp
    then have b: "ft_enc en (u @ new @ v) = Some b" using edited(5) py_replace_first [OF uv] by simp
    have new_file: "bytes_at fs' r = Some b" "\<forall>x. x \<noteq> r \<longrightarrow> node_at fs' x = node_at fs x \<and> bytes_at fs' x = bytes_at fs x"
      using canonical_write [OF valid_canonical [OF edited(1)] assms(2,3) edited(6)] by blast+
    show ?thesis
      unfolding given if_not_P [OF edited(7)]
      by (intro exI [of _ s] exI [of _ old] exI [of _ new] exI [of _ r] exI [of _ content] exI [of _ u] exI [of _ v]
          exI [of _ b] conjI refl edited(1,2) uv b new_file)
  qed
qed

lemma replace_set: "set (replace_sub old new k s) \<subseteq> set s \<union> set new"
proof (induction old new k s rule: replace_sub.induct)
  case (2 old new k c s)
  then show ?case by (auto dest: in_set_dropD)
qed simp

lemma insert_set: "set (insert_between new k s) \<subseteq> set s \<union> set new"
  by (induction new k s rule: insert_between.induct) auto

text \<open>An edit rewrites the line ends of the whole file: reading translates them, writing does not, so after a successful
  edit no carriage return is left, however small the replaced part was.
\<close>

theorem edit_normalizes_line_ends:
  assumes "edit_file en (Some s) (Some old) (Some new) k fs = (fs', m)" "\<not> starts_with m ''Error''" "CHR 0x0D \<notin> set new"
    and "tree fs" "inodes_ok fs" "valid_path en fs s = Inr r"
    and "\<And>t b. ft_enc en t = Some b \<Longrightarrow> CHR 0x0D \<notin> set t \<Longrightarrow> CHR 0x0D \<notin> set b"
  shows "\<exists>b. bytes_at fs' r = Some b \<and> CHR 0x0D \<notin> set b"
  using assms(1)
proof (cases rule: edit_file_cases)
  case (edited r' content b n)
  have "CHR 0x0D \<notin> set content"
    using edited(2) universal_newlines_free by (auto simp: read_text_def split: option.splits)
  then have "CHR 0x0D \<notin> set (py_replace old new n content)"
    using replace_set [of old new n content] insert_set [of new n content] assms(3) by (auto simp: py_replace_def)
  then have "CHR 0x0D \<notin> set b" using edited(5) assms(7) by blast
  moreover have "r' = r" using edited(1) assms(6) by simp
  ultimately show ?thesis
    using canonical_write [OF valid_canonical [OF assms(6)] assms(4,5)] edited(6) by blast
qed (use assms(2) in simp)

section \<open>At a concrete file system\<close>

definition sample_ft :: file_env where
  "sample_ft = \<lparr>ft_limit = 40, ft_root = [''w''], ft_dec = Some, ft_enc = Some, ft_lossy = (\<lambda>s. s), ft_exc = (\<lambda>_. ''x''), ft_io = True\<rparr>"

text \<open>A workspace \<open>/w\<close> with a file and a link to a file outside.\<close>

definition office_fs :: fsys where
  "office_fs = \<lparr>fs_names = [([''w''], Dir), ([''w'', ''a''], Reg 0), ([''w'', ''l''], Link True [''s'']), ([''s''], Reg 1)],
     fs_data = [(0, [CHR ''x'', CHR 0x0D, CHR 0x0A, CHR ''y'', CHR 0x0D, CHR 0x0A]), (1, ''key'')], fs_next = 2\<rparr>"

lemmas tool_eval = valid_path_def path_eval nlink_def sample_ft_def office_fs_def

lemma office_valid: "valid_path sample_ft office_fs ''a'' = Inr [''w'', ''a'']" "valid_path sample_ft office_fs ''.'' = Inr [''w'']"
  "valid_path sample_ft office_fs ''d/b'' = Inr [''w'', ''d'', ''b'']" "valid_path sample_ft office_fs ''l'' = Inl OutsideWorkspace"
  by (simp_all add: tool_eval)

lemma office_ok: "tree office_fs" "inodes_ok office_fs"
  by (auto simp: tree_def inodes_ok_def office_fs_def node_at_def dget_def)

lemma one_text: "nat_str (Suc 0) = ''1''"
  by (simp add: nat_str.simps digit_char_def char_of_eq_iff)

lemma office_search_one:
  "search_one sample_ft (\<lambda>line. line = ''key'') office_fs [''w'', ''a''] = MatchedLines []"
  "search_one sample_ft (\<lambda>line. line = ''key'') office_fs [''w'', ''l''] = MatchedLines [''1: key'']"
  by (simp_all add: search_one_def searched_def path_suffix_def IMAGE_EXTENSIONS_def stat_node_def bytes_at_def tool_eval
      match_lines_def MAX_FILE_SEARCH_BYTES_def one_text strip_def strip_by_def is_space_def is_space_cp_def)

lemma office_names: "entries_of office_fs [''w''] = [''a'', ''l'']" "\<not> is_dir_entry 40 office_fs [''w'', ''a'']" "\<not> is_dir_entry 40 office_fs [''w'', ''l'']"
  by (simp_all add: entries_of_def is_dir_entry_def stat_node_def tool_eval dkeys_def)

lemma office_walk: "walk_files (Suc 4) 40 office_fs [''w''] = [[''w'', ''a''], [''w'', ''l'']]"
  by (subst walk_files.simps(2)) (simp add: Let_def office_names del: walk_files.simps)

text \<open>A search reads what a direct read refuses. A link in the workspace to a file outside is rejected by the path check
  of \<open>read_file\<close>, but \<open>search_files\<close> validates only the directory and opens the files it walks over, links included: it
  returns the line of the file outside.
\<close>

theorem search_reads_outside:
  "read_file sample_ft (Some ''l'') office_fs = ''Error reading file '' @ quoted ''l'' @ '': x'' \<and>
   search_files sample_ft (\<lambda>_. Some (\<lambda>line. line = ''key'')) (Some ''.'') (Some ''k'') office_fs =
     join [LF] [''--- l ---'', ''1: key'']"
proof -
  have w: "walk_files (Suc (length (fs_names office_fs))) (ft_limit sample_ft) office_fs [''w''] = [[''w'', ''a''], [''w'', ''l'']]"
  proof -
    have "Suc (length (fs_names office_fs)) = Suc 4" "ft_limit sample_ft = 40" by (simp_all add: office_fs_def sample_ft_def)
    then show ?thesis using office_walk by (simp only:)
  qed
  have "node_at office_fs [''w''] = Some Dir" by (simp add: tool_eval)
  then show ?thesis
    by (simp add: read_file_def search_files_def office_valid exc_text_def w office_search_one MAX_RESULTS_def Let_def
        del: walk_files.simps) (simp add: sample_ft_def)
qed

lemma office_write:
  "\<exists>fs' m. write_file sample_ft (Some ''d/b'') (Some ''hello'') office_fs = (fs', m) \<and> starts_with m ''Successfully''"
  by (simp add: write_file_def office_valid write_text_def atomic_write_def dput_def tool_eval)

lemma write_then_read_witness: "\<exists>fs'. read_file sample_ft (Some ''d/b'') fs' = ''hello''"
proof -
  obtain fs' m where "write_file sample_ft (Some ''d/b'') (Some ''hello'') office_fs = (fs', m)" "starts_with m ''Successfully''"
    using office_write by blast
  from write_then_read [OF this office_valid(3) office_ok, of "''hello''"] show ?thesis
    by (auto simp: sample_ft_def MAX_FILE_SEARCH_BYTES_def is_image_def path_suffix_def IMAGE_EXTENSIONS_def lower_def)
qed

lemma office_read: "read_text sample_ft office_fs [''w'', ''a''] = Inr [CHR ''x'', LF, CHR ''y'', LF]"
  by (simp add: read_text_def bytes_at_def tool_eval)

lemma office_edit:
  "\<exists>fs' m. edit_file sample_ft (Some ''a'') (Some ''y'') (Some ''z'') None office_fs = (fs', m) \<and> \<not> starts_with m ''Error''"
proof -
  have "py_replace ''y'' ''z'' 1 [CHR ''x'', LF, CHR ''y'', LF] = [CHR ''x'', LF, CHR ''z'', LF]"
    "py_count ''y'' [CHR ''x'', LF, CHR ''y'', LF] = 1"
    by (simp_all add: py_replace_def py_count_def)
  moreover have "\<exists>fs'. write_text sample_ft office_fs [''w'', ''a''] [CHR ''x'', LF, CHR ''z'', LF] = Inr fs'"
    by (simp add: write_text_def atomic_write_def dput_def tool_eval)
  moreover have "node_at office_fs [''w'', ''a''] = Some (Reg 0)" by (simp add: tool_eval)
  ultimately show ?thesis
    by (auto simp: edit_file_def office_valid office_read)
qed

lemma edit_replaces_first_witness:
  "\<exists>fs'. bytes_at fs' [''w'', ''a''] = Some [CHR ''x'', LF, CHR ''z'', LF] \<and> bytes_at fs' [''s''] = Some ''key''"
proof -
  obtain fs' m where e: "edit_file sample_ft (Some ''a'') (Some ''y'') (Some ''z'') None office_fs = (fs', m)" "\<not> starts_with m ''Error''"
    using office_edit by blast
  have enc: "ft_enc sample_ft t = Some t" for t by (simp add: sample_ft_def)
  have y: "u = [CHR ''x'', LF] \<and> v = [LF]" if "[CHR ''x'', LF, CHR ''y'', LF] = u @ ''y'' @ v" for u v
    using that by (auto simp: Cons_eq_append_conv)
  have other: "[''s''] \<noteq> [''w'', ''a'']" "bytes_at office_fs [''s''] = Some ''key''" by (simp_all add: bytes_at_def tool_eval)
  from edit_replaces_first [OF e(1) office_ok] e(2) obtain u v where uv: "[CHR ''x'', LF, CHR ''y'', LF] = u @ ''y'' @ v"
      "bytes_at fs' [''w'', ''a''] = Some (u @ ''z'' @ v)" "\<forall>x. x \<noteq> [''w'', ''a''] \<longrightarrow> bytes_at fs' x = bytes_at office_fs x"
    by (auto simp: office_valid office_read enc)
  then show ?thesis using y [OF uv(1)] other by (intro exI [of _ fs']) simp
qed

lemma edit_normalizes_line_ends_witness:
  "\<exists>fs' b. bytes_at office_fs [''w'', ''a''] = Some [CHR ''x'', CHR 0x0D, CHR 0x0A, CHR ''y'', CHR 0x0D, CHR 0x0A] \<and>
     bytes_at fs' [''w'', ''a''] = Some b \<and> CHR 0x0D \<notin> set b"
proof -
  obtain fs' m where "edit_file sample_ft (Some ''a'') (Some ''y'') (Some ''z'') None office_fs = (fs', m)" "\<not> starts_with m ''Error''"
    using office_edit by blast
  from edit_normalizes_line_ends [OF this _ office_ok office_valid(1)] show ?thesis
    by (auto simp: sample_ft_def bytes_at_def tool_eval)
qed

end
